(* ===== verification/SxePrelude.thy ===== *)
theory SxePrelude
  imports Main "HOL-Library.Word" "HOL-Library.Monad_Syntax"
begin

text \<open>
  Shared vocabulary of the libsxe development: fixed-width integers, pointers, aborting
  assertions and the generic lemmas on lists and words that several components use.
\<close>

section \<open>Types\<close>

type_synonym u8 = "8 word"
type_synonym u16 = "16 word"
type_synonym u32 = "32 word"
type_synonym u64 = "64 word"

text \<open>
  A pointer is an integer address. The relocatable structures of libsxe store differences of
  pointers; in C those differences wrap modulo the pointer width and the wrap cancels when
  the base is added back, so integers model them exactly.
\<close>

type_synonym addr = int

section \<open>Assertions\<close>

text \<open>
  \<open>SXEA1\<close> aborts the process in every build, \<open>SXEA6\<close> in debug builds
  (\<^verbatim>\<open>SXE_DEBUG=1\<close>), which is the build modelled here. A computation that
  may abort has an option type, with \<^const>\<open>None\<close> for the abort.
\<close>

definition SXEA1 :: "bool \<Rightarrow> unit option" where
  "SXEA1 con = (if con then Some () else None)"

definition SXEA6 :: "bool \<Rightarrow> unit option" where
  "SXEA6 con = (if con then Some () else None)"

lemma SXEA1_bind [simp]: "(SXEA1 con \<bind> k) = (if con then k () else None)"
  by (simp add: SXEA1_def)

lemma SXEA6_bind [simp]: "(SXEA6 con \<bind> k) = (if con then k () else None)"
  by (simp add: SXEA6_def)

lemma SXEA1_simps [simp]: "SXEA1 True = Some ()" "SXEA1 False = None"
  by (simp_all add: SXEA1_def)

lemma if_None_SomeD: "(if c then x else None) = Some y \<Longrightarrow> x = Some y"
  by (simp split: if_splits)

section \<open>Return codes\<close>

datatype SXE_RETURN =
  SXE_RETURN_OK | SXE_RETURN_NO_SUCH_PROCESS | SXE_RETURN_ERROR_INTERRUPTED | SXE_RETURN_ERROR_WRITE_FAILED
| SXE_RETURN_ERROR_COMMAND_NOT_RUN | SXE_RETURN_WARN_ALREADY_CLOSED | SXE_RETURN_WARN_WOULD_BLOCK
| SXE_RETURN_ERROR_ALLOC | SXE_RETURN_ERROR_INVALID | SXE_RETURN_OUT_OF_RANGE | SXE_RETURN_DEADLOCK_WOULD_OCCUR
| SXE_RETURN_ERROR_LOCK_NOT_TAKEN | SXE_RETURN_END_OF_FILE | SXE_RETURN_ERROR_BAD_MESSAGE
| SXE_RETURN_ERROR_INCORRECT_STATE | SXE_RETURN_ERROR_ADDRESS_IN_USE | SXE_RETURN_NO_UNUSED_ELEMENTS
| SXE_RETURN_ERROR_ALREADY_CONNECTED | SXE_RETURN_ERROR_NO_CONNECTION | SXE_RETURN_ERROR_TIMED_OUT
| SXE_RETURN_WARN_ALREADY_INITIALIZED | SXE_RETURN_IN_PROGRESS | SXE_RETURN_ERROR_NOT_INITIALIZED
| SXE_RETURN_UNCATEGORIZED | SXE_RETURN_EXPIRED_VALUE | SXE_RETURN_ERROR_INTERNAL | SXE_RETURN_INVALID_VALUE

section \<open>Lists\<close>

text \<open>The byte at an index of a NUL-terminated string, whose list does not include the NUL.\<close>

definition byte_at :: "u8 list \<Rightarrow> nat \<Rightarrow> u8" where
  "byte_at s i = (if i < length s then s ! i else 0)"

text \<open>Bytes stored in a piece of memory at an offset; outside it there is no result.\<close>

definition write_at :: "nat \<Rightarrow> u8 list \<Rightarrow> u8 list \<Rightarrow> u8 list option" where
  "write_at k bytes space1 =
    (if k + length bytes \<le> length space1 then Some (take k space1 @ bytes @ drop (k + length bytes) space1) else None)"

text \<open>The bytes of a string literal.\<close>

definition lit :: "string \<Rightarrow> u8 list" where
  "lit s = map (\<lambda>c. of_nat (of_char c)) s"

lemma sorted_map_const [simp]: "sorted (map (\<lambda>_. c) xs)"
  by (induction xs) auto

lemma upt_0_3: "[0..<3] = [0, 1, 2]"
  by (simp add: upt_rec)

section \<open>Maps\<close>

text \<open>Elements with pairwise different keys represent a map.\<close>

definition entries_map :: "'i set \<Rightarrow> ('i \<Rightarrow> 'k) \<Rightarrow> ('i \<Rightarrow> 'v) \<Rightarrow> ('k \<rightharpoonup> 'v) \<Rightarrow> bool" where
  "entries_map E key val F \<longleftrightarrow> inj_on key E \<and> (\<forall>k v. F k = Some v \<longleftrightarrow> (\<exists>i \<in> E. key i = k \<and> val i = v))"

lemma entries_map_insert:
  assumes "entries_map E key val F" and "i \<notin> E" and "F k = None" and "key' i = k" and "val' i = v"
    and "\<And>j. j \<in> E \<Longrightarrow> key' j = key j" and "\<And>j. j \<in> E \<Longrightarrow> val' j = val j"
  shows "entries_map (insert i E) key' val' (F(k \<mapsto> v))"
proof -
  have inj: "inj_on key E" and F: "\<And>q u. F q = Some u \<longleftrightarrow> (\<exists>i \<in> E. key i = q \<and> val i = u)"
    using assms(1) by (simp_all add: entries_map_def)
  have fresh: "key j \<noteq> k" if "j \<in> E" for j using that F[of k] assms(3) by auto
  have "inj_on key' E" using inj by (rule inj_on_cong[THEN iffD2, rotated]) (rule assms(6))
  then have "inj_on key' (insert i E)" using fresh assms(4,6) by (fastforce simp: inj_on_insert)
  moreover have "(F(k \<mapsto> v)) q = Some u \<longleftrightarrow> (\<exists>j \<in> insert i E. key' j = q \<and> val' j = u)" for q u
    using F[of q u] assms(4-7) fresh by (cases "q = k") auto
  ultimately show ?thesis by (simp add: entries_map_def)
qed

lemma entries_map_remove:
  assumes "entries_map E key val F" and "i \<in> E"
  shows "entries_map (E - {i}) key val (F(key i := None))"
proof -
  have inj: "inj_on key E" and F: "\<And>q u. F q = Some u \<longleftrightarrow> (\<exists>i \<in> E. key i = q \<and> val i = u)"
    using assms(1) by (simp_all add: entries_map_def)
  have "(F(key i := None)) q = Some u \<longleftrightarrow> (\<exists>j \<in> E - {i}. key j = q \<and> val j = u)" for q u
    using F[of q u] inj assms(2) by (cases "q = key i") (auto simp: inj_on_eq_iff)
  moreover have "inj_on key (E - {i})" by (rule inj_on_subset[OF inj]) blast
  ultimately show ?thesis by (simp add: entries_map_def)
qed


lemma entries_map_lookup:
  assumes "entries_map E key val F"
  shows "i \<in> E \<Longrightarrow> F (key i) = Some (val i)" and "(\<And>i. i \<in> E \<Longrightarrow> key i \<noteq> k) \<Longrightarrow> F k = None"
  using assms by (auto simp: entries_map_def intro: ccontr)

section \<open>Words\<close>

lemma unat_lt2p: "unat (w :: 'a::len word) < 2 ^ LENGTH('a)"
  by (rule unsigned_less)

lemma unat_ucast_up: "LENGTH('a) \<le> LENGTH('b) \<Longrightarrow> unat (ucast (w :: 'a::len word) :: 'b::len word) = unat w"
  by (simp add: unsigned_ucast_eq take_bit_nat_eq_self order_less_le_trans[OF unat_lt2p])

lemma unat_of_nat_small: "k < 2 ^ LENGTH('a) \<Longrightarrow> unat (of_nat k :: 'a::len word) = k"
  by (simp add: unsigned_of_nat take_bit_nat_eq_self)

lemma of_nat_less_word: "k < unat b \<Longrightarrow> (of_nat k :: 'a::len word) < b"
  by (simp add: word_less_nat_alt unat_of_nat_small less_trans[OF _ unat_lt2p])

lemma word_pos_of_less: "(a :: 'a::len word) < b \<Longrightarrow> 0 < b"
  by (auto simp: word_less_nat_alt)

lemma unat_suc_of_less: "(a :: 'a::len word) < b \<Longrightarrow> unat (a + 1) = unat a + 1"
proof -
  assume "a < b"
  then have "unat a + 1 < 2 ^ LENGTH('a)"
    by (simp add: word_less_nat_alt le_less_trans[OF Suc_leI unat_lt2p])
  then show ?thesis by (simp add: unat_word_ariths(1))
qed

section \<open>Little-endian values\<close>

unbundle bit_operations_syntax

definition le16 :: "u8 list \<Rightarrow> u32" where
  "le16 b = ucast (b ! 0) OR push_bit 8 (ucast (b ! 1))"

definition le32 :: "u8 list \<Rightarrow> u32" where
  "le32 b = ucast (b ! 0) OR push_bit 8 (ucast (b ! 1)) OR push_bit 16 (ucast (b ! 2)) OR push_bit 24 (ucast (b ! 3))"

definition le32_bytes :: "u32 \<Rightarrow> u8 list" where
  "le32_bytes v = [ucast v, ucast (drop_bit 8 v), ucast (drop_bit 16 v), ucast (drop_bit 24 v)]"

lemma le32_le32_bytes: "le32 (le32_bytes v) = v"
proof (rule bit_word_eqI)
  fix n assume "n < LENGTH(32)"
  then consider "n < 8" | "8 \<le> n" "n < 16" | "16 \<le> n" "n < 24" | "24 \<le> n" "n < 32" by fastforce
  then show "bit (le32 (le32_bytes v)) n = bit v n"
    by cases (auto simp: le32_def le32_bytes_def bit_simps)
qed

section \<open>Memory\<close>

text \<open>
  The allocator is a parameter that gives the contents of newly allocated memory of a size, or \<^const>\<open>None\<close> for NULL;
  \<open>realloc\<close> keeps what fits of the old contents.
\<close>

definition sxe_realloc :: "(u64 \<Rightarrow> u8 list option) \<Rightarrow> u8 list option \<Rightarrow> u64 \<Rightarrow> u8 list option" where
  "sxe_realloc malloc old size1 =
    (case (malloc size1, old) of
       (Some new, Some old) \<Rightarrow> Some (take (unat size1) old @ drop (length old) new)
     | (new, _) \<Rightarrow> new)"

definition malloc_ok :: "(u64 \<Rightarrow> u8 list option) \<Rightarrow> bool" where
  "malloc_ok malloc \<longleftrightarrow> (\<forall>n b. malloc n = Some b \<longrightarrow> length b = unat n)"

lemma realloc_length:
  assumes "malloc_ok malloc" and "sxe_realloc malloc old n = Some b" and "\<And>o1. old = Some o1 \<Longrightarrow> length o1 \<le> unat n"
  shows "length b = unat n" and "\<And>o1. old = Some o1 \<Longrightarrow> take (length o1) b = o1"
  using assms by (auto simp: sxe_realloc_def malloc_ok_def split: option.splits)

section \<open>Strings\<close>

definition strlen :: "u8 list \<Rightarrow> nat" where
  "strlen s = length (takeWhile (\<lambda>c. c \<noteq> 0) s)"

end
