(* ===== verification/SxeTime.thy ===== *)
theory SxeTime
  imports SxePrelude
begin

text \<open>
  \<^verbatim>\<open>lib-sxe-log/sxe-time.h\<close> and \<^verbatim>\<open>sxe-time.c\<close>: times as 64-bit fixed-point numbers,
  whole seconds in the high 32 bits and the fraction of a second in the low 32 bits. The
  conversions through floating point are not modelled.
\<close>

unbundle bit_operations_syntax

section \<open>Data and operations\<close>

type_synonym SXE_TIME = u64

record timeval =
  tv_sec :: u64
  tv_usec :: u64

definition SXE_TIME_1_SEC :: SXE_TIME where
  "SXE_TIME_1_SEC = push_bit 32 1"

definition SXE_TIME_FROM_TIMEVAL :: "timeval \<Rightarrow> SXE_TIME" where
  "SXE_TIME_FROM_TIMEVAL tv = push_bit 32 (tv_sec tv) + tv_usec tv * SXE_TIME_1_SEC div 1000000"

definition SXE_TIME_FROM_MSEC :: "u64 \<Rightarrow> SXE_TIME" where
  "SXE_TIME_FROM_MSEC msec = push_bit 32 (msec div 1000) + push_bit 32 (msec mod 1000) div 1000"

definition SXE_TIME_TO_TIMEVAL :: "SXE_TIME \<Rightarrow> timeval" where
  "SXE_TIME_TO_TIMEVAL sxe_time =
    (let sxe_time_lo32 = ucast (ucast sxe_time :: u32) :: u64
     in \<lparr>tv_sec = ucast (ucast (drop_bit 32 sxe_time) :: u32),
         tv_usec = ucast (ucast (sxe_time_lo32 * 1000000 div SXE_TIME_1_SEC) :: u32)\<rparr>)"

definition sxe_time_to_unix_time :: "SXE_TIME \<Rightarrow> u64" where
  "sxe_time_to_unix_time sxe_time = drop_bit 32 sxe_time"

definition sxe_time_from_unix_time :: "u64 \<Rightarrow> SXE_TIME" where
  "sxe_time_from_unix_time unix_time = push_bit 32 unix_time"

text \<open>The argument is what \<open>gettimeofday\<close> stores.\<close>

definition sxe_time_get :: "timeval \<Rightarrow> SXE_TIME" where
  "sxe_time_get tv = SXE_TIME_FROM_TIMEVAL tv"

definition SXE_TIMESTAMP_LENGTH :: "nat \<Rightarrow> nat" where
  "SXE_TIMESTAMP_LENGTH fractional_digits = 16 + fractional_digits"

definition SXE_TIMESTAMP_LENGTH_MAXIMUM :: nat where
  "SXE_TIMESTAMP_LENGTH_MAXIMUM = SXE_TIMESTAMP_LENGTH 0 + 9"

text \<open>
  The loop that writes the digits of the fraction, from the last one back: \<open>index\<close> runs from
  \<open>length - 1\<close> down to \<open>SXE_TIMESTAMP_LENGTH(0)\<close>.
\<close>

fun fraction_digits :: "nat \<Rightarrow> SXE_TIME \<Rightarrow> string \<Rightarrow> string" where
  "fraction_digits 0 t buffer = buffer"
| "fraction_digits (Suc k) t buffer =
    (if Suc k > SXE_TIMESTAMP_LENGTH 0 - 1
     then fraction_digits k (t div 10) (buffer[k := char_of (unat (t mod 10) + 48)])
     else buffer)"

text \<open>
  The date part comes from \<open>gmtime_r\<close> and \<open>strftime\<close>: \<open>calendar\<close> gives its 14
  characters, and \<open>strftime\<close> ends it with a NUL. The result is the whole buffer.
\<close>

definition sxe_time_to_string :: "(u64 \<Rightarrow> string) \<Rightarrow> SXE_TIME \<Rightarrow> string \<Rightarrow> nat \<Rightarrow> string option" where
  "sxe_time_to_string calendar sxe_time buffer length1 = do {
     let unix_time = drop_bit 32 sxe_time;
     SXEA1 (length1 \<ge> SXE_TIMESTAMP_LENGTH 0);
     let date = calendar unix_time @ [CHR 0x00];
     let buffer = date @ drop (length date) buffer;
     Some (if length1 > SXE_TIMESTAMP_LENGTH 0 then
       (let sxe_time = ucast (ucast sxe_time :: u32) :: u64;
            buffer = buffer[SXE_TIMESTAMP_LENGTH 0 - 2 := CHR ''.''];
            (length1, sxe_time) =
              (if length1 \<ge> SXE_TIMESTAMP_LENGTH_MAXIMUM then (SXE_TIMESTAMP_LENGTH_MAXIMUM, sxe_time)
               else (length1, sxe_time div 10 ^ (SXE_TIMESTAMP_LENGTH_MAXIMUM - length1)));
            buffer = buffer[length1 - 1 := CHR 0x00]
        in fraction_digits (length1 - 1) sxe_time buffer)
      else buffer)
   }"

section \<open>Conversions as integers\<close>

lemma unat_push_bit_32: "unat (s :: u64) < 2 ^ 32 \<Longrightarrow> unat (push_bit 32 s) = unat s * 2 ^ 32"
  by (simp add: push_bit_eq_mult unat_word_ariths(2))

lemma unat_usec_fraction:
  "unat (u :: u64) < 1000000 \<Longrightarrow> unat (u * SXE_TIME_1_SEC div 1000000) = unat u * 2 ^ 32 div 1000000"
  by (simp add: SXE_TIME_1_SEC_def push_bit_eq_mult unat_word_ariths(2) unat_div)

lemma unat_from_timeval:
  assumes "unat (tv_sec tv) < 2 ^ 32" and "unat (tv_usec tv) < 1000000"
  shows "unat (SXE_TIME_FROM_TIMEVAL tv) = unat (tv_sec tv) * 2 ^ 32 + unat (tv_usec tv) * 2 ^ 32 div 1000000"
proof -
  have "unat (tv_usec tv) * 2 ^ 32 div 1000000 < 2 ^ 32" using assms(2) by auto
  with assms show ?thesis
    by (simp add: SXE_TIME_FROM_TIMEVAL_def unat_word_ariths(1) unat_push_bit_32 unat_usec_fraction)
qed

lemma usec_floor:
  assumes "u < (1000000 :: nat)"
  shows "u * 4294967296 div 1000000 * 1000000 div 4294967296 = (if 15625 dvd u then u else u - 1)"
proof -
  have "u * 4294967296 div 1000000 = u * 67108864 div 15625" 
    using div_mult_mult1[of 64 "u * 67108864" 15625] by simp
  define q r where "q = u * 67108864 div 15625" and "r = u * 67108864 mod 15625"
  have qr: "u * 67108864 = q * 15625 + r" "r < 15625"
    by (simp_all add: q_def r_def)
  have "coprime (15625 :: nat) 67108864" by (simp add: coprime_iff_gcd_eq_1 gcd_non_0_nat)
  then have r0: "r = 0 \<longleftrightarrow> 15625 dvd u"
    by (metis coprime_dvd_mult_left_iff mod_eq_0_iff_dvd r_def)
  have "q * 1000000 div 4294967296 = q * 15625 div 67108864"
    using div_mult_mult1[of 64 "q * 15625" 67108864] by simp
  also have "\<dots> = (if r = 0 then u else u - 1)"
    using qr by (auto simp: nat_eq_iff)
  finally show ?thesis
    using \<open>u * 4294967296 div 1000000 = u * 67108864 div 15625\<close> r0 by (simp add: q_def)
qed

lemma to_timeval_nat:
  "unat (tv_sec (SXE_TIME_TO_TIMEVAL t)) = unat t div 2 ^ 32"
  "unat (tv_usec (SXE_TIME_TO_TIMEVAL t)) = unat t mod 2 ^ 32 * 1000000 div 2 ^ 32"
proof -
  have "unat t < 2 ^ 64" using unat_lt2p[of t] by simp
  then have "unat t div 2 ^ 32 < 2 ^ 32" by (simp add: less_mult_imp_div_less)
  then show "unat (tv_sec (SXE_TIME_TO_TIMEVAL t)) = unat t div 2 ^ 32"
    by (simp add: SXE_TIME_TO_TIMEVAL_def Let_def unsigned_ucast_eq unsigned_drop_bit_eq
        drop_bit_eq_div take_bit_eq_mod unat_div unat_mod)
  have "unat t mod 2 ^ 32 * 1000000 < 2 ^ 64" and "unat t mod 2 ^ 32 * 1000000 div 2 ^ 32 < 2 ^ 32"
    using mod_less_divisor[of "2 ^ 32" "unat t"] by simp_all
  then show "unat (tv_usec (SXE_TIME_TO_TIMEVAL t)) = unat t mod 2 ^ 32 * 1000000 div 2 ^ 32"
    by (simp add: SXE_TIME_TO_TIMEVAL_def Let_def unsigned_ucast_eq unat_div unat_mod
        unat_word_ariths(2) SXE_TIME_1_SEC_def take_bit_eq_mod)
qed

lemma from_timeval_split:
  assumes "unat (tv_sec tv) < 2 ^ 32" and "unat (tv_usec tv) < 1000000"
  shows "unat (SXE_TIME_FROM_TIMEVAL tv) div 2 ^ 32 = unat (tv_sec tv)"
    and "unat (SXE_TIME_FROM_TIMEVAL tv) mod 2 ^ 32 = unat (tv_usec tv) * 2 ^ 32 div 1000000"
proof -
  have "unat (tv_usec tv) * 2 ^ 32 div 1000000 < 2 ^ 32" using assms(2) by auto
  then show "unat (SXE_TIME_FROM_TIMEVAL tv) div 2 ^ 32 = unat (tv_sec tv)"
    and "unat (SXE_TIME_FROM_TIMEVAL tv) mod 2 ^ 32 = unat (tv_usec tv) * 2 ^ 32 div 1000000"
    using unat_from_timeval[OF assms] by simp_all
qed

lemma unat_lt_sec:
  assumes "unat (tv_usec tv) < 1000000"
  shows "unat (tv_usec tv) * 2 ^ 32 div 1000000 < 2 ^ 32"
  using assms by auto

section \<open>Correctness of the conversions\<close>

text \<open>
  C7: a time of day that goes through the fixed-point representation and back keeps its
  seconds; its microseconds come back exactly when they are a multiple of 15625 (a 64th of a
  second) and one less otherwise, since both conversions round down.
\<close>

theorem sxe_time_timeval_roundtrip:
  assumes "unat (tv_sec tv) < 2 ^ 32" and "unat (tv_usec tv) < 1000000"
  shows "tv_sec (SXE_TIME_TO_TIMEVAL (sxe_time_get tv)) = tv_sec tv \<and>
    tv_usec (SXE_TIME_TO_TIMEVAL (sxe_time_get tv)) =
      (if 15625 dvd unat (tv_usec tv) then tv_usec tv else tv_usec tv - 1)"
proof -
  have "tv_usec tv \<noteq> 0" if "\<not> 15625 dvd unat (tv_usec tv)" using that by auto
  then have "unat (tv_usec tv - 1) = unat (tv_usec tv) - 1" if "\<not> 15625 dvd unat (tv_usec tv)"
    using that by (simp add: unat_minus_one)
  then show ?thesis
    using usec_floor[OF assms(2)] from_timeval_split[OF assms]
    by (simp add: word_unat_eq_iff sxe_time_get_def to_timeval_nat)
qed

theorem sxe_time_timeval_roundtrip_witness:
  "tv_usec (SXE_TIME_TO_TIMEVAL (sxe_time_get \<lparr>tv_sec = 1300000000, tv_usec = 250000\<rparr>)) = 250000 \<and>
   tv_usec (SXE_TIME_TO_TIMEVAL (sxe_time_get \<lparr>tv_sec = 1300000000, tv_usec = 3\<rparr>)) = 2"
  using sxe_time_timeval_roundtrip[of "\<lparr>tv_sec = 1300000000, tv_usec = 250000\<rparr>"]
    sxe_time_timeval_roundtrip[of "\<lparr>tv_sec = 1300000000, tv_usec = 3\<rparr>"] by simp

text \<open>
  Later times of day are later fixed-point times: the conversion is monotone in the
  (second, microsecond) order, so elements of a timed pool that are queued in time order have
  non-decreasing times.
\<close>

theorem sxe_time_get_mono:
  assumes "unat (tv_sec a) < 2 ^ 32" and "unat (tv_usec a) < 1000000"
    and "unat (tv_sec b) < 2 ^ 32" and "unat (tv_usec b) < 1000000"
    and "tv_sec a < tv_sec b \<or> tv_sec a = tv_sec b \<and> tv_usec a \<le> tv_usec b"
  shows "sxe_time_get a \<le> sxe_time_get b"
  using assms(5)
proof
  assume "tv_sec a < tv_sec b"
  then have "unat (tv_sec a) + 1 \<le> unat (tv_sec b)" by (simp add: word_less_nat_alt)
  then have "(unat (tv_sec a) + 1) * 2 ^ 32 \<le> unat (tv_sec b) * 2 ^ 32" by (rule mult_le_mono1)
  then show ?thesis
    using unat_lt_sec[OF assms(2)] unat_from_timeval[OF assms(1,2)] unat_from_timeval[OF assms(3,4)]
    by (simp add: word_le_nat_alt sxe_time_get_def)
next
  assume "tv_sec a = tv_sec b \<and> tv_usec a \<le> tv_usec b"
  then show ?thesis
    using unat_from_timeval[OF assms(1,2)] unat_from_timeval[OF assms(3,4)]
    by (simp add: word_le_nat_alt sxe_time_get_def div_le_mono)
qed

theorem sxe_time_get_mono_witness:
  "sxe_time_get \<lparr>tv_sec = 5, tv_usec = 999999\<rparr> \<le> sxe_time_get \<lparr>tv_sec = 6, tv_usec = 0\<rparr>"
  by (rule sxe_time_get_mono) simp_all

end
