(* ===== verification/SxeList.thy ===== *)
theory SxeList
  imports SxePrelude
begin

text \<open>
  \<^verbatim>\<open>lib-sxe-list\<close>: circular doubly linked lists with a sentinel, whose links are
  stored relative to the address of the list so that a list can live in relocatable memory.
  The memory is a typed heap: one function gives the list node at each address and one
  gives the rest of the list structure. A list's sentinel is its first member, so the
  sentinel node sits at the address of the list itself.
\<close>

section \<open>Data\<close>

record sxe_list_node =
  next_rel :: addr
  prev_rel :: addr
  node_id :: u32

record sxe_list_header =
  list_length :: u32
  list_offset :: addr

record sxe_mem =
  node :: "addr \<Rightarrow> sxe_list_node"
  header :: "addr \<Rightarrow> sxe_list_header"

definition SXE_PTR_FIX :: "addr \<Rightarrow> addr \<Rightarrow> addr" where
  "SXE_PTR_FIX base ptr_rel = ptr_rel + base"

definition SXE_PTR_REL :: "addr \<Rightarrow> addr \<Rightarrow> addr" where
  "SXE_PTR_REL base ptr_fix = ptr_fix - base"

abbreviation NULL :: addr where
  "NULL \<equiv> 0"

abbreviation NULL_REL :: "addr \<Rightarrow> addr" where
  "NULL_REL list \<equiv> SXE_PTR_REL list NULL"

abbreviation SENTINEL_PTR_REL :: "addr \<Rightarrow> addr" where
  "SENTINEL_PTR_REL list \<equiv> SXE_PTR_REL list list"

abbreviation HEAD :: "'a sxe_mem_scheme \<Rightarrow> addr \<Rightarrow> addr" where
  "HEAD m list \<equiv> next_rel (node m list)"

abbreviation TAIL :: "'a sxe_mem_scheme \<Rightarrow> addr \<Rightarrow> addr" where
  "TAIL m list \<equiv> prev_rel (node m list)"

text \<open>Stores through a pointer to a node or to a list.\<close>

definition set_next :: "addr \<Rightarrow> addr \<Rightarrow> 'a sxe_mem_scheme \<Rightarrow> 'a sxe_mem_scheme" where
  "set_next a v m = m\<lparr>node := (node m)(a := (node m a)\<lparr>next_rel := v\<rparr>)\<rparr>"

definition set_prev :: "addr \<Rightarrow> addr \<Rightarrow> 'a sxe_mem_scheme \<Rightarrow> 'a sxe_mem_scheme" where
  "set_prev a v m = m\<lparr>node := (node m)(a := (node m a)\<lparr>prev_rel := v\<rparr>)\<rparr>"

definition set_node_id :: "addr \<Rightarrow> u32 \<Rightarrow> 'a sxe_mem_scheme \<Rightarrow> 'a sxe_mem_scheme" where
  "set_node_id a v m = m\<lparr>node := (node m)(a := (node m a)\<lparr>node_id := v\<rparr>)\<rparr>"

definition set_length :: "addr \<Rightarrow> u32 \<Rightarrow> 'a sxe_mem_scheme \<Rightarrow> 'a sxe_mem_scheme" where
  "set_length l v m = m\<lparr>header := (header m)(l := (header m l)\<lparr>list_length := v\<rparr>)\<rparr>"

definition set_offset :: "addr \<Rightarrow> addr \<Rightarrow> 'a sxe_mem_scheme \<Rightarrow> 'a sxe_mem_scheme" where
  "set_offset l v m = m\<lparr>header := (header m)(l := (header m l)\<lparr>list_offset := v\<rparr>)\<rparr>"

named_theorems store_defs \<open>definitions of the stores to list nodes and list headers\<close>

declare set_next_def [store_defs] set_prev_def [store_defs] set_node_id_def [store_defs]
  set_length_def [store_defs] set_offset_def [store_defs]

section \<open>Operations\<close>

definition SXE_LIST_GET_LENGTH :: "'a sxe_mem_scheme \<Rightarrow> addr \<Rightarrow> u32" where
  "SXE_LIST_GET_LENGTH m list = list_length (header m list)"

definition SXE_LIST_IS_EMPTY :: "'a sxe_mem_scheme \<Rightarrow> addr \<Rightarrow> bool" where
  "SXE_LIST_IS_EMPTY m list \<longleftrightarrow> list_length (header m list) = 0"

definition sxe_list_construct_impl ::
  "'a sxe_mem_scheme \<Rightarrow> addr \<Rightarrow> u32 \<Rightarrow> addr \<Rightarrow> 'a sxe_mem_scheme" where
  "sxe_list_construct_impl m list i offset =
    (let m = set_next list (SENTINEL_PTR_REL list) m;
         m = set_prev list (SENTINEL_PTR_REL list) m;
         m = set_node_id list i m;
         m = set_length list 0 m
     in set_offset list offset m)"

definition sxe_list_push :: "'a sxe_mem_scheme \<Rightarrow> addr \<Rightarrow> addr \<Rightarrow> 'a sxe_mem_scheme" where
  "sxe_list_push m list object =
    (let n = object + list_offset (header m list);
         m = set_next n (SENTINEL_PTR_REL list) m;
         m = set_prev n (TAIL m list) m;
         m = set_prev list (SXE_PTR_REL list n) m;
         m = set_next (SXE_PTR_FIX list (prev_rel (node m n))) (SXE_PTR_REL list n) m;
         m = set_node_id n (node_id (node m list)) m
     in set_length list (list_length (header m list) + 1) m)"

definition sxe_list_unshift :: "'a sxe_mem_scheme \<Rightarrow> addr \<Rightarrow> addr \<Rightarrow> 'a sxe_mem_scheme" where
  "sxe_list_unshift m list object =
    (let n = object + list_offset (header m list);
         m = set_prev n (SENTINEL_PTR_REL list) m;
         m = set_next n (HEAD m list) m;
         m = set_next list (SXE_PTR_REL list n) m;
         m = set_prev (SXE_PTR_FIX list (next_rel (node m n))) (SXE_PTR_REL list n) m;
         m = set_node_id n (node_id (node m list)) m
     in set_length list (list_length (header m list) + 1) m)"

definition sxe_list_remove ::
  "'a sxe_mem_scheme \<Rightarrow> addr \<Rightarrow> addr \<Rightarrow> ('a sxe_mem_scheme \<times> addr) option" where
  "sxe_list_remove m list object = do {
     SXEA1 (HEAD m list \<noteq> SENTINEL_PTR_REL list \<and> TAIL m list \<noteq> SENTINEL_PTR_REL list);
     SXEA1 (HEAD m list \<noteq> SENTINEL_PTR_REL list \<or> TAIL m list \<noteq> SENTINEL_PTR_REL list);
     let n = object + list_offset (header m list);
     SXEA6 (node_id (node m n) = node_id (node m list));
     SXEA1 (next_rel (node m n) \<noteq> NULL_REL list \<and> prev_rel (node m n) \<noteq> NULL_REL list);
     let m = set_prev (SXE_PTR_FIX list (next_rel (node m n))) (prev_rel (node m n)) m;
     let m = set_next (SXE_PTR_FIX list (prev_rel (node m n))) (next_rel (node m n)) m;
     let m = set_prev n (NULL_REL list) m;
     let m = set_next n (NULL_REL list) m;
     let m = set_length list (list_length (header m list) - 1) m;
     Some (m, object)
   }"

definition sxe_list_pop ::
  "'a sxe_mem_scheme \<Rightarrow> addr \<Rightarrow> ('a sxe_mem_scheme \<times> addr option) option" where
  "sxe_list_pop m list =
    (let n = SXE_PTR_FIX list (TAIL m list)
     in if n = list then do {
          SXEA1 (HEAD m list = SENTINEL_PTR_REL list);
          Some (m, None)
        }
        else do {
          (m, result) \<leftarrow> sxe_list_remove m list (n - list_offset (header m list));
          Some (m, Some result)
        })"

definition sxe_list_shift ::
  "'a sxe_mem_scheme \<Rightarrow> addr \<Rightarrow> ('a sxe_mem_scheme \<times> addr option) option" where
  "sxe_list_shift m list =
    (let n = SXE_PTR_FIX list (HEAD m list)
     in if n = list then do {
          SXEA1 (TAIL m list = SENTINEL_PTR_REL list);
          Some (m, None)
        }
        else do {
          (m, result) \<leftarrow> sxe_list_remove m list (n - list_offset (header m list));
          Some (m, Some result)
        })"

definition sxe_list_peek_head :: "'a sxe_mem_scheme \<Rightarrow> addr \<Rightarrow> addr option option" where
  "sxe_list_peek_head m list =
    (if HEAD m list = SENTINEL_PTR_REL list then do {
       SXEA1 (TAIL m list = SENTINEL_PTR_REL list);
       Some None
     }
     else do {
       SXEA1 (TAIL m list \<noteq> SENTINEL_PTR_REL list);
       SXEA1 (prev_rel (node m (SXE_PTR_FIX list (HEAD m list))) = SENTINEL_PTR_REL list);
       let n = SXE_PTR_FIX list (HEAD m list);
       SXEA6 (node_id (node m n) = node_id (node m list));
       SXEA6 (next_rel (node m (SXE_PTR_FIX list (TAIL m list))) = SENTINEL_PTR_REL list);
       Some (Some (n - list_offset (header m list)))
     })"

definition sxe_list_peek_tail :: "'a sxe_mem_scheme \<Rightarrow> addr \<Rightarrow> addr option option" where
  "sxe_list_peek_tail m list =
    (if TAIL m list = SENTINEL_PTR_REL list then do {
       SXEA1 (HEAD m list = SENTINEL_PTR_REL list);
       Some None
     }
     else do {
       SXEA1 (HEAD m list \<noteq> SENTINEL_PTR_REL list);
       SXEA1 (next_rel (node m (SXE_PTR_FIX list (TAIL m list))) = SENTINEL_PTR_REL list);
       let n = SXE_PTR_FIX list (TAIL m list);
       SXEA6 (node_id (node m n) = node_id (node m list));
       SXEA6 (prev_rel (node m (SXE_PTR_FIX list (HEAD m list))) = SENTINEL_PTR_REL list);
       Some (Some (n - list_offset (header m list)))
     })"

subsection \<open>Walkers\<close>

record sxe_list_walker =
  walker_list :: addr
  walker_back :: addr
  walker_node :: addr

definition sxe_list_walker_construct :: "addr \<Rightarrow> sxe_list_walker" where
  "sxe_list_walker_construct list = \<lparr>walker_list = list, walker_back = list, walker_node = list\<rparr>"

definition sxe_list_walker_back ::
  "'a sxe_mem_scheme \<Rightarrow> sxe_list_walker \<Rightarrow> sxe_list_walker \<times> addr option" where
  "sxe_list_walker_back m w =
    (if walker_back w \<noteq> walker_list w then
       (let w = w\<lparr>walker_node := walker_back w\<rparr>;
            w = w\<lparr>walker_back := walker_list w\<rparr>
        in (w, Some (walker_node w - list_offset (header m (walker_list w)))))
     else (w, None))"

definition sxe_list_walker_find :: "'a sxe_mem_scheme \<Rightarrow> sxe_list_walker \<Rightarrow> addr option" where
  "sxe_list_walker_find m w =
    (if walker_node w \<noteq> walker_list w
     then Some (walker_node w - list_offset (header m (walker_list w))) else None)"

definition sxe_list_walker_step ::
  "'a sxe_mem_scheme \<Rightarrow> sxe_list_walker \<Rightarrow> sxe_list_walker \<times> addr option" where
  "sxe_list_walker_step m w =
    (let w = w\<lparr>walker_back := walker_node w\<rparr>;
         w = w\<lparr>walker_node := SXE_PTR_FIX (walker_list w) (next_rel (node m (walker_node w)))\<rparr>
     in (w, if walker_node w \<noteq> walker_list w
            then Some (walker_node w - list_offset (header m (walker_list w))) else None))"

section \<open>Abstract view\<close>

text \<open>
  \<open>seg m l p xs q\<close>: following the links stored relative to list \<open>l\<close> from node
  \<open>p\<close> leads through the nodes \<open>xs\<close> to node \<open>q\<close>, and back.
\<close>

fun seg :: "'a sxe_mem_scheme \<Rightarrow> addr \<Rightarrow> addr \<Rightarrow> addr list \<Rightarrow> addr \<Rightarrow> bool" where
  "seg m l p [] q \<longleftrightarrow> next_rel (node m p) = SXE_PTR_REL l q \<and> prev_rel (node m q) = SXE_PTR_REL l p"
| "seg m l p (x # xs) q \<longleftrightarrow>
     next_rel (node m p) = SXE_PTR_REL l x \<and> prev_rel (node m x) = SXE_PTR_REL l p \<and> seg m l x xs q"

text \<open>
  \<open>list_rep m l xs\<close>: the list at address \<open>l\<close> holds exactly the nodes \<open>xs\<close>,
  head first. The links go round the sentinel in both directions, every node carries the
  list's identifier and the stored length is the number of nodes (modulo its 32 bits).
\<close>

definition list_rep :: "'a sxe_mem_scheme \<Rightarrow> addr \<Rightarrow> addr list \<Rightarrow> bool" where
  "list_rep m l xs \<longleftrightarrow>
     distinct (l # xs) \<and> NULL \<notin> set (l # xs) \<and> seg m l l xs l \<and>
     (\<forall>n \<in> set xs. node_id (node m n) = node_id (node m l)) \<and>
     list_length (header m l) = of_nat (length xs)"

text \<open>The results of stepping a walker a given number of times.\<close>

fun walker_run :: "'a sxe_mem_scheme \<Rightarrow> sxe_list_walker \<Rightarrow> nat \<Rightarrow> addr option list" where
  "walker_run m w 0 = []"
| "walker_run m w (Suc k) =
    (let (w', r) = sxe_list_walker_step m w in r # walker_run m w' k)"

text \<open>
  A family of lists that share no node and no sentinel, as a component that keeps several
  lists in one memory has them.
\<close>

definition queue_family ::
  "('m \<Rightarrow> addr \<Rightarrow> addr list \<Rightarrow> bool) \<Rightarrow> 'm \<Rightarrow> ('s \<Rightarrow> addr) \<Rightarrow> ('s \<Rightarrow> addr list) \<Rightarrow> 's set \<Rightarrow> bool" where
  "queue_family rep m L Q S \<longleftrightarrow>
     (\<forall>s \<in> S. rep m (L s) (Q s)) \<and>
     (\<forall>s \<in> S. \<forall>t \<in> S. s \<noteq> t \<longrightarrow> set (L s # Q s) \<inter> set (L t # Q t) = {})"

definition object_node :: "'a sxe_mem_scheme \<Rightarrow> addr \<Rightarrow> addr \<Rightarrow> addr" where
  "object_node m l object = object + list_offset (header m l)"

definition mem0 :: sxe_mem where
  "mem0 = \<lparr>node = (\<lambda>_. \<lparr>next_rel = 0, prev_rel = 0, node_id = 0\<rparr>),
           header = (\<lambda>_. \<lparr>list_length = 0, list_offset = 0\<rparr>)\<rparr>"

text \<open>A list of three objects whose list nodes are 16 bytes into them.\<close>

definition demo_list :: sxe_mem where
  "demo_list = sxe_list_push (sxe_list_push (sxe_list_push
     (sxe_list_construct_impl mem0 1000 7 16) 1000 2000) 1000 3000) 1000 4000"

section \<open>Stores and pointers\<close>

lemma node_set_next [simp]:
  "node (set_next a v m) b = (if b = a then (node m a)\<lparr>next_rel := v\<rparr> else node m b)"
  by (simp add: set_next_def)

lemma node_set_prev [simp]:
  "node (set_prev a v m) b = (if b = a then (node m a)\<lparr>prev_rel := v\<rparr> else node m b)"
  by (simp add: set_prev_def)

lemma node_set_node_id [simp]:
  "node (set_node_id a v m) b = (if b = a then (node m a)\<lparr>node_id := v\<rparr> else node m b)"
  by (simp add: set_node_id_def)

lemma node_set_header [simp]:
  "node (set_length l v m) = node m" "node (set_offset l w m) = node m"
  by (simp_all add: set_length_def set_offset_def)

lemma header_set_node [simp]:
  "header (set_next a v m) = header m" "header (set_prev a v m) = header m"
  "header (set_node_id a i m) = header m"
  by (simp_all add: set_next_def set_prev_def set_node_id_def)

lemma header_set_length [simp]:
  "header (set_length l v m) k = (if k = l then (header m l)\<lparr>list_length := v\<rparr> else header m k)"
  by (simp add: set_length_def)

lemma header_set_offset [simp]:
  "header (set_offset l v m) k = (if k = l then (header m l)\<lparr>list_offset := v\<rparr> else header m k)"
  by (simp add: set_offset_def)

lemma ptr_simps [simp]:
  "SXE_PTR_FIX b (SXE_PTR_REL b p) = p"
  "SXE_PTR_REL b (SXE_PTR_FIX b r) = r"
  "SXE_PTR_REL b p = SXE_PTR_REL b q \<longleftrightarrow> p = q"
  "SXE_PTR_FIX b r = SXE_PTR_FIX b s \<longleftrightarrow> r = s"
  by (simp_all add: SXE_PTR_FIX_def SXE_PTR_REL_def)

lemma seg_append [simp]: "seg m l p (xs @ y # ys) q \<longleftrightarrow> seg m l p xs y \<and> seg m l y ys q"
  by (induction xs arbitrary: p) auto

lemma seg_cong:
  assumes "\<forall>a \<in> set (p # xs). next_rel (node m a) = next_rel (node m' a)"
    and "\<forall>a \<in> set (xs @ [q]). prev_rel (node m a) = prev_rel (node m' a)"
  shows "seg m l p xs q = seg m' l p xs q"
  using assms by (induction xs arbitrary: p) auto

lemma seg_first: "seg m l p xs q \<Longrightarrow> next_rel (node m p) = SXE_PTR_REL l (hd (xs @ [q]))"
  by (cases xs) auto

lemma seg_last: "seg m l p xs q \<Longrightarrow> prev_rel (node m q) = SXE_PTR_REL l (last (p # xs))"
  by (induction xs arbitrary: p) auto

lemma last_in_cons: "last (l # xs) \<in> set (l # xs)"
  using last_in_set by blast

lemma hd_in_snoc: "hd (xs @ [l]) \<in> set (l # xs)"
  by (cases xs) auto

lemma seg_last_next: "seg m l p xs q \<Longrightarrow> next_rel (node m (last (p # xs))) = SXE_PTR_REL l q"
  by (induction xs arbitrary: p) auto

text \<open>Redirecting the last link of a segment to another node.\<close>

lemma seg_redirect:
  assumes "seg m l p xs q" and "distinct (p # xs)" and "z = last (p # xs)"
    and "\<forall>a \<in> set (p # xs). a \<noteq> z \<longrightarrow> next_rel (node m' a) = next_rel (node m a)"
    and "\<forall>a \<in> set xs. prev_rel (node m' a) = prev_rel (node m a)"
    and "next_rel (node m' z) = SXE_PTR_REL l b" and "prev_rel (node m' b) = SXE_PTR_REL l z"
  shows "seg m' l p xs b"
  using assms
proof (induction xs arbitrary: p)
  case Nil
  then show ?case by simp
next
  case (Cons x xs)
  then have "z \<in> set (x # xs)" using last_in_cons[of x xs] by simp
  with Cons.prems have "p \<noteq> z" by auto
  with Cons show ?case by auto
qed

lemma list_rep_cong:
  assumes "\<forall>a \<in> set (l # xs). node m' a = node m a" and "header m' l = header m l"
  shows "list_rep m' l xs = list_rep m l xs"
proof -
  have "seg m' l l xs l = seg m l l xs l"
    by (rule seg_cong) (use assms in auto)
  with assms show ?thesis by (auto simp: list_rep_def)
qed

lemma list_rep_construct:
  "l \<noteq> NULL \<Longrightarrow> list_rep (sxe_list_construct_impl m l i off) l []"
  by (simp add: list_rep_def sxe_list_construct_impl_def Let_def)

lemma list_rep_head: "list_rep m l xs \<Longrightarrow> HEAD m l = SXE_PTR_REL l (hd (xs @ [l]))"
  by (auto simp: list_rep_def dest: seg_first)

lemma list_rep_tail: "list_rep m l xs \<Longrightarrow> TAIL m l = SXE_PTR_REL l (last (l # xs))"
  by (auto simp: list_rep_def dest: seg_last)


lemma list_rep_sentinel:
  assumes "list_rep m l xs"
  shows "HEAD m l = SENTINEL_PTR_REL l \<longleftrightarrow> xs = []" and "TAIL m l = SENTINEL_PTR_REL l \<longleftrightarrow> xs = []"
proof -
  have l: "l \<notin> set xs" using assms by (simp add: list_rep_def)
  show "HEAD m l = SENTINEL_PTR_REL l \<longleftrightarrow> xs = []"
    using l list_rep_head[OF assms] by (cases xs) auto
  show "TAIL m l = SENTINEL_PTR_REL l \<longleftrightarrow> xs = []"
    using l list_rep_tail[OF assms] last_in_set[of xs] by auto
qed

text \<open>What each operation stores, field by field.\<close>

lemma push_fields:
  assumes "TAIL m l = SXE_PTR_REL l z" and "n = object + list_offset (header m l)"
    and "n \<noteq> l" and "n \<noteq> z"
  shows "next_rel (node (sxe_list_push m l object) a) =
      (if a = n then SENTINEL_PTR_REL l else if a = z then SXE_PTR_REL l n else next_rel (node m a))"
    and "prev_rel (node (sxe_list_push m l object) a) =
      (if a = n then SXE_PTR_REL l z else if a = l then SXE_PTR_REL l n else prev_rel (node m a))"
    and "node_id (node (sxe_list_push m l object) a) = node_id (node m (if a = n then l else a))"
    and "header (sxe_list_push m l object) k =
      (if k = l then (header m l)\<lparr>list_length := list_length (header m l) + 1\<rparr> else header m k)"
  using assms by (auto simp: sxe_list_push_def Let_def)

lemma unshift_fields:
  assumes "HEAD m l = SXE_PTR_REL l z" and "n = object + list_offset (header m l)"
    and "n \<noteq> l" and "n \<noteq> z"
  shows "prev_rel (node (sxe_list_unshift m l object) a) =
      (if a = n then SENTINEL_PTR_REL l else if a = z then SXE_PTR_REL l n else prev_rel (node m a))"
    and "next_rel (node (sxe_list_unshift m l object) a) =
      (if a = n then SXE_PTR_REL l z else if a = l then SXE_PTR_REL l n else next_rel (node m a))"
    and "node_id (node (sxe_list_unshift m l object) a) = node_id (node m (if a = n then l else a))"
    and "header (sxe_list_unshift m l object) k =
      (if k = l then (header m l)\<lparr>list_length := list_length (header m l) + 1\<rparr> else header m k)"
  using assms by (auto simp: sxe_list_unshift_def Let_def)

lemma list_rep_push:
  assumes rep: "list_rep m l xs" and n: "n = object + list_offset (header m l)"
    and fresh: "n \<notin> set (l # xs)" and null: "n \<noteq> NULL"
  shows "list_rep (sxe_list_push m l object) l (xs @ [n])"
proof -
  obtain z where z: "z = last (l # xs)" by blast
  have s: "seg m l l xs l" "distinct (l # xs)" "NULL \<notin> set (l # xs)"
    using rep by (auto simp: list_rep_def)
  have "z \<in> set (l # xs)" using z last_in_cons by metis
  with fresh have zn: "n \<noteq> z" "n \<noteq> l" by auto
  note flds = push_fields[OF list_rep_tail[OF rep, folded z] n zn(2,1)]
  have "seg (sxe_list_push m l object) l l xs n"
    by (rule seg_redirect[OF s(1,2) z]) (use fresh s zn in \<open>auto simp: flds\<close>)
  then have "seg (sxe_list_push m l object) l l (xs @ [n]) l"
    using zn by (simp add: flds)
  then show ?thesis using rep fresh null by (auto simp: list_rep_def flds)
qed

lemma list_rep_unshift:
  assumes rep: "list_rep m l xs" and n: "n = object + list_offset (header m l)"
    and fresh: "n \<notin> set (l # xs)" and null: "n \<noteq> NULL"
  shows "list_rep (sxe_list_unshift m l object) l (n # xs)"
proof -
  obtain z where z: "z = hd (xs @ [l])" by blast
  have s: "seg m l l xs l" "distinct (l # xs)" "NULL \<notin> set (l # xs)"
    using rep by (auto simp: list_rep_def)
  have "z \<in> set (l # xs)" using z hd_in_snoc by metis
  with fresh have zn: "n \<noteq> z" "n \<noteq> l" by auto
  note flds = unshift_fields[OF list_rep_head[OF rep, folded z] n zn(2,1)]
  have "seg (sxe_list_unshift m l object) l n xs l"
  proof (cases xs)
    case Nil
    then show ?thesis using z zn by (simp add: flds)
  next
    case (Cons y ys)
    have "seg (sxe_list_unshift m l object) l y ys l = seg m l y ys l"
      by (rule seg_cong) (use Cons fresh s zn z in \<open>auto simp: flds\<close>)
    then show ?thesis using Cons s z zn by (auto simp: flds)
  qed
  then have "seg (sxe_list_unshift m l object) l l (n # xs) l"
    using zn by (auto simp: flds)
  then show ?thesis using rep fresh null by (auto simp: list_rep_def flds)
qed


lemma remove_fields:
  assumes "sxe_list_remove m l object = Some (m', r)" and "n = object + list_offset (header m l)"
    and "prev_rel (node m n) = SXE_PTR_REL l p" and "next_rel (node m n) = SXE_PTR_REL l q"
    and "n \<noteq> p" and "n \<noteq> q"
  shows "next_rel (node m' a) =
      (if a = n then NULL_REL l else if a = p then SXE_PTR_REL l q else next_rel (node m a))"
    and "prev_rel (node m' a) =
      (if a = n then NULL_REL l else if a = q then SXE_PTR_REL l p else prev_rel (node m a))"
    and "node_id (node m' a) = node_id (node m a)"
    and "header m' k =
      (if k = l then (header m l)\<lparr>list_length := list_length (header m l) - 1\<rparr> else header m k)"
    and "r = object"
  using assms by (auto simp: sxe_list_remove_def Let_def split: if_splits)

lemma list_rep_remove:
  assumes rep: "list_rep m l (xs @ n # ys)" and n: "n = object + list_offset (header m l)"
  obtains m' where "sxe_list_remove m l object = Some (m', object)" and "list_rep m' l (xs @ ys)"
    and "\<And>a. a \<notin> set (l # xs @ n # ys) \<Longrightarrow> node m' a = node m a"
    and "\<And>k. k \<noteq> l \<Longrightarrow> header m' k = header m k"
proof -
  obtain p q where pq: "p = last (l # xs)" "q = hd (ys @ [l])" by blast
  have s: "seg m l l xs n" "seg m l n ys l" "distinct (l # xs @ n # ys)"
    "NULL \<notin> set (l # xs @ n # ys)" using rep by (auto simp: list_rep_def)
  have p: "prev_rel (node m n) = SXE_PTR_REL l p" using seg_last[OF s(1)] pq by simp
  have q: "next_rel (node m n) = SXE_PTR_REL l q" using seg_first[OF s(2)] pq by simp
  have pqin: "p \<in> set (l # xs)" "q \<in> set (l # ys)"
    using pq last_in_cons[of l xs] hd_in_snoc[of ys l] by simp_all
  with s(3,4) have pn: "n \<noteq> p" "n \<noteq> q" "p \<noteq> NULL" "q \<noteq> NULL" by auto
  have nonempty: "HEAD m l \<noteq> SENTINEL_PTR_REL l" "TAIL m l \<noteq> SENTINEL_PTR_REL l"
    using list_rep_sentinel[OF rep] by simp_all
  have "node_id (node m n) = node_id (node m l)" using rep by (auto simp: list_rep_def)
  with nonempty p q pn n obtain m' where m': "sxe_list_remove m l object = Some (m', object)"
    by (auto simp: sxe_list_remove_def Let_def)
  note flds = remove_fields[OF m' n p q pn(1,2)]
  have "seg m' l l xs q"
    by (rule seg_redirect[OF s(1) _ pq(1)]) (use s pn pqin in \<open>auto simp: flds\<close>)
  moreover have "seg m' l q zs l = seg m l q zs l" if "ys = q # zs" for zs
    by (rule seg_cong) (use s pn pqin that in \<open>auto simp: flds\<close>)
  ultimately have "seg m' l l (xs @ ys) l"
    using s(2) pq(2) by (cases ys) auto
  then have "list_rep m' l (xs @ ys)"
    using rep s by (auto simp: list_rep_def flds)
  moreover have "node m' a = node m a" if "a \<notin> set (l # xs @ n # ys)" for a
    using that pqin by (auto simp: flds intro!: sxe_list_node.equality)
  moreover have "header m' k = header m k" if "k \<noteq> l" for k
    using that by (simp add: flds)
  ultimately show ?thesis using that m' by blast
qed


lemma push_frame:
  assumes rep: "list_rep m l xs" and n: "n = object + list_offset (header m l)"
    and "n \<notin> set (l # xs)"
  shows "a \<notin> set (l # xs @ [n]) \<Longrightarrow> node (sxe_list_push m l object) a = node m a"
    and "k \<noteq> l \<Longrightarrow> header (sxe_list_push m l object) k = header m k"
    and "list_offset (header (sxe_list_push m l object) k) = list_offset (header m k)"
proof -
  obtain z where z: "z = last (l # xs)" by blast
  then have zin: "z \<in> set (l # xs)" using last_in_cons by metis
  with assms have zn: "n \<noteq> z" "n \<noteq> l" by auto
  note flds = push_fields[OF list_rep_tail[OF rep, folded z] n zn(2,1)]
  show "node (sxe_list_push m l object) a = node m a" if "a \<notin> set (l # xs @ [n])"
    using that zin by (auto simp: flds intro!: sxe_list_node.equality)
  show "header (sxe_list_push m l object) k = header m k" if "k \<noteq> l"
    using that by (simp add: flds)
  show "list_offset (header (sxe_list_push m l object) k) = list_offset (header m k)"
    by (simp add: flds)
qed

lemma list_rep_other:
  assumes "list_rep m k ys"
    and "\<And>a. a \<in> set (k # ys) \<Longrightarrow> node m' a = node m a" and "header m' k = header m k"
  shows "list_rep m' k ys"
  using assms list_rep_cong[of k ys m' m] by blast

lemma list_rep_peek_head:
  assumes "list_rep m l xs"
  shows "sxe_list_peek_head m l =
    Some (case xs of [] \<Rightarrow> None | n # _ \<Rightarrow> Some (n - list_offset (header m l)))"
proof (cases xs)
  case Nil
  then show ?thesis using list_rep_sentinel[OF assms] by (simp add: sxe_list_peek_head_def)
next
  case (Cons n ys)
  have h: "HEAD m l = SXE_PTR_REL l n" using list_rep_head[OF assms] Cons by simp
  have "last (l # xs) \<in> set xs" using Cons by simp
  moreover have "next_rel (node m (last xs)) = SENTINEL_PTR_REL l"
    using seg_last_next[of m l l xs l] assms Cons by (simp add: list_rep_def)
  ultimately show ?thesis
    using assms Cons h list_rep_sentinel[OF assms] list_rep_tail[OF assms]
    by (auto simp: sxe_list_peek_head_def list_rep_def Let_def)
qed

lemma list_rep_peek_tail:
  assumes "list_rep m l xs"
  shows "sxe_list_peek_tail m l =
    Some (if xs = [] then None else Some (last xs - list_offset (header m l)))"
proof (cases xs)
  case Nil
  then show ?thesis using list_rep_sentinel[OF assms] by (simp add: sxe_list_peek_tail_def)
next
  case (Cons n ys)
  have t: "TAIL m l = SXE_PTR_REL l (last xs)" using list_rep_tail[OF assms] Cons by simp
  have "next_rel (node m (last xs)) = SENTINEL_PTR_REL l"
    using seg_last_next[of m l l xs l] assms Cons by (simp add: list_rep_def)
  then show ?thesis
    using assms Cons t list_rep_sentinel[OF assms] list_rep_head[OF assms]
    by (auto simp: sxe_list_peek_tail_def list_rep_def Let_def)
qed

lemma list_rep_pop_empty: "list_rep m l [] \<Longrightarrow> sxe_list_pop m l = Some (m, None)"
  using list_rep_sentinel[of m l "[]"] by (simp add: sxe_list_pop_def)

lemma list_rep_shift_empty: "list_rep m l [] \<Longrightarrow> sxe_list_shift m l = Some (m, None)"
  using list_rep_sentinel[of m l "[]"] by (simp add: sxe_list_shift_def)

lemma list_rep_pop:
  assumes "list_rep m l (xs @ [n])"
  obtains m' where "sxe_list_pop m l = Some (m', Some (n - list_offset (header m l)))"
    and "list_rep m' l xs"
proof -
  have "TAIL m l = SXE_PTR_REL l n" using list_rep_tail[OF assms] by simp
  moreover have "n \<noteq> l" using assms by (auto simp: list_rep_def)
  moreover obtain m' where "sxe_list_remove m l (n - list_offset (header m l)) =
      Some (m', n - list_offset (header m l))" "list_rep m' l (xs @ [])"
    by (rule list_rep_remove[OF assms]) auto
  ultimately show ?thesis using that by (simp add: sxe_list_pop_def)
qed

lemma list_rep_shift:
  assumes "list_rep m l (n # xs)"
  obtains m' where "sxe_list_shift m l = Some (m', Some (n - list_offset (header m l)))"
    and "list_rep m' l xs"
proof -
  have rep: "list_rep m l ([] @ n # xs)" using assms by simp
  have "HEAD m l = SXE_PTR_REL l n" using list_rep_head[OF assms] by simp
  moreover have "n \<noteq> l" using assms by (auto simp: list_rep_def)
  moreover obtain m' where "sxe_list_remove m l (n - list_offset (header m l)) =
      Some (m', n - list_offset (header m l))" "list_rep m' l ([] @ xs)"
    by (rule list_rep_remove[OF rep]) auto
  ultimately show ?thesis using that by (simp add: sxe_list_shift_def)
qed

section \<open>Walking\<close>

lemma walker_step_at:
  assumes "next_rel (node m (walker_node w)) = SXE_PTR_REL (walker_list w) x"
  shows "sxe_list_walker_step m w =
    (w\<lparr>walker_back := walker_node w, walker_node := x\<rparr>,
     if x = walker_list w then None else Some (x - list_offset (header m (walker_list w))))"
  using assms by (simp add: sxe_list_walker_step_def Let_def)

lemma walker_run_seg:
  assumes "seg m l (walker_node w) xs l" and "walker_list w = l" and "l \<notin> set xs"
  shows "walker_run m w (length xs + 1) =
    map (\<lambda>n. Some (n - list_offset (header m l))) xs @ [None]"
  using assms
proof (induction xs arbitrary: w)
  case Nil
  then show ?case by (simp add: walker_step_at[where x = l])
next
  case (Cons x xs)
  then show ?case by (simp add: walker_step_at[where x = x])
qed

section \<open>Relocation\<close>

lemma seg_relocate:
  assumes "\<And>a. a \<in> set (p # xs @ [q]) \<Longrightarrow> node m' (a + d) = node m a"
  shows "seg m' (l + d) (p + d) (map (\<lambda>a. a + d) xs) (q + d) = seg m l p xs q"
  using assms by (induction xs arbitrary: p) (auto simp: SXE_PTR_REL_def)

section \<open>The interface of the list to its clients\<close>

locale linked_queue =
  fixes rep :: "'m \<Rightarrow> addr \<Rightarrow> addr list \<Rightarrow> bool"
    and node_of :: "'m \<Rightarrow> addr \<Rightarrow> addr \<Rightarrow> addr"
    and push :: "'m \<Rightarrow> addr \<Rightarrow> addr \<Rightarrow> 'm"
    and remove :: "'m \<Rightarrow> addr \<Rightarrow> addr \<Rightarrow> ('m \<times> addr) option"
    and first :: "'m \<Rightarrow> addr \<Rightarrow> addr option option"
  assumes push_rep: "\<lbrakk>rep m l xs; node_of m l ob \<notin> set (l # xs); node_of m l ob \<noteq> NULL\<rbrakk>
      \<Longrightarrow> rep (push m l ob) l (xs @ [node_of m l ob])"
    and push_other: "\<lbrakk>rep m l xs; node_of m l ob \<notin> set (l # xs); rep m k ys;
        set (k # ys) \<inter> set (l # xs @ [node_of m l ob]) = {}\<rbrakk> \<Longrightarrow> rep (push m l ob) k ys"
    and push_node_of: "node_of (push m l ob) k = node_of m k"
    and remove_rep: "\<lbrakk>rep m l (xs @ n # ys); node_of m l ob = n\<rbrakk> \<Longrightarrow>
      \<exists>m'. remove m l ob = Some (m', ob) \<and> rep m' l (xs @ ys) \<and> node_of m' = node_of m \<and>
        (\<forall>k zs. rep m k zs \<longrightarrow> set (k # zs) \<inter> set (l # xs @ n # ys) = {} \<longrightarrow> rep m' k zs)"
    and first_empty: "rep m l [] \<Longrightarrow> first m l = Some None"
    and first_head: "rep m l (n # xs) \<Longrightarrow> \<exists>ob. first m l = Some (Some ob) \<and> node_of m l ob = n"
    and rep_distinct: "rep m l xs \<Longrightarrow> distinct (l # xs) \<and> NULL \<notin> set (l # xs)"
begin

text \<open>Taking a node off one list of a family keeps the family.\<close>

lemma family_remove:
  assumes fam: "queue_family rep m L Q S" and a: "a \<in> S" and Qa: "Q a = xs @ n # ys"
    and ob: "node_of m (L a) ob = n"
  obtains m' where "remove m (L a) ob = Some (m', ob)" and "node_of m' = node_of m"
    and "queue_family rep m' L (Q(a := xs @ ys)) S"
    and "\<And>s. s \<in> S \<Longrightarrow> n \<notin> set (L s # (Q(a := xs @ ys)) s)" and "n \<noteq> NULL"
proof -
  have r: "rep m (L a) (xs @ n # ys)" using fam a Qa by (auto simp: queue_family_def)
  from remove_rep[OF r ob] obtain m' where m': "remove m (L a) ob = Some (m', ob)"
    "rep m' (L a) (xs @ ys)" "node_of m' = node_of m"
    and other: "\<And>k zs. rep m k zs \<Longrightarrow> set (k # zs) \<inter> set (L a # xs @ n # ys) = {} \<Longrightarrow> rep m' k zs"
    by auto
  have apart: "set (L s # Q s) \<inter> set (L t # Q t) = {}" if "s \<in> S" "t \<in> S" "s \<noteq> t" for s t
    using fam that unfolding queue_family_def by blast
  have disj: "set (L s # Q s) \<inter> set (L a # xs @ n # ys) = {}" if "s \<in> S" "s \<noteq> a" for s
    using apart[OF that(1) a that(2)] Qa by simp
  have "rep m' (L s) (Q s)" if "s \<in> S" "s \<noteq> a" for s
    by (rule other[OF _ disj[OF that]]) (use fam that in \<open>simp add: queue_family_def\<close>)
  moreover have sub: "set (L s # (Q(a := xs @ ys)) s) \<subseteq> set (L s # Q s)" for s
    using Qa by auto
  have "set (L s # (Q(a := xs @ ys)) s) \<inter> set (L t # (Q(a := xs @ ys)) t) = {}"
    if "s \<in> S" "t \<in> S" "s \<noteq> t" for s t
    using apart[OF that] sub[of s] sub[of t] by blast
  ultimately have "queue_family rep m' L (Q(a := xs @ ys)) S"
    unfolding queue_family_def using m'(2) by simp
  moreover have "n \<notin> set (L s # (Q(a := xs @ ys)) s)" if "s \<in> S" for s
  proof (cases "s = a")
    case True
    then show ?thesis using rep_distinct[OF r] by auto
  next
    case False
    then show ?thesis using disj[OF that False] by auto
  qed
  moreover have "n \<noteq> NULL" using rep_distinct[OF r] by auto
  ultimately show ?thesis using that m' by blast
qed

text \<open>Appending a node that is on no list of the family keeps the family.\<close>

lemma family_push:
  assumes fam: "queue_family rep m L Q S" and b: "b \<in> S" and ob: "node_of m (L b) ob = n"
    and fresh: "\<And>s. s \<in> S \<Longrightarrow> n \<notin> set (L s # Q s)" and "n \<noteq> NULL"
  shows "queue_family rep (push m (L b) ob) L (Q(b := Q b @ [n])) S"
proof -
  have rb: "rep m (L b) (Q b)" using fam b by (auto simp: queue_family_def)
  have apart: "set (L s # Q s) \<inter> set (L t # Q t) = {}" if "s \<in> S" "t \<in> S" "s \<noteq> t" for s t
    using fam that unfolding queue_family_def by blast
  have disj: "set (L s # Q s) \<inter> set (L b # Q b @ [n]) = {}" if "s \<in> S" "s \<noteq> b" for s
    using apart[OF that(1) b that(2)] fresh[OF that(1)] by auto
  have "rep (push m (L b) ob) (L s) (Q s)" if "s \<in> S" "s \<noteq> b" for s
    by (rule push_other[OF rb]) (use fresh[OF b] fam that disj[OF that] ob in \<open>simp_all add: queue_family_def\<close>)
  moreover have "rep (push m (L b) ob) (L b) (Q b @ [n])"
    using push_rep[OF rb, of ob] fresh[OF b] ob \<open>n \<noteq> NULL\<close> by simp
  moreover have "set (L s # (Q(b := Q b @ [n])) s) \<inter> set (L t # (Q(b := Q b @ [n])) t) = {}"
    if "s \<in> S" "t \<in> S" "s \<noteq> t" for s t
    using disj[of s] disj[of t] apart[OF that] that by (cases "s = b"; cases "t = b") (simp_all add: Int_commute)
  ultimately show ?thesis unfolding queue_family_def by simp
qed

text \<open>Moving a node from one list of the family to the tail of another (or of the same).\<close>

lemma family_move:
  assumes "queue_family rep m L Q S" and "a \<in> S" and "b \<in> S" and "Q a = xs @ n # ys"
    and "node_of m (L a) ob = n" and "node_of m (L b) ob = n"
  obtains m' where "remove m (L a) ob = Some (m', ob)"
    and "queue_family rep m' L (Q(a := xs @ ys)) S"
    and "queue_family rep (push m' (L b) ob) L ((Q(a := xs @ ys))(b := (Q(a := xs @ ys)) b @ [n])) S"
proof -
  obtain m' where m': "remove m (L a) ob = Some (m', ob)" "node_of m' = node_of m"
    "queue_family rep m' L (Q(a := xs @ ys)) S"
    "\<And>s. s \<in> S \<Longrightarrow> n \<notin> set (L s # (Q(a := xs @ ys)) s)" "n \<noteq> NULL"
    by (rule family_remove[OF assms(1,2,4,5)]) blast
  have "node_of m' (L b) ob = n" using m'(2) assms(6) by simp
  with family_push[OF m'(3) assms(3) _ m'(4,5)] show ?thesis using that m'(1,3) by blast
qed

end

lemma push_object_node: "object_node (sxe_list_push m l ob) k = object_node m k"
  by (simp add: fun_eq_iff object_node_def sxe_list_push_def Let_def)

lemma remove_offset:
  "sxe_list_remove m l ob = Some (m', r) \<Longrightarrow> list_offset (header m' k) = list_offset (header m k)"
  unfolding sxe_list_remove_def Let_def SXEA1_bind SXEA6_bind
  by ((drule if_None_SomeD)+, clarify, simp)

lemma remove_node_id:
  "sxe_list_remove m l ob = Some (m', r) \<Longrightarrow> node_id (node m' a) = node_id (node m a)"
  unfolding sxe_list_remove_def Let_def SXEA1_bind SXEA6_bind
  by ((drule if_None_SomeD)+, clarify, simp)

lemma push_node_id:
  "node_id (node (sxe_list_push m l ob) a) =
    (if a = object_node m l ob then node_id (node m l) else node_id (node m a))"
  by (simp add: sxe_list_push_def object_node_def Let_def)

lemma remove_object_node: "sxe_list_remove m l ob = Some (m', r) \<Longrightarrow> object_node m' = object_node m"
  by (simp add: fun_eq_iff object_node_def remove_offset)

interpretation sxe_list: linked_queue list_rep object_node sxe_list_push sxe_list_remove sxe_list_peek_head
proof
  fix m :: "'a sxe_mem_scheme" and l ob :: addr and xs
  assume r: "list_rep m l xs" and f: "object_node m l ob \<notin> set (l # xs)"
  show "object_node m l ob \<noteq> NULL \<Longrightarrow> list_rep (sxe_list_push m l ob) l (xs @ [object_node m l ob])"
    using list_rep_push[OF r object_node_def f] .
  fix k ys
  assume k: "list_rep m k ys" and dj: "set (k # ys) \<inter> set (l # xs @ [object_node m l ob]) = {}"
  show "list_rep (sxe_list_push m l ob) k ys"
  proof (rule list_rep_other[OF k])
    show "node (sxe_list_push m l ob) a = node m a" if "a \<in> set (k # ys)" for a
      by (rule push_frame(1)[OF r object_node_def f]) (use that dj in blast)
    show "header (sxe_list_push m l ob) k = header m k"
      by (rule push_frame(2)[OF r object_node_def f]) (use dj in auto)
  qed
next
  fix m :: "'a sxe_mem_scheme" and l n ob :: addr and xs ys
  assume r: "list_rep m l (xs @ n # ys)" and n: "object_node m l ob = n"
  obtain m' where m': "sxe_list_remove m l ob = Some (m', ob)" "list_rep m' l (xs @ ys)"
    and fr: "\<And>a. a \<notin> set (l # xs @ n # ys) \<Longrightarrow> node m' a = node m a"
      "\<And>k. k \<noteq> l \<Longrightarrow> header m' k = header m k"
    by (rule list_rep_remove[OF r, of ob]) (use n in \<open>auto simp: object_node_def\<close>)
  have "list_rep m' k zs" if "list_rep m k zs" "set (k # zs) \<inter> set (l # xs @ n # ys) = {}" for k zs
  proof (rule list_rep_other[OF that(1)])
    show "node m' a = node m a" if "a \<in> set (k # zs)" for a
      by (rule fr(1)) (use that \<open>set (k # zs) \<inter> _ = {}\<close> in blast)
    show "header m' k = header m k" by (rule fr(2)) (use that(2) in auto)
  qed
  with m' remove_object_node[OF m'(1)]
  show "\<exists>m'. sxe_list_remove m l ob = Some (m', ob) \<and> list_rep m' l (xs @ ys) \<and>
      object_node m' = object_node m \<and>
      (\<forall>k zs. list_rep m k zs \<longrightarrow> set (k # zs) \<inter> set (l # xs @ n # ys) = {} \<longrightarrow> list_rep m' k zs)"
    by blast
next
  fix m :: "'a sxe_mem_scheme" and l n :: addr and xs
  show "list_rep m l [] \<Longrightarrow> sxe_list_peek_head m l = Some None"
    by (simp add: list_rep_peek_head)
  show "list_rep m l (n # xs) \<Longrightarrow> \<exists>ob. sxe_list_peek_head m l = Some (Some ob) \<and> object_node m l ob = n"
    by (auto simp: list_rep_peek_head object_node_def)
  show "list_rep m l xs \<Longrightarrow> distinct (l # xs) \<and> NULL \<notin> set (l # xs)"
    by (simp add: list_rep_def)
qed (rule push_object_node)

section \<open>Correctness of the list operations\<close>

lemma demo_list_offset: "list_offset (header demo_list 1000) = 16"
  by (simp add: demo_list_def sxe_list_push_def sxe_list_construct_impl_def Let_def)

lemma demo_list_rep: "list_rep demo_list 1000 [2016, 3016, 4016]"
proof -
  have "list_rep demo_list 1000 ((([] @ [2016]) @ [3016]) @ [4016])"
    unfolding demo_list_def
    by (rule list_rep_push, rule list_rep_push, rule list_rep_push, rule list_rep_construct)
      (simp_all add: sxe_list_push_def sxe_list_construct_impl_def Let_def)
  then show ?thesis by simp
qed

text \<open>
  C1: appending an object whose node is on no list appends its node at the tail, and every
  list that shares no node with this one is left as it was.
\<close>

theorem sxe_list_push_appends:
  assumes "list_rep m list xs" and "n = object + list_offset (header m list)"
    and "n \<notin> set (list # xs)" and "n \<noteq> NULL"
  shows "list_rep (sxe_list_push m list object) list (xs @ [n]) \<and>
    (\<forall>k ys. list_rep m k ys \<longrightarrow> set (k # ys) \<inter> set (list # xs @ [n]) = {} \<longrightarrow>
       list_rep (sxe_list_push m list object) k ys)"
  using assms sxe_list.push_rep[of m list xs object] sxe_list.push_other[of m list xs object]
  by (simp add: object_node_def)

theorem sxe_list_push_appends_witness:
  "list_rep (sxe_list_push demo_list 1000 5000) 1000 ([2016, 3016, 4016] @ [5016])"
  using sxe_list_push_appends[OF demo_list_rep, of 5016 5000] by (simp add: demo_list_offset)

text \<open>
  C2: removing an object that is on the list passes every assertion, unlinks exactly its node
  whatever its position, returns the object, and leaves every list that shares no node with
  this one as it was.
\<close>

theorem sxe_list_remove_unlinks:
  assumes "list_rep m list (xs @ n # ys)" and "n = object + list_offset (header m list)"
  shows "\<exists>m'. sxe_list_remove m list object = Some (m', object) \<and> list_rep m' list (xs @ ys) \<and>
    (\<forall>k zs. list_rep m k zs \<longrightarrow> set (k # zs) \<inter> set (list # xs @ n # ys) = {} \<longrightarrow> list_rep m' k zs)"
  using sxe_list.remove_rep[OF assms(1), of object] assms(2) by (auto simp: object_node_def)

theorem sxe_list_remove_unlinks_witness:
  "\<exists>m'. sxe_list_remove demo_list 1000 3000 = Some (m', 3000) \<and> list_rep m' 1000 ([2016] @ [4016])"
proof -
  have "3016 = 3000 + list_offset (header demo_list 1000)" by (simp add: demo_list_offset)
  with sxe_list_remove_unlinks[of demo_list 1000 "[2016]" 3016 "[4016]" 3000] demo_list_rep
  obtain m' where "sxe_list_remove demo_list 1000 3000 = Some (m', 3000)" "list_rep m' 1000 ([2016] @ [4016])"
    by auto
  then show ?thesis by blast
qed

text \<open>
  C3: shift takes the object at the head and pop the one at the tail, without aborting; on an
  empty list both return NULL and change nothing. The peeks return the same objects.
\<close>

theorem sxe_list_shift_pop:
  assumes "list_rep m list xs"
  shows "if xs = [] then sxe_list_shift m list = Some (m, None) \<and> sxe_list_pop m list = Some (m, None)
      \<and> sxe_list_peek_head m list = Some None \<and> sxe_list_peek_tail m list = Some None
    else (\<exists>m'. sxe_list_shift m list = Some (m', Some (hd xs - list_offset (header m list))) \<and>
            list_rep m' list (tl xs)) \<and>
         (\<exists>m'. sxe_list_pop m list = Some (m', Some (last xs - list_offset (header m list))) \<and>
            list_rep m' list (butlast xs)) \<and>
         sxe_list_peek_head m list = Some (Some (hd xs - list_offset (header m list))) \<and>
         sxe_list_peek_tail m list = Some (Some (last xs - list_offset (header m list)))"
proof (cases "xs = []")
  case True
  then show ?thesis
    using assms list_rep_shift_empty[of m list] list_rep_pop_empty[of m list] list_rep_peek_head[OF assms] list_rep_peek_tail[OF assms]
    by simp
next
  case False
  then have "xs = hd xs # tl xs" "xs = butlast xs @ [last xs]" by simp_all
  with assms have h: "list_rep m list (hd xs # tl xs)" and t: "list_rep m list (butlast xs @ [last xs])"
    by metis+
  obtain m1 where m1: "sxe_list_shift m list = Some (m1, Some (hd xs - list_offset (header m list)))"
    "list_rep m1 list (tl xs)" by (rule list_rep_shift[OF h])
  obtain m2 where m2: "sxe_list_pop m list = Some (m2, Some (last xs - list_offset (header m list)))"
    "list_rep m2 list (butlast xs)" by (rule list_rep_pop[OF t])
  show ?thesis
    using m1 m2 list_rep_peek_head[OF h] list_rep_peek_tail[OF assms] False by (simp split: list.splits)
qed

theorem sxe_list_shift_pop_witness:
  "\<exists>m'. sxe_list_shift demo_list 1000 = Some (m', Some 2000) \<and> list_rep m' 1000 [3016, 4016]"
  using sxe_list_shift_pop[OF demo_list_rep] by (simp add: demo_list_offset)

text \<open>
  C4: a walker constructed on a list returns every object once, from head to tail, and then
  NULL.
\<close>

theorem sxe_list_walker_visits_all:
  assumes "list_rep m list xs"
  shows "walker_run m (sxe_list_walker_construct list) (length xs + 1) =
    map (\<lambda>n. Some (n - list_offset (header m list))) xs @ [None]"
  using walker_run_seg[of m list "sxe_list_walker_construct list" xs] assms
  by (simp add: list_rep_def sxe_list_walker_construct_def)

theorem sxe_list_walker_visits_all_witness:
  "walker_run demo_list (sxe_list_walker_construct 1000) 4 = [Some 2000, Some 3000, Some 4000, None]"
  using sxe_list_walker_visits_all[OF demo_list_rep] by (simp add: demo_list_offset eval_nat_numeral)

text \<open>
  A list is relocatable: a memory that holds the same bytes at a distance \<open>d\<close> holds the
  same list, with all its nodes displaced by \<open>d\<close>.
\<close>

theorem sxe_list_relocatable:
  assumes "list_rep m list xs" and "\<And>a. a \<in> set (list # xs) \<Longrightarrow> node m' (a + d) = node m a"
    and "header m' (list + d) = header m list" and "NULL \<notin> (\<lambda>a. a + d) ` set (list # xs)"
  shows "list_rep m' (list + d) (map (\<lambda>a. a + d) xs)"
proof -
  have "seg m' (list + d) (list + d) (map (\<lambda>a. a + d) xs) (list + d)"
    using seg_relocate[of list xs list m' d m list] assms(1,2) by (auto simp: list_rep_def)
  then show ?thesis using assms by (auto simp: list_rep_def distinct_map inj_on_def)
qed

theorem sxe_list_relocatable_witness:
  "list_rep (\<lparr>node = (\<lambda>a. node demo_list (a - 500)), header = (\<lambda>l. header demo_list (l - 500))\<rparr> :: sxe_mem)
     1500 [2516, 3516, 4516]"
  using sxe_list_relocatable[OF demo_list_rep,
      of "\<lparr>node = (\<lambda>a. node demo_list (a - 500)), header = (\<lambda>l. header demo_list (l - 500))\<rparr>" 500]
  by simp

end
