(* ===== verification/SxeSpinlock.thy ===== *)
theory SxeSpinlock
  imports SxePrelude
begin

text \<open>
  \<^verbatim>\<open>lib-sxe-mmap/sxe-spinlock.h\<close>: the lock that guards a pool shared by threads or
  processes. The lock word holds the identifier of the thread that has it, or 0. The
  operations act on the lock word; what the other threads do to it while this one yields the
  processor is a parameter of \<open>sxe_spinlock_take\<close>. A step relation interleaves the atomic
  actions of any number of threads.
\<close>

section \<open>Data\<close>

type_synonym long = "64 word"

datatype SXE_SPINLOCK_STATUS =
  SXE_SPINLOCK_STATUS_NOT_TAKEN
| SXE_SPINLOCK_STATUS_TAKEN
| SXE_SPINLOCK_STATUS_ALREADY_TAKEN

section \<open>Operations\<close>

text \<open>The atomic primitive returns the old contents and the new contents of the word.\<close>

definition InterlockedCompareExchange :: "long \<Rightarrow> long \<Rightarrow> long \<Rightarrow> long \<times> long" where
  "InterlockedCompareExchange dest exchange comperand =
    (dest, if dest = comperand then exchange else dest)"

definition sxe_spinlock_construct :: long where
  "sxe_spinlock_construct = 0"

definition sxe_spinlock_force :: "long \<Rightarrow> long \<Rightarrow> long" where
  "sxe_spinlock_force lock tid =
    (let (old, lock) = InterlockedCompareExchange lock tid tid;
         (_, lock) = InterlockedCompareExchange lock tid old
     in lock)"

text \<open>
  One evaluation of the loop condition and body of \<open>sxe_spinlock_take\<close> up to the yield, or
  the return after the loop: the lock word, and the next count or the status returned.
\<close>

definition sxe_spinlock_take_iter ::
  "u32 \<Rightarrow> long \<Rightarrow> u32 \<Rightarrow> long \<Rightarrow> long \<times> (u32 + SXE_SPINLOCK_STATUS)" where
  "sxe_spinlock_take_iter count_max our_tid count lock =
    (if count < count_max then
       (let (old_tid, lock) = InterlockedCompareExchange lock our_tid 0
        in if old_tid \<noteq> 0 then
             (if old_tid = our_tid then (lock, Inr SXE_SPINLOCK_STATUS_ALREADY_TAKEN)
              else (lock, Inl (count + 1)))
           else (lock, Inr SXE_SPINLOCK_STATUS_TAKEN))
     else (lock, Inr SXE_SPINLOCK_STATUS_NOT_TAKEN))"

lemma take_iter_counts:
  "sxe_spinlock_take_iter count_max our_tid count lock = (lock', Inl count') \<Longrightarrow>
    unat count_max - unat count' < unat count_max - unat count"
  using unat_suc_of_less[of count count_max]
  by (auto simp: sxe_spinlock_take_iter_def InterlockedCompareExchange_def word_less_nat_alt split: if_splits)

function sxe_spinlock_take_loop ::
  "(u32 \<Rightarrow> long \<Rightarrow> long) \<Rightarrow> u32 \<Rightarrow> long \<Rightarrow> u32 \<Rightarrow> long \<Rightarrow> long \<times> SXE_SPINLOCK_STATUS" where
  "sxe_spinlock_take_loop yield count_max our_tid count lock =
    (case sxe_spinlock_take_iter count_max our_tid count lock of
       (lock, Inl count') \<Rightarrow> sxe_spinlock_take_loop yield count_max our_tid count' (yield count lock)
     | (lock, Inr status) \<Rightarrow> (lock, status))"
  by pat_completeness auto
termination
  by (relation "measure (\<lambda>(_, count_max, _, count, _). unat count_max - unat count)")
    (auto dest: take_iter_counts[OF sym])

declare sxe_spinlock_take_loop.simps [simp del]

definition sxe_spinlock_take ::
  "(u32 \<Rightarrow> long \<Rightarrow> long) \<Rightarrow> u32 \<Rightarrow> long \<Rightarrow> long \<Rightarrow> long \<times> SXE_SPINLOCK_STATUS" where
  "sxe_spinlock_take yield sxe_spinlock_count_max our_tid lock =
     sxe_spinlock_take_loop yield sxe_spinlock_count_max our_tid 0 lock"

definition sxe_spinlock_give :: "long \<Rightarrow> long \<Rightarrow> long option" where
  "sxe_spinlock_give our_tid lock =
    (let (old_tid, lock) = InterlockedCompareExchange lock 0 our_tid
     in do { SXEA1 (old_tid = our_tid); Some lock })"

section \<open>Interleaved threads\<close>

text \<open>
  Each thread is outside the lock operations or in the loop of \<open>sxe_spinlock_take\<close> with a
  count, and remembers whether it took the lock and has not given it back. A thread calls
  \<open>sxe_spinlock_give\<close> only when it took the lock: not after
  \<open>SXE_SPINLOCK_STATUS_ALREADY_TAKEN\<close> (``don't double unlock!'').
\<close>

record spin_thread =
  spinning :: "u32 option"
  took :: bool

record spin_system =
  lock_word :: long
  thread :: "long \<Rightarrow> spin_thread"
  aborted :: bool

definition spin_init :: spin_system where
  "spin_init = \<lparr>lock_word = sxe_spinlock_construct,
     thread = (\<lambda>_. \<lparr>spinning = None, took = False\<rparr>), aborted = False\<rparr>"

definition spin_call :: "long \<Rightarrow> spin_system \<Rightarrow> spin_system" where
  "spin_call t s = s\<lparr>thread := (thread s)(t := (thread s t)\<lparr>spinning := Some 0\<rparr>)\<rparr>"

definition spin_iter :: "u32 \<Rightarrow> long \<Rightarrow> u32 \<Rightarrow> spin_system \<Rightarrow> spin_system" where
  "spin_iter count_max t c s =
    (case sxe_spinlock_take_iter count_max t c (lock_word s) of
       (lk, Inl c') \<Rightarrow> s\<lparr>lock_word := lk, thread := (thread s)(t := (thread s t)\<lparr>spinning := Some c'\<rparr>)\<rparr>
     | (lk, Inr st) \<Rightarrow> s\<lparr>lock_word := lk, thread := (thread s)(t := \<lparr>spinning = None,
          took = took (thread s t) \<or> st = SXE_SPINLOCK_STATUS_TAKEN\<rparr>)\<rparr>)"

definition spin_give :: "long \<Rightarrow> spin_system \<Rightarrow> spin_system" where
  "spin_give t s =
    (case sxe_spinlock_give t (lock_word s) of
       None \<Rightarrow> s\<lparr>aborted := True\<rparr>
     | Some lk \<Rightarrow> s\<lparr>lock_word := lk, thread := (thread s)(t := (thread s t)\<lparr>took := False\<rparr>)\<rparr>)"

inductive spin_step :: "u32 \<Rightarrow> spin_system \<Rightarrow> spin_system \<Rightarrow> bool" for count_max where
  call: "t \<noteq> 0 \<Longrightarrow> spinning (thread s t) = None \<Longrightarrow> spin_step count_max s (spin_call t s)"
| iter: "t \<noteq> 0 \<Longrightarrow> spinning (thread s t) = Some c \<Longrightarrow> spin_step count_max s (spin_iter count_max t c s)"
| give: "t \<noteq> 0 \<Longrightarrow> spinning (thread s t) = None \<Longrightarrow> took (thread s t) \<Longrightarrow>
    spin_step count_max s (spin_give t s)"

inductive spin_reachable :: "u32 \<Rightarrow> spin_system \<Rightarrow> bool" for count_max where
  start: "spin_reachable count_max spin_init"
| next_state: "spin_reachable count_max s \<Longrightarrow> spin_step count_max s s' \<Longrightarrow> spin_reachable count_max s'"

inductive_cases spin_stepE: "spin_step count_max s s'"

text \<open>The thread that took the lock is the one whose identifier is in the lock word.\<close>

definition spin_inv :: "spin_system \<Rightarrow> bool" where
  "spin_inv s \<longleftrightarrow> \<not> aborted s \<and> \<not> took (thread s 0) \<and> (\<forall>t. t \<noteq> 0 \<longrightarrow> took (thread s t) = (lock_word s = t))"

text \<open>The word that the \<open>k\<close>-th attempt to take the lock finds.\<close>

fun lock_seen :: "(u32 \<Rightarrow> long \<Rightarrow> long) \<Rightarrow> long \<Rightarrow> nat \<Rightarrow> long" where
  "lock_seen yield lock 0 = lock"
| "lock_seen yield lock (Suc k) = yield (of_nat k) (lock_seen yield lock k)"

definition spin_demo :: spin_system where
  "spin_demo = spin_iter 100 5 0 (spin_iter 100 7 0 (spin_call 5 (spin_call 7 spin_init)))"

section \<open>Mutual exclusion\<close>

lemma spin_inv_step: "spin_step count_max s s' \<Longrightarrow> spin_inv s \<Longrightarrow> spin_inv s'"
  by (erule spin_stepE)
    (auto simp: spin_inv_def spin_call_def spin_iter_def spin_give_def sxe_spinlock_give_def
      sxe_spinlock_take_iter_def InterlockedCompareExchange_def split: if_splits)

lemma spin_reachable_inv: "spin_reachable count_max s \<Longrightarrow> spin_inv s"
proof (induction rule: spin_reachable.induct)
  case start
  show ?case by (simp add: spin_inv_def spin_init_def sxe_spinlock_construct_def)
next
  case (next_state s s')
  then show ?case by (simp add: spin_inv_step)
qed

section \<open>The spin loop\<close>

lemma take_loop_free:
  assumes "count < count_max"
  shows "sxe_spinlock_take_loop yield count_max tid count 0 = (tid, SXE_SPINLOCK_STATUS_TAKEN)"
  using assms
  by (subst sxe_spinlock_take_loop.simps)
    (simp add: sxe_spinlock_take_iter_def InterlockedCompareExchange_def)

lemma take_loop_ours:
  assumes "count < count_max" and "tid \<noteq> 0"
  shows "sxe_spinlock_take_loop yield count_max tid count tid = (tid, SXE_SPINLOCK_STATUS_ALREADY_TAKEN)"
  using assms
  by (subst sxe_spinlock_take_loop.simps)
    (simp add: sxe_spinlock_take_iter_def InterlockedCompareExchange_def)

lemma take_loop_busy:
  assumes "count < count_max" and "lock \<noteq> 0" and "lock \<noteq> tid"
  shows "sxe_spinlock_take_loop yield count_max tid count lock =
    sxe_spinlock_take_loop yield count_max tid (count + 1) (yield count lock)"
  using assms
  by (subst sxe_spinlock_take_loop.simps)
    (simp add: sxe_spinlock_take_iter_def InterlockedCompareExchange_def)

lemma take_loop_limit:
  assumes "\<not> count < count_max"
  shows "sxe_spinlock_take_loop yield count_max tid count lock = (lock, SXE_SPINLOCK_STATUS_NOT_TAKEN)"
  using assms
  by (subst sxe_spinlock_take_loop.simps) (simp add: sxe_spinlock_take_iter_def)

lemmas take_loop_simps = take_loop_free take_loop_ours take_loop_busy take_loop_limit

text \<open>While every attempt finds the lock held by another thread, the loop goes on.\<close>

lemma take_loop_busy_run:
  assumes "\<forall>j<k. lock_seen yield lock j \<notin> {0, tid}" and "k \<le> unat count_max"
  shows "sxe_spinlock_take_loop yield count_max tid 0 lock =
    sxe_spinlock_take_loop yield count_max tid (of_nat k) (lock_seen yield lock k)"
  using assms
proof (induction k)
  case (Suc k)
  have "(of_nat k :: u32) < count_max"
    using Suc.prems(2) by (simp add: of_nat_less_word)
  then show ?case using Suc by (simp add: take_loop_busy add.commute)
qed simp

lemma take_stops:
  assumes "\<forall>j<k. lock_seen yield lock j \<notin> {0, tid}" and "k < unat count_max" and "tid \<noteq> 0"
    and "lock_seen yield lock k \<in> {0, tid}"
  shows "sxe_spinlock_take yield count_max tid lock =
    (tid, if lock_seen yield lock k = 0 then SXE_SPINLOCK_STATUS_TAKEN
          else SXE_SPINLOCK_STATUS_ALREADY_TAKEN)"
proof -
  have "(of_nat k :: u32) < count_max" using assms(2) by (rule of_nat_less_word)
  then show ?thesis
    using take_loop_busy_run[OF assms(1) less_imp_le[OF assms(2)]] assms(3,4)
    by (auto simp: sxe_spinlock_take_def take_loop_simps)
qed

lemma take_gives_up:
  assumes "\<forall>j < unat count_max. lock_seen yield lock j \<notin> {0, tid}"
  shows "sxe_spinlock_take yield count_max tid lock =
    (lock_seen yield lock (unat count_max), SXE_SPINLOCK_STATUS_NOT_TAKEN)"
  using take_loop_busy_run[OF assms order_refl] by (simp add: sxe_spinlock_take_def take_loop_limit)

lemma take_taken:
  assumes "tid \<noteq> 0" and "sxe_spinlock_take yield count_max tid lock = (lk, SXE_SPINLOCK_STATUS_TAKEN)"
  shows "lk = tid"
proof -
  have "sxe_spinlock_take_loop yield count_max tid count lock = (lk, SXE_SPINLOCK_STATUS_TAKEN) \<Longrightarrow> lk = tid"
    for count lock
  proof (induction yield count_max tid count lock rule: sxe_spinlock_take_loop.induct)
    case (1 yield count_max tid count lock)
    then show ?case
      by (cases "count < count_max"; cases "lock = 0"; cases "lock = tid")
        (auto simp: take_loop_simps sxe_spinlock_take_iter_def InterlockedCompareExchange_def)
  qed
  with assms(2) show ?thesis by (simp add: sxe_spinlock_take_def)
qed

text \<open>When nobody else touches the lock word.\<close>

lemma take_alone:
  assumes "0 < count_max" and "tid \<noteq> 0"
  shows "sxe_spinlock_take (\<lambda>_ l. l) count_max tid lock =
    (if lock = 0 then (tid, SXE_SPINLOCK_STATUS_TAKEN)
     else if lock = tid then (tid, SXE_SPINLOCK_STATUS_ALREADY_TAKEN)
     else (lock, SXE_SPINLOCK_STATUS_NOT_TAKEN))"
proof -
  have seen: "lock_seen (\<lambda>_ l. l) lock k = lock" for k by (induction k) auto
  have "0 < unat count_max" using assms(1) by (simp add: word_less_nat_alt)
  then show ?thesis
    using take_stops[of 0 "\<lambda>_ l. l" lock tid count_max] take_gives_up[of count_max "\<lambda>_ l. l" lock tid] assms(2)
    by (auto simp: seen)
qed

section \<open>Correctness of the spinlock\<close>

text \<open>
  C5: in every state that any interleaving of any number of threads can reach, at most one
  thread holds the lock, the lock word names it (and is 0 when nobody holds it), and no
  \<open>sxe_spinlock_give\<close> by a thread that took the lock has aborted.
\<close>

theorem sxe_spinlock_mutual_exclusion:
  assumes "spin_reachable count_max s"
  shows "(took (thread s t) \<longrightarrow> took (thread s u) \<longrightarrow> t = u) \<and>
    (took (thread s t) \<longrightarrow> lock_word s = t \<and> t \<noteq> 0) \<and>
    (lock_word s \<noteq> 0 \<longrightarrow> took (thread s (lock_word s))) \<and> \<not> aborted s"
  using spin_reachable_inv[OF assms] unfolding spin_inv_def by metis

lemma spin_demo_reachable: "spin_reachable 100 spin_demo"
proof -
  have s1: "spin_reachable 100 (spin_call 7 spin_init)"
    by (rule next_state[OF start call]) (simp_all add: spin_init_def)
  have s2: "spin_reachable 100 (spin_call 5 (spin_call 7 spin_init))"
    by (rule next_state[OF s1 call]) (simp_all add: spin_init_def spin_call_def)
  have s3: "spin_reachable 100 (spin_iter 100 7 0 (spin_call 5 (spin_call 7 spin_init)))"
    by (rule next_state[OF s2 iter]) (simp_all add: spin_init_def spin_call_def)
  show ?thesis unfolding spin_demo_def
    by (rule next_state[OF s3 iter])
      (simp_all add: spin_init_def spin_call_def spin_iter_def sxe_spinlock_take_iter_def
        sxe_spinlock_construct_def InterlockedCompareExchange_def)
qed

theorem sxe_spinlock_mutual_exclusion_witness:
  "took (thread spin_demo 7) \<and> \<not> took (thread spin_demo 5) \<and> lock_word spin_demo = 7"
proof -
  have "took (thread spin_demo 7)"
    by (simp add: spin_demo_def spin_init_def spin_call_def spin_iter_def sxe_spinlock_take_iter_def
        sxe_spinlock_construct_def InterlockedCompareExchange_def)
  with sxe_spinlock_mutual_exclusion[OF spin_demo_reachable, of 7 5] show ?thesis by auto
qed

text \<open>
  C6: \<open>sxe_spinlock_take\<close> always returns, whatever the other threads do to the lock word. It
  stops at the first of its \<open>sxe_spinlock_count_max\<close> attempts that finds the lock free or its
  own, with the lock word set to its thread; otherwise it gives up and leaves the word alone.
\<close>

theorem sxe_spinlock_take_outcome:
  assumes "tid \<noteq> 0"
  shows "(\<forall>j < unat count_max. lock_seen yield lock j \<notin> {0, tid}) \<and>
      sxe_spinlock_take yield count_max tid lock =
        (lock_seen yield lock (unat count_max), SXE_SPINLOCK_STATUS_NOT_TAKEN) \<or>
    (\<exists>k < unat count_max. (\<forall>j<k. lock_seen yield lock j \<notin> {0, tid}) \<and>
      lock_seen yield lock k \<in> {0, tid} \<and>
      sxe_spinlock_take yield count_max tid lock =
        (tid, if lock_seen yield lock k = 0 then SXE_SPINLOCK_STATUS_TAKEN
              else SXE_SPINLOCK_STATUS_ALREADY_TAKEN))"
proof (cases "\<exists>k < unat count_max. lock_seen yield lock k \<in> {0, tid}")
  case True
  define k where "k = (LEAST k. k < unat count_max \<and> lock_seen yield lock k \<in> {0, tid})"
  have k: "k < unat count_max" "lock_seen yield lock k \<in> {0, tid}"
    using LeastI_ex[OF True] by (simp_all add: k_def)
  have "\<forall>j<k. lock_seen yield lock j \<notin> {0, tid}"
    using not_less_Least k(1) by (fastforce simp: k_def)
  with k take_stops[OF this k(1) assms k(2)] show ?thesis by blast
next
  case False
  then show ?thesis using take_gives_up[of count_max yield lock tid] by blast
qed

theorem sxe_spinlock_take_outcome_witness:
  "snd (sxe_spinlock_take (\<lambda>_ _. 0) 3 7 9) = SXE_SPINLOCK_STATUS_TAKEN"
proof -
  have seen: "lock_seen (\<lambda>_ _. 0) 9 k = (if k = 0 then 9 else 0)" for k by (cases k) auto
  have "1 < unat (3 :: u32)" by simp
  then show ?thesis
    using sxe_spinlock_take_outcome[of 7 3 "\<lambda>_ _. 0" 9] by (force simp: seen split: if_splits)
qed

end
