(* ===== verification/SxePool.thy ===== *)
theory SxePool
  imports SxeList SxeSpinlock SxeTime
begin

text \<open>
  \<^verbatim>\<open>lib-sxe-pool/sxe-pool.c\<close>: a pool is a fixed array of elements, each in one of a fixed
  number of states. Every state has a queue of the elements in it, oldest first, and each
  element's node records the time or the count at which it was put there. The memory extends
  that of the lists with the pool structures and the \<open>last\<close> members of the pool nodes.

  The structure sizes are those of the LP64 data model. The calling thread, the spin limit, what
  other threads do to a lock word during a yield and the time of day form the environment of an
  operation. The state passed to an operation on a locked pool is the state in which it gets
  the lock (or gives up).
\<close>

section \<open>Data\<close>

record sxe_pool_impl =
  spinlock :: long
  pool_name :: string
  options :: u32
  number :: u32
  elem_size :: u64
  states :: u32
  nodes_rel :: addr
  queue_rel :: addr
  event_timeout :: "addr option"
  caller_info :: addr
  state_timeouts :: "SXE_TIME list option"
  next_count :: u64

record sxe_pool_mem = sxe_mem +
  pool_impl :: "addr \<Rightarrow> sxe_pool_impl"
  node_last :: "addr \<Rightarrow> u64"
  sxe_pool_timeout_list :: addr
  sxe_pool_timeout_count :: u32

record sxe_env =
  env_tid :: long
  env_count_max :: u32
  env_yield :: "u32 \<Rightarrow> long \<Rightarrow> long"
  env_tod :: timeval

definition SXE_POOL_LOCK_TAKEN :: u32 where "SXE_POOL_LOCK_TAKEN = 0"
definition SXE_POOL_NO_INDEX :: u32 where "SXE_POOL_NO_INDEX = - 1"
definition SXE_POOL_INCORRECT_STATE :: u32 where "SXE_POOL_INCORRECT_STATE = - 2"
definition SXE_POOL_LOCK_NOT_TAKEN :: u32 where "SXE_POOL_LOCK_NOT_TAKEN = - 3"
definition SXE_POOL_NAME_MAXIMUM_LENGTH :: nat where "SXE_POOL_NAME_MAXIMUM_LENGTH = 31"
definition SXE_POOL_OPTION_UNLOCKED :: u32 where "SXE_POOL_OPTION_UNLOCKED = 0"
definition SXE_POOL_OPTION_LOCKED :: u32 where "SXE_POOL_OPTION_LOCKED = 1"
definition SXE_POOL_OPTION_TIMED :: u32 where "SXE_POOL_OPTION_TIMED = 2"

abbreviation is_locked :: "sxe_pool_impl \<Rightarrow> bool" where
  "is_locked p \<equiv> options p AND SXE_POOL_OPTION_LOCKED \<noteq> 0"

abbreviation is_timed :: "sxe_pool_impl \<Rightarrow> bool" where
  "is_timed p \<equiv> options p AND SXE_POOL_OPTION_TIMED \<noteq> 0"

text \<open>\<open>sizeof\<close> and \<open>offsetof\<close> values.\<close>

definition sizeof_SXE_POOL_IMPL :: int where "sizeof_SXE_POOL_IMPL = 144"
definition sizeof_SXE_LIST :: int where "sizeof_SXE_LIST = 40"
definition sizeof_SXE_POOL_NODE :: int where "sizeof_SXE_POOL_NODE = 32"
definition offsetof_timeout_node :: int where "offsetof_timeout_node = 104"
definition offsetof_list_node :: int where "offsetof_list_node = 0"

definition SXE_POOL_ARRAY_TO_IMPL :: "addr \<Rightarrow> addr" where
  "SXE_POOL_ARRAY_TO_IMPL array = array - sizeof_SXE_POOL_IMPL"

definition SXE_POOL_IMPL_TO_ARRAY :: "addr \<Rightarrow> addr" where
  "SXE_POOL_IMPL_TO_ARRAY impl = impl + sizeof_SXE_POOL_IMPL"

definition SXE_POOL_NODES :: "'a sxe_pool_mem_scheme \<Rightarrow> addr \<Rightarrow> addr" where
  "SXE_POOL_NODES m pool = SXE_PTR_FIX pool (nodes_rel (pool_impl m pool))"

definition SXE_POOL_QUEUE :: "'a sxe_pool_mem_scheme \<Rightarrow> addr \<Rightarrow> addr" where
  "SXE_POOL_QUEUE m pool = SXE_PTR_FIX pool (queue_rel (pool_impl m pool))"

text \<open>\<open>&SXE_POOL_NODES(pool)[id]\<close>, \<open>&SXE_POOL_QUEUE(pool)[state]\<close> and
  \<open>node - SXE_POOL_NODES(pool)\<close> stored in an unsigned.\<close>

definition node_at :: "'a sxe_pool_mem_scheme \<Rightarrow> addr \<Rightarrow> u32 \<Rightarrow> addr" where
  "node_at m pool i = SXE_POOL_NODES m pool + uint i * sizeof_SXE_POOL_NODE"

definition queue_at :: "'a sxe_pool_mem_scheme \<Rightarrow> addr \<Rightarrow> u32 \<Rightarrow> addr" where
  "queue_at m pool state = SXE_POOL_QUEUE m pool + uint state * sizeof_SXE_LIST"

definition node_index :: "'a sxe_pool_mem_scheme \<Rightarrow> addr \<Rightarrow> addr \<Rightarrow> u32" where
  "node_index m pool n = of_int ((n - SXE_POOL_NODES m pool) div sizeof_SXE_POOL_NODE)"

text \<open>Stores to the pool structure and to the \<open>last\<close> member of a node.\<close>

definition set_impl :: "addr \<Rightarrow> (sxe_pool_impl \<Rightarrow> sxe_pool_impl) \<Rightarrow> 'a sxe_pool_mem_scheme \<Rightarrow> 'a sxe_pool_mem_scheme" where
  "set_impl pool f m = m\<lparr>pool_impl := (pool_impl m)(pool := f (pool_impl m pool))\<rparr>"

definition set_last :: "addr \<Rightarrow> u64 \<Rightarrow> 'a sxe_pool_mem_scheme \<Rightarrow> 'a sxe_pool_mem_scheme" where
  "set_last n v m = m\<lparr>node_last := (node_last m)(n := v)\<rparr>"

abbreviation ARRAY_INITIALIZED :: "addr \<Rightarrow> unit option" where
  "ARRAY_INITIALIZED array \<equiv> SXEA6 (array \<noteq> NULL)"

section \<open>Locking\<close>

definition sxe_pool_lock :: "sxe_env \<Rightarrow> addr \<Rightarrow> 'a sxe_pool_mem_scheme \<Rightarrow> 'a sxe_pool_mem_scheme \<times> u32" where
  "sxe_pool_lock env pool m =
    (if \<not> is_locked (pool_impl m pool) then (m, SXE_POOL_LOCK_TAKEN)
     else
       (let (lk, status) = sxe_spinlock_take (env_yield env) (env_count_max env) (env_tid env)
              (spinlock (pool_impl m pool));
            m = set_impl pool (spinlock_update (\<lambda>_. lk)) m
        in (m, if status \<noteq> SXE_SPINLOCK_STATUS_TAKEN then SXE_POOL_LOCK_NOT_TAKEN
               else SXE_POOL_LOCK_TAKEN)))"

definition sxe_pool_unlock :: "sxe_env \<Rightarrow> addr \<Rightarrow> 'a sxe_pool_mem_scheme \<Rightarrow> 'a sxe_pool_mem_scheme option" where
  "sxe_pool_unlock env pool m =
    (if \<not> is_locked (pool_impl m pool) then Some m
     else do {
       lk \<leftarrow> sxe_spinlock_give (env_tid env) (spinlock (pool_impl m pool));
       Some (set_impl pool (spinlock_update (\<lambda>_. lk)) m)
     })"

section \<open>Construction\<close>

definition sxe_pool_size :: "u32 \<Rightarrow> u64 \<Rightarrow> u32 \<Rightarrow> u64" where
  "sxe_pool_size number1 size1 states1 =
     1 * of_int sizeof_SXE_POOL_IMPL + ucast number1 * size1 + ucast states1 * of_int sizeof_SXE_LIST +
     ucast number1 * of_int sizeof_SXE_POOL_NODE"

text \<open>\<open>for (i = states; i-- > 0; )\<close> and \<open>for (i = number; i-- > 0; )\<close>\<close>

fun construct_queues :: "'a sxe_pool_mem_scheme \<Rightarrow> addr \<Rightarrow> nat \<Rightarrow> 'a sxe_pool_mem_scheme" where
  "construct_queues m pool 0 = m"
| "construct_queues m pool (Suc i) =
    construct_queues (sxe_list_construct_impl m (queue_at m pool (of_nat i)) (of_nat i) offsetof_list_node) pool i"

fun construct_free_list :: "'a sxe_pool_mem_scheme \<Rightarrow> addr \<Rightarrow> SXE_TIME \<Rightarrow> nat \<Rightarrow> 'a sxe_pool_mem_scheme" where
  "construct_free_list m pool current_time 0 = m"
| "construct_free_list m pool current_time (Suc i) =
    (let m = (if is_timed (pool_impl m pool) then set_last (node_at m pool (of_nat i)) current_time m
              else
                (let m = set_impl pool (next_count_update (\<lambda>c. c + 1)) m
                 in set_last (node_at m pool (of_nat i)) (next_count (pool_impl m pool)) m));
         m = sxe_list_push m (queue_at m pool 0) (node_at m pool (of_nat i))
     in construct_free_list m pool current_time i)"

definition sxe_pool_construct ::
  "sxe_env \<Rightarrow> 'a sxe_pool_mem_scheme \<Rightarrow> addr \<Rightarrow> string \<Rightarrow> u32 \<Rightarrow> u64 \<Rightarrow> u32 \<Rightarrow> u32 \<Rightarrow> 'a sxe_pool_mem_scheme \<times> addr" where
  "sxe_pool_construct env m base name number1 size1 states1 options1 =
    (let pool = base;
         m = set_impl pool (\<lambda>p. p\<lparr>
           queue_rel := uint (of_int sizeof_SXE_POOL_IMPL + ucast number1 * size1 :: u64),
           nodes_rel := uint (of_int sizeof_SXE_POOL_IMPL + ucast number1 * size1 +
                              ucast states1 * of_int sizeof_SXE_LIST :: u64),
           number := number1, elem_size := size1, states := states1, options := options1,
           state_timeouts := None\<rparr>) m;
         m = (if is_locked (pool_impl m pool)
              then set_impl pool (spinlock_update (\<lambda>_. sxe_spinlock_construct)) m else m);
         m = set_impl pool (\<lambda>p. p\<lparr>pool_name := take SXE_POOL_NAME_MAXIMUM_LENGTH name, event_timeout := None\<rparr>) m;
         m = construct_queues m pool (unat states1);
         current_time = (if is_timed (pool_impl m pool) then sxe_time_get (env_tod env) else 0);
         m = (if is_timed (pool_impl m pool) then m else set_impl pool (next_count_update (\<lambda>_. 0)) m);
         m = construct_free_list m pool current_time (unat number1)
     in (m, pool + sizeof_SXE_POOL_IMPL))"

definition sxe_pool_from_base :: "addr \<Rightarrow> addr" where
  "sxe_pool_from_base base = SXE_POOL_IMPL_TO_ARRAY base"

definition sxe_pool_to_base :: "addr \<Rightarrow> addr" where
  "sxe_pool_to_base array = SXE_POOL_ARRAY_TO_IMPL array"

text \<open>The argument \<open>base\<close> is what \<open>sxe_malloc\<close> returns.\<close>

definition sxe_pool_new ::
  "sxe_env \<Rightarrow> 'a sxe_pool_mem_scheme \<Rightarrow> addr option \<Rightarrow> string \<Rightarrow> u32 \<Rightarrow> u64 \<Rightarrow> u32 \<Rightarrow> u32 \<Rightarrow>
   ('a sxe_pool_mem_scheme \<times> addr) option" where
  "sxe_pool_new env m malloc_result name number1 size1 states1 options1 = do {
     base \<leftarrow> malloc_result;
     Some (sxe_pool_construct env m base name number1 size1 states1 options1)
   }"

text \<open>
  The timeouts are given as fixed-point times: \<open>sxe_time_from_double_seconds\<close> is applied to
  the caller's doubles outside the model. The second malloc holds the array of timeouts.
\<close>

definition sxe_pool_new_with_timeouts ::
  "sxe_env \<Rightarrow> 'a sxe_pool_mem_scheme \<Rightarrow> addr option \<Rightarrow> bool \<Rightarrow> string \<Rightarrow> u32 \<Rightarrow> u64 \<Rightarrow> u32 \<Rightarrow> SXE_TIME list \<Rightarrow>
   addr option \<Rightarrow> addr \<Rightarrow> ('a sxe_pool_mem_scheme \<times> addr) option" where
  "sxe_pool_new_with_timeouts env m malloc_result malloc2_ok name number1 size1 states1 timeouts callback info = do {
     SXEA1 (callback \<noteq> None);
     let m = (if sxe_pool_timeout_count m = 0
              then sxe_list_construct_impl m (sxe_pool_timeout_list m) 0 offsetof_timeout_node else m);
     (m, array) \<leftarrow> sxe_pool_new env m malloc_result name number1 size1 states1 SXE_POOL_OPTION_TIMED;
     let pool = SXE_POOL_ARRAY_TO_IMPL array;
     let m = set_impl pool (\<lambda>p. p\<lparr>event_timeout := callback, caller_info := info\<rparr>) m;
     SXEA1 malloc2_ok;
     let m = set_impl pool (\<lambda>p. p\<lparr>state_timeouts := Some (take (unat states1) timeouts)\<rparr>) m;
     let m = sxe_list_push m (sxe_pool_timeout_list m) pool;
     Some (m\<lparr>sxe_pool_timeout_count := sxe_pool_timeout_count m + 1\<rparr>, array)
   }"

section \<open>Queries\<close>

definition sxe_pool_get_number_in_state :: "'a sxe_pool_mem_scheme \<Rightarrow> addr \<Rightarrow> u32 \<Rightarrow> u32 option" where
  "sxe_pool_get_number_in_state m array state =
    (let pool = SXE_POOL_ARRAY_TO_IMPL array
     in do { ARRAY_INITIALIZED array; Some (SXE_LIST_GET_LENGTH m (queue_at m pool state)) })"

definition sxe_pool_index_to_state :: "'a sxe_pool_mem_scheme \<Rightarrow> addr \<Rightarrow> u32 \<Rightarrow> u32 option" where
  "sxe_pool_index_to_state m array i =
    (let pool = SXE_POOL_ARRAY_TO_IMPL array
     in do { SXEA1 (i < number (pool_impl m pool)); Some (node_id (node m (node_at m pool i))) })"

definition sxe_pool_get_oldest_element_index ::
  "sxe_env \<Rightarrow> 'a sxe_pool_mem_scheme \<Rightarrow> addr \<Rightarrow> u32 \<Rightarrow> ('a sxe_pool_mem_scheme \<times> u32) option" where
  "sxe_pool_get_oldest_element_index env m array state =
    (let pool = SXE_POOL_ARRAY_TO_IMPL array
     in do {
       ARRAY_INITIALIZED array;
       SXEA6 (state \<le> states (pool_impl m pool));
       let (m, result) = sxe_pool_lock env pool m;
       if result = SXE_POOL_LOCK_NOT_TAKEN then Some (m, SXE_POOL_NO_INDEX)
       else do {
         n \<leftarrow> sxe_list_peek_head m (queue_at m pool state);
         let i = (case n of None \<Rightarrow> SXE_POOL_NO_INDEX | Some n \<Rightarrow> node_index m pool n);
         m \<leftarrow> sxe_pool_unlock env pool m;
         Some (m, i)
       }
     })"

definition sxe_pool_impl_get_oldest_element_time_or_count ::
  "sxe_env \<Rightarrow> 'a sxe_pool_mem_scheme \<Rightarrow> addr \<Rightarrow> u32 \<Rightarrow> ('a sxe_pool_mem_scheme \<times> u64) option" where
  "sxe_pool_impl_get_oldest_element_time_or_count env m pool state = do {
     let (m, result) = sxe_pool_lock env pool m;
     if result = SXE_POOL_LOCK_NOT_TAKEN then Some (m, 0)
     else do {
       n \<leftarrow> sxe_list_peek_head m (queue_at m pool state);
       let last_time = (case n of None \<Rightarrow> 0 | Some n \<Rightarrow> node_last m n);
       m \<leftarrow> sxe_pool_unlock env pool m;
       Some (m, last_time)
     }
   }"

definition sxe_pool_get_oldest_element_time ::
  "sxe_env \<Rightarrow> 'a sxe_pool_mem_scheme \<Rightarrow> addr \<Rightarrow> u32 \<Rightarrow> ('a sxe_pool_mem_scheme \<times> SXE_TIME) option" where
  "sxe_pool_get_oldest_element_time env m array state =
    (let pool = SXE_POOL_ARRAY_TO_IMPL array
     in do {
       ARRAY_INITIALIZED array;
       SXEA1 (is_timed (pool_impl m pool));
       sxe_pool_impl_get_oldest_element_time_or_count env m pool state
     })"

definition sxe_pool_get_oldest_element_count ::
  "sxe_env \<Rightarrow> 'a sxe_pool_mem_scheme \<Rightarrow> addr \<Rightarrow> u32 \<Rightarrow> ('a sxe_pool_mem_scheme \<times> u64) option" where
  "sxe_pool_get_oldest_element_count env m array state =
    (let pool = SXE_POOL_ARRAY_TO_IMPL array
     in do {
       ARRAY_INITIALIZED array;
       SXEA1 (\<not> is_timed (pool_impl m pool));
       sxe_pool_impl_get_oldest_element_time_or_count env m pool state
     })"

definition sxe_pool_get_element_time_by_index :: "'a sxe_pool_mem_scheme \<Rightarrow> addr \<Rightarrow> u32 \<Rightarrow> SXE_TIME option" where
  "sxe_pool_get_element_time_by_index m array element =
    (let pool = SXE_POOL_ARRAY_TO_IMPL array
     in do {
       ARRAY_INITIALIZED array;
       SXEA1 (is_timed (pool_impl m pool));
       SXEA6 (element < number (pool_impl m pool));
       Some (node_last m (node_at m pool element))
     })"

section \<open>State changes\<close>

definition SXE_POOL_ON_INCORRECT_STATE_RETURN_FALSE :: u32 where
  "SXE_POOL_ON_INCORRECT_STATE_RETURN_FALSE = 0"

definition SXE_POOL_ON_INCORRECT_STATE_ABORT :: u32 where
  "SXE_POOL_ON_INCORRECT_STATE_ABORT = 1"

definition sxe_pool_set_indexed_element_state_unlocked ::
  "sxe_env \<Rightarrow> 'a sxe_pool_mem_scheme \<Rightarrow> addr \<Rightarrow> u32 \<Rightarrow> u32 \<Rightarrow> u32 \<Rightarrow> u32 \<Rightarrow> ('a sxe_pool_mem_scheme \<times> bool) option" where
  "sxe_pool_set_indexed_element_state_unlocked env m array i old_state new_state on_incorrect_state =
    (let pool = SXE_POOL_ARRAY_TO_IMPL array
     in do {
       ARRAY_INITIALIZED array;
       let n = node_at m pool i;
       if node_id (node m n) \<noteq> old_state then do {
         SXEA1 (on_incorrect_state \<noteq> SXE_POOL_ON_INCORRECT_STATE_ABORT);
         Some (m, False)
       }
       else do {
         (m, _) \<leftarrow> sxe_list_remove m (queue_at m pool old_state) n;
         let m = (if is_timed (pool_impl m pool) then set_last n (sxe_time_get (env_tod env)) m
                  else
                    (let m = set_impl pool (next_count_update (\<lambda>c. c + 1)) m
                     in set_last n (next_count (pool_impl m pool)) m));
         let m = sxe_list_push m (queue_at m pool new_state) n;
         Some (m, True)
       }
     })"

definition sxe_pool_set_indexed_element_state ::
  "sxe_env \<Rightarrow> 'a sxe_pool_mem_scheme \<Rightarrow> addr \<Rightarrow> u32 \<Rightarrow> u32 \<Rightarrow> u32 \<Rightarrow> ('a sxe_pool_mem_scheme \<times> u32) option" where
  "sxe_pool_set_indexed_element_state env m array i old_state new_state =
    (let pool = SXE_POOL_ARRAY_TO_IMPL array
     in do {
       ARRAY_INITIALIZED array;
       SXEA6 (i < number (pool_impl m pool));
       SXEA6 (old_state \<le> states (pool_impl m pool));
       SXEA6 (new_state \<le> states (pool_impl m pool));
       let (m, result) = sxe_pool_lock env pool m;
       if result = SXE_POOL_LOCK_NOT_TAKEN then Some (m, result)
       else do {
         (m, success) \<leftarrow> sxe_pool_set_indexed_element_state_unlocked env m array i old_state new_state
                           SXE_POOL_ON_INCORRECT_STATE_ABORT;
         SXEA1 success;
         m \<leftarrow> sxe_pool_unlock env pool m;
         Some (m, result)
       }
     })"

text \<open>The last component of the result is \<open>*new_state_inout\<close>.\<close>

definition sxe_pool_try_to_set_indexed_element_state ::
  "sxe_env \<Rightarrow> 'a sxe_pool_mem_scheme \<Rightarrow> addr \<Rightarrow> u32 \<Rightarrow> u32 \<Rightarrow> u32 \<Rightarrow> ('a sxe_pool_mem_scheme \<times> u32 \<times> u32) option" where
  "sxe_pool_try_to_set_indexed_element_state env m array i old_state new_state_inout =
    (let pool = SXE_POOL_ARRAY_TO_IMPL array
     in do {
       ARRAY_INITIALIZED array;
       SXEA6 (i < number (pool_impl m pool));
       SXEA6 (old_state \<le> states (pool_impl m pool));
       SXEA6 (new_state_inout \<le> states (pool_impl m pool));
       let (m, lock_result) = sxe_pool_lock env pool m;
       if lock_result = SXE_POOL_LOCK_NOT_TAKEN then Some (m, SXE_POOL_LOCK_NOT_TAKEN, new_state_inout)
       else do {
         (m, success) \<leftarrow> sxe_pool_set_indexed_element_state_unlocked env m array i old_state new_state_inout
                           SXE_POOL_ON_INCORRECT_STATE_RETURN_FALSE;
         (result, new_state_inout) \<leftarrow>
           (if success then Some (i, new_state_inout)
            else do { st \<leftarrow> sxe_pool_index_to_state m array i; Some (SXE_POOL_INCORRECT_STATE, st) });
         m \<leftarrow> sxe_pool_unlock env pool m;
         Some (m, result, new_state_inout)
       }
     })"

definition sxe_pool_set_oldest_element_state ::
  "sxe_env \<Rightarrow> 'a sxe_pool_mem_scheme \<Rightarrow> addr \<Rightarrow> u32 \<Rightarrow> u32 \<Rightarrow> ('a sxe_pool_mem_scheme \<times> u32) option" where
  "sxe_pool_set_oldest_element_state env m array old_state new_state =
    (let pool = SXE_POOL_ARRAY_TO_IMPL array
     in do {
       ARRAY_INITIALIZED array;
       SXEA6 (old_state \<le> states (pool_impl m pool));
       SXEA6 (new_state \<le> states (pool_impl m pool));
       let (m, result) = sxe_pool_lock env pool m;
       if result = SXE_POOL_LOCK_NOT_TAKEN then Some (m, result)
       else do {
         n \<leftarrow> sxe_list_peek_head m (queue_at m pool old_state);
         (m, result) \<leftarrow>
           (case n of None \<Rightarrow> Some (m, SXE_POOL_NO_INDEX)
            | Some n \<Rightarrow> do {
                let result = node_index m pool n;
                (m, success) \<leftarrow> sxe_pool_set_indexed_element_state_unlocked env m array result old_state new_state
                                  SXE_POOL_ON_INCORRECT_STATE_ABORT;
                SXEA1 success;
                Some (m, result)
              });
         m \<leftarrow> sxe_pool_unlock env pool m;
         Some (m, result)
       }
     })"

definition sxe_pool_touch_indexed_element ::
  "sxe_env \<Rightarrow> 'a sxe_pool_mem_scheme \<Rightarrow> addr \<Rightarrow> u32 \<Rightarrow> ('a sxe_pool_mem_scheme \<times> u32) option" where
  "sxe_pool_touch_indexed_element env m array i =
    (let pool = SXE_POOL_ARRAY_TO_IMPL array
     in do {
       ARRAY_INITIALIZED array;
       let (m, result) = sxe_pool_lock env pool m;
       if result = SXE_POOL_LOCK_NOT_TAKEN then Some (m, result)
       else do {
         let n = node_at m pool i;
         let state = node_id (node m n);
         (m, success) \<leftarrow> sxe_pool_set_indexed_element_state_unlocked env m array i state state
                           SXE_POOL_ON_INCORRECT_STATE_ABORT;
         SXEA1 success;
         m \<leftarrow> sxe_pool_unlock env pool m;
         Some (m, result)
       }
     })"

text \<open>
  Freeing the memory of a deleted pool is outside the model: the result is the memory in
  which the pool is off the list of pools with timeouts.
\<close>

definition sxe_pool_delete :: "'a sxe_pool_mem_scheme \<Rightarrow> addr \<Rightarrow> 'a sxe_pool_mem_scheme option" where
  "sxe_pool_delete m array =
    (let pool = SXE_POOL_ARRAY_TO_IMPL array
     in do {
       ARRAY_INITIALIZED array;
       if event_timeout (pool_impl m pool) \<noteq> None then do {
         (m, removed) \<leftarrow> sxe_list_remove m (sxe_pool_timeout_list m) pool;
         SXEA1 (removed = pool);
         Some m
       }
       else Some m
     })"

definition sxe_pool_override_locked :: "'a sxe_pool_mem_scheme \<Rightarrow> addr \<Rightarrow> 'a sxe_pool_mem_scheme option" where
  "sxe_pool_override_locked m array =
    (let pool = SXE_POOL_ARRAY_TO_IMPL array
     in do {
       ARRAY_INITIALIZED array;
       Some (if is_locked (pool_impl m pool)
             then set_impl pool (\<lambda>p. p\<lparr>spinlock := sxe_spinlock_force (spinlock p) 0\<rparr>) m else m)
     })"

section \<open>Timeouts\<close>

text \<open>
  \<open>sxe_pool_check_timeouts\<close> runs the pools' callbacks, which are the program's own code and
  may change any pool, so its three nested loops need not end: they are partial functions into
  the option type. The argument \<open>callback\<close> says what the function at an address does to the
  memory when called with an array, an index and the caller's pointer.
\<close>

type_synonym 'a sxe_pool_event_timeout =
  "addr \<Rightarrow> 'a sxe_pool_mem_scheme \<Rightarrow> addr \<Rightarrow> u32 \<Rightarrow> addr \<Rightarrow> 'a sxe_pool_mem_scheme option"

partial_function (option) check_state_timeouts ::
  "sxe_env \<Rightarrow> 'a sxe_pool_event_timeout \<Rightarrow> SXE_TIME \<Rightarrow> addr \<Rightarrow> u32 \<Rightarrow> SXE_TIME \<Rightarrow> u32 \<Rightarrow> SXE_TIME \<Rightarrow>
   'a sxe_pool_mem_scheme \<Rightarrow> 'a sxe_pool_mem_scheme option" where
  "check_state_timeouts env callback time_now pool state timeout index_last time_last m = do {
     (m, index_oldest) \<leftarrow> sxe_pool_get_oldest_element_index env m (SXE_POOL_IMPL_TO_ARRAY pool) state;
     if index_oldest = SXE_POOL_NO_INDEX then Some m
     else do {
       (m, time_oldest) \<leftarrow> sxe_pool_get_oldest_element_time env m (SXE_POOL_IMPL_TO_ARRAY pool) state;
       SXEA1 (index_last \<noteq> index_oldest \<or> time_oldest \<noteq> time_last);
       if time_now - time_oldest < timeout then Some m
       else do {
         f \<leftarrow> event_timeout (pool_impl m pool);
         m \<leftarrow> callback f m (SXE_POOL_IMPL_TO_ARRAY pool) index_oldest (caller_info (pool_impl m pool));
         check_state_timeouts env callback time_now pool state timeout index_oldest time_oldest m
       }
     }
   }"

partial_function (option) check_pool_timeouts ::
  "sxe_env \<Rightarrow> 'a sxe_pool_event_timeout \<Rightarrow> SXE_TIME \<Rightarrow> addr \<Rightarrow> u32 \<Rightarrow>
   'a sxe_pool_mem_scheme \<Rightarrow> 'a sxe_pool_mem_scheme option" where
  "check_pool_timeouts env callback time_now pool state m =
    (if state < states (pool_impl m pool) then do {
       timeouts \<leftarrow> state_timeouts (pool_impl m pool);
       let timeout = timeouts ! unat state;
       m \<leftarrow> (if timeout = 0 then Some m
            else check_state_timeouts env callback time_now pool state timeout SXE_POOL_NO_INDEX 0 m);
       check_pool_timeouts env callback time_now pool (state + 1) m
     }
     else Some m)"

partial_function (option) check_timeouts_walk ::
  "sxe_env \<Rightarrow> 'a sxe_pool_event_timeout \<Rightarrow> SXE_TIME \<Rightarrow> sxe_list_walker \<Rightarrow>
   'a sxe_pool_mem_scheme \<Rightarrow> 'a sxe_pool_mem_scheme option" where
  "check_timeouts_walk env callback time_now walker m =
    (case sxe_list_walker_step m walker of
       (walker, None) \<Rightarrow> Some m
     | (walker, Some pool) \<Rightarrow> do {
         m \<leftarrow> check_pool_timeouts env callback time_now pool 0 m;
         check_timeouts_walk env callback time_now walker m
       })"

definition sxe_pool_check_timeouts ::
  "sxe_env \<Rightarrow> 'a sxe_pool_event_timeout \<Rightarrow> 'a sxe_pool_mem_scheme \<Rightarrow> 'a sxe_pool_mem_scheme option" where
  "sxe_pool_check_timeouts env callback m =
    check_timeouts_walk env callback (sxe_time_get (env_tod env))
      (sxe_list_walker_construct (sxe_pool_timeout_list m)) m"

section \<open>Abstract view\<close>

text \<open>
  The abstract state of a pool gives, for each state, the indices of the elements in it, oldest
  first. \<open>pool_rep m pool Q\<close> relates it to the memory: the state queues form a family of
  disjoint lists, every element is in the queue of exactly one state, and the identifier of a
  queue is its state.
\<close>

definition pool_rep :: "'a sxe_pool_mem_scheme \<Rightarrow> addr \<Rightarrow> (u32 \<Rightarrow> u32 list) \<Rightarrow> bool" where
  "pool_rep m pool Q \<longleftrightarrow>
     queue_family list_rep m (queue_at m pool) (\<lambda>s. map (node_at m pool) (Q s)) {s. s < states (pool_impl m pool)} \<and>
     (\<forall>s < states (pool_impl m pool). node_id (node m (queue_at m pool s)) = s \<and>
        list_offset (header m (queue_at m pool s)) = 0) \<and>
     (\<forall>i. i < number (pool_impl m pool) \<longleftrightarrow> (\<exists>s < states (pool_impl m pool). i \<in> set (Q s)))"

text \<open>The effect of a state change: the element leaves one queue for the tail of another.\<close>

definition pool_move :: "(u32 \<Rightarrow> u32 list) \<Rightarrow> u32 \<Rightarrow> u32 \<Rightarrow> u32 \<Rightarrow> (u32 \<Rightarrow> u32 list)" where
  "pool_move Q i a b = (let Q = Q(a := remove1 i (Q a)) in Q(b := Q b @ [i]))"

text \<open>
  The queues are in the order of the elements' times or counts, none of them later than
  \<open>t\<close>.
\<close>

definition pool_aged :: "'a sxe_pool_mem_scheme \<Rightarrow> addr \<Rightarrow> (u32 \<Rightarrow> u32 list) \<Rightarrow> u64 \<Rightarrow> bool" where
  "pool_aged m pool Q t \<longleftrightarrow>
     (\<forall>s < states (pool_impl m pool). sorted (map (\<lambda>i. node_last m (node_at m pool i)) (Q s)) \<and>
        (\<forall>i \<in> set (Q s). node_last m (node_at m pool i) \<le> t))"

text \<open>What the next state change stores in the element's node.\<close>

definition pool_stamp :: "sxe_env \<Rightarrow> sxe_pool_impl \<Rightarrow> u64" where
  "pool_stamp env p = (if is_timed p then sxe_time_get (env_tod env) else next_count p + 1)"

definition pool_tick :: "sxe_pool_impl \<Rightarrow> sxe_pool_impl" where
  "pool_tick p = (if is_timed p then p else next_count_update (\<lambda>c. c + 1) p)"

abbreviation relock :: "addr \<Rightarrow> long \<Rightarrow> 'a sxe_pool_mem_scheme \<Rightarrow> 'a sxe_pool_mem_scheme" where
  "relock pool lk m \<equiv> set_impl pool (spinlock_update (\<lambda>_. lk)) m"

text \<open>
  Locking changes nothing but the lock word; when it succeeds on a locked pool, the lock word
  names the calling thread, so that the unlocking that follows cannot abort.
\<close>

definition holds_lock :: "sxe_env \<Rightarrow> addr \<Rightarrow> 'a sxe_pool_mem_scheme \<Rightarrow> bool" where
  "holds_lock env pool m \<longleftrightarrow> is_locked (pool_impl m pool) \<longrightarrow> spinlock (pool_impl m pool) = env_tid env"

text \<open>
  The memory after a state change: the abstract state has moved the element, its node carries
  the new stamp, the pool structure differs only in its counter and lock word, and what else
  there is in the memory is as it was.
\<close>

definition pool_moved ::
  "sxe_env \<Rightarrow> addr \<Rightarrow> (u32 \<Rightarrow> u32 list) \<Rightarrow> u32 \<Rightarrow> u32 \<Rightarrow> u32 \<Rightarrow> 'a sxe_pool_mem_scheme \<Rightarrow> 'a sxe_pool_mem_scheme \<Rightarrow> bool" where
  "pool_moved env pool Q i a b m m' \<longleftrightarrow>
     pool_rep m' pool (pool_move Q i a b) \<and>
     node_last m' = (node_last m)(node_at m pool i := pool_stamp env (pool_impl m pool)) \<and>
     (\<exists>lk. pool_impl m' = (pool_impl m)(pool := (pool_tick (pool_impl m pool))\<lparr>spinlock := lk\<rparr>)) \<and>
     sxe_pool_mem.more m' = sxe_pool_mem.more m"

text \<open>Nothing has changed but the lock word.\<close>

definition pool_unchanged :: "addr \<Rightarrow> 'a sxe_pool_mem_scheme \<Rightarrow> 'a sxe_pool_mem_scheme \<Rightarrow> bool" where
  "pool_unchanged pool m m' \<longleftrightarrow> (\<exists>lk. m' = relock pool lk m)"

definition pool_clock :: "sxe_env \<Rightarrow> sxe_pool_impl \<Rightarrow> u64" where
  "pool_clock env p = (if is_timed p then sxe_time_get (env_tod env) else next_count p)"

text \<open>A small pool of three elements in four states, in an otherwise empty memory.\<close>

definition env0 :: sxe_env where
  "env0 = \<lparr>env_tid = 1, env_count_max = 1000, env_yield = (\<lambda>_ l. l), env_tod = \<lparr>tv_sec = 10, tv_usec = 0\<rparr>\<rparr>"

definition pool_mem0 :: sxe_pool_mem where
  "pool_mem0 = \<lparr>node = node mem0, header = header mem0,
     pool_impl = (\<lambda>_. \<lparr>spinlock = 0, pool_name = [], options = 0, number = 0, elem_size = 0, states = 0,
       nodes_rel = 0, queue_rel = 0, event_timeout = None, caller_info = 0, state_timeouts = None, next_count = 0\<rparr>),
     node_last = (\<lambda>_. 0), sxe_pool_timeout_list = 16, sxe_pool_timeout_count = 0\<rparr>"

definition pool_demo :: sxe_pool_mem where
  "pool_demo = fst (sxe_pool_construct env0 pool_mem0 1000 ''demo'' 3 8 4 SXE_POOL_OPTION_UNLOCKED)"

text \<open>
  What a pool's timeout callback has to do: move the element it is given out of the state \<open>s\<close> that timed out, to some
  state of \<open>D\<close>, which may be another one for every element.
\<close>

definition callback_leaves :: "'a sxe_pool_event_timeout \<Rightarrow> addr \<Rightarrow> u32 \<Rightarrow> u32 set \<Rightarrow> bool" where
  "callback_leaves callback pool s D \<longleftrightarrow>
    (\<forall>m Q i rest f info. pool_rep m pool Q \<longrightarrow> Q s = i # rest \<longrightarrow> s < states (pool_impl m pool) \<longrightarrow> \<not> is_locked (pool_impl m pool) \<longrightarrow>
       (\<exists>env m' b. b \<in> D \<and> callback f m (SXE_POOL_IMPL_TO_ARRAY pool) i info = Some m' \<and> pool_moved env pool Q i s b m m'))"

text \<open>Whether the time of an element in its state has reached the timeout, in the 64-bit arithmetic of the code.\<close>

definition expired :: "'a sxe_pool_mem_scheme \<Rightarrow> addr \<Rightarrow> SXE_TIME \<Rightarrow> SXE_TIME \<Rightarrow> u32 \<Rightarrow> bool" where
  "expired m pool now timeout i \<longleftrightarrow> timeout \<le> now - node_last m (node_at m pool i)"

text \<open>The same pool with a timeout of 7 time units on state 1, and a callback that frees the element.\<close>

definition pool_demo_timed :: sxe_pool_mem where
  "pool_demo_timed = set_impl 1000 (\<lambda>p. p\<lparr>options := SXE_POOL_OPTION_TIMED, event_timeout := Some 5,
     state_timeouts := Some [0, 7, 0, 0]\<rparr>) pool_demo"

definition free_callback :: "'a sxe_pool_event_timeout" where
  "free_callback f m array i info = map_option fst (sxe_pool_set_indexed_element_state env0 m array i 1 0)"

section \<open>Memory accesses\<close>

lemma set_impl_simps [simp]:
  "node (set_impl p f m) = node m" "header (set_impl p f m) = header m"
  "node_last (set_impl p f m) = node_last m"
  "pool_impl (set_impl p f m) = (pool_impl m)(p := f (pool_impl m p))"
  "sxe_pool_timeout_list (set_impl p f m) = sxe_pool_timeout_list m"
  "sxe_pool_timeout_count (set_impl p f m) = sxe_pool_timeout_count m"
  "sxe_pool_mem.more (set_impl p f m) = sxe_pool_mem.more m"
  by (simp_all add: set_impl_def)

lemma set_last_simps [simp]:
  "node (set_last n v m) = node m" "header (set_last n v m) = header m"
  "node_last (set_last n v m) = (node_last m)(n := v)"
  "pool_impl (set_last n v m) = pool_impl m"
  "sxe_pool_timeout_list (set_last n v m) = sxe_pool_timeout_list m"
  "sxe_pool_timeout_count (set_last n v m) = sxe_pool_timeout_count m"
  "sxe_pool_mem.more (set_last n v m) = sxe_pool_mem.more m"
  by (simp_all add: set_last_def)

lemma list_store_pool [simp]:
  "pool_impl (sxe_list_push m l ob) = pool_impl (m :: 'a sxe_pool_mem_scheme)"
  "node_last (sxe_list_push m l ob) = node_last m"
  "sxe_pool_timeout_list (sxe_list_push m l ob) = sxe_pool_timeout_list m"
  "sxe_pool_timeout_count (sxe_list_push m l ob) = sxe_pool_timeout_count m"
  "pool_impl (sxe_list_construct_impl m l k off) = pool_impl (m :: 'a sxe_pool_mem_scheme)"
  "node_last (sxe_list_construct_impl m l k off) = node_last m"
  "sxe_pool_timeout_list (sxe_list_construct_impl m l k off) = sxe_pool_timeout_list m"
  "sxe_pool_timeout_count (sxe_list_construct_impl m l k off) = sxe_pool_timeout_count m"
  "sxe_pool_mem.more (sxe_list_push m l ob) = sxe_pool_mem.more m"
  "sxe_pool_mem.more (sxe_list_construct_impl m l k off) = sxe_pool_mem.more m"
  by (simp_all add: sxe_list_push_def sxe_list_construct_impl_def Let_def store_defs)

lemma list_remove_pool:
  "sxe_list_remove (m :: 'a sxe_pool_mem_scheme) l ob = Some (m', r) \<Longrightarrow>
    pool_impl m' = pool_impl m \<and> node_last m' = node_last m \<and>
    sxe_pool_timeout_list m' = sxe_pool_timeout_list m \<and> sxe_pool_timeout_count m' = sxe_pool_timeout_count m \<and>
    sxe_pool_mem.more m' = sxe_pool_mem.more m"
  unfolding sxe_list_remove_def Let_def SXEA1_bind SXEA6_bind
  by ((drule if_None_SomeD)+, clarify, simp add: store_defs)

lemma pool_addr_cong:
  assumes "pool_impl m' pool = pool_impl m pool"
  shows "node_at m' pool = node_at m pool" "queue_at m' pool = queue_at m pool" "node_index m' pool = node_index m pool"
  using assms by (simp_all add: fun_eq_iff node_at_def queue_at_def node_index_def SXE_POOL_NODES_def SXE_POOL_QUEUE_def)

lemma node_index_node_at [simp]: "node_index m pool (node_at m pool i) = i"
  by (simp add: node_index_def node_at_def sizeof_SXE_POOL_NODE_def)

lemma node_at_inject [simp]: "node_at m pool i = node_at m pool j \<longleftrightarrow> i = j"
  by (metis node_index_node_at)

section \<open>State changes and the abstract view\<close>

lemma family_same_nodes:
  assumes "queue_family list_rep m L Q S" and "node m' = node m" and "header m' = header m"
  shows "queue_family list_rep m' L Q S"
  using assms list_rep_other[of m _ _ m'] unfolding queue_family_def by simp

lemma pool_rep_set_impl:
  assumes "\<And>p. number (f p) = number p \<and> states (f p) = states p \<and> nodes_rel (f p) = nodes_rel p \<and>
    queue_rel (f p) = queue_rel p"
  shows "pool_rep (set_impl pool f m) pool Q = pool_rep m pool Q"
    "node_at (set_impl pool f m) pool = node_at m pool"
    "queue_at (set_impl pool f m) pool = queue_at m pool"
    "node_index (set_impl pool f m) pool = node_index m pool"
proof -
  show a: "node_at (set_impl pool f m) pool = node_at m pool"
    "queue_at (set_impl pool f m) pool = queue_at m pool"
    "node_index (set_impl pool f m) pool = node_index m pool"
    using assms by (simp_all add: fun_eq_iff node_at_def queue_at_def node_index_def SXE_POOL_NODES_def SXE_POOL_QUEUE_def)
  have "queue_family list_rep (set_impl pool f m) L Q S = queue_family list_rep m L Q S" for L Q and S :: "u32 set"
    using family_same_nodes[of m L Q S "set_impl pool f m"] family_same_nodes[of "set_impl pool f m" L Q S m] by auto
  then show "pool_rep (set_impl pool f m) pool Q = pool_rep m pool Q"
    using assms by (simp add: pool_rep_def a)
qed

lemma pool_rep_set_last:
  "pool_rep (set_last n v m) pool Q = pool_rep m pool Q" "node_at (set_last n v m) pool = node_at m pool"
  "queue_at (set_last n v m) pool = queue_at m pool"
proof -
  show a: "node_at (set_last n v m) pool = node_at m pool" "queue_at (set_last n v m) pool = queue_at m pool"
    by (rule pool_addr_cong, simp)+
  have "queue_family list_rep (set_last n v m) L Q S = queue_family list_rep m L Q S" for L Q and S :: "u32 set"
    using family_same_nodes[of m L Q S "set_last n v m"] family_same_nodes[of "set_last n v m" L Q S m] by auto
  then show "pool_rep (set_last n v m) pool Q = pool_rep m pool Q"
    by (simp add: pool_rep_def a)
qed

lemma pool_rep_state:
  assumes "pool_rep m pool Q" and "s < states (pool_impl m pool)"
  shows "list_rep m (queue_at m pool s) (map (node_at m pool) (Q s))"
    and "node_id (node m (queue_at m pool s)) = s" and "list_offset (header m (queue_at m pool s)) = 0"
    and "i \<in> set (Q s) \<Longrightarrow> node_id (node m (node_at m pool i)) = s"
    and "distinct (Q s)"
  using assms by (auto simp: pool_rep_def queue_family_def list_rep_def distinct_map)

lemma pool_rep_index:
  assumes "pool_rep m pool Q" and "i < number (pool_impl m pool)"
  shows "node_id (node m (node_at m pool i)) < states (pool_impl m pool)"
    and "i \<in> set (Q (node_id (node m (node_at m pool i))))"
proof -
  obtain s where "s < states (pool_impl m pool)" "i \<in> set (Q s)"
    using assms by (auto simp: pool_rep_def)
  then show "node_id (node m (node_at m pool i)) < states (pool_impl m pool)"
    and "i \<in> set (Q (node_id (node m (node_at m pool i))))"
    using pool_rep_state[OF assms(1)] by auto
qed

lemma pool_rep_mem_iff:
  assumes "pool_rep m pool Q" and "i < number (pool_impl m pool)" and "s < states (pool_impl m pool)"
  shows "i \<in> set (Q s) \<longleftrightarrow> node_id (node m (node_at m pool i)) = s"
  using pool_rep_index[OF assms(1,2)] pool_rep_state(4)[OF assms(1,3)] by auto

lemma pool_rep_in_number:
  "pool_rep m pool Q \<Longrightarrow> s < states (pool_impl m pool) \<Longrightarrow> i \<in> set (Q s) \<Longrightarrow> i < number (pool_impl m pool)"
  by (auto simp: pool_rep_def)

text \<open>The queues after a move, and which elements they hold.\<close>

lemma pool_move_split:
  assumes "Q a = xs @ i # ys" and "distinct (Q a)"
  shows "pool_move Q i a b = (Q(a := xs @ ys))(b := (Q(a := xs @ ys)) b @ [i])"
  using assms by (simp add: pool_move_def Let_def remove1_append)

lemma set_pool_move:
  assumes "distinct (Q a)"
  shows "set (pool_move Q i a b s) = (set (Q s) - (if s = a then {i} else {})) \<union> (if s = b then {i} else {})"
  using assms by (simp add: pool_move_def Let_def)

lemma node_not_queue:
  assumes "pool_rep m pool Q" and "a < states (pool_impl m pool)" and "i \<in> set (Q a)"
    and "s < states (pool_impl m pool)"
  shows "queue_at m pool s \<noteq> node_at m pool i"
proof -
  have "queue_at m pool s \<notin> set (map (node_at m pool) (Q a))"
  proof (cases "s = a")
    case True
    then show ?thesis using pool_rep_state(1)[OF assms(1,2)] by (simp add: list_rep_def)
  next
    case False
    then show ?thesis using assms(1,2,4) unfolding pool_rep_def queue_family_def by auto
  qed
  then show ?thesis using assms(3) by auto
qed

text \<open>Moving the node in the memory moves the element in the abstract state.\<close>

lemma pool_rep_move:
  assumes rep: "pool_rep m pool Q" and a: "a < states (pool_impl m pool)" and b: "b < states (pool_impl m pool)"
    and i: "i \<in> set (Q a)"
  obtains m' where "sxe_list_remove m (queue_at m pool a) (node_at m pool i) = Some (m', node_at m pool i)"
    and "pool_rep (sxe_list_push m' (queue_at m pool b) (node_at m pool i)) pool (pool_move Q i a b)"
proof -
  define L where "L = queue_at m pool"
  define N where "N = node_at m pool"
  define S where "S = {s. s < states (pool_impl m pool)}"
  obtain xs ys where Qa: "Q a = xs @ i # ys" using i by (meson split_list)
  have fam: "queue_family list_rep m L (\<lambda>s. map N (Q s)) S"
    and off: "\<And>s. s \<in> S \<Longrightarrow> list_offset (header m (L s)) = 0 \<and> node_id (node m (L s)) = s"
    using rep by (auto simp: pool_rep_def L_def N_def S_def)
  have ab: "a \<in> S" "b \<in> S" using a b by (simp_all add: S_def)
  obtain m' where m': "sxe_list_remove m (L a) (N i) = Some (m', N i)"
    and fam': "queue_family list_rep (sxe_list_push m' (L b) (N i)) L
      (((\<lambda>s. map N (Q s))(a := map N xs @ map N ys))(b := ((\<lambda>s. map N (Q s))(a := map N xs @ map N ys)) b @ [N i])) S"
    by (rule sxe_list.family_move[OF fam ab, of "map N xs" "N i" "map N ys" "N i"])
      (use Qa off ab in \<open>auto simp: object_node_def\<close>)
  define m2 where "m2 = sxe_list_push m' (L b) (N i)"
  have impl: "pool_impl m2 pool = pool_impl m pool"
    using list_remove_pool[OF m'] by (simp add: m2_def)
  have dist: "distinct (Q a)" by (rule pool_rep_state(5)[OF rep a])
  have "(\<lambda>s. map N (pool_move Q i a b s)) =
    ((\<lambda>s. map N (Q s))(a := map N xs @ map N ys))(b := ((\<lambda>s. map N (Q s))(a := map N xs @ map N ys)) b @ [N i])"
    by (simp add: fun_eq_iff pool_move_split[of Q a xs i ys b, OF Qa dist])
  with fam' have "queue_family list_rep m2 L (\<lambda>s. map N (pool_move Q i a b s)) S" by (simp add: m2_def)
  moreover have "list_offset (header m2 k) = list_offset (header m k)" for k
    using remove_offset[OF m'] push_object_node[of m' "L b" "N i" k] by (simp add: m2_def object_node_def fun_eq_iff)
  moreover have "node_id (node m2 (L s)) = s" if "s \<in> S" for s
    using that off[OF that] node_not_queue[OF rep a i, of s] remove_node_id[OF m'] remove_offset[OF m'] off[OF ab(2)]
    by (simp add: m2_def push_node_id object_node_def S_def L_def N_def)
  moreover have "j < number (pool_impl m pool) \<longleftrightarrow> (\<exists>s \<in> S. j \<in> set (pool_move Q i a b s))" for j
  proof (cases "j = i")
    case True
    then show ?thesis using ab(2) pool_rep_in_number[OF rep a i] by (auto simp: set_pool_move[of Q, OF dist])
  next
    case False
    then show ?thesis using rep by (auto simp: set_pool_move[of Q, OF dist] pool_rep_def S_def)
  qed
  ultimately have "pool_rep m2 pool (pool_move Q i a b)"
    using off by (simp add: pool_rep_def pool_addr_cong[OF impl] impl S_def L_def N_def)
  with m' show ?thesis using that by (simp add: m2_def L_def N_def)
qed

lemma push_set_last: "sxe_list_push (set_last n v m) l ob = set_last n v (sxe_list_push m l ob)"
  by (simp add: sxe_list_push_def Let_def store_defs set_last_def)

lemma push_set_impl: "sxe_list_push (set_impl p f m) l ob = set_impl p f (sxe_list_push m l ob)"
  by (simp add: sxe_list_push_def Let_def store_defs set_impl_def)

lemma pool_tick_simps [simp]:
  "number (pool_tick p) = number p" "states (pool_tick p) = states p" "nodes_rel (pool_tick p) = nodes_rel p"
  "queue_rel (pool_tick p) = queue_rel p" "options (pool_tick p) = options p" "spinlock (pool_tick p) = spinlock p"
  "event_timeout (pool_tick p) = event_timeout p" "caller_info (pool_tick p) = caller_info p"
  "state_timeouts (pool_tick p) = state_timeouts p"
  by (simp_all add: pool_tick_def)

lemma tick_timed: "is_timed (pool_impl m pool) \<Longrightarrow> set_impl pool pool_tick m = m"
  by (simp add: set_impl_def pool_tick_def)

lemma tick_counted:
  "\<not> is_timed (pool_impl m pool) \<Longrightarrow> set_impl pool pool_tick m = set_impl pool (next_count_update (\<lambda>c. c + 1)) m"
  by (simp add: set_impl_def pool_tick_def)

lemma set_unlocked_moves:
  assumes rep: "pool_rep m pool Q" and "a < states (pool_impl m pool)" and "b < states (pool_impl m pool)"
    and "i \<in> set (Q a)" and pool: "pool = SXE_POOL_ARRAY_TO_IMPL array" and "array \<noteq> NULL"
  obtains m' where "sxe_pool_set_indexed_element_state_unlocked env m array i a b oi = Some (m', True)"
    and "pool_rep m' pool (pool_move Q i a b)"
    and "node_last m' = (node_last m)(node_at m pool i := pool_stamp env (pool_impl m pool))"
    and "pool_impl m' = (pool_impl m)(pool := pool_tick (pool_impl m pool))"
    and "sxe_pool_mem.more m' = sxe_pool_mem.more m"
proof -
  obtain m1 where m1: "sxe_list_remove m (queue_at m pool a) (node_at m pool i) = Some (m1, node_at m pool i)"
    and rep1: "pool_rep (sxe_list_push m1 (queue_at m pool b) (node_at m pool i)) pool (pool_move Q i a b)"
    by (rule pool_rep_move[OF assms(1-4)])
  note fr = list_remove_pool[OF m1]
  define m2 where "m2 = set_last (node_at m pool i) (pool_stamp env (pool_impl m pool))
    (set_impl pool pool_tick (sxe_list_push m1 (queue_at m pool b) (node_at m pool i)))"
  have "pool_impl m1 pool = pool_impl m pool" using fr by simp
  note at = pool_addr_cong[OF this]
  have nid: "node_id (node m (node_at m pool i)) = a" by (rule pool_rep_state(4)[OF assms(1,2,4)])
  have "sxe_pool_set_indexed_element_state_unlocked env m array i a b oi = Some (m2, True)"
  proof (cases "is_timed (pool_impl m pool)")
    case True
    with assms(6) nid fr m1 at show ?thesis
      by (simp add: sxe_pool_set_indexed_element_state_unlocked_def pool[symmetric] m2_def pool_stamp_def
        tick_timed push_set_last pool_rep_set_last Let_def)
  next
    case False
    with assms(6) nid fr m1 at show ?thesis
      by (simp add: sxe_pool_set_indexed_element_state_unlocked_def pool[symmetric] m2_def pool_stamp_def
        tick_counted push_set_last push_set_impl pool_rep_set_last pool_rep_set_impl Let_def)
  qed
  moreover have "pool_rep m2 pool (pool_move Q i a b)"
    using rep1 by (simp add: m2_def pool_rep_set_last pool_rep_set_impl)
  ultimately show ?thesis using that fr by (simp add: m2_def)
qed

lemma set_unlocked_incorrect:
  assumes "pool_rep m pool Q" and "a < states (pool_impl m pool)"
    and "i < number (pool_impl m pool)" and "i \<notin> set (Q a)" and "pool = SXE_POOL_ARRAY_TO_IMPL array" and "array \<noteq> NULL"
  shows "sxe_pool_set_indexed_element_state_unlocked env m array i a b oi =
    (if oi = SXE_POOL_ON_INCORRECT_STATE_ABORT then None else Some (m, False))"
  using pool_rep_mem_iff[OF assms(1,3,2)] assms(4-)
  by (simp add: sxe_pool_set_indexed_element_state_unlocked_def)

lemma pool_rep_aged:
  assumes rep: "pool_rep m pool Q" and aged: "pool_aged m pool Q t" and a: "a < states (pool_impl m pool)"
    and i: "i \<in> set (Q a)" and t: "t \<le> t'"
    and m': "node_last m' = (node_last m)(node_at m pool i := t')"
    and impl: "pool_impl m' pool = f (pool_impl m pool)"
      "nodes_rel (f (pool_impl m pool)) = nodes_rel (pool_impl m pool)"
      "states (f (pool_impl m pool)) = states (pool_impl m pool)"
  shows "pool_aged m' pool (pool_move Q i a b) t'"
proof -
  have at: "node_at m' pool = node_at m pool"
    using impl by (simp add: fun_eq_iff node_at_def SXE_POOL_NODES_def)
  let ?l = "\<lambda>j. node_last m (node_at m pool j)" and ?l' = "\<lambda>j. node_last m' (node_at m pool j)"
  have l': "?l' j = (if j = i then t' else ?l j)" for j by (simp add: m')
  have "sorted (map ?l' (pool_move Q i a b s)) \<and> (\<forall>j \<in> set (pool_move Q i a b s). ?l' j \<le> t')"
    if s: "s < states (pool_impl m pool)" for s
  proof -
    define R where "R = (Q(a := remove1 i (Q a))) s"
    have "i \<notin> set R"
    proof (cases "s = a")
      case True
      then show ?thesis using pool_rep_state(5)[OF rep a] by (simp add: R_def)
    next
      case False
      then show ?thesis
        using pool_rep_state(4)[OF rep s] pool_rep_state(4)[OF rep a i] by (auto simp: R_def)
    qed
    then have eq: "map ?l' R = map ?l R" by (auto simp: l')
    have "sorted (map ?l (Q s))" "\<forall>j \<in> set (Q s). ?l j \<le> t"
      using aged s by (auto simp: pool_aged_def)
    then have R: "sorted (map ?l R)" "\<forall>j \<in> set R. ?l j \<le> t"
      by (auto simp: R_def sorted_map_remove1 dest: notin_set_remove1)
    have "pool_move Q i a b s = (if s = b then R @ [i] else R)"
      by (auto simp: pool_move_def R_def Let_def)
    moreover have "sorted (map ?l' R)" using R(1) eq by metis
    moreover have "\<forall>j \<in> set R. ?l' j \<le> t'" using R(2) t \<open>i \<notin> set R\<close> by (auto simp: l' intro: order_trans)
    ultimately show ?thesis using l'[of i] by (simp add: sorted_append)
  qed
  then show ?thesis by (simp add: pool_aged_def at impl)
qed

section \<open>Locking and the abstract view\<close>

lemma lock_results [simp]: "SXE_POOL_LOCK_TAKEN \<noteq> SXE_POOL_LOCK_NOT_TAKEN" "SXE_POOL_LOCK_NOT_TAKEN \<noteq> SXE_POOL_LOCK_TAKEN"
  by (simp_all add: SXE_POOL_LOCK_TAKEN_def SXE_POOL_LOCK_NOT_TAKEN_def)

lemma relock_same: "relock pool (spinlock (pool_impl m pool)) m = m"
  by (simp add: set_impl_def)

lemma pool_lock_cases:
  assumes "env_tid env \<noteq> 0"
  obtains lk where "sxe_pool_lock env pool m = (relock pool lk m, SXE_POOL_LOCK_TAKEN)"
      and "holds_lock env pool (relock pool lk m)"
  | lk where "sxe_pool_lock env pool m = (relock pool lk m, SXE_POOL_LOCK_NOT_TAKEN)"
      and "is_locked (pool_impl m pool)"
proof (cases "is_locked (pool_impl m pool)")
  case False
  then show ?thesis
    using that(1)[of "spinlock (pool_impl m pool)"]
    by (simp add: sxe_pool_lock_def holds_lock_def relock_same)
next
  case True
  obtain lk st where t: "sxe_spinlock_take (env_yield env) (env_count_max env) (env_tid env) (spinlock (pool_impl m pool)) = (lk, st)"
    by fastforce
  show ?thesis
  proof (cases "st = SXE_SPINLOCK_STATUS_TAKEN")
    case taken: True
    then have "lk = env_tid env" using take_taken[OF assms] t by blast
    then show ?thesis using that(1)[of lk] True t taken by (simp add: sxe_pool_lock_def holds_lock_def)
  next
    case False
    then show ?thesis using that(2)[of lk] True t by (simp add: sxe_pool_lock_def)
  qed
qed

lemma pool_unlock:
  assumes "holds_lock env pool m"
  obtains lk where "sxe_pool_unlock env pool m = Some (relock pool lk m)"
proof (cases "is_locked (pool_impl m pool)")
  case True
  then show ?thesis
    using that[of 0] assms
    by (simp add: sxe_pool_unlock_def holds_lock_def sxe_spinlock_give_def InterlockedCompareExchange_def)
next
  case False
  then show ?thesis
    using that[of "spinlock (pool_impl m pool)"] by (simp add: sxe_pool_unlock_def relock_same)
qed

lemma relock_simps [simp]:
  "pool_rep (relock pool lk m) pool Q = pool_rep m pool Q"
  "node_at (relock pool lk m) pool = node_at m pool" "queue_at (relock pool lk m) pool = queue_at m pool"
  "node_index (relock pool lk m) pool = node_index m pool"
  "pool_aged (relock pool lk m) pool Q t = pool_aged m pool Q t"
  by (simp_all add: pool_rep_set_impl pool_aged_def)

lemma relock_relock: "relock pool lk' (relock pool lk m) = relock pool lk' m"
  by (simp add: set_impl_def)

lemma locked_move:
  assumes rep: "pool_rep m pool Q" and a: "a < states (pool_impl m pool)" and b: "b < states (pool_impl m pool)"
    and i: "i \<in> set (Q a)" and pool: "pool = SXE_POOL_ARRAY_TO_IMPL array" and array: "array \<noteq> NULL"
    and lock: "holds_lock env pool (relock pool lk m)"
  obtains m2 m3 where "sxe_pool_set_indexed_element_state_unlocked env (relock pool lk m) array i a b oi = Some (m2, True)"
    and "sxe_pool_unlock env pool m2 = Some m3" and "pool_moved env pool Q i a b m m3"
proof -
  let ?m = "relock pool lk m"
  have rep1: "pool_rep ?m pool Q" "a < states (pool_impl ?m pool)" "b < states (pool_impl ?m pool)"
    using rep a b by simp_all
  obtain m2 where m2: "sxe_pool_set_indexed_element_state_unlocked env ?m array i a b oi = Some (m2, True)"
    "pool_rep m2 pool (pool_move Q i a b)"
    "node_last m2 = (node_last ?m)(node_at ?m pool i := pool_stamp env (pool_impl ?m pool))"
    "pool_impl m2 = (pool_impl ?m)(pool := pool_tick (pool_impl ?m pool))"
    "sxe_pool_mem.more m2 = sxe_pool_mem.more ?m"
    by (rule set_unlocked_moves[OF rep1 i pool array])
  have "holds_lock env pool m2" using lock m2(4) by (simp add: holds_lock_def)
  then obtain lk' where u: "sxe_pool_unlock env pool m2 = Some (relock pool lk' m2)" by (rule pool_unlock)
  have "pool_moved env pool Q i a b m (relock pool lk' m2)"
    using m2 unfolding pool_moved_def by (auto simp: pool_stamp_def pool_tick_def)
  with m2(1) u show ?thesis using that by blast
qed

lemma pool_moved_rep: "pool_moved env pool Q i a b m m' \<Longrightarrow> pool_rep m' pool (pool_move Q i a b)"
  by (simp add: pool_moved_def)

lemma pool_unchanged_rep: "pool_unchanged pool m m' \<Longrightarrow> pool_rep m' pool Q = pool_rep m pool Q"
  by (auto simp: pool_unchanged_def)

lemma peek_queue:
  assumes "pool_rep m pool Q" and "s < states (pool_impl m pool)"
  shows "sxe_list_peek_head (relock pool lk m) (queue_at m pool s) =
    Some (case Q s of [] \<Rightarrow> None | i # _ \<Rightarrow> Some (node_at m pool i))"
proof -
  have "pool_rep (relock pool lk m) pool Q" "s < states (pool_impl (relock pool lk m) pool)"
    using assms by simp_all
  from pool_rep_state(1,3)[OF this] show ?thesis
    by (simp add: list_rep_peek_head split: list.splits)
qed

lemma set_indexed_cases:
  assumes "env_tid env \<noteq> 0" and rep: "pool_rep m pool Q"
    and st: "old < states (pool_impl m pool)" "new < states (pool_impl m pool)"
    and i: "i \<in> set (Q old)" and pool: "pool = SXE_POOL_ARRAY_TO_IMPL array" and array: "array \<noteq> NULL"
  obtains (moved) m' where "sxe_pool_set_indexed_element_state env m array i old new = Some (m', SXE_POOL_LOCK_TAKEN)"
      and "pool_moved env pool Q i old new m m'"
  | (not_taken) m' where "sxe_pool_set_indexed_element_state env m array i old new = Some (m', SXE_POOL_LOCK_NOT_TAKEN)"
      and "pool_unchanged pool m m'" and "is_locked (pool_impl m pool)"
  using \<open>env_tid env \<noteq> 0\<close>
proof (cases rule: pool_lock_cases[of env pool m, case_names taken busy])
  case (taken lk)
  obtain m2 m3 where "sxe_pool_set_indexed_element_state_unlocked env (relock pool lk m) array i old new
      SXE_POOL_ON_INCORRECT_STATE_ABORT = Some (m2, True)"
    "sxe_pool_unlock env pool m2 = Some m3" "pool_moved env pool Q i old new m m3"
    by (rule locked_move[OF rep st i pool array taken(2)])
  note mv = this
  have "sxe_pool_set_indexed_element_state env m array i old new = Some (m3, SXE_POOL_LOCK_TAKEN)"
    using mv(1,2) taken(1) st array pool_rep_in_number[OF rep st(1) i]
    by (simp add: sxe_pool_set_indexed_element_state_def pool[symmetric] less_imp_le)
  then show ?thesis using moved mv(3) by blast
next
  case (busy lk)
  then have "sxe_pool_set_indexed_element_state env m array i old new = Some (relock pool lk m, SXE_POOL_LOCK_NOT_TAKEN)"
    using st array pool_rep_in_number[OF rep st(1) i]
    by (simp add: sxe_pool_set_indexed_element_state_def pool[symmetric] less_imp_le)
  then show ?thesis using not_taken busy(2) unfolding pool_unchanged_def by blast
qed

lemma touch_cases:
  assumes "env_tid env \<noteq> 0" and rep: "pool_rep m pool Q" and st: "s < states (pool_impl m pool)"
    and i: "i \<in> set (Q s)" and pool: "pool = SXE_POOL_ARRAY_TO_IMPL array" and array: "array \<noteq> NULL"
  obtains (moved) m' where "sxe_pool_touch_indexed_element env m array i = Some (m', SXE_POOL_LOCK_TAKEN)"
      and "pool_moved env pool Q i s s m m'"
  | (not_taken) m' where "sxe_pool_touch_indexed_element env m array i = Some (m', SXE_POOL_LOCK_NOT_TAKEN)"
      and "pool_unchanged pool m m'" and "is_locked (pool_impl m pool)"
  using \<open>env_tid env \<noteq> 0\<close>
proof (cases rule: pool_lock_cases[of env pool m, case_names taken busy])
  case (taken lk)
  obtain m2 m3 where "sxe_pool_set_indexed_element_state_unlocked env (relock pool lk m) array i s s
      SXE_POOL_ON_INCORRECT_STATE_ABORT = Some (m2, True)"
    "sxe_pool_unlock env pool m2 = Some m3" "pool_moved env pool Q i s s m m3"
    by (rule locked_move[OF rep st st i pool array taken(2)])
  note mv = this
  have "sxe_pool_touch_indexed_element env m array i = Some (m3, SXE_POOL_LOCK_TAKEN)"
    using mv(1,2) taken(1) array pool_rep_state(4)[OF rep st i]
    by (simp add: sxe_pool_touch_indexed_element_def pool[symmetric])
  then show ?thesis using moved mv(3) by blast
next
  case (busy lk)
  then have "sxe_pool_touch_indexed_element env m array i = Some (relock pool lk m, SXE_POOL_LOCK_NOT_TAKEN)"
    using array by (simp add: sxe_pool_touch_indexed_element_def pool[symmetric])
  then show ?thesis using not_taken busy(2) unfolding pool_unchanged_def by blast
qed

lemma set_oldest_cases:
  assumes "env_tid env \<noteq> 0" and rep: "pool_rep m pool Q"
    and st: "old < states (pool_impl m pool)" "new < states (pool_impl m pool)"
    and pool: "pool = SXE_POOL_ARRAY_TO_IMPL array" and array: "array \<noteq> NULL"
  obtains (moved) i rest m' where "Q old = i # rest"
      and "sxe_pool_set_oldest_element_state env m array old new = Some (m', i)"
      and "pool_moved env pool Q i old new m m'"
  | (empty) m' where "Q old = []"
      and "sxe_pool_set_oldest_element_state env m array old new = Some (m', SXE_POOL_NO_INDEX)"
      and "pool_unchanged pool m m'"
  | (not_taken) m' where "sxe_pool_set_oldest_element_state env m array old new = Some (m', SXE_POOL_LOCK_NOT_TAKEN)"
      and "pool_unchanged pool m m'" and "is_locked (pool_impl m pool)"
  using \<open>env_tid env \<noteq> 0\<close>
proof (cases rule: pool_lock_cases[of env pool m, case_names taken busy])
  case (taken lk)
  note pk = peek_queue[OF rep st(1), of lk]
  show ?thesis
  proof (cases "Q old")
    case Nil
    obtain lk' where "sxe_pool_unlock env pool (relock pool lk m) = Some (relock pool lk' (relock pool lk m))"
      by (rule pool_unlock[OF taken(2)])
    then have "sxe_pool_set_oldest_element_state env m array old new = Some (relock pool lk' m, SXE_POOL_NO_INDEX)"
      using taken(1) array st pk Nil
      by (simp add: sxe_pool_set_oldest_element_state_def pool[symmetric] less_imp_le relock_relock)
    then show ?thesis using empty Nil unfolding pool_unchanged_def by blast
  next
    case (Cons i rest)
    have i: "i \<in> set (Q old)" using Cons by simp
    obtain m2 m3 where "sxe_pool_set_indexed_element_state_unlocked env (relock pool lk m) array i old new
        SXE_POOL_ON_INCORRECT_STATE_ABORT = Some (m2, True)"
      "sxe_pool_unlock env pool m2 = Some m3" "pool_moved env pool Q i old new m m3"
      by (rule locked_move[OF rep st i pool array taken(2)])
    note mv = this
    have "sxe_pool_set_oldest_element_state env m array old new = Some (m3, i)"
      using mv(1,2) taken(1) array st pk Cons
      by (simp add: sxe_pool_set_oldest_element_state_def pool[symmetric] less_imp_le)
    then show ?thesis using moved Cons mv(3) by blast
  qed
next
  case (busy lk)
  then have "sxe_pool_set_oldest_element_state env m array old new = Some (relock pool lk m, SXE_POOL_LOCK_NOT_TAKEN)"
    using st array by (simp add: sxe_pool_set_oldest_element_state_def pool[symmetric] less_imp_le)
  then show ?thesis using not_taken busy(2) unfolding pool_unchanged_def by blast
qed

section \<open>Construction and the abstract view\<close>

lemma queue_at_inject [simp]: "queue_at m pool s = queue_at m pool t \<longleftrightarrow> s = t"
  by (simp add: queue_at_def sizeof_SXE_LIST_def word_uint_eq_iff)

lemma construct_impl_frame [simp]:
  "a \<noteq> l \<Longrightarrow> node (sxe_list_construct_impl m l k off) a = node m a"
  "a \<noteq> l \<Longrightarrow> header (sxe_list_construct_impl m l k off) a = header m a"
  "node_id (node (sxe_list_construct_impl m l k off) l) = k"
  "list_offset (header (sxe_list_construct_impl m l k off) l) = off"
  by (simp_all add: sxe_list_construct_impl_def Let_def store_defs)

lemma construct_queues_pool [simp]:
  "pool_impl (construct_queues m pool k) = pool_impl m" "node_last (construct_queues m pool k) = node_last m"
  "sxe_pool_timeout_list (construct_queues m pool k) = sxe_pool_timeout_list m"
  by (induction k arbitrary: m) simp_all

lemma queue_at_construct_queues [simp]:
  "queue_at (construct_queues m pool k) pool = queue_at m pool" "node_at (construct_queues m pool k) pool = node_at m pool"
  by (rule pool_addr_cong, simp)+

lemma construct_queues_frame:
  assumes "\<And>s. unat s < k \<Longrightarrow> a \<noteq> queue_at m pool s" and "k \<le> 2 ^ 32"
  shows "node (construct_queues m pool k) a = node m a \<and> header (construct_queues m pool k) a = header m a"
  using assms
proof (induction k arbitrary: m)
  case (Suc k)
  define m1 where "m1 = sxe_list_construct_impl m (queue_at m pool (of_nat k)) (of_nat k) offsetof_list_node"
  have q: "queue_at m1 pool = queue_at m pool" by (rule pool_addr_cong) (simp add: m1_def)
  have "unat (of_nat k :: u32) = k" using Suc.prems(2) by (simp add: unat_of_nat_small)
  then have "a \<noteq> queue_at m pool (of_nat k)" using Suc.prems(1)[of "of_nat k"] by simp
  then show ?case using Suc.IH[of m1] Suc.prems q by (simp add: m1_def)
qed simp

lemma construct_queues_empty:
  assumes "unat s < k" and "k \<le> 2 ^ 32" and "queue_at m pool s \<noteq> NULL"
  shows "list_rep (construct_queues m pool k) (queue_at m pool s) [] \<and>
    node_id (node (construct_queues m pool k) (queue_at m pool s)) = s \<and>
    list_offset (header (construct_queues m pool k) (queue_at m pool s)) = 0"
  using assms
proof (induction k arbitrary: m)
  case (Suc k)
  define m1 where "m1 = sxe_list_construct_impl m (queue_at m pool (of_nat k)) (of_nat k) offsetof_list_node"
  have q: "queue_at m1 pool = queue_at m pool" by (rule pool_addr_cong) (simp add: m1_def)
  have k: "unat (of_nat k :: u32) = k" using Suc.prems(2) by (simp add: unat_of_nat_small)
  show ?case
  proof (cases "unat s = k")
    case True
    then have s: "s = of_nat k" using k by (simp add: word_unat_eq_iff)
    have "t \<noteq> s" if "unat t < k" for t using that True by auto
    then have "node (construct_queues m1 pool k) (queue_at m pool s) = node m1 (queue_at m pool s) \<and>
      header (construct_queues m1 pool k) (queue_at m pool s) = header m1 (queue_at m pool s)"
      by (intro construct_queues_frame) (use Suc.prems(2) q in auto)
    moreover have "list_rep m1 (queue_at m pool s) []"
      using list_rep_construct[OF Suc.prems(3)] s by (simp add: m1_def)
    ultimately show ?thesis
      using s by (auto simp: m1_def offsetof_list_node_def intro: list_rep_other)
  next
    case False
    then show ?thesis using Suc.IH[of m1] Suc.prems q by (simp add: m1_def)
  qed
qed simp

text \<open>
  The memory layout that \<open>sxe_pool_construct\<close> sets up: the queue heads are followed by the
  nodes, and nothing is at the null address.
\<close>

definition pool_layout :: "'a sxe_pool_mem_scheme \<Rightarrow> addr \<Rightarrow> bool" where
  "pool_layout m pool \<longleftrightarrow> 0 < SXE_POOL_QUEUE m pool \<and>
     SXE_POOL_NODES m pool = SXE_POOL_QUEUE m pool + uint (states (pool_impl m pool)) * sizeof_SXE_LIST"

lemma layout_apart:
  assumes "pool_layout m pool" and "s < states (pool_impl m pool)"
  shows "queue_at m pool s < node_at m pool i" and "0 < queue_at m pool s" and "0 < node_at m pool i"
proof -
  have "uint s < uint (states (pool_impl m pool))" using assms(2) by (simp add: word_less_def)
  moreover have "0 \<le> uint s" "0 \<le> uint i" by simp_all
  moreover have "0 < SXE_POOL_QUEUE m pool"
    "SXE_POOL_NODES m pool = SXE_POOL_QUEUE m pool + uint (states (pool_impl m pool)) * 40"
    using assms(1) by (simp_all add: pool_layout_def sizeof_SXE_LIST_def)
  ultimately show "queue_at m pool s < node_at m pool i" "0 < queue_at m pool s" "0 < node_at m pool i"
    unfolding queue_at_def node_at_def sizeof_SXE_LIST_def sizeof_SXE_POOL_NODE_def by linarith+
qed

text \<open>The elements \<open>k\<close> to \<open>n - 1\<close> in the order in which construction queues them.\<close>

definition built :: "nat \<Rightarrow> nat \<Rightarrow> u32 list" where
  "built k n = map of_nat (rev [k..<n])"

lemma built_simps: "built n n = []" "k < n \<Longrightarrow> built k n = built (Suc k) n @ [of_nat k]"
  by (simp_all add: built_def upt_conv_Cons)

lemma built_range: "n \<le> 2 ^ 32 \<Longrightarrow> i \<in> set (built k n) \<longleftrightarrow> k \<le> unat i \<and> unat i < n"
  by (auto simp: built_def unat_of_nat_small intro!: rev_image_eqI[of "unat i"])

definition free_queue :: "u32 list \<Rightarrow> u32 \<Rightarrow> u32 list" where
  "free_queue xs s = (if s = 0 then xs else [])"

text \<open>One iteration of the construction of the free list.\<close>

definition free_list_step :: "'a sxe_pool_mem_scheme \<Rightarrow> addr \<Rightarrow> SXE_TIME \<Rightarrow> nat \<Rightarrow> 'a sxe_pool_mem_scheme" where
  "free_list_step m pool current_time i =
    (let stamp = (if is_timed (pool_impl m pool) then current_time else next_count (pool_impl m pool) + 1)
     in set_last (node_at m pool (of_nat i)) stamp
       (set_impl pool pool_tick (sxe_list_push m (queue_at m pool 0) (node_at m pool (of_nat i)))))"

lemma construct_free_list_Suc:
  "construct_free_list m pool t (Suc i) = construct_free_list (free_list_step m pool t i) pool t i"
  by (cases "is_timed (pool_impl m pool)")
    (simp_all add: free_list_step_def Let_def tick_timed tick_counted push_set_last push_set_impl
      pool_rep_set_last pool_rep_set_impl)

lemma free_list_step_simps [simp]:
  "pool_impl (free_list_step m pool t i) = (pool_impl m)(pool := pool_tick (pool_impl m pool))"
  "node (free_list_step m pool t i) = node (sxe_list_push m (queue_at m pool 0) (node_at m pool (of_nat i)))"
  "header (free_list_step m pool t i) = header (sxe_list_push m (queue_at m pool 0) (node_at m pool (of_nat i)))"
  "queue_at (free_list_step m pool t i) pool = queue_at m pool"
  "node_at (free_list_step m pool t i) pool = node_at m pool"
  by (simp_all add: free_list_step_def Let_def pool_rep_set_last pool_rep_set_impl pool_addr_cong[of "sxe_list_push m l x" pool m for l x])

text \<open>The part of the pool's representation that is built before every element is queued.\<close>

definition partial_rep :: "'a sxe_pool_mem_scheme \<Rightarrow> addr \<Rightarrow> u32 list \<Rightarrow> bool" where
  "partial_rep m pool xs \<longleftrightarrow> pool_layout m pool \<and> 0 < states (pool_impl m pool) \<and>
     queue_family list_rep m (queue_at m pool) (\<lambda>s. map (node_at m pool) (free_queue xs s)) {s. s < states (pool_impl m pool)} \<and>
     (\<forall>s < states (pool_impl m pool). node_id (node m (queue_at m pool s)) = s \<and>
        list_offset (header m (queue_at m pool s)) = 0)"

lemma partial_rep_step:
  assumes p: "partial_rep m pool xs" and new: "of_nat i \<notin> set xs"
  shows "partial_rep (free_list_step m pool t i) pool (xs @ [of_nat i])"
proof -
  define S where "S = {s. s < states (pool_impl m pool)}"
  let ?m = "sxe_list_push m (queue_at m pool 0) (node_at m pool (of_nat i))" and ?m' = "free_list_step m pool t i"
  have lay: "pool_layout m pool" and 0: "0 \<in> S" and off: "\<And>s. s \<in> S \<Longrightarrow> list_offset (header m (queue_at m pool s)) = 0"
    and fam: "queue_family list_rep m (queue_at m pool) (\<lambda>s. map (node_at m pool) (free_queue xs s)) S"
    and nid: "\<And>s. s \<in> S \<Longrightarrow> node_id (node m (queue_at m pool s)) = s"
    using p by (auto simp: partial_rep_def S_def)
  have apart: "queue_at m pool s \<noteq> node_at m pool j" "node_at m pool j \<noteq> 0" if "s \<in> S" for s j
    using layout_apart(1)[OF lay, of s j] layout_apart(3)[OF lay, of s j] that by (simp_all add: S_def)
  have "queue_family list_rep ?m (queue_at m pool) ((\<lambda>s. map (node_at m pool) (free_queue xs s))
      (0 := map (node_at m pool) (free_queue xs 0) @ [node_at m pool (of_nat i)])) S"
    by (rule sxe_list.family_push[OF fam 0])
      (use apart apart(1)[THEN not_sym] off 0 new in \<open>auto simp: object_node_def free_queue_def split: if_splits\<close>)
  moreover have "(\<lambda>s. map (node_at m pool) (free_queue xs s))
      (0 := map (node_at m pool) (free_queue xs 0) @ [node_at m pool (of_nat i)]) =
    (\<lambda>s. map (node_at m pool) (free_queue (xs @ [of_nat i]) s))" by (auto simp: free_queue_def)
  ultimately have "queue_family list_rep ?m' (queue_at m pool) (\<lambda>s. map (node_at m pool) (free_queue (xs @ [of_nat i]) s)) S"
    using family_same_nodes[of ?m _ _ _ ?m'] by simp
  moreover have "node_id (node ?m (queue_at m pool s)) = s" "list_offset (header ?m (queue_at m pool s)) = 0"
    if "s \<in> S" for s
    using push_object_node[of m "queue_at m pool 0" "node_at m pool (of_nat i)" "queue_at m pool s"] off[OF that]
      nid[OF that] apart[OF that] off[OF 0]
    by (simp_all add: push_node_id object_node_def fun_eq_iff)
  ultimately show ?thesis
    using lay 0 by (simp add: partial_rep_def S_def pool_layout_def SXE_POOL_QUEUE_def SXE_POOL_NODES_def)
qed

lemma partial_rep_free_list:
  assumes "partial_rep m pool (built k n)" and "k \<le> n" and "n \<le> 2 ^ 32"
  shows "partial_rep (construct_free_list m pool t k) pool (built 0 n)"
  using assms
proof (induction k arbitrary: m)
  case (Suc k)
  have "of_nat k \<notin> set (built (Suc k) n)"
    using Suc.prems by (simp add: built_range unat_of_nat_small)
  then have "partial_rep (free_list_step m pool t k) pool (built k n)"
    using partial_rep_step[OF Suc.prems(1)] Suc.prems(2) by (simp add: built_simps(2)[of k])
  then show ?case using Suc by (simp only: construct_free_list_Suc)
qed simp

lemma construct_free_list_pool:
  "pool_impl (construct_free_list m pool t k) pool =
    (pool_impl m pool)\<lparr>next_count := if is_timed (pool_impl m pool) then next_count (pool_impl m pool)
       else next_count (pool_impl m pool) + of_nat k\<rparr>"
proof (induction k arbitrary: m)
  case (Suc k)
  show ?case unfolding construct_free_list_Suc Suc.IH by (simp add: pool_tick_def add.assoc)
qed simp

lemma partial_rep_complete:
  assumes "partial_rep m pool (built 0 (unat (number (pool_impl m pool))))"
  shows "pool_rep m pool (free_queue (built 0 (unat (number (pool_impl m pool)))))"
proof -
  have "unat (number (pool_impl m pool)) \<le> 2 ^ 32" using unat_lt2p[of "number (pool_impl m pool)"] by simp
  then show ?thesis
    using assms built_range[of "unat (number (pool_impl m pool))" _ 0]
    by (auto simp: partial_rep_def pool_rep_def free_queue_def word_less_nat_alt split: if_splits)
qed

text \<open>The constructor's memory just before it constructs the queues.\<close>

definition construct_impl_fields ::
  "'a sxe_pool_mem_scheme \<Rightarrow> addr \<Rightarrow> string \<Rightarrow> u32 \<Rightarrow> u64 \<Rightarrow> u32 \<Rightarrow> u32 \<Rightarrow> 'a sxe_pool_mem_scheme" where
  "construct_impl_fields m pool name number1 size1 states1 options1 =
    (let m = set_impl pool (\<lambda>p. p\<lparr>
           queue_rel := uint (of_int sizeof_SXE_POOL_IMPL + ucast number1 * size1 :: u64),
           nodes_rel := uint (of_int sizeof_SXE_POOL_IMPL + ucast number1 * size1 +
                              ucast states1 * of_int sizeof_SXE_LIST :: u64),
           number := number1, elem_size := size1, states := states1, options := options1,
           state_timeouts := None\<rparr>) m;
         m = (if is_locked (pool_impl m pool)
              then set_impl pool (spinlock_update (\<lambda>_. sxe_spinlock_construct)) m else m)
     in set_impl pool (\<lambda>p. p\<lparr>pool_name := take SXE_POOL_NAME_MAXIMUM_LENGTH name, event_timeout := None\<rparr>) m)"

lemma construct_impl_fields_simps [simp]:
  "number (pool_impl (construct_impl_fields m pool name n z k op) pool) = n"
  "states (pool_impl (construct_impl_fields m pool name n z k op) pool) = k"
  "options (pool_impl (construct_impl_fields m pool name n z k op) pool) = op"
  "queue_rel (pool_impl (construct_impl_fields m pool name n z k op) pool) =
     uint (of_int sizeof_SXE_POOL_IMPL + ucast n * z :: u64)"
  "nodes_rel (pool_impl (construct_impl_fields m pool name n z k op) pool) =
     uint (of_int sizeof_SXE_POOL_IMPL + ucast n * z + ucast k * of_int sizeof_SXE_LIST :: u64)"
  by (simp_all add: construct_impl_fields_def Let_def)

lemma construct_layout:
  assumes "0 < pool" and "144 + unat n * unat z + unat k * 40 < 2 ^ 64"
  shows "pool_layout (construct_impl_fields m pool name n z k op) pool"
proof -
  have nz: "unat (ucast n * z :: u64) = unat n * unat z" and k: "unat (ucast k * 40 :: u64) = unat k * 40"
    using assms(2) by (simp_all add: unat_word_ariths(2) unat_ucast_up)
  have q: "unat (144 + ucast n * z :: u64) = 144 + unat n * unat z"
    using assms(2) nz by (simp add: unat_word_ariths(1))
  then have "unat (144 + ucast n * z + ucast k * 40 :: u64) = 144 + unat n * unat z + unat k * 40"
    using assms(2) k by (simp add: unat_word_ariths(1)[of "144 + ucast n * z"])
  with q have "unat (144 + ucast n * z + ucast k * 40 :: u64) = unat (144 + ucast n * z :: u64) + unat k * 40"
    by linarith
  then have "uint (144 + ucast n * z + ucast k * 40 :: u64) = uint (144 + ucast n * z :: u64) + uint k * 40"
    unfolding uint_nat by linarith
  with assms(1) show ?thesis
    by (simp add: pool_layout_def SXE_POOL_QUEUE_def SXE_POOL_NODES_def SXE_PTR_FIX_def sizeof_SXE_POOL_IMPL_def sizeof_SXE_LIST_def
        add_nonneg_pos)
qed

definition construct_before_nodes ::
  "'a sxe_pool_mem_scheme \<Rightarrow> addr \<Rightarrow> string \<Rightarrow> u32 \<Rightarrow> u64 \<Rightarrow> u32 \<Rightarrow> u32 \<Rightarrow> 'a sxe_pool_mem_scheme" where
  "construct_before_nodes m pool name n z k op =
    (let m = construct_queues (construct_impl_fields m pool name n z k op) pool (unat k)
     in if is_timed (pool_impl m pool) then m else set_impl pool (next_count_update (\<lambda>_. 0)) m)"

lemma construct_split:
  "sxe_pool_construct env m pool name n z k op =
    (construct_free_list (construct_before_nodes m pool name n z k op) pool
       (if op AND SXE_POOL_OPTION_TIMED \<noteq> 0 then sxe_time_get (env_tod env) else 0) (unat n),
     pool + sizeof_SXE_POOL_IMPL)"
  by (simp add: sxe_pool_construct_def construct_before_nodes_def construct_impl_fields_def Let_def)

lemma construct_before_nodes_impl:
  "number (pool_impl (construct_before_nodes m pool name n z k op) pool) = n"
  "states (pool_impl (construct_before_nodes m pool name n z k op) pool) = k"
  "options (pool_impl (construct_before_nodes m pool name n z k op) pool) = op"
  "op AND SXE_POOL_OPTION_TIMED = 0 \<Longrightarrow> next_count (pool_impl (construct_before_nodes m pool name n z k op) pool) = 0"
  by (simp_all add: construct_before_nodes_def Let_def)

lemma construct_before_nodes_rep:
  assumes "0 < pool" and "0 < k" and "144 + unat n * unat z + unat k * 40 < 2 ^ 64"
  shows "partial_rep (construct_before_nodes m pool name n z k op) pool []"
proof -
  define m1 where "m1 = construct_impl_fields m pool name n z k op"
  define m2 where "m2 = construct_queues m1 pool (unat k)"
  define m3 where "m3 = construct_before_nodes m pool name n z k op"
  have lay: "pool_layout m1 pool" unfolding m1_def by (rule construct_layout[OF assms(1,3)])
  have k32: "unat k \<le> 2 ^ 32" using unat_lt2p[of k] by simp
  have sk: "states (pool_impl m1 pool) = k" by (simp add: m1_def)
  have q: "list_rep m2 (queue_at m1 pool s) [] \<and> node_id (node m2 (queue_at m1 pool s)) = s \<and>
      list_offset (header m2 (queue_at m1 pool s)) = 0" if "s < k" for s
    unfolding m2_def using that layout_apart(2)[OF lay, of s] sk
    by (intro construct_queues_empty k32) (auto simp: word_less_nat_alt)
  have eq: "node m3 = node m2" "header m3 = header m2" "states (pool_impl m3 pool) = k"
    "queue_at m3 pool = queue_at m1 pool" "node_at m3 pool = node_at m1 pool"
    by (simp_all add: m3_def construct_before_nodes_def m2_def m1_def Let_def pool_rep_set_impl)
  have "SXE_POOL_QUEUE m3 pool = SXE_POOL_QUEUE m1 pool" "SXE_POOL_NODES m3 pool = SXE_POOL_NODES m1 pool"
    by (simp_all add: m3_def construct_before_nodes_def m1_def Let_def SXE_POOL_QUEUE_def SXE_POOL_NODES_def)
  with lay have lay3: "pool_layout m3 pool" by (simp add: pool_layout_def eq sk)
  have "list_rep m3 (queue_at m1 pool s) []" if "s < k" for s
    using q[OF that] by (auto intro: list_rep_other simp: eq)
  then have "partial_rep m3 pool []"
    using q lay3 assms(2) by (simp add: partial_rep_def queue_family_def free_queue_def eq)
  then show ?thesis by (simp add: m3_def)
qed

lemma construct_rep:
  assumes "0 < pool" and "0 < k" and "144 + unat n * unat z + unat k * 40 < 2 ^ 64"
    and "sxe_pool_construct env m pool name n z k op = (m', array)"
  shows "pool_rep m' pool (free_queue (built 0 (unat n)))" and "pool = SXE_POOL_ARRAY_TO_IMPL array"
    and "array = pool + 144" and "number (pool_impl m' pool) = n" and "states (pool_impl m' pool) = k"
    and "options (pool_impl m' pool) = op"
proof -
  define m3 where "m3 = construct_before_nodes m pool name n z k op"
  obtain t where m': "m' = construct_free_list m3 pool t (unat n)" and array: "array = pool + sizeof_SXE_POOL_IMPL"
    using assms(4) by (auto simp: construct_split m3_def)
  show "number (pool_impl m' pool) = n" "states (pool_impl m' pool) = k" "options (pool_impl m' pool) = op"
    unfolding m' construct_free_list_pool by (simp_all add: m3_def construct_before_nodes_impl)
  moreover have "partial_rep m3 pool []" unfolding m3_def by (rule construct_before_nodes_rep[OF assms(1-3)])
  ultimately show "pool_rep m' pool (free_queue (built 0 (unat n)))"
    using partial_rep_free_list[of m3 pool "unat n" "unat n" t] partial_rep_complete[of m' pool] unat_lt2p[of n]
    by (simp add: m'[symmetric] built_simps(1) less_imp_le)
  show "array = pool + 144" "pool = SXE_POOL_ARRAY_TO_IMPL array"
    using array by (simp_all add: SXE_POOL_ARRAY_TO_IMPL_def sizeof_SXE_POOL_IMPL_def)
qed

text \<open>The times or counts that construction gives to the elements.\<close>

lemma free_list_stamp:
  assumes "k \<le> 2 ^ 32"
  shows "node_last (construct_free_list m pool t k) (node_at m pool i) =
    (if unat i < k then (if is_timed (pool_impl m pool) then t else next_count (pool_impl m pool) + of_nat (k - unat i))
     else node_last m (node_at m pool i))"
  using assms
proof (induction k arbitrary: m)
  case (Suc k)
  have k: "unat (of_nat k :: u32) = k" using Suc.prems by (simp add: unat_of_nat_small)
  then have "of_nat k = i \<longleftrightarrow> unat i = k" by (auto simp: word_unat_eq_iff)
  moreover have "node_last (free_list_step m pool t k) =
      (node_last m)(node_at m pool (of_nat k) := if is_timed (pool_impl m pool) then t else next_count (pool_impl m pool) + 1)"
    by (simp add: free_list_step_def Let_def)
  ultimately show ?case
    using Suc.IH[of "free_list_step m pool t k"] Suc.prems
    by (auto simp only: construct_free_list_Suc free_list_step_simps fun_upd_same)
      (auto simp: pool_tick_def Suc_diff_le)
qed simp

lemma sorted_built:
  assumes "n \<le> 2 ^ 32"
  shows "sorted (map (\<lambda>i. of_nat (n - unat i) :: u64) (built k n))"
proof -
  have "map (\<lambda>i. of_nat (n - unat i) :: u64) (built k n) = map (\<lambda>j. of_nat (n - j)) (rev [k..<n])"
    using assms by (auto simp: built_def unat_of_nat_small)
  moreover have "sorted_wrt (\<lambda>x y. (of_nat (n - x) :: u64) \<le> of_nat (n - y)) (rev [k..<n])"
    unfolding sorted_wrt_rev
  proof (rule sorted_wrt_mono_rel[of _ "(<)"])
    fix x y :: nat assume "x < y"
    then show "(of_nat (n - y) :: u64) \<le> of_nat (n - x)"
      using assms by (auto simp: word_le_nat_alt unat_of_nat_small)
  qed simp
  ultimately show ?thesis by (simp add: sorted_map)
qed

lemma construct_aged:
  assumes "0 < pool" and "0 < k" and "144 + unat n * unat z + unat k * 40 < 2 ^ 64"
    and "sxe_pool_construct env m pool name n z k op = (m', array)"
  shows "pool_aged m' pool (free_queue (built 0 (unat n))) (pool_clock env (pool_impl m' pool))"
proof -
  define m3 where "m3 = construct_before_nodes m pool name n z k op"
  define t where "t = (if op AND SXE_POOL_OPTION_TIMED \<noteq> 0 then sxe_time_get (env_tod env) else 0)"
  have m': "m' = construct_free_list m3 pool t (unat n)"
    using assms(4) by (auto simp: construct_split m3_def t_def)
  have n32: "unat n \<le> 2 ^ 32" using unat_lt2p[of n] by simp
  have at: "node_at m' pool = node_at m3 pool"
    by (simp add: fun_eq_iff node_at_def SXE_POOL_NODES_def m' construct_free_list_pool)
  have op: "options (pool_impl m3 pool) = op" by (simp add: m3_def construct_before_nodes_impl)
  have nc: "op AND SXE_POOL_OPTION_TIMED = 0 \<Longrightarrow> next_count (pool_impl m3 pool) = 0"
    by (simp add: m3_def construct_before_nodes_impl)
  have l: "node_last m' (node_at m' pool i) = (if op AND SXE_POOL_OPTION_TIMED \<noteq> 0 then t else of_nat (unat n - unat i))"
    if "i \<in> set (built 0 (unat n))" for i
    using that free_list_stamp[OF n32, of m3 pool t i] built_range[OF n32, of i 0] nc
    by (auto simp: m'[symmetric] at op)
  have c: "pool_clock env (pool_impl m' pool) = (if op AND SXE_POOL_OPTION_TIMED \<noteq> 0 then t else of_nat (unat n))"
    using nc by (simp add: pool_clock_def m' construct_free_list_pool op t_def)
  have "(of_nat (unat n - unat i) :: u64) \<le> of_nat (unat n)" for i :: u32
    using n32 by (simp add: word_le_nat_alt unat_of_nat_small unat_ucast_up)
  then have "\<forall>i \<in> set (built 0 (unat n)). node_last m' (node_at m' pool i) \<le> pool_clock env (pool_impl m' pool)"
    by (simp add: l c)
  moreover have "sorted (map (\<lambda>i. node_last m' (node_at m' pool i)) (built 0 (unat n)))"
    using sorted_built[OF n32, of 0] by (cases "op AND SXE_POOL_OPTION_TIMED = 0") (simp_all add: l cong: map_cong)
  ultimately show ?thesis by (auto simp: pool_aged_def free_queue_def)
qed

section \<open>Counting, ageing and timeouts\<close>

lemma card_words_below: "card {i :: 'a::len word. i < n} = unat n"
proof -
  have "bij_betw unat {i :: 'a word. i < n} {..<unat n}"
    by (rule bij_betw_byWitness[where f' = of_nat])
      (auto simp: word_less_nat_alt of_nat_less_word unat_of_nat_small[OF less_trans[OF _ unat_lt2p]])
  then show ?thesis by (simp add: bij_betw_same_card)
qed

lemma pool_rep_disjoint:
  assumes "pool_rep m pool Q" and "s < states (pool_impl m pool)" and "t < states (pool_impl m pool)" and "s \<noteq> t"
  shows "set (Q s) \<inter> set (Q t) = {}"
  using pool_rep_state(4)[OF assms(1,2)] pool_rep_state(4)[OF assms(1,3)] assms(4) by blast

lemma pool_rep_total:
  assumes "pool_rep m pool Q"
  shows "(\<Sum>s | s < states (pool_impl m pool). length (Q s)) = unat (number (pool_impl m pool))"
proof -
  have "(\<Sum>s | s < states (pool_impl m pool). length (Q s)) = (\<Sum>s | s < states (pool_impl m pool). card (set (Q s)))"
    by (rule sum.cong) (simp_all add: distinct_card pool_rep_state(5)[OF assms])
  also have "\<dots> = card (\<Union>s \<in> {s. s < states (pool_impl m pool)}. set (Q s))"
    by (rule card_UN_disjoint[symmetric]) (use pool_rep_disjoint[OF assms] in auto)
  also have "(\<Union>s \<in> {s. s < states (pool_impl m pool)}. set (Q s)) = {i. i < number (pool_impl m pool)}"
    using assms by (auto simp: pool_rep_def)
  finally show ?thesis by (simp add: card_words_below)
qed

lemma pool_rep_length:
  assumes "pool_rep m pool Q" and "s < states (pool_impl m pool)"
  shows "length (Q s) \<le> unat (number (pool_impl m pool))"
  using pool_rep_total[OF assms(1)] member_le_sum[of s "{s. s < states (pool_impl m pool)}" "\<lambda>s. length (Q s)"] assms(2)
  by simp

lemma number_in_state:
  assumes "pool_rep m pool Q" and "s < states (pool_impl m pool)" and "pool = SXE_POOL_ARRAY_TO_IMPL array" and "array \<noteq> NULL"
  shows "sxe_pool_get_number_in_state m array s = Some (of_nat (length (Q s)))"
  using pool_rep_state(1)[OF assms(1,2)] assms(4)
  by (simp add: sxe_pool_get_number_in_state_def assms(3)[symmetric] SXE_LIST_GET_LENGTH_def list_rep_def)

lemma unlocked_lock: "\<not> is_locked (pool_impl m pool) \<Longrightarrow> sxe_pool_lock env pool m = (m, SXE_POOL_LOCK_TAKEN)"
  by (simp add: sxe_pool_lock_def)

lemma unlocked_unlock: "\<not> is_locked (pool_impl m pool) \<Longrightarrow> sxe_pool_unlock env pool m = Some m"
  by (simp add: sxe_pool_unlock_def)

lemma peek_queue_unlocked:
  assumes "pool_rep m pool Q" and "s < states (pool_impl m pool)"
  shows "sxe_list_peek_head m (queue_at m pool s) = Some (case Q s of [] \<Rightarrow> None | i # _ \<Rightarrow> Some (node_at m pool i))"
  using peek_queue[OF assms, of "spinlock (pool_impl m pool)"] by (simp only: relock_same)

lemma oldest_unlocked:
  assumes "pool_rep m pool Q" and "s < states (pool_impl m pool)" and "\<not> is_locked (pool_impl m pool)"
    and "pool = SXE_POOL_ARRAY_TO_IMPL array" and "array \<noteq> NULL"
  shows "sxe_pool_get_oldest_element_index env m array s =
      Some (m, case Q s of [] \<Rightarrow> SXE_POOL_NO_INDEX | i # _ \<Rightarrow> i)"
    and "is_timed (pool_impl m pool) \<Longrightarrow> sxe_pool_get_oldest_element_time env m array s =
      Some (m, case Q s of [] \<Rightarrow> 0 | i # _ \<Rightarrow> node_last m (node_at m pool i))"
    and "\<not> is_timed (pool_impl m pool) \<Longrightarrow> sxe_pool_get_oldest_element_count env m array s =
      Some (m, case Q s of [] \<Rightarrow> 0 | i # _ \<Rightarrow> node_last m (node_at m pool i))"
  using assms(2,5) unlocked_lock[OF assms(3)] unlocked_unlock[OF assms(3)] peek_queue_unlocked[OF assms(1,2)]
  by (simp_all add: sxe_pool_get_oldest_element_index_def sxe_pool_get_oldest_element_time_def
      sxe_pool_get_oldest_element_count_def sxe_pool_impl_get_oldest_element_time_or_count_def
      assms(4)[symmetric] less_imp_le split: list.splits)

lemma try_to_set_cases:
  assumes "env_tid env \<noteq> 0" and rep: "pool_rep m pool Q"
    and st: "old < states (pool_impl m pool)" "new < states (pool_impl m pool)" and n: "i < number (pool_impl m pool)"
    and pool: "pool = SXE_POOL_ARRAY_TO_IMPL array" and array: "array \<noteq> NULL"
  obtains (moved) m' where "sxe_pool_try_to_set_indexed_element_state env m array i old new = Some (m', i, new)"
      and "i \<in> set (Q old)" and "pool_moved env pool Q i old new m m'"
  | (incorrect) m' where "sxe_pool_try_to_set_indexed_element_state env m array i old new =
        Some (m', SXE_POOL_INCORRECT_STATE, node_id (node m (node_at m pool i)))"
      and "i \<notin> set (Q old)" and "pool_unchanged pool m m'"
  | (not_taken) m' where "sxe_pool_try_to_set_indexed_element_state env m array i old new =
        Some (m', SXE_POOL_LOCK_NOT_TAKEN, new)"
      and "pool_unchanged pool m m'" and "is_locked (pool_impl m pool)"
  using \<open>env_tid env \<noteq> 0\<close>
proof (cases rule: pool_lock_cases[of env pool m, case_names taken busy])
  case (taken lk)
  show ?thesis
  proof (cases "i \<in> set (Q old)")
    case True
    obtain m2 m3 where "sxe_pool_set_indexed_element_state_unlocked env (relock pool lk m) array i old new
        SXE_POOL_ON_INCORRECT_STATE_RETURN_FALSE = Some (m2, True)"
      "sxe_pool_unlock env pool m2 = Some m3" "pool_moved env pool Q i old new m m3"
      by (rule locked_move[OF rep st True pool array taken(2)])
    note mv = this
    have "sxe_pool_try_to_set_indexed_element_state env m array i old new = Some (m3, i, new)"
      using mv(1,2) taken(1) array st n
      by (simp add: sxe_pool_try_to_set_indexed_element_state_def pool[symmetric] less_imp_le)
    then show ?thesis using moved True mv(3) by blast
  next
    case False
    have "sxe_pool_set_indexed_element_state_unlocked env (relock pool lk m) array i old new
        SXE_POOL_ON_INCORRECT_STATE_RETURN_FALSE = Some (relock pool lk m, False)"
      by (subst set_unlocked_incorrect[of _ pool Q])
        (use rep st n False pool array in \<open>simp_all add: SXE_POOL_ON_INCORRECT_STATE_RETURN_FALSE_def
          SXE_POOL_ON_INCORRECT_STATE_ABORT_def\<close>)
    moreover obtain lk' where "sxe_pool_unlock env pool (relock pool lk m) = Some (relock pool lk' (relock pool lk m))"
      by (rule pool_unlock[OF taken(2)])
    ultimately have "sxe_pool_try_to_set_indexed_element_state env m array i old new =
        Some (relock pool lk' m, SXE_POOL_INCORRECT_STATE, node_id (node m (node_at m pool i)))"
      using taken(1) array st n
      by (simp add: sxe_pool_try_to_set_indexed_element_state_def sxe_pool_index_to_state_def pool[symmetric]
          less_imp_le relock_relock)
    then show ?thesis using incorrect False unfolding pool_unchanged_def by blast
  qed
next
  case (busy lk)
  then have "sxe_pool_try_to_set_indexed_element_state env m array i old new =
      Some (relock pool lk m, SXE_POOL_LOCK_NOT_TAKEN, new)"
    using st array n by (simp add: sxe_pool_try_to_set_indexed_element_state_def pool[symmetric] less_imp_le)
  then show ?thesis using not_taken busy(2) unfolding pool_unchanged_def by blast
qed

lemma pool_moved_aged:
  assumes "pool_rep m pool Q" and "pool_aged m pool Q t" and "a < states (pool_impl m pool)" and "i \<in> set (Q a)"
    and "t \<le> pool_stamp env (pool_impl m pool)" and "pool_moved env pool Q i a b m m'"
  shows "pool_aged m' pool (pool_move Q i a b) (pool_stamp env (pool_impl m pool))"
proof -
  obtain lk where "pool_impl m' pool = (pool_tick (pool_impl m pool))\<lparr>spinlock := lk\<rparr>"
    using assms(6) by (auto simp: pool_moved_def)
  then show ?thesis
    using pool_rep_aged[OF assms(1-5), of m' "\<lambda>p. (pool_tick p)\<lparr>spinlock := lk\<rparr>" b] assms(6)
    by (simp add: pool_moved_def)
qed

lemma array_of_impl [simp]: "SXE_POOL_ARRAY_TO_IMPL (SXE_POOL_IMPL_TO_ARRAY pool) = pool"
  by (simp add: SXE_POOL_ARRAY_TO_IMPL_def SXE_POOL_IMPL_TO_ARRAY_def)

lemma pool_moved_impl:
  assumes "pool_moved env pool Q i a b m m'"
  shows "states (pool_impl m' pool) = states (pool_impl m pool)" "options (pool_impl m' pool) = options (pool_impl m pool)"
    "event_timeout (pool_impl m' pool) = event_timeout (pool_impl m pool)"
    "number (pool_impl m' pool) = number (pool_impl m pool)"
    "state_timeouts (pool_impl m' pool) = state_timeouts (pool_impl m pool)"
    "node_at m' pool = node_at m pool" "queue_at m' pool = queue_at m pool"
    "j \<noteq> i \<Longrightarrow> node_last m' (node_at m pool j) = node_last m (node_at m pool j)"
proof -
  obtain lk where impl: "pool_impl m' = (pool_impl m)(pool := (pool_tick (pool_impl m pool))\<lparr>spinlock := lk\<rparr>)"
    and lst: "node_last m' = (node_last m)(node_at m pool i := pool_stamp env (pool_impl m pool))"
    using assms by (auto simp: pool_moved_def)
  show "states (pool_impl m' pool) = states (pool_impl m pool)" "options (pool_impl m' pool) = options (pool_impl m pool)"
    "event_timeout (pool_impl m' pool) = event_timeout (pool_impl m pool)"
    "number (pool_impl m' pool) = number (pool_impl m pool)"
    "state_timeouts (pool_impl m' pool) = state_timeouts (pool_impl m pool)"
    "node_at m' pool = node_at m pool" "queue_at m' pool = queue_at m pool"
    by (simp_all add: impl fun_eq_iff node_at_def queue_at_def SXE_POOL_NODES_def SXE_POOL_QUEUE_def)
  show "j \<noteq> i \<Longrightarrow> node_last m' (node_at m pool j) = node_last m (node_at m pool j)"
    by (simp add: lst)
qed

text \<open>What the inner loop of the timeout check needs of a pool, whatever its queues.\<close>

definition timeout_ready :: "'a sxe_pool_mem_scheme \<Rightarrow> addr \<Rightarrow> bool" where
  "timeout_ready m pool \<longleftrightarrow> SXE_POOL_IMPL_TO_ARRAY pool \<noteq> NULL \<and> \<not> is_locked (pool_impl m pool) \<and>
     is_timed (pool_impl m pool) \<and> event_timeout (pool_impl m pool) \<noteq> None"

definition same_setup :: "addr \<Rightarrow> 'a sxe_pool_mem_scheme \<Rightarrow> 'a sxe_pool_mem_scheme \<Rightarrow> bool" where
  "same_setup pool m m' \<longleftrightarrow> states (pool_impl m' pool) = states (pool_impl m pool) \<and>
     options (pool_impl m' pool) = options (pool_impl m pool) \<and>
     event_timeout (pool_impl m' pool) = event_timeout (pool_impl m pool) \<and>
     state_timeouts (pool_impl m' pool) = state_timeouts (pool_impl m pool) \<and> node_at m' pool = node_at m pool"

lemma same_setup_ready: "same_setup pool m m' \<Longrightarrow> timeout_ready m' pool = timeout_ready m pool"
  by (simp add: same_setup_def timeout_ready_def)

lemma pool_rep_real_index:
  assumes "pool_rep m pool Q" and "s < states (pool_impl m pool)" and "i \<in> set (Q s)"
  shows "i \<noteq> SXE_POOL_NO_INDEX"
  using pool_rep_in_number[OF assms] word_order.extremum[of "number (pool_impl m pool)"]
  by (auto simp: SXE_POOL_NO_INDEX_def)

lemma check_state_step:
  assumes rep: "pool_rep m pool Q" and s: "s < states (pool_impl m pool)" and ready: "timeout_ready m pool"
    and Q: "Q s = i # rest" and il: "il \<noteq> i"
  shows "check_state_timeouts env cb now pool s timeout il tlast m =
    (if now - node_last m (node_at m pool i) < timeout then Some m
     else do {
       m' \<leftarrow> cb (the (event_timeout (pool_impl m pool))) m (SXE_POOL_IMPL_TO_ARRAY pool) i (caller_info (pool_impl m pool));
       check_state_timeouts env cb now pool s timeout i (node_last m (node_at m pool i)) m'
     })"
proof -
  have r: "\<not> is_locked (pool_impl m pool)" "is_timed (pool_impl m pool)" "SXE_POOL_IMPL_TO_ARRAY pool \<noteq> NULL"
    using ready by (auto simp: timeout_ready_def)
  obtain f where f: "event_timeout (pool_impl m pool) = Some f" using ready by (auto simp: timeout_ready_def)
  have "i \<noteq> SXE_POOL_NO_INDEX" using pool_rep_real_index[OF rep s] Q by simp
  moreover note old = oldest_unlocked[OF rep s r(1) array_of_impl[symmetric] r(3)]
  ultimately show ?thesis
    using old(2)[OF r(2)] Q il f by (subst check_state_timeouts.simps) (simp add: old(1))
qed

lemma check_state_empty:
  assumes "pool_rep m pool Q" and "s < states (pool_impl m pool)" and "timeout_ready m pool" and "Q s = []"
  shows "check_state_timeouts env cb now pool s timeout il tlast m = Some m"
  using assms oldest_unlocked(1)[OF assms(1,2) _ array_of_impl[symmetric]]
  by (subst check_state_timeouts.simps) (simp add: timeout_ready_def)

lemma check_state_run:
  assumes cb: "callback_leaves cb pool s D" and sD: "s \<notin> D"
    and "pool_rep m pool Q" and "s < states (pool_impl m pool)"
    and "timeout_ready m pool" and "\<forall>i rest. Q s = i # rest \<longrightarrow> il \<noteq> i"
  shows "\<exists>m' Q'. check_state_timeouts env cb now pool s timeout il tlast m = Some m' \<and> pool_rep m' pool Q' \<and>
    Q' s = dropWhile (expired m pool now timeout) (Q s) \<and>
    (\<forall>t. t \<noteq> s \<longrightarrow> t \<notin> D \<longrightarrow> Q' t = Q t) \<and> same_setup pool m m' \<and>
    (\<forall>j. j \<notin> set (takeWhile (expired m pool now timeout) (Q s)) \<longrightarrow>
       node_last m' (node_at m pool j) = node_last m (node_at m pool j))"
  using assms(3-)
proof (induction "Q s" arbitrary: m Q il tlast)
  case Nil
  have "check_state_timeouts env cb now pool s timeout il tlast m = Some m"
    by (rule check_state_empty[OF Nil.prems(1,2,3) Nil.hyps[symmetric]])
  with Nil show ?case by (intro exI[of _ m] exI[of _ Q]) (simp add: same_setup_def)
next
  case (Cons i rest)
  note Q = Cons.hyps(2)[symmetric]
  note step = check_state_step[OF Cons.prems(1,2,3) Q Cons.prems(4)[rule_format, OF Q], of env cb now timeout tlast]
  show ?case
  proof (cases "expired m pool now timeout i")
    case False
    then show ?thesis using step Q Cons.prems(1) by (intro exI[of _ m] exI[of _ Q]) (simp add: same_setup_def expired_def not_le)
  next
    case True
    obtain e m1 b where b: "b \<in> D" and c: "cb (the (event_timeout (pool_impl m pool))) m (SXE_POOL_IMPL_TO_ARRAY pool) i
        (caller_info (pool_impl m pool)) = Some m1" and mv: "pool_moved e pool Q i s b m m1"
      using cb Q Cons.prems(1-3) unfolding callback_leaves_def timeout_ready_def by blast
    have sb: "s \<noteq> b" using sD b by blast
    note fr = pool_moved_impl[OF mv]
    let ?Q = "pool_move Q i s b"
    have dist: "distinct (i # rest)" using pool_rep_state(5)[OF Cons.prems(1,2)] Q by simp
    have Q1: "?Q s = rest" "\<And>t. t \<noteq> s \<Longrightarrow> t \<notin> D \<Longrightarrow> ?Q t = Q t"
      using Q sb b by (auto simp: pool_move_def Let_def)
    have same: "node_last m1 (node_at m1 pool j) = node_last m (node_at m pool j)" if "j \<in> set rest" for j
      using dist that fr(6) fr(8)[of j] by auto
    have "timeout_ready m1 pool" using Cons.prems(3) fr by (simp add: timeout_ready_def)
    moreover have "il' = i \<Longrightarrow> il' \<noteq> i'" if "?Q s = i' # rest'" for i' rest' il'
      using that dist Q1(1) by auto
    ultimately obtain m' Q' where run: "check_state_timeouts env cb now pool s timeout i (node_last m (node_at m pool i)) m1 = Some m'"
      "pool_rep m' pool Q'" "Q' s = dropWhile (expired m1 pool now timeout) rest"
      "\<forall>t. t \<noteq> s \<longrightarrow> t \<notin> D \<longrightarrow> Q' t = ?Q t" "same_setup pool m1 m'"
      "\<forall>j. j \<notin> set (takeWhile (expired m1 pool now timeout) rest) \<longrightarrow>
         node_last m' (node_at m1 pool j) = node_last m1 (node_at m1 pool j)"
      using Cons.hyps(1)[of ?Q m1 i "node_last m (node_at m pool i)"] Q1(1) pool_moved_rep[OF mv] Cons.prems(2) fr(1)
      by auto
    have "takeWhile (expired m1 pool now timeout) rest = takeWhile (expired m pool now timeout) rest"
      "dropWhile (expired m1 pool now timeout) rest = dropWhile (expired m pool now timeout) rest"
      using same by (simp_all add: expired_def cong: dropWhile_cong takeWhile_cong)
    note run' = run[unfolded this]
    have "same_setup pool m m'" using run(5) fr by (simp add: same_setup_def)
    moreover have "node_last m' (node_at m pool j) = node_last m (node_at m pool j)"
      if "j \<notin> set (takeWhile (expired m pool now timeout) (Q s))" for j
      using that Q True run'(6) fr(6) fr(8)[of j] by simp
    moreover have "check_state_timeouts env cb now pool s timeout il tlast m = Some m'"
      using step c True run(1) by (simp add: expired_def not_less[symmetric])
    ultimately show ?thesis
      using True Q run' Q1(2) by (intro exI[of _ m'] exI[of _ Q']) simp
  qed
qed

text \<open>
  What is left of the queues of the states with a timeout: in the states from \<open>state\<close> on, the elements from the first that has not
  expired on, with their times.
\<close>

definition unexpired_left :: "'a sxe_pool_mem_scheme \<Rightarrow> 'a sxe_pool_mem_scheme \<Rightarrow> addr \<Rightarrow> (u32 \<Rightarrow> u32 list) \<Rightarrow> (u32 \<Rightarrow> u32 list) \<Rightarrow> SXE_TIME \<Rightarrow>
    SXE_TIME list \<Rightarrow> u32 \<Rightarrow> bool" where
  "unexpired_left m m' pool Q Q' now timeouts state \<longleftrightarrow> (\<forall>s. s < states (pool_impl m pool) \<longrightarrow> timeouts ! unat s \<noteq> 0 \<longrightarrow>
     Q' s = (if s < state then Q s else dropWhile (expired m pool now (timeouts ! unat s)) (Q s)) \<and>
     (\<forall>i \<in> set (Q' s). node_last m' (node_at m' pool i) = node_last m (node_at m pool i)))"

lemma check_one_state:
  assumes cb: "timeouts ! unat s \<noteq> 0 \<Longrightarrow> callback_leaves cb pool s D \<and> s \<notin> D" and rep: "pool_rep m pool Q"
    and s: "s < states (pool_impl m pool)" and ready: "timeout_ready m pool"
  shows "\<exists>m' Q'. (if timeouts ! unat s = 0 then Some m
      else check_state_timeouts env cb now pool s (timeouts ! unat s) SXE_POOL_NO_INDEX 0 m) = Some m' \<and>
    pool_rep m' pool Q' \<and> same_setup pool m m' \<and>
    ((\<forall>b \<in> D. timeouts ! unat b = 0) \<longrightarrow> (\<forall>t. t < states (pool_impl m pool) \<longrightarrow> timeouts ! unat t \<noteq> 0 \<longrightarrow>
       Q' t = (if t = s then dropWhile (expired m pool now (timeouts ! unat t)) (Q t) else Q t) \<and>
       (\<forall>i \<in> set (Q' t). node_last m' (node_at m' pool i) = node_last m (node_at m pool i))))"
proof (cases "timeouts ! unat s = 0")
  case True
  then show ?thesis using rep by (intro exI[of _ m] exI[of _ Q]) (auto simp: same_setup_def)
next
  case False
  let ?late = "expired m pool now (timeouts ! unat s)"
  have "\<forall>i rest. Q s = i # rest \<longrightarrow> SXE_POOL_NO_INDEX \<noteq> i"
    using pool_rep_real_index[OF rep s] by fastforce
  from check_state_run[OF conjunct1[OF cb[OF False]] conjunct2[OF cb[OF False]] rep s ready this,
      where now = now and timeout = "timeouts ! unat s" and env = env and tlast = 0]
  obtain m' Q' where run: "check_state_timeouts env cb now pool s (timeouts ! unat s) SXE_POOL_NO_INDEX 0 m = Some m'"
    "pool_rep m' pool Q'" "Q' s = dropWhile ?late (Q s)" "\<And>t. t \<noteq> s \<Longrightarrow> t \<notin> D \<Longrightarrow> Q' t = Q t" "same_setup pool m m'"
    and lst: "\<And>j. j \<notin> set (takeWhile ?late (Q s)) \<Longrightarrow> node_last m' (node_at m pool j) = node_last m (node_at m pool j)"
    by blast
  have at: "node_at m' pool = node_at m pool" using run(5) by (simp add: same_setup_def)
  have left: "Q' t = (if t = s then dropWhile (expired m pool now (timeouts ! unat t)) (Q t) else Q t) \<and>
      (\<forall>i \<in> set (Q' t). node_last m' (node_at m' pool i) = node_last m (node_at m pool i))"
    if D: "\<forall>b \<in> D. timeouts ! unat b = 0" and t: "t < states (pool_impl m pool)" "timeouts ! unat t \<noteq> 0" for t
  proof (cases "t = s")
    case True
    have "distinct (takeWhile ?late (Q s) @ dropWhile ?late (Q s))" using pool_rep_state(5)[OF rep s] by simp
    then have "i \<notin> set (takeWhile ?late (Q s))" if "i \<in> set (dropWhile ?late (Q s))" for i
      using that unfolding distinct_append by blast
    then show ?thesis using True run(3) lst at by simp
  next
    case ts: False
    have "t \<notin> D" using D t(2) by blast
    then have q: "Q' t = Q t" using run(4) ts by blast
    have "i \<notin> set (takeWhile ?late (Q s))" if "i \<in> set (Q t)" for i
    proof -
      have "i \<notin> set (Q s)" using pool_rep_disjoint[OF rep t(1) s ts] that by blast
      then show ?thesis by (auto dest: set_takeWhileD)
    qed
    then show ?thesis using q ts lst at by simp
  qed
  have c: "(if timeouts ! unat s = 0 then Some m
      else check_state_timeouts env cb now pool s (timeouts ! unat s) SXE_POOL_NO_INDEX 0 m) = Some m'" using False run(1) by simp
  show ?thesis
  proof (intro exI conjI impI allI)
    show "(if timeouts ! unat s = 0 then Some m
      else check_state_timeouts env cb now pool s (timeouts ! unat s) SXE_POOL_NO_INDEX 0 m) = Some m'" by (rule c)
    show "pool_rep m' pool Q'" "same_setup pool m m'" by (rule run)+
    fix t assume "\<forall>b \<in> D. timeouts ! unat b = 0" "t < states (pool_impl m pool)" "timeouts ! unat t \<noteq> 0"
    note l = left[OF this]
    show "Q' t = (if t = s then dropWhile (expired m pool now (timeouts ! unat t)) (Q t) else Q t)" by (rule conjunct1[OF l])
    show "\<forall>i \<in> set (Q' t). node_last m' (node_at m' pool i) = node_last m (node_at m pool i)" by (rule conjunct2[OF l])
  qed
qed

lemma check_pool_run:
  assumes cb: "\<And>s. s < states (pool_impl m pool) \<Longrightarrow> timeouts ! unat s \<noteq> 0 \<Longrightarrow> callback_leaves cb pool s (D s) \<and> s \<notin> D s"
    and "pool_rep m pool Q" and "timeout_ready m pool"
    and "state_timeouts (pool_impl m pool) = Some timeouts" and "state \<le> states (pool_impl m pool)"
  shows "\<exists>m' Q'. check_pool_timeouts env cb now pool state m = Some m' \<and> pool_rep m' pool Q' \<and> same_setup pool m m' \<and>
    ((\<forall>s. s < states (pool_impl m pool) \<longrightarrow> timeouts ! unat s \<noteq> 0 \<longrightarrow> (\<forall>b \<in> D s. timeouts ! unat b = 0)) \<longrightarrow>
       unexpired_left m m' pool Q Q' now timeouts state)"
  using assms
proof (induction "unat (states (pool_impl m pool)) - unat state" arbitrary: m Q state)
  case 0
  then have "state = states (pool_impl m pool)" by (simp add: word_le_nat_alt word_unat_eq_iff)
  then have "check_pool_timeouts env cb now pool state m = Some m" by (subst check_pool_timeouts.simps) simp
  with 0 \<open>state = _\<close> show ?case by (intro exI[of _ m] exI[of _ Q]) (auto simp: same_setup_def unexpired_left_def)
next
  case (Suc k)
  have lt: "state < states (pool_impl m pool)" using Suc.hyps(2) by (simp add: word_less_nat_alt)
  note suc = unat_suc_of_less[OF lt]
  let ?un = "\<forall>s. s < states (pool_impl m pool) \<longrightarrow> timeouts ! unat s \<noteq> 0 \<longrightarrow> (\<forall>b \<in> D s. timeouts ! unat b = 0)"
  let ?D = "if timeouts ! unat state = 0 then {} else D state"
  have cb1: "timeouts ! unat state \<noteq> 0 \<Longrightarrow> callback_leaves cb pool state ?D \<and> state \<notin> ?D" using Suc.prems(1)[OF lt] by simp
  obtain m1 Q1 where m1: "(if timeouts ! unat state = 0 then Some m
      else check_state_timeouts env cb now pool state (timeouts ! unat state) SXE_POOL_NO_INDEX 0 m) = Some m1"
    "pool_rep m1 pool Q1" "same_setup pool m m1"
    and left1: "(\<forall>b \<in> ?D. timeouts ! unat b = 0) \<longrightarrow> (\<forall>t. t < states (pool_impl m pool) \<longrightarrow> timeouts ! unat t \<noteq> 0 \<longrightarrow>
       Q1 t = (if t = state then dropWhile (expired m pool now (timeouts ! unat t)) (Q t) else Q t) \<and>
       (\<forall>i \<in> set (Q1 t). node_last m1 (node_at m1 pool i) = node_last m (node_at m pool i)))"
    using check_one_state[OF cb1 Suc.prems(2) lt Suc.prems(3), where env = env and now = now] by blast
  have eq: "check_pool_timeouts env cb now pool state m = check_pool_timeouts env cb now pool (state + 1) m1"
    using lt m1(1) Suc.prems(4) by (subst check_pool_timeouts.simps) simp
  have st: "states (pool_impl m1 pool) = states (pool_impl m pool)" "state_timeouts (pool_impl m1 pool) = Some timeouts"
    using m1(3) Suc.prems(4) by (simp_all add: same_setup_def)
  have "\<exists>m' Q'. check_pool_timeouts env cb now pool (state + 1) m1 = Some m' \<and> pool_rep m' pool Q' \<and> same_setup pool m1 m' \<and>
    ((\<forall>s. s < states (pool_impl m1 pool) \<longrightarrow> timeouts ! unat s \<noteq> 0 \<longrightarrow> (\<forall>b \<in> D s. timeouts ! unat b = 0)) \<longrightarrow>
       unexpired_left m1 m' pool Q1 Q' now timeouts (state + 1))"
  proof (rule Suc.hyps(1))
  qed (use Suc.prems Suc.hyps(2) m1 st suc lt same_setup_ready[OF m1(3)] in \<open>simp_all add: word_le_nat_alt word_less_nat_alt\<close>)
  then obtain m' Q' where m': "check_pool_timeouts env cb now pool (state + 1) m1 = Some m'" "pool_rep m' pool Q'" "same_setup pool m1 m'"
    and left': "?un \<longrightarrow> unexpired_left m1 m' pool Q1 Q' now timeouts (state + 1)"
    unfolding st by (elim exE conjE) (rule that)
  have "unexpired_left m m' pool Q Q' now timeouts state" if un: ?un
    unfolding unexpired_left_def
  proof (intro allI impI)
    fix t assume t: "t < states (pool_impl m pool)" "timeouts ! unat t \<noteq> 0"
    have D0: "\<forall>b \<in> ?D. timeouts ! unat b = 0" using un lt by simp
    note l1 = left1[THEN mp, OF D0, THEN spec, THEN mp, THEN mp, OF t]
    have a: "Q1 t = (if t = state then dropWhile (expired m pool now (timeouts ! unat t)) (Q t) else Q t)"
      "\<forall>i \<in> set (Q1 t). node_last m1 (node_at m1 pool i) = node_last m (node_at m pool i)" using l1 by blast+
    note l2 = left'[THEN mp, OF un, unfolded unexpired_left_def st, THEN spec, THEN mp, THEN mp, OF t]
    have b: "Q' t = (if t < state + 1 then Q1 t else dropWhile (expired m1 pool now (timeouts ! unat t)) (Q1 t))"
      "\<forall>i \<in> set (Q' t). node_last m' (node_at m' pool i) = node_last m1 (node_at m1 pool i)"
      using l2 by blast+
    have sub: "set (Q' t) \<subseteq> set (Q1 t)" unfolding b(1) by (auto dest: set_dropWhileD)
    have "dropWhile (expired m1 pool now (timeouts ! unat t)) (Q1 t) = dropWhile (expired m pool now (timeouts ! unat t)) (Q1 t)"
      using a(2) by (simp add: expired_def cong: dropWhile_cong)
    moreover have "t < state + 1 \<longleftrightarrow> t < state \<or> t = state"
      using suc by (auto simp: word_less_nat_alt word_unat_eq_iff)
    ultimately have "Q' t = (if t < state then Q t else dropWhile (expired m pool now (timeouts ! unat t)) (Q t))"
      using a(1) b(1) by auto
    then show "Q' t = (if t < state then Q t else dropWhile (expired m pool now (timeouts ! unat t)) (Q t)) \<and>
        (\<forall>i \<in> set (Q' t). node_last m' (node_at m' pool i) = node_last m (node_at m pool i))"
      using a(2) b(2) sub by auto
  qed
  then show ?case using eq m' m1(3) by (intro exI[of _ m'] exI[of _ Q']) (auto simp: same_setup_def)
qed

section \<open>Correctness of the pool\<close>

lemma pool_demo_construct: "sxe_pool_construct env0 pool_mem0 1000 ''demo'' 3 8 4 SXE_POOL_OPTION_UNLOCKED = (pool_demo, 1144)"
  by (simp add: pool_demo_def construct_split sizeof_SXE_POOL_IMPL_def)

lemma pool_demo_rep: "pool_rep pool_demo 1000 (free_queue [2, 1, 0])"
proof -
  have "pool_rep pool_demo 1000 (free_queue (built 0 (unat (3 :: u32))))"
    by (rule construct_rep(1)[OF _ _ _ pool_demo_construct]) simp_all
  then show ?thesis by (simp add: built_def upt_0_3)
qed

lemma pool_demo_impl:
  "number (pool_impl pool_demo 1000) = 3" "states (pool_impl pool_demo 1000) = 4" "options (pool_impl pool_demo 1000) = 0"
  using construct_rep(4-6)[OF _ _ _ pool_demo_construct] by (simp_all add: SXE_POOL_OPTION_UNLOCKED_def)

lemma pool_demo_clock:
  "pool_clock env0 (pool_impl pool_demo 1000) = 3" "pool_stamp env0 (pool_impl pool_demo 1000) = 4"
  by (simp_all add: pool_clock_def pool_stamp_def pool_demo_def construct_split construct_free_list_pool
      construct_before_nodes_impl SXE_POOL_OPTION_UNLOCKED_def)

lemma pool_demo_aged: "pool_aged pool_demo 1000 (free_queue [2, 1, 0]) 3"
proof -
  have "pool_aged pool_demo 1000 (free_queue (built 0 (unat (3 :: u32)))) (pool_clock env0 (pool_impl pool_demo 1000))"
    by (rule construct_aged[OF _ _ _ pool_demo_construct]) simp_all
  then show ?thesis by (simp add: built_def upt_0_3 pool_demo_clock)
qed

lemma demo_array: "SXE_POOL_ARRAY_TO_IMPL 1144 = 1000" "env_tid env0 \<noteq> 0"
  by (simp_all add: SXE_POOL_ARRAY_TO_IMPL_def sizeof_SXE_POOL_IMPL_def env0_def)

text \<open>
  C8: a constructed pool is well formed: the array follows the pool structure, every element is
  in state 0 and in no other state, the queue of state 0 runs from the last element to the
  first, and the queues are in the order of the elements' times or counts.
\<close>

theorem sxe_pool_construct_ok:
  assumes "0 < base" and "0 < states1" and "144 + unat number1 * unat size1 + unat states1 * 40 < 2 ^ 64"
    and "sxe_pool_construct env m base name number1 size1 states1 options1 = (m', array)"
  shows "array = base + 144 \<and> SXE_POOL_ARRAY_TO_IMPL array = base \<and>
    pool_rep m' base (\<lambda>s. if s = 0 then map of_nat (rev [0..<unat number1]) else []) \<and>
    pool_aged m' base (\<lambda>s. if s = 0 then map of_nat (rev [0..<unat number1]) else []) (pool_clock env (pool_impl m' base))"
proof -
  have eq: "free_queue (built 0 (unat number1)) = (\<lambda>s. if s = 0 then map of_nat (rev [0..<unat number1]) else [])"
    by (simp add: fun_eq_iff free_queue_def built_def)
  show ?thesis
    by (intro conjI construct_rep(3)[OF assms] construct_rep(2)[OF assms, symmetric]
      construct_rep(1)[OF assms, unfolded eq] construct_aged[OF assms, unfolded eq])
qed

theorem sxe_pool_construct_ok_witness:
  "pool_rep pool_demo 1000 (\<lambda>s. if s = 0 then [2, 1, 0] else [])"
  using sxe_pool_construct_ok[OF _ _ _ pool_demo_construct] by (simp add: upt_0_3 if_distrib cong: if_cong)

text \<open>
  C9: moving an element of a pool between states either gets the lock, never aborts, moves
  exactly that element to the tail of the new state's queue and stamps it; or does not get the lock,
  which happens on locked pools only, and changes nothing but the lock word.
\<close>

theorem sxe_pool_set_indexed_element_state_ok:
  assumes "env_tid env \<noteq> 0" and "pool_rep m pool Q" and "pool = SXE_POOL_ARRAY_TO_IMPL array" and "array \<noteq> NULL"
    and "old_state < states (pool_impl m pool)" and "new_state < states (pool_impl m pool)" and "i \<in> set (Q old_state)"
  shows "\<exists>m' result. sxe_pool_set_indexed_element_state env m array i old_state new_state = Some (m', result) \<and>
    (result = SXE_POOL_LOCK_TAKEN \<and> pool_moved env pool Q i old_state new_state m m' \<or>
     result = SXE_POOL_LOCK_NOT_TAKEN \<and> is_locked (pool_impl m pool) \<and> pool_unchanged pool m m')"
  by (rule set_indexed_cases[OF assms(1,2,5,6,7,3,4)]) blast+

theorem sxe_pool_set_indexed_element_state_ok_witness:
  "\<exists>m'. sxe_pool_set_indexed_element_state env0 pool_demo 1144 1 0 3 = Some (m', SXE_POOL_LOCK_TAKEN) \<and>
     pool_moved env0 1000 (free_queue [2, 1, 0]) 1 0 3 pool_demo m'"
  using sxe_pool_set_indexed_element_state_ok[OF demo_array(2) pool_demo_rep demo_array(1)[symmetric], of 0 3 1]
  by (auto simp: pool_demo_impl free_queue_def)

text \<open>
  C10: moving the oldest element of a state returns the index at the head of its queue and moves
  that element; it returns \<open>SXE_POOL_NO_INDEX\<close> exactly when the lock was taken and the state is
  empty, with nothing moved.
\<close>

theorem sxe_pool_set_oldest_element_state_ok:
  assumes "env_tid env \<noteq> 0" and "pool_rep m pool Q" and "pool = SXE_POOL_ARRAY_TO_IMPL array" and "array \<noteq> NULL"
    and "old_state < states (pool_impl m pool)" and "new_state < states (pool_impl m pool)"
  shows "\<exists>m' result. sxe_pool_set_oldest_element_state env m array old_state new_state = Some (m', result) \<and>
    (result = SXE_POOL_LOCK_NOT_TAKEN \<and> is_locked (pool_impl m pool) \<and> pool_unchanged pool m m' \<or>
     (case Q old_state of
        [] \<Rightarrow> result = SXE_POOL_NO_INDEX \<and> pool_unchanged pool m m'
      | i # rest \<Rightarrow> result = i \<and> pool_moved env pool Q i old_state new_state m m'))"
  by (rule set_oldest_cases[OF assms(1,2,5,6,3,4)]) (force split: list.splits)+

theorem sxe_pool_set_oldest_element_state_ok_witness:
  "\<exists>m'. sxe_pool_set_oldest_element_state env0 pool_demo 1144 0 3 = Some (m', 2) \<and>
     pool_moved env0 1000 (free_queue [2, 1, 0]) 2 0 3 pool_demo m'"
  using sxe_pool_set_oldest_element_state_ok[OF demo_array(2) pool_demo_rep demo_array(1)[symmetric], of 0 3]
  by (auto simp: pool_demo_impl free_queue_def)


text \<open>
  C11: the conditional move returns the element's index and moves it when it is in the expected
  state; otherwise, without moving anything, it returns \<open>SXE_POOL_INCORRECT_STATE\<close> and the state
  the element is really in.
\<close>

theorem sxe_pool_try_to_set_indexed_element_state_ok:
  assumes "env_tid env \<noteq> 0" and "pool_rep m pool Q" and "pool = SXE_POOL_ARRAY_TO_IMPL array" and "array \<noteq> NULL"
    and "old_state < states (pool_impl m pool)" and "new_state < states (pool_impl m pool)"
    and "i < number (pool_impl m pool)"
  shows "\<exists>m' result state. sxe_pool_try_to_set_indexed_element_state env m array i old_state new_state =
      Some (m', result, state) \<and>
    (result = SXE_POOL_LOCK_NOT_TAKEN \<and> state = new_state \<and> is_locked (pool_impl m pool) \<and> pool_unchanged pool m m' \<or>
     (if i \<in> set (Q old_state)
      then result = i \<and> state = new_state \<and> pool_moved env pool Q i old_state new_state m m'
      else result = SXE_POOL_INCORRECT_STATE \<and> i \<in> set (Q state) \<and> state \<noteq> old_state \<and> pool_unchanged pool m m'))"
  by (rule try_to_set_cases[OF assms(1,2,5,6,7,3,4)])
    (use pool_rep_index(2)[OF assms(2,7)] pool_rep_mem_iff[OF assms(2,7,5)] in auto)

theorem sxe_pool_try_to_set_indexed_element_state_ok_witness:
  "\<exists>m' state. sxe_pool_try_to_set_indexed_element_state env0 pool_demo 1144 1 3 2 =
     Some (m', SXE_POOL_INCORRECT_STATE, state)"
  using sxe_pool_try_to_set_indexed_element_state_ok[OF demo_array(2) pool_demo_rep demo_array(1)[symmetric], of 3 2 1]
  by (auto simp: pool_demo_impl free_queue_def)

text \<open>
  Touching an element moves it to the tail of the queue of the state it is in.
\<close>

theorem sxe_pool_touch_indexed_element_ok:
  assumes "env_tid env \<noteq> 0" and "pool_rep m pool Q" and "pool = SXE_POOL_ARRAY_TO_IMPL array" and "array \<noteq> NULL"
    and "s < states (pool_impl m pool)" and "i \<in> set (Q s)"
  shows "\<exists>m' result. sxe_pool_touch_indexed_element env m array i = Some (m', result) \<and>
    (result = SXE_POOL_LOCK_TAKEN \<and> pool_moved env pool Q i s s m m' \<or>
     result = SXE_POOL_LOCK_NOT_TAKEN \<and> is_locked (pool_impl m pool) \<and> pool_unchanged pool m m')"
  by (rule touch_cases[OF assms(1,2,5,6,3,4)]) blast+

theorem sxe_pool_touch_indexed_element_ok_witness:
  "\<exists>m'. sxe_pool_touch_indexed_element env0 pool_demo 1144 2 = Some (m', SXE_POOL_LOCK_TAKEN) \<and>
     pool_moved env0 1000 (free_queue [2, 1, 0]) 2 0 0 pool_demo m'"
  using sxe_pool_touch_indexed_element_ok[OF demo_array(2) pool_demo_rep demo_array(1)[symmetric], of 0 2]
  by (auto simp: pool_demo_impl free_queue_def)

text \<open>
  C12: elements are conserved: the numbers of elements that the pool reports for its states add
  up to the number of elements of the pool, and an element's reported state is the one whose
  queue it is in.
\<close>

theorem sxe_pool_elements_conserved:
  assumes "pool_rep m pool Q" and "pool = SXE_POOL_ARRAY_TO_IMPL array" and "array \<noteq> NULL"
  shows "(\<Sum>s | s < states (pool_impl m pool). unat (the (sxe_pool_get_number_in_state m array s))) =
      unat (number (pool_impl m pool)) \<and>
    (\<forall>i < number (pool_impl m pool). \<exists>s < states (pool_impl m pool).
       sxe_pool_index_to_state m array i = Some s \<and> i \<in> set (Q s))"
proof
  have "unat (the (sxe_pool_get_number_in_state m array s)) = length (Q s)" if "s < states (pool_impl m pool)" for s
  proof -
    have "length (Q s) < 2 ^ 32"
      using pool_rep_length[OF assms(1) that] unat_lt2p[of "number (pool_impl m pool)"] by simp
    then show ?thesis by (simp add: number_in_state[OF assms(1) that assms(2,3)] unat_of_nat_small)
  qed
  then show "(\<Sum>s | s < states (pool_impl m pool). unat (the (sxe_pool_get_number_in_state m array s))) =
      unat (number (pool_impl m pool))"
    using pool_rep_total[OF assms(1)] by simp
  show "\<forall>i < number (pool_impl m pool). \<exists>s < states (pool_impl m pool).
       sxe_pool_index_to_state m array i = Some s \<and> i \<in> set (Q s)"
    using pool_rep_index[OF assms(1)] by (simp add: sxe_pool_index_to_state_def assms(2)[symmetric])
qed

theorem sxe_pool_elements_conserved_witness:
  "(\<Sum>s :: u32 | s < 4. unat (the (sxe_pool_get_number_in_state pool_demo 1144 s))) = 3"
  using sxe_pool_elements_conserved[OF pool_demo_rep demo_array(1)[symmetric]] by (simp add: pool_demo_impl)

text \<open>
  The oldest element really is the oldest. When the queues are in age order and the clock has not
  gone back behind them (for a counted pool, the 64-bit counter has not wrapped), moving the
  oldest element of a state takes an element that no other element of that state is older than,
  and the queues are in age order again.
\<close>

theorem sxe_pool_oldest_is_oldest:
  assumes "env_tid env \<noteq> 0" and "pool_rep m pool Q" and "pool = SXE_POOL_ARRAY_TO_IMPL array" and "array \<noteq> NULL"
    and "old_state < states (pool_impl m pool)" and "new_state < states (pool_impl m pool)"
    and "pool_aged m pool Q t" and "t \<le> pool_stamp env (pool_impl m pool)"
    and "number (pool_impl m pool) \<le> SXE_POOL_LOCK_NOT_TAKEN"
    and "sxe_pool_set_oldest_element_state env m array old_state new_state = Some (m', i)"
    and "i < number (pool_impl m pool)"
  shows "i \<in> set (Q old_state) \<and>
    (\<forall>j \<in> set (Q old_state). node_last m (node_at m pool i) \<le> node_last m (node_at m pool j)) \<and>
    pool_rep m' pool (pool_move Q i old_state new_state) \<and>
    pool_aged m' pool (pool_move Q i old_state new_state) (pool_stamp env (pool_impl m pool))"
  using assms(1,2,5,6,3,4)
proof (cases rule: set_oldest_cases)
  case (moved k rest m1)
  then have k: "k = i" "m1 = m'" using assms(10) by simp_all
  have "sorted (map (\<lambda>j. node_last m (node_at m pool j)) (Q old_state))"
    using assms(5,7) by (simp add: pool_aged_def)
  then show ?thesis
    using moved k pool_moved_aged[OF assms(2,7,5) _ assms(8), of i new_state m'] pool_moved_rep by auto
next
  case (empty m1)
  have "i = SXE_POOL_NO_INDEX" using empty(2) assms(10) by simp
  then show ?thesis using assms(11) word_order.extremum[of "number (pool_impl m pool)"]
    by (simp add: SXE_POOL_NO_INDEX_def)
next
  case (not_taken m1)
  then have "i = SXE_POOL_LOCK_NOT_TAKEN" using assms(10) by simp
  then show ?thesis using assms(9,11) by simp
qed

theorem sxe_pool_oldest_is_oldest_witness:
  "\<exists>m'. sxe_pool_set_oldest_element_state env0 pool_demo 1144 0 3 = Some (m', 2) \<and>
     pool_aged m' 1000 (pool_move (free_queue [2, 1, 0]) 2 0 3) 4"
proof -
  have lim: "number (pool_impl pool_demo 1000) \<le> SXE_POOL_LOCK_NOT_TAKEN" "2 < number (pool_impl pool_demo 1000)"
    by (simp_all add: pool_demo_impl SXE_POOL_LOCK_NOT_TAKEN_def)
  obtain m' where "sxe_pool_set_oldest_element_state env0 pool_demo 1144 0 3 = Some (m', 2)"
    by (rule set_oldest_cases[OF demo_array(2) pool_demo_rep _ _ demo_array(1)[symmetric], of 0 3])
      (auto simp: pool_demo_impl free_queue_def)
  then show ?thesis
    using sxe_pool_oldest_is_oldest[OF demo_array(2) pool_demo_rep demo_array(1)[symmetric] _ _ _ pool_demo_aged _ lim(1) _ lim(2)]
    by (auto simp: pool_demo_impl pool_demo_clock)
qed

lemma free_callback_leaves: "callback_leaves free_callback 1000 1 {0}"
proof -
  have "\<exists>e m' b. b \<in> {0} \<and> free_callback f m (SXE_POOL_IMPL_TO_ARRAY 1000) i info = Some m' \<and> pool_moved e 1000 Q i 1 b m m'"
    if "pool_rep m 1000 Q" "Q 1 = i # rest" "1 < states (pool_impl m 1000)" "\<not> is_locked (pool_impl m 1000)" for f m Q i rest info
  proof -
    have "0 < states (pool_impl m 1000)" using that(3) by (simp add: word_less_nat_alt)
    then show ?thesis
      by (rule set_indexed_cases[OF demo_array(2) that(1,3) _ _ array_of_impl[symmetric], of 0 i])
        (use that in \<open>auto simp: free_callback_def SXE_POOL_IMPL_TO_ARRAY_def sizeof_SXE_POOL_IMPL_def\<close>)
  qed
  then show ?thesis unfolding callback_leaves_def by blast
qed

text \<open>The timed pool with its oldest element in the state 1, where it is too old at the time \<open>late\<close>.\<close>

lemma pool_demo_busy:
  obtains m where "sxe_pool_set_oldest_element_state env0 pool_demo_timed 1144 0 1 = Some (m, 2)"
    "pool_rep m 1000 (pool_move (free_queue [2, 1, 0]) 2 0 1)" "timeout_ready m 1000"
    "state_timeouts (pool_impl m 1000) = Some [0, 7, 0, 0]" "states (pool_impl m 1000) = 4"
    "expired m 1000 (sxe_time_get (env_tod env0) + 100) 7 2"
proof -
  have rep: "pool_rep pool_demo_timed 1000 (free_queue [2, 1, 0])"
    unfolding pool_demo_timed_def by (subst pool_rep_set_impl) (simp_all add: pool_demo_rep)
  have r: "timeout_ready pool_demo_timed 1000" "state_timeouts (pool_impl pool_demo_timed 1000) = Some [0, 7, 0, 0]"
    "states (pool_impl pool_demo_timed 1000) = 4" "is_timed (pool_impl pool_demo_timed 1000)"
    by (simp_all add: timeout_ready_def pool_demo_timed_def SXE_POOL_IMPL_TO_ARRAY_def sizeof_SXE_POOL_IMPL_def
        SXE_POOL_OPTION_LOCKED_def SXE_POOL_OPTION_TIMED_def pool_demo_impl)
  show thesis
  proof (rule set_oldest_cases[OF demo_array(2) rep _ _ demo_array(1)[symmetric], of 0 1], goal_cases)
    case (4 k rest m)
    then have k: "k = 2" by (simp add: free_queue_def)
    have mv: "pool_moved env0 1000 (free_queue [2, 1, 0]) 2 0 1 pool_demo_timed m" using 4 k by blast
    note fr = pool_moved_impl[OF mv]
    have "node_last m (node_at m 1000 2) = pool_stamp env0 (pool_impl pool_demo_timed 1000)"
      using mv fr(6) by (auto simp: pool_moved_def)
    then have "expired m 1000 (sxe_time_get (env_tod env0) + 100) 7 2"
      using r(4) by (simp add: expired_def pool_stamp_def)
    moreover have "timeout_ready m 1000" using r(1) fr by (simp add: timeout_ready_def)
    ultimately show thesis using 4 k fr r pool_moved_rep[OF mv] by (intro that) simp_all
  qed (use r in \<open>simp_all add: timeout_ready_def free_queue_def\<close>)
qed

text \<open>
  C13: checking the timeouts of a well-formed, unlocked, timed pool. When the callback moves every element it is given from its
  state with a timeout to some other state, which need not be the same for all, the check ends, the assertion on callbacks that do
  nothing holds and the pool is well formed. If the callback moves them to states without a timeout, then each state with a timeout
  keeps exactly the elements from the first on that had not expired, in their order and with their times, so that none at the head
  of its queue has expired. An element that is moved into a state with a timeout may be given to the callback again.
\<close>

theorem sxe_pool_check_timeouts_expires:
  assumes "pool_rep m pool Q" and "timeout_ready m pool" and "state_timeouts (pool_impl m pool) = Some timeouts"
    and "\<And>s. s < states (pool_impl m pool) \<Longrightarrow> timeouts ! unat s \<noteq> 0 \<Longrightarrow> callback_leaves callback pool s (D s) \<and> s \<notin> D s"
  shows "\<exists>m' Q'. check_pool_timeouts env callback time_now pool 0 m = Some m' \<and> pool_rep m' pool Q' \<and>
    ((\<forall>s. s < states (pool_impl m pool) \<longrightarrow> timeouts ! unat s \<noteq> 0 \<longrightarrow> (\<forall>b \<in> D s. timeouts ! unat b = 0)) \<longrightarrow>
     (\<forall>s. s < states (pool_impl m pool) \<longrightarrow> timeouts ! unat s \<noteq> 0 \<longrightarrow>
       Q' s = dropWhile (expired m pool time_now (timeouts ! unat s)) (Q s) \<and>
       (\<forall>i \<in> set (Q' s). node_last m' (node_at m' pool i) = node_last m (node_at m pool i)) \<and>
       (\<forall>i rest. Q' s = i # rest \<longrightarrow> \<not> expired m' pool time_now (timeouts ! unat s) i)))"
proof -
  obtain m' Q' where r: "check_pool_timeouts env callback time_now pool 0 m = Some m'" "pool_rep m' pool Q'"
    and left: "(\<forall>s. s < states (pool_impl m pool) \<longrightarrow> timeouts ! unat s \<noteq> 0 \<longrightarrow> (\<forall>b \<in> D s. timeouts ! unat b = 0)) \<longrightarrow>
       unexpired_left m m' pool Q Q' time_now timeouts 0"
    using check_pool_run[OF assms(4,1,2,3), of 0 env time_now] by auto
  have heads: "\<not> expired m' pool time_now (timeouts ! unat s) i"
    if "Q' s = dropWhile (expired m pool time_now (timeouts ! unat s)) (Q s)"
      "\<forall>i \<in> set (Q' s). node_last m' (node_at m' pool i) = node_last m (node_at m pool i)" "Q' s = i # rest" for s i rest
  proof -
    have "dropWhile (expired m pool time_now (timeouts ! unat s)) (Q s) = i # rest" using that(1,3) by (rule trans[OF sym])
    then have "\<not> expired m pool time_now (timeouts ! unat s) i" by (auto simp: dropWhile_eq_Cons_conv)
    then show ?thesis using that(2,3) by (simp add: expired_def)
  qed
  show ?thesis
  proof (intro exI conjI impI allI)
    fix s assume un: "\<forall>s. s < states (pool_impl m pool) \<longrightarrow> timeouts ! unat s \<noteq> 0 \<longrightarrow> (\<forall>b \<in> D s. timeouts ! unat b = 0)"
      and s: "s < states (pool_impl m pool)" "timeouts ! unat s \<noteq> 0"
    have q: "Q' s = dropWhile (expired m pool time_now (timeouts ! unat s)) (Q s) \<and>
        (\<forall>i \<in> set (Q' s). node_last m' (node_at m' pool i) = node_last m (node_at m pool i))"
      using left[THEN mp, OF un, unfolded unexpired_left_def, THEN spec, of s] s by simp
    then show "Q' s = dropWhile (expired m pool time_now (timeouts ! unat s)) (Q s)"
      "\<forall>i \<in> set (Q' s). node_last m' (node_at m' pool i) = node_last m (node_at m pool i)" by blast+
    fix i rest assume "Q' s = i # rest"
    then show "\<not> expired m' pool time_now (timeouts ! unat s) i" using heads q by blast
  qed (rule r)+
qed

theorem sxe_pool_check_timeouts_expires_witness:
  "\<exists>(m :: sxe_pool_mem) Q m' Q'. pool_rep m 1000 Q \<and> Q 1 = [2] \<and> expired m 1000 (sxe_time_get (env_tod env0) + 100) 7 2 \<and>
     check_pool_timeouts env0 free_callback (sxe_time_get (env_tod env0) + 100) 1000 0 m = Some m' \<and> pool_rep m' 1000 Q' \<and> Q' 1 = []"
proof (rule pool_demo_busy)
  fix m :: sxe_pool_mem assume m: "pool_rep m 1000 (pool_move (free_queue [2, 1, 0]) 2 0 1)" "timeout_ready m 1000"
    "state_timeouts (pool_impl m 1000) = Some [0, 7, 0, 0]" "states (pool_impl m 1000) = 4"
    and late: "expired m 1000 (sxe_time_get (env_tod env0) + 100) 7 2"
  have one: "s = 1" if "s < 4" "[0, 7, 0, 0 :: u64] ! unat s \<noteq> 0" for s :: u32
  proof -
    have "unat s < 4" using that(1) by (simp add: word_less_nat_alt)
    then have "unat s = 1" using that(2) by (auto simp: less_Suc_eq eval_nat_numeral)
    then show ?thesis by (simp add: word_unat_eq_iff)
  qed
  have cb: "callback_leaves free_callback 1000 s {0} \<and> s \<notin> {0}" if "s < states (pool_impl m 1000)" "[0, 7, 0, 0 :: u64] ! unat s \<noteq> 0" for s
    using one[of s] that m(4) free_callback_leaves by simp
  have Q: "pool_move (free_queue [2, 1, 0]) 2 0 1 1 = [2]" by (simp add: pool_move_def free_queue_def)
  obtain m' Q' where r: "check_pool_timeouts env0 free_callback (sxe_time_get (env_tod env0) + 100) 1000 0 m = Some m'" "pool_rep m' 1000 Q'"
    and q: "Q' 1 = dropWhile (expired m 1000 (sxe_time_get (env_tod env0) + 100) 7) [2]"
    using sxe_pool_check_timeouts_expires[OF m(1-3), of free_callback "\<lambda>_. {0}" env0 "sxe_time_get (env_tod env0) + 100", OF cb] m(4) Q by auto
  show ?thesis using m(1) Q late r q by (intro exI[of _ m] exI[of _ "pool_move (free_queue [2, 1, 0]) 2 0 1"] exI[of _ m'] exI[of _ Q']) simp
qed

end
