(* ===== verification/SxePoolWalker.thy ===== *)
theory SxePoolWalker
  imports SxePool
begin

text \<open>
  \<^verbatim>\<open>lib-sxe-pool/sxe-pool-walker.c\<close>: walking the elements of a pool that are in a given state,
  resuming by time or count when the element the walker stands on has been moved to another
  state since the last step.
\<close>

section \<open>Data and operations\<close>

record sxe_pool_walker =
  list_walker :: sxe_list_walker
  walker_pool :: addr
  walker_state :: u32
  walker_last :: u64

definition sxe_pool_walker_construct ::
  "'a sxe_pool_mem_scheme \<Rightarrow> addr \<Rightarrow> u32 \<Rightarrow> sxe_pool_walker option" where
  "sxe_pool_walker_construct m array state =
    (let pool = SXE_POOL_ARRAY_TO_IMPL array
     in do {
       SXEA1 (\<not> (is_locked (pool_impl m pool) \<and> is_timed (pool_impl m pool)));
       Some \<lparr>list_walker = sxe_list_walker_construct (queue_at m pool state), walker_pool = pool,
             walker_state = state, walker_last = 0\<rparr>
     })"

text \<open>
  The loop that walks the queue again from its head to the first node that is not older than
  the one the walker was on. The times and the counts are the same 64-bit member.
\<close>

partial_function (option) rewalk ::
  "'a sxe_pool_mem_scheme \<Rightarrow> u64 \<Rightarrow> sxe_list_walker \<Rightarrow> (sxe_list_walker \<times> addr option) option" where
  "rewalk m stamp lw =
    (case sxe_list_walker_step m lw of
       (lw, None) \<Rightarrow> Some (lw, None)
     | (lw, Some n) \<Rightarrow> if node_last m n \<ge> stamp then Some (lw, Some n) else rewalk m stamp lw)"

definition sxe_pool_walker_step ::
  "sxe_env \<Rightarrow> 'a sxe_pool_mem_scheme \<Rightarrow> sxe_pool_walker \<Rightarrow> ('a sxe_pool_mem_scheme \<times> sxe_pool_walker \<times> u32) option" where
  "sxe_pool_walker_step env m walker = do {
     let pool = walker_pool walker;
     let (m, result) = sxe_pool_lock env pool m;
     if result = SXE_POOL_LOCK_NOT_TAKEN then Some (m, walker, result)
     else do {
       (lw, n) \<leftarrow>
         (case sxe_list_walker_find m (list_walker walker) of
            Some n \<Rightarrow>
              if node_id (node m n) \<noteq> walker_state walker then
                (let (lw, b) = sxe_list_walker_back m (list_walker walker)
                 in if (\<exists>p. b = Some p \<and> node_id (node m p) = walker_state walker)
                    then Some (sxe_list_walker_step m lw)
                    else rewalk m (walker_last walker)
                           (sxe_list_walker_construct (queue_at m pool (walker_state walker))))
              else Some (sxe_list_walker_step m (list_walker walker))
          | None \<Rightarrow> Some (sxe_list_walker_step m (list_walker walker)));
       let walker = walker\<lparr>list_walker := lw\<rparr>;
       let (walker, result) = (case n of
           None \<Rightarrow> (walker, SXE_POOL_NO_INDEX)
         | Some n \<Rightarrow> (walker\<lparr>walker_last := node_last m n\<rparr>, node_index m pool n));
       m \<leftarrow> sxe_pool_unlock env pool m;
       Some (m, walker, result)
     }
   }"

text \<open>The indices that a number of steps return, with nothing else happening in between.\<close>

fun pool_walker_run :: "sxe_env \<Rightarrow> 'a sxe_pool_mem_scheme \<Rightarrow> sxe_pool_walker \<Rightarrow> nat \<Rightarrow> u32 list option" where
  "pool_walker_run env m walker 0 = Some []"
| "pool_walker_run env m walker (Suc k) = do {
     (m, walker, result) \<leftarrow> sxe_pool_walker_step env m walker;
     rest \<leftarrow> pool_walker_run env m walker k;
     Some (result # rest)
   }"

section \<open>Steps along a queue\<close>

text \<open>The walker stands on the sentinel or on an element of its state, with \<open>is\<close> still to visit.\<close>

definition walker_before ::
  "'a sxe_pool_mem_scheme \<Rightarrow> addr \<Rightarrow> u32 \<Rightarrow> sxe_pool_walker \<Rightarrow> u32 list \<Rightarrow> bool" where
  "walker_before m pool s w xs \<longleftrightarrow> walker_pool w = pool \<and> walker_state w = s \<and>
     walker_list (list_walker w) = queue_at m pool s \<and> queue_at m pool s \<notin> node_at m pool ` set xs \<and>
     list_offset (header m (queue_at m pool s)) = 0 \<and>
     (walker_node (list_walker w) = queue_at m pool s \<or> node_id (node m (walker_node (list_walker w))) = s) \<and>
     (\<forall>i \<in> set xs. node_id (node m (node_at m pool i)) = s) \<and>
     seg m (queue_at m pool s) (walker_node (list_walker w)) (map (node_at m pool) xs) (queue_at m pool s)"

lemma walker_stays:
  assumes "walker_before m pool s w xs"
  shows "(case sxe_list_walker_find m (list_walker w) of
            Some n \<Rightarrow>
              if node_id (node m n) \<noteq> walker_state w then X n
              else Some (sxe_list_walker_step m (list_walker w))
          | None \<Rightarrow> Some (sxe_list_walker_step m (list_walker w))) = Some (sxe_list_walker_step m (list_walker w))"
  using assms by (auto simp: walker_before_def sxe_list_walker_find_def)

lemma walker_step_unlocked:
  assumes w: "walker_before m pool s w xs" and "\<not> is_locked (pool_impl m pool)"
  shows "\<exists>w'. sxe_pool_walker_step env m w =
      Some (m, w', case xs of [] \<Rightarrow> SXE_POOL_NO_INDEX | i # _ \<Rightarrow> i) \<and>
    (\<forall>i rest. xs = i # rest \<longrightarrow> walker_before m pool s w' rest)"
proof -
  note lock = unlocked_lock[OF assms(2), of env] unlocked_unlock[OF assms(2), of env]
  have pl: "walker_pool w = pool" using w by (simp add: walker_before_def)
  show ?thesis
  proof (cases xs)
    case Nil
    then have "next_rel (node m (walker_node (list_walker w))) = SXE_PTR_REL (walker_list (list_walker w)) (queue_at m pool s)"
      using w by (simp add: walker_before_def)
    note st = walker_step_at[OF this]
    show ?thesis
      using lock st Nil w unfolding sxe_pool_walker_step_def pl Let_def
      by (simp add: walker_stays[OF w]) (simp add: walker_before_def)
  next
    case (Cons i rest)
    then have "next_rel (node m (walker_node (list_walker w))) = SXE_PTR_REL (walker_list (list_walker w)) (node_at m pool i)"
      using w by (simp add: walker_before_def)
    note st = walker_step_at[OF this]
    have "node_at m pool i \<noteq> walker_list (list_walker w)" "list_offset (header m (walker_list (list_walker w))) = 0"
      using w Cons by (auto simp: walker_before_def)
    then show ?thesis
      using lock st Cons w unfolding sxe_pool_walker_step_def pl Let_def
      by (simp add: walker_stays[OF w]) (simp add: walker_before_def)
  qed
qed

lemma pool_walker_run_before:
  assumes "walker_before m pool s w xs" and "\<not> is_locked (pool_impl m pool)"
  shows "pool_walker_run env m w (length xs + 1) = Some (xs @ [SXE_POOL_NO_INDEX])"
  using assms
proof (induction xs arbitrary: w)
  case Nil
  then show ?case using walker_step_unlocked[OF Nil, of env] by auto
next
  case (Cons i xs)
  obtain w' where "sxe_pool_walker_step env m w = Some (m, w', i)" "walker_before m pool s w' xs"
    using walker_step_unlocked[OF Cons.prems, of env] by auto
  with Cons.IH[of w'] Cons.prems(2) show ?case
    by (simp del: pool_walker_run.simps(2) add: pool_walker_run.simps(2)[of env m w "Suc (length xs)"])
qed

lemma walker_construct_before:
  assumes "pool_rep m pool Q" and "s < states (pool_impl m pool)" and "\<not> is_locked (pool_impl m pool)"
    and "pool = SXE_POOL_ARRAY_TO_IMPL array"
  obtains w where "sxe_pool_walker_construct m array s = Some w" and "walker_before m pool s w (Q s)"
proof -
  let ?w = "\<lparr>list_walker = sxe_list_walker_construct (queue_at m pool s), walker_pool = pool,
    walker_state = s, walker_last = 0\<rparr>"
  have "walker_before m pool s ?w (Q s)"
    using pool_rep_state[OF assms(1,2)]
    by (auto simp: walker_before_def sxe_list_walker_construct_def list_rep_def)
  then show ?thesis
    using that[of ?w] assms(3) by (simp add: sxe_pool_walker_construct_def assms(4)[symmetric])
qed

section \<open>The interface of the pool to the hash table\<close>

text \<open>
  A table that files every element of the states from 2 on under a bucket.
\<close>

definition bucketed :: "u32 \<Rightarrow> (u32 \<Rightarrow> u32) \<Rightarrow> (u32 \<Rightarrow> u32 list) \<Rightarrow> bool" where
  "bucketed k bucket Q \<longleftrightarrow> (\<forall>b. 2 \<le> b \<longrightarrow> b < k \<longrightarrow> (\<forall>i \<in> set (Q b). bucket i = b))"

definition unlocked_rep :: "sxe_env \<Rightarrow> addr \<Rightarrow> 'a sxe_pool_mem_scheme \<Rightarrow> (u32 \<Rightarrow> u32 list) \<Rightarrow> bool" where
  "unlocked_rep env array m Q \<longleftrightarrow> pool_rep m (SXE_POOL_ARRAY_TO_IMPL array) Q \<and> array \<noteq> NULL \<and> env_tid env \<noteq> 0 \<and>
     \<not> is_locked (pool_impl m (SXE_POOL_ARRAY_TO_IMPL array))"

definition client_same :: "addr \<Rightarrow> 'a sxe_pool_mem_scheme \<Rightarrow> 'a sxe_pool_mem_scheme \<Rightarrow> bool" where
  "client_same array m m' \<longleftrightarrow> sxe_pool_mem.more m' = sxe_pool_mem.more m \<and>
     (let p = pool_impl m (SXE_POOL_ARRAY_TO_IMPL array); p' = pool_impl m' (SXE_POOL_ARRAY_TO_IMPL array)
      in states p' = states p \<and> number p' = number p \<and> options p' = options p)"

locale state_pool =
  fixes rep :: "'m \<Rightarrow> (u32 \<Rightarrow> u32 list) \<Rightarrow> bool"
    and limit :: "'m \<Rightarrow> u32"
    and same :: "'m \<Rightarrow> 'm \<Rightarrow> bool"
    and oldest :: "'m \<Rightarrow> u32 \<Rightarrow> u32 \<Rightarrow> ('m \<times> u32) option"
    and move :: "'m \<Rightarrow> u32 \<Rightarrow> u32 \<Rightarrow> u32 \<Rightarrow> ('m \<times> u32) option"
  assumes oldest_empty: "\<lbrakk>rep m Q; a < limit m; b < limit m; Q a = []\<rbrakk> \<Longrightarrow>
      \<exists>m'. oldest m a b = Some (m', SXE_POOL_NO_INDEX) \<and> rep m' Q \<and> same m m'"
    and oldest_head: "\<lbrakk>rep m Q; a < limit m; b < limit m; Q a = i # rest\<rbrakk> \<Longrightarrow>
      \<exists>m'. oldest m a b = Some (m', i) \<and> rep m' (pool_move Q i a b) \<and> same m m'"
    and move_in: "\<lbrakk>rep m Q; a < limit m; b < limit m; i \<in> set (Q a)\<rbrakk> \<Longrightarrow>
      \<exists>m' r. move m i a b = Some (m', r) \<and> rep m' (pool_move Q i a b) \<and> same m m'"
    and queue_distinct: "rep m Q \<Longrightarrow> a < limit m \<Longrightarrow> distinct (Q a)"
    and queues_disjoint: "rep m Q \<Longrightarrow> a < limit m \<Longrightarrow> b < limit m \<Longrightarrow> a \<noteq> b \<Longrightarrow> set (Q a) \<inter> set (Q b) = {}"
    and same_limit: "same m m' \<Longrightarrow> limit m' = limit m"
begin

text \<open>Moving an element to the bucket it belongs to, or out of the buckets, keeps the filing.\<close>

lemma move_bucketed:
  assumes "rep m Q" and "a < limit m" and "i \<in> set (Q a)" and "bucketed (limit m) bucket Q"
    and "2 \<le> b \<Longrightarrow> bucket i = b"
  shows "bucketed (limit m) bucket (pool_move Q i a b)"
  using assms(4,5) set_pool_move[of Q a i b, OF queue_distinct[OF assms(1,2)]]
  by (auto simp: bucketed_def split: if_splits)

text \<open>Taking the oldest unused element: it is in state 1 afterwards and no bucket changes.\<close>

lemma take_unused:
  assumes "rep m Q" and "1 < limit m" and "bucketed (limit m) bucket Q"
  obtains (full) m' where "Q 0 = []" and "oldest m 0 1 = Some (m', SXE_POOL_NO_INDEX)" and "rep m' Q" and "same m m'"
  | (taken) m' i rest where "Q 0 = i # rest" and "oldest m 0 1 = Some (m', i)" and "rep m' (pool_move Q i 0 1)"
      and "same m m'" and "bucketed (limit m) bucket (pool_move Q i 0 1)" and "i \<in> set (pool_move Q i 0 1 1)"
      and "\<And>b. 2 \<le> b \<Longrightarrow> b < limit m \<Longrightarrow> set (pool_move Q i 0 1 b) = set (Q b)"
proof (cases "Q 0")
  case Nil
  have "(0 :: u32) < limit m" by (rule word_pos_of_less[OF assms(2)])
  then show ?thesis using oldest_empty[OF assms(1) _ assms(2) Nil] full Nil by blast
next
  case (Cons i rest)
  have 0: "(0 :: u32) < limit m" by (rule word_pos_of_less[OF assms(2)])
  obtain m' where m': "oldest m 0 1 = Some (m', i)" "rep m' (pool_move Q i 0 1)" "same m m'"
    using oldest_head[OF assms(1) 0 assms(2) Cons] by blast
  have dist: "distinct (Q 0)" by (rule queue_distinct[OF assms(1) 0])
  have "bucketed (limit m) bucket (pool_move Q i 0 1)"
    by (rule move_bucketed[OF assms(1) 0 _ assms(3)]) (use Cons in \<open>auto simp: word_le_nat_alt\<close>)
  moreover have "i \<in> set (pool_move Q i 0 1 1)" by (simp add: set_pool_move[of Q, OF dist])
  moreover have "set (pool_move Q i 0 1 b) = set (Q b)" if "2 \<le> b" for b
    using that by (auto simp: set_pool_move[of Q, OF dist] word_le_nat_alt)
  ultimately show ?thesis using taken[OF Cons m'] by blast
qed

end

lemma pool_moved_client: "pool_moved env (SXE_POOL_ARRAY_TO_IMPL array) Q i a b m m' \<Longrightarrow> client_same array m m'"
  using pool_moved_impl(1,2,4) by (auto simp: client_same_def pool_moved_def Let_def)

lemma pool_unchanged_client: "pool_unchanged (SXE_POOL_ARRAY_TO_IMPL array) m m' \<Longrightarrow> client_same array m m'"
  by (auto simp: client_same_def pool_unchanged_def Let_def)

interpretation unlocked_pool: state_pool "unlocked_rep env array" "\<lambda>m. states (pool_impl m (SXE_POOL_ARRAY_TO_IMPL array))"
    "client_same array" "\<lambda>m a b. sxe_pool_set_oldest_element_state env m array a b"
    "\<lambda>m i a b. sxe_pool_set_indexed_element_state env m array i a b"
  for env array
proof
  fix m :: "'a sxe_pool_mem_scheme" and Q a b
  let ?k = "states (pool_impl m (SXE_POOL_ARRAY_TO_IMPL array))"
  assume rep: "unlocked_rep env array m Q" and a: "a < ?k"
  then have r: "pool_rep m (SXE_POOL_ARRAY_TO_IMPL array) Q" "array \<noteq> NULL" "env_tid env \<noteq> 0"
    "\<not> is_locked (pool_impl m (SXE_POOL_ARRAY_TO_IMPL array))" by (auto simp: unlocked_rep_def)
  show "distinct (Q a)" by (rule pool_rep_state(5)[OF r(1) a])
  assume b: "b < ?k"
  show "a \<noteq> b \<Longrightarrow> set (Q a) \<inter> set (Q b) = {}" by (rule pool_rep_disjoint[OF r(1) a b])
  note old = set_oldest_cases[OF r(3,1) a b refl r(2)]
  show "\<exists>m'. sxe_pool_set_oldest_element_state env m array a b = Some (m', SXE_POOL_NO_INDEX) \<and>
      unlocked_rep env array m' Q \<and> client_same array m m'" if "Q a = []"
    by (rule old) (use that r in \<open>auto simp: unlocked_rep_def pool_unchanged_rep pool_unchanged_client
      dest: pool_unchanged_client simp: client_same_def Let_def\<close>)
  show "\<exists>m'. sxe_pool_set_oldest_element_state env m array a b = Some (m', i) \<and>
      unlocked_rep env array m' (pool_move Q i a b) \<and> client_same array m m'" if "Q a = i # rest" for i rest
    by (rule old) (use that r in \<open>auto simp: unlocked_rep_def dest: pool_moved_rep pool_moved_client pool_moved_impl(2)\<close>)
  show "\<exists>m' r. sxe_pool_set_indexed_element_state env m array i a b = Some (m', r) \<and>
      unlocked_rep env array m' (pool_move Q i a b) \<and> client_same array m m'" if "i \<in> set (Q a)" for i
    by (rule set_indexed_cases[OF r(3,1) a b that refl r(2)])
      (use r in \<open>auto simp: unlocked_rep_def dest: pool_moved_rep pool_moved_client pool_moved_impl(2)\<close>)
qed (simp add: client_same_def Let_def)

section \<open>Correctness of the walker\<close>

text \<open>
  C14: a walker over a state of an unlocked pool that nothing changes in between returns the
  index of every element in that state, oldest first, and then \<open>SXE_POOL_NO_INDEX\<close>.
\<close>

theorem sxe_pool_walker_visits_state:
  assumes "pool_rep m pool Q" and "s < states (pool_impl m pool)" and "\<not> is_locked (pool_impl m pool)"
    and "pool = SXE_POOL_ARRAY_TO_IMPL array"
  shows "\<exists>walker. sxe_pool_walker_construct m array s = Some walker \<and>
    pool_walker_run env m walker (length (Q s) + 1) = Some (Q s @ [SXE_POOL_NO_INDEX])"
  by (rule walker_construct_before[OF assms]) (use pool_walker_run_before[OF _ assms(3)] in blast)

theorem sxe_pool_walker_visits_state_witness:
  "\<exists>walker. sxe_pool_walker_construct pool_demo 1144 0 = Some walker \<and>
     pool_walker_run env0 pool_demo walker 4 = Some [2, 1, 0, SXE_POOL_NO_INDEX]"
proof -
  have q: "free_queue [2, 1, 0 :: u32] 0 = [2, 1, 0]" by (simp add: free_queue_def)
  have n: "length [2, 1, 0 :: u32] + 1 = 4" by simp
  have pre: "0 < states (pool_impl pool_demo 1000)" "\<not> is_locked (pool_impl pool_demo 1000)"
    by (simp_all add: pool_demo_impl)
  show ?thesis
    using sxe_pool_walker_visits_state[OF pool_demo_rep pre demo_array(1)[symmetric], of env0]
    unfolding q n append.simps .
qed

end
