(* ===== verification/SxeUtil.thy ===== *)
theory SxeUtil
  imports SxePrelude
begin

text \<open>
  \<^verbatim>\<open>lib-sxe-util\<close> (with \<^verbatim>\<open>lib-sha1/sha1-from-hex.c\<close>): hexadecimal conversion, rot13, bounded
  string search, base 2 logarithms and alignment. A buffer is a list of bytes; a pointer into
  a buffer that a search returns is an index, and NULL is \<^const>\<open>None\<close>.
\<close>

unbundle bit_operations_syntax

section \<open>Hexadecimal\<close>

definition NA :: u8 where "NA = 0xff"

definition hex_character_to_nibble :: "u8 list" where
  "hex_character_to_nibble =
     replicate 48 NA @ [0, 1, 2, 3, 4, 5, 6, 7, 8, 9] @ replicate 7 NA @ [10, 11, 12, 13, 14, 15] @
     replicate 26 NA @ [10, 11, 12, 13, 14, 15] @ replicate 153 NA"

definition hex_nibble_to_character :: "u8 list" where
  "hex_nibble_to_character = lit ''0123456789abcdef''"

definition nibble_of :: "u8 \<Rightarrow> u8" where
  "nibble_of c = hex_character_to_nibble ! unat c"

text \<open>The loops stop at the first NUL; the argument list is cut at \<open>hex_length_maximum\<close>.\<close>

fun valid_hex_loop :: "u8 list \<Rightarrow> u32 \<Rightarrow> u32 option" where
  "valid_hex_loop [] val = Some val"
| "valid_hex_loop (c # cs) val =
    (if c = 0 then Some val
     else if nibble_of c = NA then None
     else valid_hex_loop cs (push_bit 4 val OR ucast (nibble_of c)))"

definition sxe_valid_hex_to_unsigned :: "u8 list \<Rightarrow> u32 \<Rightarrow> SXE_RETURN \<times> u32 option" where
  "sxe_valid_hex_to_unsigned hex hex_length_maximum =
    (case valid_hex_loop (take (unat hex_length_maximum) hex) 0 of
       None \<Rightarrow> (SXE_RETURN_ERROR_INTERNAL, None)
     | Some val \<Rightarrow> (SXE_RETURN_OK, Some val))"

definition sxe_hex_to_unsigned :: "u8 list \<Rightarrow> u32 \<Rightarrow> u32" where
  "sxe_hex_to_unsigned hex hex_length_maximum =
    (case valid_hex_loop (take (unat hex_length_maximum) hex) 0 of None \<Rightarrow> - 1 | Some val \<Rightarrow> val)"

text \<open>
  \<open>i\<close> is the value of the loop variable at the test; the body consumes two characters. The
  result lists the bytes stored from \<open>bytes[0]\<close> on, also when an error cuts the loop short.
\<close>

function hex_to_bytes_loop :: "u8 list \<Rightarrow> nat \<Rightarrow> nat \<Rightarrow> u8 list \<Rightarrow> SXE_RETURN \<times> u8 list" where
  "hex_to_bytes_loop hex hex_length i bytes =
    (if i < hex_length then
       (let nibble_high = nibble_of (byte_at hex i) in
        if nibble_high = NA then (SXE_RETURN_ERROR_INTERNAL, bytes)
        else
          (let nibble_low = nibble_of (byte_at hex (i + 1)) in
           if nibble_low = NA then (SXE_RETURN_ERROR_INTERNAL, bytes)
           else hex_to_bytes_loop hex hex_length (i + 2) (bytes @ [push_bit 4 nibble_high OR nibble_low])))
     else (SXE_RETURN_OK, bytes))"
  by pat_completeness auto
termination by (relation "measure (\<lambda>(hex, hex_length, i, bytes). hex_length - i)") auto

declare hex_to_bytes_loop.simps [simp del]

definition sxe_hex_to_bytes :: "u8 list \<Rightarrow> u32 \<Rightarrow> (SXE_RETURN \<times> u8 list) option" where
  "sxe_hex_to_bytes hex hex_length = do {
     SXEA1 (hex_length mod 1 = 0);
     Some (hex_to_bytes_loop hex (unat hex_length) 0 [])
   }"

definition sxe_hex_from_bytes :: "u8 list \<Rightarrow> u8 list" where
  "sxe_hex_from_bytes bytes =
     concat (map (\<lambda>b. [hex_nibble_to_character ! unat (drop_bit 4 b), hex_nibble_to_character ! unat (b AND 0xF)]) bytes)"

definition SHA1_IN_HEX_LENGTH :: u32 where "SHA1_IN_HEX_LENGTH = 20 * 2"

definition sha1_from_hex :: "u8 list \<Rightarrow> (SXE_RETURN \<times> u8 list) option" where
  "sha1_from_hex sha1_in_hex = sxe_hex_to_bytes sha1_in_hex SHA1_IN_HEX_LENGTH"

text \<open>
  \<open>snprintf\<close> with \<open>%08x\<close> of \<open>htonl\<close> of each of the five words prints the bytes in memory
  order, two lower-case digits each; the digits and the final NUL fill the 41 characters.
\<close>

definition sha1_to_hex :: "u8 list \<Rightarrow> u32 \<Rightarrow> u8 list option" where
  "sha1_to_hex sha1 sha1_in_hex_length = do {
     SXEA1 (sha1_in_hex_length = SHA1_IN_HEX_LENGTH + 1);
     Some (sxe_hex_from_bytes (take 4 sha1) @ sxe_hex_from_bytes (take 4 (drop 4 sha1)) @
       sxe_hex_from_bytes (take 4 (drop 8 sha1)) @ sxe_hex_from_bytes (take 4 (drop 12 sha1)) @
       sxe_hex_from_bytes (take 4 (drop 16 sha1)) @ [0])
   }"

section \<open>Rot13\<close>

definition sxe_rot13_char :: "u8 list" where
  "sxe_rot13_char = map of_nat ([0..<65] @ [78..<91] @ [65..<78] @ [91..<97] @ [110..<123] @ [97..<110] @ [123..<256])"

definition SXE_ROT13_CHAR :: "u8 \<Rightarrow> u8" where
  "SXE_ROT13_CHAR c = sxe_rot13_char ! unat c"

definition sxe_rot13_hex_to_nibble :: "u8 list" where
  "sxe_rot13_hex_to_nibble =
     replicate 48 NA @ [0, 1, 2, 3, 4, 5, 6, 7, 8, 9] @ replicate 20 NA @ [10, 11, 12, 13, 14, 15] @
     replicate 26 NA @ [10, 11, 12, 13, 14, 15] @ replicate 140 NA"

fun rot13_in_place_loop :: "nat \<Rightarrow> u8 list \<Rightarrow> u8 list" where
  "rot13_in_place_loop (Suc n) (c # cs) = (if c \<noteq> 0 then SXE_ROT13_CHAR c # rot13_in_place_loop n cs else c # cs)"
| "rot13_in_place_loop _ cs = cs"

definition sxe_strn_rot13_in_place :: "u8 list \<Rightarrow> u32 \<Rightarrow> u8 list" where
  "sxe_strn_rot13_in_place s len = rot13_in_place_loop (unat len) s"

text \<open>The result is the part of the buffer that is written.\<close>

fun rot13_loop :: "nat \<Rightarrow> u8 list \<Rightarrow> u8 list" where
  "rot13_loop 0 cs = []"
| "rot13_loop (Suc n) [] = [0]"
| "rot13_loop (Suc n) (c # cs) = (if c = 0 then [0] else SXE_ROT13_CHAR c # rot13_loop n cs)"

definition sxe_strn_rot13 :: "u8 list \<Rightarrow> u32 \<Rightarrow> u8 list" where
  "sxe_strn_rot13 s len = rot13_loop (unat len) s"

text \<open>
  The index into the table is the plain \<open>char\<close> converted to unsigned: for characters from 0x80
  on it is far outside the table, which is \<^const>\<open>None\<close> here.
\<close>

fun rot13_hex_loop :: "u8 list \<Rightarrow> u32 \<Rightarrow> u32 option" where
  "rot13_hex_loop [] result = Some result"
| "rot13_hex_loop (c # cs) result =
    (if c = 0 then Some result
     else if unat (scast c :: u32) \<ge> 256 then None
     else if sxe_rot13_hex_to_nibble ! unat (scast c :: u32) = 0xff then Some (- 1)
     else rot13_hex_loop cs (push_bit 4 result OR ucast (sxe_rot13_hex_to_nibble ! unat (scast c :: u32))))"

definition sxe_rot13_hex_to_unsigned :: "u8 list \<Rightarrow> u32 \<Rightarrow> u32 option" where
  "sxe_rot13_hex_to_unsigned text text_length = rot13_hex_loop (take (unat text_length) text) 0"

section \<open>Bounded string search\<close>

text \<open>
  \<open>buf\<close> holds the bytes that may be read; a NUL follows them. The loops are written on the
  index from the start of the buffer. The first two compute \<open>n - 1\<close> in 32 bits, so that
  \<open>n = 0\<close> stands for \<open>2 ^ 32\<close>.
\<close>

fun strnchr_loop :: "u8 \<Rightarrow> nat \<Rightarrow> nat \<Rightarrow> u8 list \<Rightarrow> nat option" where
  "strnchr_loop c 0 i buf = None"
| "strnchr_loop c (Suc n) i [] = None"
| "strnchr_loop c (Suc n) i (b # bs) =
    (if b = 0 then None else if b = c then Some i else strnchr_loop c n (i + 1) bs)"

definition sxe_strnchr :: "u8 list \<Rightarrow> u8 \<Rightarrow> u32 \<Rightarrow> nat option" where
  "sxe_strnchr buf c n = strnchr_loop c (unat (n - 1) + 1) 0 buf"

fun rstrnchr_loop :: "u8 list \<Rightarrow> u8 \<Rightarrow> nat \<Rightarrow> nat option" where
  "rstrnchr_loop buf c 0 = None"
| "rstrnchr_loop buf c (Suc e) = (if byte_at buf e = c then Some e else rstrnchr_loop buf c e)"

definition sxe_rstrnchr :: "u8 list \<Rightarrow> u8 \<Rightarrow> u32 \<Rightarrow> nat option" where
  "sxe_rstrnchr buf c n = rstrnchr_loop buf c (unat (n - 1) + 1)"

fun strncspn_loop :: "u8 list \<Rightarrow> nat \<Rightarrow> nat \<Rightarrow> u8 list \<Rightarrow> nat option" where
  "strncspn_loop reject 0 i buf = None"
| "strncspn_loop reject (Suc n) i [] = None"
| "strncspn_loop reject (Suc n) i (b # bs) =
    (if b = 0 then None
     else if b \<in> set (takeWhile (\<lambda>r. r \<noteq> 0) reject) then Some i
     else strncspn_loop reject n (i + 1) bs)"

definition sxe_strncspn :: "u8 list \<Rightarrow> u8 list \<Rightarrow> nat \<Rightarrow> nat option" where
  "sxe_strncspn buf reject n = strncspn_loop reject n 0 buf"

text \<open>\<open>memcmp\<close> and \<open>strncasecmp\<close> with the first \<open>length\<close> bytes at an index of the buffer.\<close>

definition mem_eq :: "u8 list \<Rightarrow> nat \<Rightarrow> u8 list \<Rightarrow> bool" where
  "mem_eq buf i str \<longleftrightarrow> take (length str) (drop i buf) = str"

definition to_lower :: "u8 \<Rightarrow> u8" where
  "to_lower c = (if 65 \<le> c \<and> c \<le> 90 then c + 32 else c)"

definition case_eq :: "u8 list \<Rightarrow> nat \<Rightarrow> u8 list \<Rightarrow> bool" where
  "case_eq buf i str \<longleftrightarrow> map to_lower (take (length str) (drop i buf)) = map to_lower str"

text \<open>\<open>left\<close> positions are left from index \<open>i\<close> to the last one at which the string fits.\<close>

fun search_loop :: "(u8 list \<Rightarrow> nat \<Rightarrow> u8 list \<Rightarrow> bool) \<Rightarrow> u8 list \<Rightarrow> u8 list \<Rightarrow> nat \<Rightarrow> nat \<Rightarrow> nat option" where
  "search_loop eq buf str 0 i = None"
| "search_loop eq buf str (Suc left) i =
    (if byte_at buf i = 0 then None
     else if eq buf i str then Some i
     else search_loop eq buf str left (i + 1))"

definition sxe_strnstr :: "u8 list \<Rightarrow> u8 list \<Rightarrow> nat \<Rightarrow> nat option" where
  "sxe_strnstr buf str n =
    (if n < length str then None else search_loop mem_eq buf str (n - length str + 1) 0)"

definition sxe_strncasestr :: "u8 list \<Rightarrow> u8 list \<Rightarrow> nat \<Rightarrow> nat option" where
  "sxe_strncasestr buf str n =
    (if n < length str then None else search_loop case_eq buf str (n - length str + 1) 0)"

fun rstrnstr_loop :: "u8 list \<Rightarrow> u8 list \<Rightarrow> nat \<Rightarrow> nat option" where
  "rstrnstr_loop haystack needle 0 = None"
| "rstrnstr_loop haystack needle (Suc p) =
    (if mem_eq haystack p needle then Some p else rstrnstr_loop haystack needle p)"

definition sxe_rstrnstr :: "u8 list \<Rightarrow> u8 list \<Rightarrow> nat \<Rightarrow> nat option" where
  "sxe_rstrnstr haystack needle haystack_len =
     rstrnstr_loop haystack needle (if haystack_len < length needle then 0 else haystack_len - length needle + 1)"

section \<open>Logarithms, masks and alignment\<close>

definition sxe_log2_table :: "u32 list" where
  "sxe_log2_table = [0x22221100, 0x33333333] @ replicate 2 0x44444444 @ replicate 4 0x55555555 @
     replicate 8 0x66666666 @ replicate 16 0x77777777"

definition sxe_mask_table :: "u32 list" where
  "sxe_mask_table = [0x00000001, 0x00000003, 0x00000007, 0x0000000F, 0x0000001F, 0x00000003F, 0x0000007F, 0x000000FF,
     0x000001FF, 0x000003FF, 0x000007FF, 0x00000FFF, 0x00001FFF, 0x000003FFF, 0x00007FFF, 0x0000FFFF,
     0x0001FFFF, 0x0003FFFF, 0x0007FFFF, 0x000FFFFF, 0x001FFFFF, 0x0003FFFFF, 0x007FFFFF, 0x00FFFFFF,
     0x01FFFFFF, 0x03FFFFFF, 0x07FFFFFF, 0x0FFFFFFF, 0x1FFFFFFF, 0x03FFFFFFF, 0x7FFFFFFF, 0xFFFFFFFF]"

definition log2_table_nibble :: "u32 \<Rightarrow> u32" where
  "log2_table_nibble number =
     drop_bit (unat ((number AND 0x7) * 4)) (sxe_log2_table ! unat (drop_bit 3 number)) AND 0xF"

definition sxe_unsigned_log2 :: "u32 \<Rightarrow> u32" where
  "sxe_unsigned_log2 number =
    (if number > 0xFF then
       (let shift = (if number > 0xFFFF then (if number > 0xFFFFFF then 24 else 16) else 8);
            number = drop_bit (unat shift) number
        in log2_table_nibble number + shift)
     else log2_table_nibble number)"

definition sxe_unsigned_mask :: "u32 \<Rightarrow> u32" where
  "sxe_unsigned_mask number = sxe_mask_table ! unat (sxe_unsigned_log2 number)"

definition sxe_uint64_align :: "u64 \<Rightarrow> u64 \<Rightarrow> u64" where
  "sxe_uint64_align value multiple =
    (if multiple AND (multiple - 1) \<noteq> 0 then
       (let m = value mod multiple in if m \<noteq> 0 then value - m + multiple else value)
     else
       (let m = value AND (multiple - 1) in if m \<noteq> 0 then value - m + multiple else value))"

section \<open>Reference definitions\<close>

text \<open>What the tables and loops are meant to compute.\<close>

definition rot13_nat :: "nat \<Rightarrow> nat" where
  "rot13_nat n = (if 65 \<le> n \<and> n < 78 \<or> 97 \<le> n \<and> n < 110 then n + 13
     else if 78 \<le> n \<and> n < 91 \<or> 110 \<le> n \<and> n < 123 then n - 13 else n)"

definition is_hex :: "u8 \<Rightarrow> bool" where
  "is_hex c \<longleftrightarrow> 48 \<le> c \<and> c \<le> 57 \<or> 65 \<le> c \<and> c \<le> 70 \<or> 97 \<le> c \<and> c \<le> 102"

definition hex_digit :: "u8 \<Rightarrow> nat" where
  "hex_digit c = (if c \<le> 57 then unat c - 48 else if c \<le> 70 then unat c - 55 else unat c - 87)"

definition hex_value :: "u8 list \<Rightarrow> nat" where
  "hex_value cs = foldl (\<lambda>v c. 16 * v + hex_digit c) 0 cs"

section \<open>Table look-ups and loops\<close>

lemma nibble_char_table: "list_all (\<lambda>n. nibble_of (hex_nibble_to_character ! n) = of_nat n \<and> hex_nibble_to_character ! n \<noteq> 0) [0..<16]"
  by code_simp

lemma rot13_table: "sxe_rot13_char = map (\<lambda>n. of_nat (rot13_nat n)) [0..<256]"
proof -
  have "[0..<65] @ [78..<91] @ [65..<78] @ [91..<97] @ [110..<123] @ [97..<110] @ [123..<256] = map rot13_nat [0..<256]"
    by code_simp
  then show ?thesis unfolding sxe_rot13_char_def by (simp only: map_map o_def)
qed

lemma rot13_nth: "n < 256 \<Longrightarrow> sxe_rot13_char ! n = of_nat (rot13_nat n)"
  unfolding rot13_table by (subst nth_map) (simp_all only: length_upt nth_upt add_0 diff_zero)

lemma rot13_involutive: "SXE_ROT13_CHAR (SXE_ROT13_CHAR c) = c"
  and rot13_zero: "SXE_ROT13_CHAR c = 0 \<longleftrightarrow> c = 0"
proof -
  have b: "unat c < 256" using unat_lt2p[of c] by simp
  let ?n = "rot13_nat (unat c)"
  have r: "SXE_ROT13_CHAR c = of_nat ?n" by (simp add: SXE_ROT13_CHAR_def rot13_nth[OF b])
  have n: "?n < 256" using b by (auto simp: rot13_nat_def)
  then have u: "unat (of_nat ?n :: u8) = ?n" by (intro unat_of_nat_small) simp
  have "SXE_ROT13_CHAR (of_nat ?n) = of_nat (unat c)"
    unfolding SXE_ROT13_CHAR_def u rot13_nth[OF n] by (intro arg_cong[where f = of_nat]) (auto simp: rot13_nat_def)
  then show "SXE_ROT13_CHAR (SXE_ROT13_CHAR c) = c" unfolding r by simp
  show "SXE_ROT13_CHAR c = 0 \<longleftrightarrow> c = 0" unfolding r word_unat_eq_iff u by (auto simp: rot13_nat_def)
qed

lemma rot13_loop_twice: "rot13_in_place_loop n (rot13_in_place_loop n s) = s"
  by (induction n s rule: rot13_in_place_loop.induct) (simp_all add: rot13_involutive rot13_zero)

lemma nibble_char: "n < 16 \<Longrightarrow> nibble_of (hex_nibble_to_character ! n) = of_nat n"
  using nibble_char_table by (simp add: list_all_iff)

lemma hex_digits_join: "push_bit 4 (of_nat (unat (drop_bit 4 (b :: u8))) :: u8) OR of_nat (unat (b AND 0xF)) = b"
proof -
  have m: "(0xF :: u8) = mask 4" by (simp add: mask_eq_exp_minus_1)
  show ?thesis unfolding m by (auto simp: bit_eq_iff bit_simps)
qed

lemma NA_nibble: "n < 16 \<Longrightarrow> (of_nat n :: u8) \<noteq> NA"
  by (auto simp: NA_def word_unat_eq_iff unat_of_nat_small)

lemma high_nibble: "unat (drop_bit 4 (b :: u8)) < 16"
  using unat_lt2p[of b] by (simp add: unsigned_drop_bit_eq drop_bit_eq_div unat_div)

lemma low_nibble: "unat ((b :: u8) AND 0xF) < 16"
  using word_and_le1[of b 15] by (simp add: word_le_nat_alt)

lemma log2_nibble: "list_all (\<lambda>n. 2 ^ unat (log2_table_nibble (of_nat n)) \<le> n \<and> n < 2 ^ (unat (log2_table_nibble (of_nat n)) + 1)) [1..<256]"
  by code_simp

lemma log2_nibble_bounds:
  assumes "n \<noteq> 0" and "n \<le> 0xFF"
  shows "2 ^ unat (log2_table_nibble n) \<le> unat n \<and> unat n < 2 ^ (unat (log2_table_nibble n) + 1)"
proof -
  have "unat n \<in> set [1..<256]" using assms by (auto simp: word_le_nat_alt Suc_le_eq unat_gt_0)
  moreover have "of_nat (unat n) = n" by simp
  ultimately show ?thesis using log2_nibble unfolding list_all_iff by metis
qed


lemma from_bytes_nth:
  assumes "i < length bs"
  shows "byte_at (sxe_hex_from_bytes bs @ rest) (2 * i) = hex_nibble_to_character ! unat (drop_bit 4 (bs ! i))"
    and "byte_at (sxe_hex_from_bytes bs @ rest) (2 * i + 1) = hex_nibble_to_character ! unat (bs ! i AND 0xF)"
    and "length (sxe_hex_from_bytes bs) = 2 * length bs"
proof -
  show l: "length (sxe_hex_from_bytes bs) = 2 * length bs" for bs
    by (induction bs) (simp_all add: sxe_hex_from_bytes_def)
  have "sxe_hex_from_bytes bs = sxe_hex_from_bytes (take i bs) @
      [hex_nibble_to_character ! unat (drop_bit 4 (bs ! i)), hex_nibble_to_character ! unat (bs ! i AND 0xF)] @
      sxe_hex_from_bytes (drop (Suc i) bs)"
    by (subst id_take_nth_drop[OF assms]) (simp add: sxe_hex_from_bytes_def)
  moreover have "length (sxe_hex_from_bytes (take i bs)) = 2 * i" using assms by (simp add: l)
  ultimately show "byte_at (sxe_hex_from_bytes bs @ rest) (2 * i) = hex_nibble_to_character ! unat (drop_bit 4 (bs ! i))"
    and "byte_at (sxe_hex_from_bytes bs @ rest) (2 * i + 1) = hex_nibble_to_character ! unat (bs ! i AND 0xF)"
    by (simp_all add: byte_at_def nth_append)
qed

lemma hex_loop_decodes:
  assumes "i \<le> length bs"
  shows "hex_to_bytes_loop (sxe_hex_from_bytes bs @ rest) (2 * length bs) (2 * i) (take i bs) = (SXE_RETURN_OK, bs)"
  using assms
proof (induction "length bs - i" arbitrary: i)
  case 0
  then show ?case by (subst hex_to_bytes_loop.simps) simp
next
  case (Suc k)
  then have i: "i < length bs" by simp
  note nth = from_bytes_nth(1,2)[OF i, of rest]
  have "take i bs @ [push_bit 4 (of_nat (unat (drop_bit 4 (bs ! i)))) OR of_nat (unat (bs ! i AND 0xF))] = take (Suc i) bs"
    by (simp only: hex_digits_join take_Suc_conv_app_nth[OF i])
  with Suc.hyps(1)[of "Suc i"] Suc.hyps(2) i show ?case
    by (subst hex_to_bytes_loop.simps)
      (simp add: nth(1) nth(2)[simplified] nibble_char[OF high_nibble] nibble_char[OF low_nibble] NA_nibble[OF high_nibble] NA_nibble[OF low_nibble]
        del: of_nat_unat)
qed


lemma word_and_le: "x AND y \<le> (y :: 'a::len word)"
  by (rule word_and_le1)

lemma log2_nibble_small: "unat (log2_table_nibble n) < 16"
proof -
  have "log2_table_nibble n \<le> 0xF" unfolding log2_table_nibble_def by (rule word_and_le)
  then show ?thesis by (simp add: word_le_nat_alt)
qed

lemma log2_shifted:
  assumes "s \<le> 24" and "unat n div 2 ^ s \<noteq> 0" and "unat n div 2 ^ s \<le> 255"
  shows "2 ^ unat (log2_table_nibble (drop_bit s n) + of_nat s) \<le> unat n \<and>
    unat n < 2 ^ (unat (log2_table_nibble (drop_bit s n) + of_nat s) + 1)"
proof -
  have d: "unat (drop_bit s n) = unat n div 2 ^ s"
    unfolding unat_drop_bit_eq by (rule drop_bit_eq_div)
  have "drop_bit s n \<noteq> 0" "drop_bit s n \<le> 0xFF" using assms(2,3) d by (auto simp: word_le_nat_alt)
  note b = log2_nibble_bounds[OF this, unfolded d]
  let ?r = "unat (log2_table_nibble (drop_bit s n))"
  have r: "unat (log2_table_nibble (drop_bit s n) + of_nat s) = ?r + s"
    using log2_nibble_small[of "drop_bit s n"] assms(1) by (simp add: unat_word_ariths(1) unat_of_nat_small)
  have "2 ^ ?r * 2 ^ s \<le> unat n div 2 ^ s * 2 ^ s" using b by simp
  also have "\<dots> \<le> unat n" by simp
  finally have lo: "2 ^ (?r + s) \<le> unat n" by (simp add: power_add)
  have "unat n < (unat n div 2 ^ s + 1) * 2 ^ s"
    using dividend_less_div_times[of "2 ^ s" "unat n"] by (simp add: algebra_simps)
  also have "\<dots> \<le> 2 ^ (?r + 1) * 2 ^ s" using b by (intro mult_le_mono1) simp
  finally have "unat n < 2 ^ (?r + s + 1)" by (simp add: power_add algebra_simps)
  with lo r show ?thesis by simp
qed

lemma log2_bounds:
  assumes "n \<noteq> 0"
  shows "2 ^ unat (sxe_unsigned_log2 n) \<le> unat n \<and> unat n < 2 ^ (unat (sxe_unsigned_log2 n) + 1)"
proof -
  have n32: "unat n < 2 ^ 32" using unat_lt2p[of n] by simp
  consider "n \<le> 0xFF" | "n > 0xFF" "n \<le> 0xFFFF" | "n > 0xFFFF" "n \<le> 0xFFFFFF" | "n > 0xFFFFFF" by force
  then show ?thesis
  proof cases
    case 1
    then have "sxe_unsigned_log2 n = log2_table_nibble n"
      unfolding sxe_unsigned_log2_def by (simp only: not_less[symmetric] if_False)
    then show ?thesis using log2_nibble_bounds[OF assms 1] by simp
  next
    case 2
    then have "sxe_unsigned_log2 n = log2_table_nibble (drop_bit 8 n) + 8" by (simp add: sxe_unsigned_log2_def)
    then show ?thesis using log2_shifted[of 8 n] 2 by (simp add: word_less_nat_alt word_le_nat_alt div_le_mono)
  next
    case 3
    then have "\<not> n \<le> 0xFF" "sxe_unsigned_log2 n = log2_table_nibble (drop_bit 16 n) + 16"
      by (auto simp: sxe_unsigned_log2_def Let_def word_less_nat_alt word_le_nat_alt)
    then show ?thesis using log2_shifted[of 16 n] 3 by (simp add: word_less_nat_alt word_le_nat_alt div_le_mono)
  next
    case 4
    then have "sxe_unsigned_log2 n = log2_table_nibble (drop_bit 24 n) + 24"
      by (auto simp: sxe_unsigned_log2_def Let_def word_less_nat_alt word_le_nat_alt)
    then show ?thesis using log2_shifted[of 24 n] 4 n32 by (simp add: word_less_nat_alt word_le_nat_alt less_mult_imp_div_less)
  qed
qed

lemma mask_table: "i < 32 \<Longrightarrow> sxe_mask_table ! i = mask (i + 1)"
proof -
  have "list_all (\<lambda>i. sxe_mask_table ! i = mask (i + 1)) [0..<32]" by code_simp
  then show "i < 32 \<Longrightarrow> sxe_mask_table ! i = mask (i + 1)" by (simp add: list_all_iff)
qed

lemma log2_range: "n \<noteq> 0 \<Longrightarrow> unat (sxe_unsigned_log2 n) < 32"
proof -
  assume "n \<noteq> 0"
  then have "2 ^ unat (sxe_unsigned_log2 n) < (2 :: nat) ^ 32" using log2_bounds[of n] unat_lt2p[of n] by simp
  then show ?thesis by (rule power_less_imp_less_exp[rotated]) simp
qed

lemma search_loop_some:
  "search_loop eq buf str k i = Some j \<Longrightarrow>
    i \<le> j \<and> j < i + k \<and> eq buf j str \<and> (\<forall>l. i \<le> l \<and> l \<le> j \<longrightarrow> byte_at buf l \<noteq> 0) \<and> (\<forall>l. i \<le> l \<and> l < j \<longrightarrow> \<not> eq buf l str)"
proof (induction k arbitrary: i)
  case (Suc k)
  show ?case
  proof (cases "eq buf i str")
    case True
    then show ?thesis using Suc.prems by (auto split: if_splits dest: le_antisym)
  next
    case False
    then have "search_loop eq buf str k (i + 1) = Some j" and i: "byte_at buf i \<noteq> 0"
      using Suc.prems by (auto split: if_splits)
    note ih = Suc.IH[OF this(1)]
    have "byte_at buf l \<noteq> 0" if "i \<le> l" "l \<le> j" for l using ih i that by (cases "l = i") auto
    moreover have "\<not> eq buf l str" if "i \<le> l" "l < j" for l using ih False that by (cases "l = i") auto
    ultimately show ?thesis using ih by auto
  qed
qed simp

lemma search_loop_none:
  "search_loop eq buf str k i = None \<Longrightarrow> i \<le> j \<Longrightarrow> j < i + k \<Longrightarrow> (\<forall>l. i \<le> l \<and> l \<le> j \<longrightarrow> byte_at buf l \<noteq> 0) \<Longrightarrow> \<not> eq buf j str"
proof (induction k arbitrary: i)
  case (Suc k)
  then show ?case by (cases "i = j") (auto split: if_splits)
qed simp

lemma and_pred_pow2: "0 < m \<Longrightarrow> m AND (m - 1) = 0 \<Longrightarrow> \<exists>k. m = 2 ^ k" for m :: nat
proof (induction m rule: less_induct)
  case (less m)
  show ?case
  proof (cases "even m")
    case True
    then obtain j where j: "m = 2 * j" by blast
    then have "0 < j" using less.prems by simp
    have "m - 1 = 1 + 2 * (j - 1)" using j \<open>0 < j\<close> by simp
    then have "m AND (m - 1) = 2 * (j AND (j - 1))"
      using j by (subst and_rec) simp
    then have "j AND (j - 1) = 0" using less.prems by simp
    then obtain k where "j = 2 ^ k" using less.IH[of j] j \<open>0 < j\<close> by auto
    then show ?thesis using j by (auto intro: exI[of _ "Suc k"])
  next
    case False
    then obtain j where j: "m = 1 + 2 * j" by (auto elim: oddE)
    then have "m AND (m - 1) = 2 * (j AND j)" by (subst and_rec) simp
    then have "j = 0" using less.prems by simp
    then show ?thesis using j by (auto intro: exI[of _ 0])
  qed
qed

lemma unat_and: "unat (a AND b) = unat a AND unat (b :: 'a::len word)"
  by (simp add: unsigned_and_eq)

lemma align_mod:
  assumes "multiple \<noteq> 0" and "multiple AND (multiple - 1) = (0 :: u64)"
  shows "value AND (multiple - 1) = value mod multiple"
proof -
  have p: "unat (multiple - 1) = unat multiple - 1" using assms(1) by (simp add: unat_minus_one)
  have pos: "0 < unat multiple" using assms(1) by (simp add: unat_gt_0)
  have "unat multiple AND (unat multiple - 1) = 0" using assms(2) p by (metis unat_and unat_0)
  then obtain k where k: "unat multiple = 2 ^ k" using and_pred_pow2[OF pos] by blast
  have "unat (value AND (multiple - 1)) = unat value AND (2 ^ k - 1)" by (simp only: unat_and p k)
  also have "\<dots> = take_bit k (unat value)" by (simp add: take_bit_eq_mask mask_eq_exp_minus_1)
  also have "\<dots> = unat (value mod multiple)" by (simp add: take_bit_eq_mod unat_mod k)
  finally show ?thesis by (simp add: word_unat_eq_iff)
qed

lemma align_mod_cases:
  "multiple \<noteq> 0 \<Longrightarrow> sxe_uint64_align value multiple =
    (if value mod multiple \<noteq> 0 then value - value mod multiple + multiple else value)"
  by (simp add: sxe_uint64_align_def Let_def align_mod)

lemma hex_accumulate: "(d :: u8) < 16 \<Longrightarrow> push_bit 4 (v :: u32) OR ucast d = 16 * v + ucast d"
proof -
  assume "d < 16"
  have "\<not> bit (push_bit 4 v) n \<or> \<not> bit (ucast d :: u32) n" for n
  proof (cases "n < 4")
    case False
    have "take_bit 4 (unat d) = unat d" using \<open>d < 16\<close> by (simp add: take_bit_nat_eq_self word_less_nat_alt)
    then have "\<not> bit (unat d) n" using False by (metis bit_take_bit_iff)
    then have "\<not> bit d n" by (simp add: bit_simps)
    then show ?thesis by (simp add: bit_simps)
  qed (simp add: bit_simps)
  then have "push_bit 4 v + ucast d = push_bit 4 v OR (ucast d :: u32)" by (rule disjunctive_add)
  then show ?thesis by (simp add: push_bit_eq_mult mult.commute)
qed


lemma nibble_table: "list_all (\<lambda>n. nibble_of (of_nat n) = (if 48 \<le> n \<and> n \<le> 57 then of_nat (n - 48)
   else if 65 \<le> n \<and> n \<le> 70 then of_nat (n - 55)
   else if 97 \<le> n \<and> n \<le> 102 then of_nat (n - 87) else NA)) [0..<256]"
  by code_simp

lemma nibble_of_eq: "nibble_of c = (if is_hex c then of_nat (hex_digit c) else NA)"
proof -
  have "unat c \<in> set [0..<256]" using unat_lt2p[of c] by simp
  note eq = nibble_table[unfolded list_all_iff, THEN bspec, OF this]
  have "of_nat (unat c) = c" by simp
  note eq [unfolded this]
  then show ?thesis unfolding is_hex_def hex_digit_def word_le_nat_alt by (auto split: if_splits)
qed

lemma hex_digit_small: "is_hex c \<Longrightarrow> hex_digit c < 16"
  by (auto simp: is_hex_def hex_digit_def word_le_nat_alt)

lemma nibble_not_NA: "nibble_of c = NA \<longleftrightarrow> \<not> is_hex c"
  using hex_digit_small[of c] by (auto simp: nibble_of_eq NA_def word_unat_eq_iff unat_of_nat_small)

lemma valid_hex_loop_eq:
  "valid_hex_loop cs v =
    (let ds = takeWhile (\<lambda>c. c \<noteq> 0) cs
     in if list_all is_hex ds then Some (of_nat (foldl (\<lambda>v c. 16 * v + hex_digit c) (unat v) ds)) else None)"
proof (induction cs arbitrary: v)
  case (Cons c cs)
  show ?case
  proof (cases "is_hex c")
    case True
    then have d: "(of_nat (hex_digit c) :: u8) < 16"
      using hex_digit_small[OF True] by (simp add: word_less_nat_alt unat_of_nat_small)
    have "ucast (of_nat (hex_digit c) :: u8) = (of_nat (hex_digit c) :: u32)"
      using hex_digit_small[OF True] by (simp add: word_unat_eq_iff unat_of_nat_small unat_ucast_up)
    then have st: "push_bit 4 v OR ucast (nibble_of c) = 16 * v + of_nat (hex_digit c)"
      using hex_accumulate[OF d, of v] True by (simp add: nibble_of_eq)
    have cong: "(of_nat (foldl (\<lambda>v c. 16 * v + hex_digit c) a ds) :: u32) = of_nat (foldl (\<lambda>v c. 16 * v + hex_digit c) b ds)"
      if "(of_nat a :: u32) = of_nat b" for a b ds
      using that by (induction ds arbitrary: a b) simp_all
    have c0: "c \<noteq> 0" using True by (auto simp: is_hex_def)
    have "(of_nat (unat (16 * v + of_nat (hex_digit c))) :: u32) = of_nat (16 * unat v + hex_digit c)" by simp
    from cong[OF this, of "takeWhile (\<lambda>c. c \<noteq> 0) cs"] show ?thesis
      using c0 True Cons.IH[of "16 * v + of_nat (hex_digit c)"] by (simp add: nibble_not_NA st Let_def)
  next
    case False
    then show ?thesis by (simp add: nibble_not_NA)
  qed
qed simp

section \<open>Correctness of the utilities\<close>

text \<open>
  C15: hexadecimal encoding and decoding are inverse: decoding the encoding of any byte string
  returns exactly that byte string.
\<close>

theorem sxe_hex_roundtrip:
  assumes "2 * length bytes < 2 ^ 32"
  shows "sxe_hex_to_bytes (sxe_hex_from_bytes bytes) (of_nat (2 * length bytes)) = Some (SXE_RETURN_OK, bytes)"
proof -
  have "unat (of_nat (2 * length bytes) :: u32) = 2 * length bytes" using assms by (intro unat_of_nat_small) simp
  then show ?thesis
    using hex_loop_decodes[of 0 bytes "[]"] unfolding sxe_hex_to_bytes_def by (simp del: of_nat_mult)
qed

theorem sxe_hex_roundtrip_witness:
  "sxe_hex_to_bytes (sxe_hex_from_bytes [0x2c, 0xe6, 0x79]) (of_nat (2 * length [0x2c :: u8, 0xe6, 0x79])) =
     Some (SXE_RETURN_OK, [0x2c, 0xe6, 0x79])"
  by (rule sxe_hex_roundtrip) simp

text \<open>
  \<open>sxe_valid_hex_to_unsigned\<close> accepts exactly the inputs whose characters before the first NUL or the
  maximum length are all hexadecimal digits, and returns their value modulo \<open>2 ^ 32\<close>.
\<close>

theorem sxe_valid_hex_to_unsigned_value:
  "sxe_valid_hex_to_unsigned hex hex_length_maximum =
    (let digits = takeWhile (\<lambda>c. c \<noteq> 0) (take (unat hex_length_maximum) hex)
     in if list_all is_hex digits then (SXE_RETURN_OK, Some (of_nat (hex_value digits)))
        else (SXE_RETURN_ERROR_INTERNAL, None))"
  by (simp add: sxe_valid_hex_to_unsigned_def valid_hex_loop_eq Let_def hex_value_def)

text \<open>
  Rot13 in place is its own inverse on every buffer and length, embedded NULs included.
\<close>

theorem sxe_strn_rot13_in_place_involutive:
  "sxe_strn_rot13_in_place (sxe_strn_rot13_in_place s len) len = s"
  by (simp add: sxe_strn_rot13_in_place_def rot13_loop_twice)

text \<open>
  The table-driven logarithm is the position of the highest bit set, and the mask covers exactly the bits up to it.
\<close>

theorem sxe_unsigned_log2_floor:
  assumes "k \<noteq> 0"
  shows "2 ^ unat (sxe_unsigned_log2 k) \<le> unat k \<and> unat k < 2 ^ (unat (sxe_unsigned_log2 k) + 1) \<and>
    sxe_unsigned_mask k = mask (unat (sxe_unsigned_log2 k) + 1)"
  using log2_bounds[OF assms] mask_table[OF log2_range[OF assms]] by (simp add: sxe_unsigned_mask_def)

theorem sxe_unsigned_log2_floor_witness:
  "2 ^ unat (sxe_unsigned_log2 0x12345) \<le> (0x12345 :: nat) \<and> (0x12345 :: nat) < 2 ^ (unat (sxe_unsigned_log2 0x12345) + 1)"
  using sxe_unsigned_log2_floor[of "0x12345"] by simp

text \<open>
  Aligning a value gives the least multiple that is not less than the value, for multiples that
  are powers of two and for those that are not, as long as it fits in 64 bits.
\<close>

theorem sxe_uint64_align_least:
  assumes "multiple \<noteq> 0" and "unat value + unat multiple \<le> 2 ^ 64"
  shows "unat multiple dvd unat (sxe_uint64_align value multiple) \<and> value \<le> sxe_uint64_align value multiple \<and>
    unat (sxe_uint64_align value multiple) < unat value + unat multiple"
proof (cases "value mod multiple = 0")
  case True
  then have "unat value mod unat multiple = 0" by (metis unat_0 unat_mod)
  moreover have "0 < unat multiple" using assms(1) by (simp add: unat_gt_0)
  ultimately show ?thesis using True align_mod_cases[OF assms(1), of "value"] by (simp add: mod_eq_0_iff_dvd)
next
  case False
  let ?m = "unat multiple" and ?v = "unat value"
  have pos: "0 < ?m" using assms(1) by (simp add: unat_gt_0)
  have r: "0 < ?v mod ?m" "?v mod ?m < ?m" using False pos by (metis gr0I unat_0 unat_mod word_unat_eq_iff, simp)
  have "value mod multiple \<le> value" by (simp add: word_le_nat_alt unat_mod)
  then have sub: "unat (value - value mod multiple) = ?v - ?v mod ?m" by (simp add: unat_sub unat_mod)
  have "?v - ?v mod ?m + ?m < 2 ^ 64" using r assms(2) mod_less_eq_dividend[of ?v ?m] by linarith
  then have eq: "unat (sxe_uint64_align value multiple) = ?v - ?v mod ?m + ?m"
    using align_mod_cases[OF assms(1), of "value"] False sub by (simp add: unat_word_ariths(1))
  have "?m dvd ?v - ?v mod ?m + ?m" by (intro dvd_add dvd_refl dvd_minus_mod)
  moreover have "?v \<le> ?v - ?v mod ?m + ?m" "?v - ?v mod ?m + ?m < ?v + ?m"
    using r mod_less_eq_dividend[of ?v ?m] by linarith+
  ultimately show ?thesis unfolding word_le_nat_alt eq by blast
qed

theorem sxe_uint64_align_least_witness:
  "unat (48 :: u64) dvd unat (sxe_uint64_align 100 48) \<and> (100 :: u64) \<le> sxe_uint64_align 100 48"
  using sxe_uint64_align_least[of 48 100] by simp

text \<open>
  The bounded substring search returns the first position at which the string occurs within the
  first \<open>n\<close> bytes and before any NUL, and NULL exactly when there is none.
\<close>

theorem sxe_strnstr_first:
  "case sxe_strnstr buf str n of
     Some i \<Rightarrow> i + length str \<le> n \<and> take (length str) (drop i buf) = str \<and> (\<forall>j\<le>i. byte_at buf j \<noteq> 0) \<and>
       (\<forall>j<i. take (length str) (drop j buf) \<noteq> str)
   | None \<Rightarrow> \<forall>i. i + length str \<le> n \<longrightarrow> (\<forall>j\<le>i. byte_at buf j \<noteq> 0) \<longrightarrow> take (length str) (drop i buf) \<noteq> str"
proof (cases "sxe_strnstr buf str n")
  case None
  have "take (length str) (drop i buf) \<noteq> str" if "i + length str \<le> n" "\<forall>j\<le>i. byte_at buf j \<noteq> 0" for i
    using None search_loop_none[of mem_eq buf str "n - length str + 1" 0 i] that
    by (auto simp: sxe_strnstr_def mem_eq_def split: if_splits)
  then show ?thesis using None by simp
next
  case (Some i)
  then have len: "length str \<le> n" and loop: "search_loop mem_eq buf str (n - length str + 1) 0 = Some i"
    by (auto simp only: sxe_strnstr_def split: if_splits)
  note found = search_loop_some[OF loop]
  then have "i + length str \<le> n" using len by linarith
  with found Some show ?thesis by (simp add: mem_eq_def)
qed

theorem sxe_strnstr_first_witness: "sxe_strnstr (lit ''one two two'') (lit ''two'') 11 = Some 4"
proof -
  have "sxe_strnstr (lit ''one two two'') (lit ''two'') 11 = Some 4" by code_simp
  with sxe_strnstr_first[where buf = "lit ''one two two''" and str = "lit ''two''" and n = 11] show ?thesis by simp
qed

end
