(* ===== verification/SxeHash.thy ===== *)
theory SxeHash
  imports SxePoolWalker SxeUtil
begin

text \<open>
  \<^verbatim>\<open>lib-sxe-hash\<close>: a hash table on top of a pool. State 0 of the pool holds the unused elements,
  state 1 those taken but not yet added, and every further state is a bucket. The memory
  extends that of the pools with the hash structures and the bytes of the elements.
\<close>

unbundle bit_operations_syntax

section \<open>Data\<close>

record sxe_hash =
  hash_pool :: addr
  hash_count :: u32
  hash_size :: u32
  hash_key_offset :: u32
  hash_key_size :: u32
  hash_options :: u32
  hash_key :: "u8 list \<Rightarrow> u32"

record sxe_hash_mem = sxe_pool_mem +
  hash_impl :: "addr \<Rightarrow> sxe_hash"
  byte_mem :: "addr \<Rightarrow> u8"

definition SXE_HASH_KEY_NOT_FOUND :: u32 where "SXE_HASH_KEY_NOT_FOUND = NOT 0"
definition SXE_HASH_FULL :: u32 where "SXE_HASH_FULL = NOT 0"
definition SXE_HASH_OPTION_UNLOCKED :: u32 where "SXE_HASH_OPTION_UNLOCKED = 0"
definition SXE_HASH_OPTION_LOCKED :: u32 where "SXE_HASH_OPTION_LOCKED = 1"
definition SXE_HASH_OPTION_COMPUTED_HASH :: u32 where "SXE_HASH_OPTION_COMPUTED_HASH = 2"
definition SXE_HASH_UNUSED_BUCKET :: u32 where "SXE_HASH_UNUSED_BUCKET = 0"
definition SXE_HASH_NEW_BUCKET :: u32 where "SXE_HASH_NEW_BUCKET = 1"
definition SXE_HASH_BUCKETS_RESERVED :: u32 where "SXE_HASH_BUCKETS_RESERVED = 2"
definition SXE_HASH_SHA1_AS_HEX_LENGTH :: u32 where "SXE_HASH_SHA1_AS_HEX_LENGTH = SHA1_IN_HEX_LENGTH"

definition sizeof_SXE_HASH :: int where "sizeof_SXE_HASH = 40"
definition sizeof_SXE_HASH_KEY_VALUE_PAIR :: u32 where "sizeof_SXE_HASH_KEY_VALUE_PAIR = 24"
definition sizeof_SXE_SHA1 :: u32 where "sizeof_SXE_SHA1 = 20"

definition SXE_HASH_ARRAY_TO_IMPL :: "addr \<Rightarrow> addr" where
  "SXE_HASH_ARRAY_TO_IMPL array = sxe_pool_to_base array - sizeof_SXE_HASH"

text \<open>Reading and writing the bytes at an address.\<close>

definition read_bytes :: "'a sxe_hash_mem_scheme \<Rightarrow> addr \<Rightarrow> nat \<Rightarrow> u8 list" where
  "read_bytes m a n = map (\<lambda>i. byte_mem m (a + int i)) [0..<n]"

definition write_bytes :: "addr \<Rightarrow> u8 list \<Rightarrow> 'a sxe_hash_mem_scheme \<Rightarrow> 'a sxe_hash_mem_scheme" where
  "write_bytes a bs m =
     m\<lparr>byte_mem := (\<lambda>x. if a \<le> x \<and> x < a + int (length bs) then bs ! nat (x - a) else byte_mem m x)\<rparr>"

section \<open>Operations\<close>

text \<open>The key has at least four bytes.\<close>

definition sxe_prehashed_key_hash :: "u8 list \<Rightarrow> u32" where
  "sxe_prehashed_key_hash key = le32 key"

text \<open>
  \<open>sxe_hash_sum\<close> is a global function pointer that the application may override. The
  allocated size is computed in an unsigned; the result of \<open>sxe_malloc\<close> is a parameter.
\<close>

definition sxe_hash_new_plus ::
  "sxe_env \<Rightarrow> (u8 list \<Rightarrow> u32) \<Rightarrow> 'a sxe_hash_mem_scheme \<Rightarrow> (u32 \<Rightarrow> addr option) \<Rightarrow> string \<Rightarrow> u32 \<Rightarrow> u32 \<Rightarrow> u32 \<Rightarrow> u32 \<Rightarrow>
   u32 \<Rightarrow> ('a sxe_hash_mem_scheme \<times> addr) option" where
  "sxe_hash_new_plus env sxe_hash_sum m sxe_malloc name element_count element_size key_offset key_size options1 = do {
     let size = of_int sizeof_SXE_HASH +
       ucast (sxe_pool_size element_count (ucast element_size) (element_count + SXE_HASH_BUCKETS_RESERVED));
     hash \<leftarrow> sxe_malloc size;
     let (m, array) = sxe_pool_construct env m (hash + sizeof_SXE_HASH) name element_count (ucast element_size)
       (element_count + SXE_HASH_BUCKETS_RESERVED)
       (if options1 AND SXE_HASH_OPTION_LOCKED \<noteq> 0 then SXE_POOL_OPTION_LOCKED else 0);
     let m = m\<lparr>hash_impl := (hash_impl m)(hash := \<lparr>hash_pool = array, hash_count = element_count,
       hash_size = element_size, hash_key_offset = key_offset, hash_key_size = key_size, hash_options = options1,
       hash_key = (if options1 AND SXE_HASH_OPTION_COMPUTED_HASH \<noteq> 0 then sxe_hash_sum else sxe_prehashed_key_hash)\<rparr>)\<rparr>;
     Some (m, array)
   }"

definition sxe_hash_reconstruct :: "sxe_env \<Rightarrow> 'a sxe_hash_mem_scheme \<Rightarrow> addr \<Rightarrow> 'a sxe_hash_mem_scheme" where
  "sxe_hash_reconstruct env m array =
    (let hash = SXE_HASH_ARRAY_TO_IMPL array;
         h = hash_impl m hash;
         (m, array') = sxe_pool_construct env m (hash + sizeof_SXE_HASH) (pool_name (pool_impl m (SXE_POOL_ARRAY_TO_IMPL array)))
           (hash_count h) (ucast (hash_size h)) (hash_count h + SXE_HASH_BUCKETS_RESERVED)
           (if hash_options h AND SXE_HASH_OPTION_LOCKED \<noteq> 0 then SXE_POOL_OPTION_LOCKED else 0)
     in m\<lparr>hash_impl := (hash_impl m)(hash := (hash_impl m hash)\<lparr>hash_pool := array'\<rparr>)\<rparr>)"

definition sxe_hash_take :: "sxe_env \<Rightarrow> 'a sxe_hash_mem_scheme \<Rightarrow> addr \<Rightarrow> ('a sxe_hash_mem_scheme \<times> u32) option" where
  "sxe_hash_take env m array =
    (let hash = SXE_HASH_ARRAY_TO_IMPL array
     in do {
       (m, i) \<leftarrow> sxe_pool_set_oldest_element_state env m (hash_pool (hash_impl m hash))
         SXE_HASH_UNUSED_BUCKET SXE_HASH_NEW_BUCKET;
       Some (m, if i = SXE_POOL_NO_INDEX then SXE_HASH_FULL else i)
     })"

text \<open>The remainder by a count of zero traps.\<close>

definition hash_bucket :: "sxe_hash \<Rightarrow> u8 list \<Rightarrow> u32 option" where
  "hash_bucket h key =
    (if hash_count h = 0 then None
     else Some (hash_key h key mod hash_count h + SXE_HASH_BUCKETS_RESERVED))"

partial_function (option) hash_look_loop ::
  "sxe_env \<Rightarrow> sxe_hash \<Rightarrow> addr \<Rightarrow> u8 list \<Rightarrow> 'a sxe_hash_mem_scheme \<Rightarrow> sxe_pool_walker \<Rightarrow>
   ('a sxe_hash_mem_scheme \<times> u32) option" where
  "hash_look_loop env h array key m walker = do {
     (m, walker, i) \<leftarrow> sxe_pool_walker_step env m walker;
     if i = SXE_HASH_KEY_NOT_FOUND then Some (m, i)
     else if read_bytes m (array + uint (i * hash_size h) + uint (hash_key_offset h)) (unat (hash_key_size h)) = key
     then Some (m, i)
     else hash_look_loop env h array key m walker
   }"

definition sxe_hash_look ::
  "sxe_env \<Rightarrow> 'a sxe_hash_mem_scheme \<Rightarrow> addr \<Rightarrow> u8 list \<Rightarrow> ('a sxe_hash_mem_scheme \<times> u32) option" where
  "sxe_hash_look env m array key =
    (let h = hash_impl m (SXE_HASH_ARRAY_TO_IMPL array)
     in do {
       bucket \<leftarrow> hash_bucket h key;
       walker \<leftarrow> sxe_pool_walker_construct m array bucket;
       hash_look_loop env h array key m walker
     })"

definition sxe_hash_add :: "sxe_env \<Rightarrow> 'a sxe_hash_mem_scheme \<Rightarrow> addr \<Rightarrow> u32 \<Rightarrow> 'a sxe_hash_mem_scheme option" where
  "sxe_hash_add env m array i =
    (let h = hash_impl m (SXE_HASH_ARRAY_TO_IMPL array);
         key = read_bytes m (array + uint (i * hash_size h + hash_key_offset h)) (unat (hash_key_size h))
     in do {
       bucket \<leftarrow> hash_bucket h key;
       (m, _) \<leftarrow> sxe_pool_set_indexed_element_state env m array i SXE_HASH_NEW_BUCKET bucket;
       Some m
     })"

definition sxe_hash_give :: "sxe_env \<Rightarrow> 'a sxe_hash_mem_scheme \<Rightarrow> addr \<Rightarrow> u32 \<Rightarrow> 'a sxe_hash_mem_scheme option" where
  "sxe_hash_give env m array i =
    (let hash = SXE_HASH_ARRAY_TO_IMPL array
     in do {
       state \<leftarrow> sxe_pool_index_to_state m array i;
       (m, _) \<leftarrow> sxe_pool_set_indexed_element_state env m (hash_pool (hash_impl m hash)) i state SXE_HASH_UNUSED_BUCKET;
       Some m
     })"

subsection \<open>The classic interface: SHA1 keys in hexadecimal, unsigned values\<close>

definition sxe_hash_new ::
  "sxe_env \<Rightarrow> (u8 list \<Rightarrow> u32) \<Rightarrow> 'a sxe_hash_mem_scheme \<Rightarrow> (u32 \<Rightarrow> addr option) \<Rightarrow> string \<Rightarrow> u32 \<Rightarrow>
   ('a sxe_hash_mem_scheme \<times> addr) option" where
  "sxe_hash_new env sxe_hash_sum m sxe_malloc name element_count =
     sxe_hash_new_plus env sxe_hash_sum m sxe_malloc name element_count sizeof_SXE_HASH_KEY_VALUE_PAIR 0 sizeof_SXE_SHA1
       SXE_HASH_OPTION_UNLOCKED"

definition pair_at :: "addr \<Rightarrow> u32 \<Rightarrow> addr" where
  "pair_at array i = array + uint i * uint sizeof_SXE_HASH_KEY_VALUE_PAIR"

definition sxe_hash_set ::
  "sxe_env \<Rightarrow> 'a sxe_hash_mem_scheme \<Rightarrow> addr \<Rightarrow> u8 list \<Rightarrow> u32 \<Rightarrow> u32 \<Rightarrow> ('a sxe_hash_mem_scheme \<times> u32) option" where
  "sxe_hash_set env m array sha1_as_char sha1_key_len value = do {
     SXEA6 (sha1_key_len = SXE_HASH_SHA1_AS_HEX_LENGTH);
     (m, i) \<leftarrow> sxe_hash_take env m array;
     if i = SXE_HASH_FULL then Some (m, i)
     else do {
       (_, sha1) \<leftarrow> sha1_from_hex sha1_as_char;
       let pair = pair_at (hash_pool (hash_impl m (SXE_HASH_ARRAY_TO_IMPL array))) i;
       let m = write_bytes pair sha1 m;
       let m = write_bytes (pair + uint sizeof_SXE_SHA1) (le32_bytes value) m;
       m \<leftarrow> sxe_hash_add env m array i;
       Some (m, i)
     }
   }"

definition pair_value :: "'a sxe_hash_mem_scheme \<Rightarrow> addr \<Rightarrow> u32 \<Rightarrow> u32" where
  "pair_value m array i =
     le32 (read_bytes m (pair_at (hash_pool (hash_impl m (SXE_HASH_ARRAY_TO_IMPL array))) i + uint sizeof_SXE_SHA1) 4)"

definition sxe_hash_get ::
  "sxe_env \<Rightarrow> 'a sxe_hash_mem_scheme \<Rightarrow> addr \<Rightarrow> u8 list \<Rightarrow> u32 \<Rightarrow> ('a sxe_hash_mem_scheme \<times> u32) option" where
  "sxe_hash_get env m array sha1_as_char sha1_key_len = do {
     SXEA6 (sha1_key_len = SXE_HASH_SHA1_AS_HEX_LENGTH);
     (result, sha1) \<leftarrow> sha1_from_hex sha1_as_char;
     if result \<noteq> SXE_RETURN_OK then Some (m, SXE_HASH_KEY_NOT_FOUND)
     else do {
       (m, i) \<leftarrow> sxe_hash_look env m array sha1;
       Some (m, if i \<noteq> SXE_HASH_KEY_NOT_FOUND then pair_value m array i else SXE_HASH_KEY_NOT_FOUND)
     }
   }"

definition sxe_hash_remove ::
  "sxe_env \<Rightarrow> 'a sxe_hash_mem_scheme \<Rightarrow> addr \<Rightarrow> u8 list \<Rightarrow> u32 \<Rightarrow> ('a sxe_hash_mem_scheme \<times> u32) option" where
  "sxe_hash_remove env m array sha1_as_char sha1_key_len = do {
     SXEA6 (sha1_key_len = SXE_HASH_SHA1_AS_HEX_LENGTH);
     (result, sha1) \<leftarrow> sha1_from_hex sha1_as_char;
     if result \<noteq> SXE_RETURN_OK then Some (m, SXE_HASH_KEY_NOT_FOUND)
     else do {
       (m, i) \<leftarrow> sxe_hash_look env m array sha1;
       if i \<noteq> SXE_HASH_KEY_NOT_FOUND then do {
         let value = pair_value m array i;
         m \<leftarrow> sxe_hash_give env m array i;
         Some (m, value)
       }
       else Some (m, SXE_HASH_KEY_NOT_FOUND)
     }
   }"

section \<open>Abstract view\<close>

abbreviation hash_of :: "'a sxe_hash_mem_scheme \<Rightarrow> addr \<Rightarrow> sxe_hash" where
  "hash_of m array \<equiv> hash_impl m (SXE_HASH_ARRAY_TO_IMPL array)"

abbreviation pool_of :: "'a sxe_hash_mem_scheme \<Rightarrow> addr \<Rightarrow> sxe_pool_impl" where
  "pool_of m array \<equiv> pool_impl m (SXE_POOL_ARRAY_TO_IMPL array)"

definition elem_key :: "'a sxe_hash_mem_scheme \<Rightarrow> addr \<Rightarrow> u32 \<Rightarrow> u8 list" where
  "elem_key m array i = read_bytes m (array + uint (i * hash_size (hash_of m array)) +
     uint (hash_key_offset (hash_of m array))) (unat (hash_key_size (hash_of m array)))"

definition bucket_no :: "sxe_hash \<Rightarrow> u8 list \<Rightarrow> u32" where
  "bucket_no h key = hash_key h key mod hash_count h + SXE_HASH_BUCKETS_RESERVED"

text \<open>
  A well-formed unlocked hash table: a pool with one state per bucket and the two reserved
  states, in which every element of a bucket has a key that hashes to it.
\<close>

definition hash_ok :: "sxe_env \<Rightarrow> addr \<Rightarrow> 'a sxe_hash_mem_scheme \<Rightarrow> (u32 \<Rightarrow> u32 list) \<Rightarrow> bool" where
  "hash_ok env array m Q \<longleftrightarrow> unlocked_rep env array m Q \<and> hash_pool (hash_of m array) = array \<and>
     hash_count (hash_of m array) = number (pool_of m array) \<and> hash_count (hash_of m array) \<noteq> 0 \<and>
     states (pool_of m array) = hash_count (hash_of m array) + 2 \<and>
     unat (hash_count (hash_of m array)) + 2 < 2 ^ 32 \<and>
     unat (hash_count (hash_of m array)) * unat (hash_size (hash_of m array)) + unat (hash_key_offset (hash_of m array)) < 2 ^ 32 \<and>
     bucketed (states (pool_of m array)) (\<lambda>i. bucket_no (hash_of m array) (elem_key m array i)) Q"

text \<open>The elements that have been added to the table.\<close>

definition hash_entries :: "'a sxe_hash_mem_scheme \<Rightarrow> addr \<Rightarrow> (u32 \<Rightarrow> u32 list) \<Rightarrow> u32 set" where
  "hash_entries m array Q = (\<Union>b \<in> {b. 2 \<le> b \<and> b < states (pool_of m array)}. set (Q b))"

definition hash_classic :: "'a sxe_hash_mem_scheme \<Rightarrow> addr \<Rightarrow> bool" where
  "hash_classic m array \<longleftrightarrow> hash_size (hash_of m array) = sizeof_SXE_HASH_KEY_VALUE_PAIR \<and>
     hash_key_offset (hash_of m array) = 0 \<and> hash_key_size (hash_of m array) = sizeof_SXE_SHA1"

definition hash_map_rep ::
  "sxe_env \<Rightarrow> addr \<Rightarrow> 'a sxe_hash_mem_scheme \<Rightarrow> (u32 \<Rightarrow> u32 list) \<Rightarrow> (u8 list \<rightharpoonup> u32) \<Rightarrow> bool" where
  "hash_map_rep env array m Q F \<longleftrightarrow> hash_ok env array m Q \<and> hash_classic m array \<and>
     entries_map (hash_entries m array Q) (elem_key m array) (pair_value m array) F"

definition hash_mem0 :: sxe_hash_mem where
  "hash_mem0 = \<lparr>node = node mem0, header = header mem0, pool_impl = pool_impl pool_mem0, node_last = (\<lambda>_. 0),
     sxe_pool_timeout_list = 16, sxe_pool_timeout_count = 0,
     hash_impl = (\<lambda>_. \<lparr>hash_pool = 0, hash_count = 0, hash_size = 0, hash_key_offset = 0, hash_key_size = 0,
       hash_options = 0, hash_key = (\<lambda>_. 0)\<rparr>), byte_mem = (\<lambda>_. 0)\<rparr>"

definition hash_demo :: "sxe_hash_mem \<times> addr" where
  "hash_demo = the (sxe_hash_new env0 (\<lambda>_. 0) hash_mem0 (\<lambda>_. Some 1000) ''demo'' 2)"

definition sha1_demo :: "u8 list" where
  "sha1_demo = map of_nat [1..<21]"

section \<open>Looking up\<close>

lemma client_same_hash:
  assumes "client_same array m m'"
  shows "hash_impl m' = hash_impl m" "byte_mem m' = byte_mem m" "elem_key m' array = elem_key m array"
    "states (pool_of m' array) = states (pool_of m array)" "number (pool_of m' array) = number (pool_of m array)"
proof -
  have "sxe_pool_mem.more m' = sxe_pool_mem.more m" using assms by (simp add: client_same_def)
  then show h: "hash_impl m' = hash_impl m" "byte_mem m' = byte_mem m" by (cases m; cases m'; simp)+
  show "elem_key m' array = elem_key m array" by (simp add: fun_eq_iff elem_key_def read_bytes_def h)
  show "states (pool_of m' array) = states (pool_of m array)" "number (pool_of m' array) = number (pool_of m array)"
    using assms by (simp_all add: client_same_def Let_def)
qed

lemma hash_ok_bucket:
  assumes "hash_ok env array m Q"
  shows "hash_bucket (hash_of m array) key = Some (bucket_no (hash_of m array) key)"
    and "2 \<le> bucket_no (hash_of m array) key" and "bucket_no (hash_of m array) key < states (pool_of m array)"
    and "1 < states (pool_of m array)" and "0 < states (pool_of m array)"
proof -
  let ?c = "hash_count (hash_of m array)"
  have c: "?c \<noteq> 0" "unat ?c + 2 < 2 ^ 32" "states (pool_of m array) = ?c + 2"
    using assms by (auto simp: hash_ok_def)
  show "hash_bucket (hash_of m array) key = Some (bucket_no (hash_of m array) key)"
    using c by (simp add: hash_bucket_def bucket_no_def)
  have s: "unat (states (pool_of m array)) = unat ?c + 2" using c by (simp add: unat_word_ariths(1))
  have "unat (hash_key (hash_of m array) key mod ?c) < unat ?c" using c(1) by (simp add: unat_mod unat_gt_0)
  moreover from this have "unat (bucket_no (hash_of m array) key) = unat (hash_key (hash_of m array) key mod ?c) + 2"
    using c(2) by (simp add: bucket_no_def SXE_HASH_BUCKETS_RESERVED_def unat_word_ariths(1))
  ultimately show "2 \<le> bucket_no (hash_of m array) key" "bucket_no (hash_of m array) key < states (pool_of m array)"
    using s by (simp_all add: word_le_nat_alt word_less_nat_alt)
  show "1 < states (pool_of m array)" "0 < states (pool_of m array)" using s by (simp_all add: word_less_nat_alt)
qed

lemma look_loop:
  assumes "walker_before m (SXE_POOL_ARRAY_TO_IMPL array) b w xs" and "\<not> is_locked (pool_of m array)"
    and "SXE_HASH_KEY_NOT_FOUND \<notin> set xs"
  shows "hash_look_loop env (hash_of m array) array key m w =
    Some (m, case filter (\<lambda>i. elem_key m array i = key) xs of [] \<Rightarrow> SXE_HASH_KEY_NOT_FOUND | i # _ \<Rightarrow> i)"
  using assms
proof (induction xs arbitrary: w)
  case Nil
  then obtain w' where "sxe_pool_walker_step env m w = Some (m, w', SXE_POOL_NO_INDEX)"
    using walker_step_unlocked[OF Nil(1,2), of env] by auto
  then show ?case
    by (subst hash_look_loop.simps) (simp add: SXE_POOL_NO_INDEX_def SXE_HASH_KEY_NOT_FOUND_def)
next
  case (Cons i xs)
  obtain w' where "sxe_pool_walker_step env m w = Some (m, w', i)"
    "walker_before m (SXE_POOL_ARRAY_TO_IMPL array) b w' xs"
    using walker_step_unlocked[OF Cons.prems(1,2), of env] by auto
  then show ?case
    using Cons.IH[of w'] Cons.prems by (subst hash_look_loop.simps) (auto simp: elem_key_def)
qed

lemma hash_ok_rep:
  assumes "hash_ok env array m Q"
  shows "pool_rep m (SXE_POOL_ARRAY_TO_IMPL array) Q" "\<not> is_locked (pool_of m array)" "array \<noteq> NULL" "env_tid env \<noteq> 0"
    "unlocked_rep env array m Q"
    "bucketed (states (pool_of m array)) (\<lambda>i. bucket_no (hash_of m array) (elem_key m array i)) Q"
    "hash_pool (hash_of m array) = array"
  using assms by (auto simp: hash_ok_def unlocked_rep_def)

lemma hash_look_bucket:
  assumes ok: "hash_ok env array m Q"
  shows "sxe_hash_look env m array key =
    Some (m, case filter (\<lambda>i. elem_key m array i = key) (Q (bucket_no (hash_of m array) key)) of
      [] \<Rightarrow> SXE_HASH_KEY_NOT_FOUND | i # _ \<Rightarrow> i)"
proof -
  note rep = hash_ok_rep[OF ok] and b = hash_ok_bucket(1-3)[OF ok, of key]
  obtain w where w: "sxe_pool_walker_construct m array (bucket_no (hash_of m array) key) = Some w"
    "walker_before m (SXE_POOL_ARRAY_TO_IMPL array) (bucket_no (hash_of m array) key) w (Q (bucket_no (hash_of m array) key))"
    by (rule walker_construct_before[OF rep(1) b(3) rep(2) refl])
  have "SXE_HASH_KEY_NOT_FOUND \<notin> set (Q (bucket_no (hash_of m array) key))"
    using pool_rep_real_index[OF rep(1) b(3)] by (auto simp: SXE_POOL_NO_INDEX_def SXE_HASH_KEY_NOT_FOUND_def)
  then show ?thesis
    using look_loop[OF w(2) rep(2)] w(1) b(1) by (simp add: sxe_hash_look_def)
qed

lemma hash_look_cases:
  assumes ok: "hash_ok env array m Q"
  obtains (found) i where "sxe_hash_look env m array key = Some (m, i)" and "i \<in> hash_entries m array Q"
      and "elem_key m array i = key" and "i \<noteq> SXE_HASH_KEY_NOT_FOUND"
  | (missing) "sxe_hash_look env m array key = Some (m, SXE_HASH_KEY_NOT_FOUND)"
      and "\<And>i. i \<in> hash_entries m array Q \<Longrightarrow> elem_key m array i \<noteq> key"
proof (cases "filter (\<lambda>i. elem_key m array i = key) (Q (bucket_no (hash_of m array) key))")
  case Nil
  have "elem_key m array i \<noteq> key" if e: "i \<in> hash_entries m array Q" for i
  proof
    assume k: "elem_key m array i = key"
    obtain b where "2 \<le> b" "b < states (pool_of m array)" "i \<in> set (Q b)" using e by (auto simp: hash_entries_def)
    then have "bucket_no (hash_of m array) key = b" using hash_ok_rep(6)[OF ok] k by (auto simp: bucketed_def)
    with \<open>i \<in> set (Q b)\<close> k Nil show False by (auto simp: filter_empty_conv)
  qed
  then show ?thesis using missing hash_look_bucket[OF ok, of key] Nil by simp
next
  case (Cons i rest)
  have "i \<in> set (Q (bucket_no (hash_of m array) key))" "elem_key m array i = key"
    using Cons_eq_filterD[OF Cons[symmetric]] by auto
  moreover from this have "i \<in> hash_entries m array Q"
    using hash_ok_bucket(2,3)[OF ok, of key] by (auto simp: hash_entries_def)
  moreover have "i \<noteq> SXE_HASH_KEY_NOT_FOUND"
    using pool_rep_real_index[OF hash_ok_rep(1)[OF ok] hash_ok_bucket(3)[OF ok, of key]] calculation(1)
    by (auto simp: SXE_POOL_NO_INDEX_def SXE_HASH_KEY_NOT_FOUND_def)
  ultimately show ?thesis using found hash_look_bucket[OF ok, of key] Cons by simp
qed

section \<open>The bytes of the elements\<close>

lemma hash_okD:
  assumes "hash_ok env array m Q"
  shows "hash_count (hash_of m array) = number (pool_of m array)" and "hash_count (hash_of m array) \<noteq> 0"
    and "states (pool_of m array) = hash_count (hash_of m array) + 2" and "unat (hash_count (hash_of m array)) + 2 < 2 ^ 32"
    and "unat (hash_count (hash_of m array)) * unat (hash_size (hash_of m array)) + unat (hash_key_offset (hash_of m array)) < 2 ^ 32"
  using assms unfolding hash_ok_def by blast+

text \<open>Well-formedness carries over to a memory with the same table and pool structure.\<close>

lemma hash_ok_transfer:
  assumes "hash_ok env array m Q" and "unlocked_rep env array m' Q'" and "hash_of m' array = hash_of m array"
    and "states (pool_of m' array) = states (pool_of m array)" and "number (pool_of m' array) = number (pool_of m array)"
    and "bucketed (states (pool_of m array)) (\<lambda>i. bucket_no (hash_of m array) (elem_key m' array i)) Q'"
  shows "hash_ok env array m' Q'"
  unfolding hash_ok_def assms(3,4,5) using hash_okD[OF assms(1)] hash_ok_rep(7)[OF assms(1)] assms(2,6) by blast

lemma hex_loop_length:
  "hex_to_bytes_loop hex n i bytes = (SXE_RETURN_OK, bs) \<Longrightarrow> length bs = length bytes + (n - i + 1) div 2"
proof (induction hex n i bytes rule: hex_to_bytes_loop.induct)
  case (1 hex n i bytes)
  show ?case
  proof (cases "i < n")
    case True
    then have "length bs = length bytes + 1 + (n - (i + 2) + 1) div 2"
      using "1.IH"[OF True refl _ refl] "1.prems" by (subst (asm) hex_to_bytes_loop.simps) (auto simp: Let_def split: if_splits)
    moreover have "1 + (n - (i + 2) + 1) div 2 = (n - i + 1) div 2" using True by (cases "n - i - 1") (auto dest!: less_imp_Suc_add)
    ultimately show ?thesis by simp
  next
    case False
    then show ?thesis using "1.prems" by (subst (asm) hex_to_bytes_loop.simps) simp
  qed
qed

lemma sha1_from_hex_length: "sha1_from_hex hex = Some (SXE_RETURN_OK, sha1) \<Longrightarrow> length sha1 = 20"
  by (auto simp: sha1_from_hex_def sxe_hex_to_bytes_def SHA1_IN_HEX_LENGTH_def SXEA1_def dest!: hex_loop_length split: if_splits)

lemma write_bytes_more [simp]:
  "node (write_bytes a bs m) = node m" "header (write_bytes a bs m) = header m"
  "pool_impl (write_bytes a bs m) = pool_impl m" "hash_impl (write_bytes a bs m) = hash_impl m"
  by (simp_all add: write_bytes_def)

lemma seg_in_cong: "node m' = node m \<Longrightarrow> seg m' l p xs q = seg m l p xs q"
  by (induction xs arbitrary: p) auto

lemma pool_rep_cong:
  assumes "node m' = node m" and "header m' = header m" and "pool_impl m' = pool_impl m"
  shows "pool_rep m' pool Q = pool_rep m pool Q"
proof -
  have "list_rep m' = list_rep m" by (simp add: fun_eq_iff list_rep_def assms seg_in_cong[OF assms(1)])
  moreover have "queue_at m' pool = queue_at m pool" "node_at m' pool = node_at m pool"
    by (rule pool_addr_cong; simp add: assms)+
  ultimately show ?thesis by (simp add: pool_rep_def queue_family_def assms)
qed

lemma unlocked_rep_write_bytes: "unlocked_rep env array (write_bytes a bs m) Q = unlocked_rep env array m Q"
  by (simp add: unlocked_rep_def pool_rep_cong[of "write_bytes a bs m" m])

lemma read_write_same: "n = length bs \<Longrightarrow> read_bytes (write_bytes a bs m) a n = bs"
  by (rule nth_equalityI) (simp_all add: read_bytes_def write_bytes_def)

lemma read_write_apart:
  "a + int n \<le> b \<or> b + int (length bs) \<le> a \<Longrightarrow> read_bytes (write_bytes b bs m) a n = read_bytes m a n"
  by (auto simp: read_bytes_def write_bytes_def)

lemma read_bytes_cong: "byte_mem m' = byte_mem m \<Longrightarrow> read_bytes m' a n = read_bytes m a n"
  by (simp add: read_bytes_def)

section \<open>The classic table as a map\<close>

text \<open>The filing depends on the elements of the buckets only.\<close>

lemma bucketed_entries:
  "bucketed (states (pool_of m array)) bucket Q \<longleftrightarrow>
     (\<forall>i \<in> hash_entries m array Q. \<forall>b. 2 \<le> b \<longrightarrow> b < states (pool_of m array) \<longrightarrow> i \<in> set (Q b) \<longrightarrow> bucket i = b)"
  by (auto simp: bucketed_def hash_entries_def)

lemma hash_entries_less:
  assumes "hash_ok env array m Q" and "i \<in> hash_entries m array Q"
  shows "i < hash_count (hash_of m array)"
proof -
  obtain b where "b < states (pool_of m array)" "i \<in> set (Q b)" using assms(2) by (auto simp: hash_entries_def)
  then have "i < number (pool_of m array)" by (rule pool_rep_in_number[OF hash_ok_rep(1)[OF assms(1)]])
  then show ?thesis using assms(1) by (simp add: hash_ok_def)
qed

lemma classic_elem_key:
  assumes "hash_ok env array m Q" and "hash_classic m array" and "i < hash_count (hash_of m array)"
  shows "elem_key m array i = read_bytes m (pair_at array i) 20"
    and "uint (i * hash_size (hash_of m array) + hash_key_offset (hash_of m array)) = uint i * 24"
proof -
  have c: "hash_size (hash_of m array) = 24" "hash_key_offset (hash_of m array) = 0" "unat (hash_key_size (hash_of m array)) = 20"
    using assms(2) by (simp_all add: hash_classic_def sizeof_SXE_HASH_KEY_VALUE_PAIR_def sizeof_SXE_SHA1_def)
  have "unat i < unat (hash_count (hash_of m array))" using assms(3) by (simp add: word_less_nat_alt)
  moreover have "unat (hash_count (hash_of m array)) * 24 < 2 ^ 32" using hash_okD(5)[OF assms(1)] unfolding c by simp
  ultimately have "unat i * unat (24 :: u32) < 2 ^ 32" by simp
  then have "unat (i * 24) = unat i * 24" by (subst unat_mult_lem[THEN iffD1]) simp_all
  then have "uint (i * 24) = uint i * 24" by (metis int_ops(3) of_nat_mult of_nat_numeral uint_nat)
  then show u: "uint (i * hash_size (hash_of m array) + hash_key_offset (hash_of m array)) = uint i * 24"
    by (simp add: c)
  then show "elem_key m array i = read_bytes m (pair_at array i) 20"
    by (simp add: elem_key_def c pair_at_def sizeof_SXE_HASH_KEY_VALUE_PAIR_def)
qed

lemma hash_entries_move:
  assumes "unlocked_rep env array m Q" and "a < states (pool_of m array)" and "b < states (pool_of m array)" and "i \<in> set (Q a)"
  shows "hash_entries m array (pool_move Q i a b) = hash_entries m array Q - {i} \<union> (if 2 \<le> b then {i} else {})"
proof -
  have "i \<notin> set (Q s)" if "s \<noteq> a" "s < states (pool_of m array)" for s
    using unlocked_pool.queues_disjoint[OF assms(1) that(2) assms(2) that(1)] assms(4) by auto
  then have i: "\<And>s. i \<in> set (Q s) \<Longrightarrow> s < states (pool_of m array) \<Longrightarrow> s = a" by blast
  note move = set_pool_move[of Q a i b, OF unlocked_pool.queue_distinct[OF assms(1,2)]]
  have "x \<in> hash_entries m array (pool_move Q i a b) \<longleftrightarrow> x \<in> hash_entries m array Q" if "x \<noteq> i" for x
  proof -
    have "x \<in> set (pool_move Q i a b s) \<longleftrightarrow> x \<in> set (Q s)" for s using that by (simp add: move)
    then show ?thesis by (simp add: hash_entries_def)
  qed
  moreover have "i \<in> hash_entries m array (pool_move Q i a b) \<longleftrightarrow> 2 \<le> b"
  proof -
    have "i \<in> set (pool_move Q i a b s) \<longleftrightarrow> s = b" if "s < states (pool_of m array)" for s
      using i[OF _ that] by (auto simp: move)
    then show ?thesis using assms(3) by (auto simp: hash_entries_def)
  qed
  ultimately have "x \<in> hash_entries m array (pool_move Q i a b) \<longleftrightarrow>
      x \<in> hash_entries m array Q - {i} \<union> (if 2 \<le> b then {i} else {})" for x by (cases "x = i") simp_all
  then show ?thesis by blast
qed

lemma pair_write:
  assumes "length key = 20"
    and m'_def: "m' = write_bytes (pair_at array i + 20) (le32_bytes v) (write_bytes (pair_at array i) key m)"
  shows "read_bytes m' (pair_at array j) 20 = (if j = i then key else read_bytes m (pair_at array j) 20)"
    and "read_bytes m' (pair_at array j + 20) 4 = (if j = i then le32_bytes v else read_bytes m (pair_at array j + 20) 4)"
proof -
  have apart: "uint j * 24 + 24 \<le> uint i * 24 \<or> uint i * 24 + 24 \<le> uint j * 24" if "j \<noteq> i"
  proof -
    have "uint j \<noteq> uint i" using that by (simp add: word_uint_eq_iff)
    then show ?thesis by linarith
  qed
  have l: "length (le32_bytes v) = 4" by (simp add: le32_bytes_def)
  show "read_bytes m' (pair_at array j) 20 = (if j = i then key else read_bytes m (pair_at array j) 20)"
    using apart assms(1) l unfolding m'_def
    by (auto simp: read_write_apart read_write_same pair_at_def sizeof_SXE_HASH_KEY_VALUE_PAIR_def)
  show "read_bytes m' (pair_at array j + 20) 4 = (if j = i then le32_bytes v else read_bytes m (pair_at array j + 20) 4)"
    using apart assms(1) l unfolding m'_def
    by (auto simp: read_write_apart read_write_same pair_at_def sizeof_SXE_HASH_KEY_VALUE_PAIR_def)
qed

lemma hash_ok_write:
  assumes "hash_ok env array m Q" and "hash_classic m array" and "i \<in> set (Q 1)" and "length key = 20"
    and "m' = write_bytes (pair_at array i + 20) (le32_bytes v) (write_bytes (pair_at array i) key m)"
  shows "hash_ok env array m' Q" and "hash_classic m' array" and "hash_entries m' array Q = hash_entries m array Q"
    and "\<And>j. j < hash_count (hash_of m array) \<Longrightarrow> elem_key m' array j = (if j = i then key else elem_key m array j)"
    and "\<And>j. pair_value m' array j = (if j = i then v else pair_value m array j)"
    and "i \<notin> hash_entries m array Q"
proof -
  note b1 = hash_ok_bucket(4)[OF assms(1)]
  have same: "hash_impl m' = hash_impl m" "pool_impl m' = pool_impl m" by (simp_all add: assms(5))
  show cl: "hash_classic m' array" using assms(2) by (simp add: hash_classic_def same)
  show ent: "hash_entries m' array Q = hash_entries m array Q" by (simp add: hash_entries_def same)
  have c: "hash_size (hash_of m array) = 24" "hash_key_offset (hash_of m array) = 0" "unat (hash_key_size (hash_of m array)) = 20"
    using assms(2) by (simp_all add: hash_classic_def sizeof_SXE_HASH_KEY_VALUE_PAIR_def sizeof_SXE_SHA1_def)
  have key: "elem_key m' array j = (if j = i then key else elem_key m array j)" if "j < hash_count (hash_of m array)" for j
  proof -
    have "elem_key m' array j = read_bytes m' (pair_at array j) 20"
      using classic_elem_key(1)[OF assms(1,2) that] unfolding elem_key_def same c
      by (simp add: read_bytes_def) (use classic_elem_key(2)[OF assms(1,2) that] c in \<open>simp add: pair_at_def sizeof_SXE_HASH_KEY_VALUE_PAIR_def\<close>)
    then show ?thesis using pair_write(1)[OF assms(4,5)] classic_elem_key(1)[OF assms(1,2) that] by simp
  qed
  then show "\<And>j. j < hash_count (hash_of m array) \<Longrightarrow> elem_key m' array j = (if j = i then key else elem_key m array j)" .
  show ni: "i \<notin> hash_entries m array Q"
  proof
    assume "i \<in> hash_entries m array Q"
    then obtain b where b: "2 \<le> b" "b < states (pool_of m array)" "i \<in> set (Q b)" by (auto simp: hash_entries_def)
    then have "b \<noteq> 1" by (auto simp: word_le_nat_alt)
    then show False using unlocked_pool.queues_disjoint[OF hash_ok_rep(5)[OF assms(1)] b(2) b1] b(3) assms(3) by auto
  qed
  have "elem_key m' array j = elem_key m array j" if "j \<in> hash_entries m array Q" for j
    using key[OF hash_entries_less[OF assms(1) that]] that ni by auto
  then have "bucketed (states (pool_of m array)) (\<lambda>i. bucket_no (hash_of m array) (elem_key m' array i)) Q"
    using hash_ok_rep(6)[OF assms(1)] unfolding bucketed_entries by simp
  moreover have "unlocked_rep env array m' Q"
    using hash_ok_rep(5)[OF assms(1)] by (simp add: assms(5) unlocked_rep_write_bytes)
  ultimately show "hash_ok env array m' Q" by (intro hash_ok_transfer[OF assms(1)]) (simp_all add: same)
  show "\<And>j. pair_value m' array j = (if j = i then v else pair_value m array j)"
    using pair_write(2)[OF assms(4,5)]
    by (simp add: pair_value_def same hash_ok_rep(7)[OF assms(1)] sizeof_SXE_SHA1_def le32_le32_bytes)
qed

section \<open>The operations on a well-formed table\<close>

lemma client_same_ok:
  assumes "hash_ok env array m Q" and "client_same array m m'" and "unlocked_rep env array m' Q'"
    and "bucketed (states (pool_of m array)) (\<lambda>i. bucket_no (hash_of m array) (elem_key m array i)) Q'"
  shows "hash_ok env array m' Q'" and "pair_value m' array = pair_value m array" and "hash_classic m' array = hash_classic m array"
    and "hash_entries m' array Q'' = hash_entries m array Q''"
proof -
  note same = client_same_hash[OF assms(2)]
  show "hash_ok env array m' Q'" by (rule hash_ok_transfer[OF assms(1,3)]) (use assms(4) in \<open>simp_all add: same\<close>)
  show "pair_value m' array = pair_value m array"
    by (simp add: fun_eq_iff pair_value_def read_bytes_cong[OF same(2)] same(1))
  show "hash_classic m' array = hash_classic m array" by (simp add: hash_classic_def same(1))
  show "hash_entries m' array Q'' = hash_entries m array Q''" by (simp add: hash_entries_def same)
qed

lemma hash_take_cases:
  assumes ok: "hash_ok env array m Q"
  obtains (full) m' where "Q 0 = []" and "sxe_hash_take env m array = Some (m', SXE_HASH_FULL)"
      and "hash_ok env array m' Q" and "client_same array m m'"
  | (taken) m' i where "i \<in> set (Q 0)" and "sxe_hash_take env m array = Some (m', i)" and "i \<noteq> SXE_HASH_FULL"
      and "i < hash_count (hash_of m array)" and "hash_ok env array m' (pool_move Q i 0 1)" and "client_same array m m'"
      and "i \<in> set (pool_move Q i 0 1 1)" and "hash_entries m array (pool_move Q i 0 1) = hash_entries m array Q"
proof -
  note rep = hash_ok_rep[OF ok] and lim = hash_ok_bucket(4,5)[OF ok]
  have no: "SXE_POOL_NO_INDEX = SXE_HASH_FULL" by (simp add: SXE_POOL_NO_INDEX_def SXE_HASH_FULL_def)
  show thesis
  proof (rule unlocked_pool.take_unused[OF rep(5) lim(1) rep(6)])
    fix m' assume m': "Q 0 = []" "sxe_pool_set_oldest_element_state env m array 0 1 = Some (m', SXE_POOL_NO_INDEX)"
      "unlocked_rep env array m' Q" "client_same array m m'"
    then show thesis using full[OF m'(1) _ client_same_ok(1)[OF ok m'(4,3) rep(6)] m'(4)]
      by (simp add: sxe_hash_take_def rep(7) no SXE_HASH_UNUSED_BUCKET_def SXE_HASH_NEW_BUCKET_def)
  next
    fix m' i rest assume m': "Q 0 = i # rest" "sxe_pool_set_oldest_element_state env m array 0 1 = Some (m', i)"
      "unlocked_rep env array m' (pool_move Q i 0 1)" "client_same array m m'"
      "bucketed (states (pool_of m array)) (\<lambda>i. bucket_no (hash_of m array) (elem_key m array i)) (pool_move Q i 0 1)"
      "i \<in> set (pool_move Q i 0 1 1)"
    assume "\<And>b. 2 \<le> b \<Longrightarrow> b < states (pool_of m array) \<Longrightarrow> set (pool_move Q i 0 1 b) = set (Q b)"
    then have ent: "hash_entries m array (pool_move Q i 0 1) = hash_entries m array Q" by (simp add: hash_entries_def)
    have i: "i \<in> set (Q 0)" using m'(1) by simp
    have "i \<noteq> SXE_POOL_NO_INDEX" using pool_rep_real_index[OF rep(1) lim(2)] i by auto
    moreover have "i < hash_count (hash_of m array)"
      using pool_rep_in_number[OF rep(1) lim(2) i] hash_okD(1)[OF ok] by simp
    ultimately show thesis
      using taken[OF i _ _ _ client_same_ok(1)[OF ok m'(4,3,5)] m'(4,6) ent] m'(2)
      by (simp add: sxe_hash_take_def rep(7) no SXE_HASH_UNUSED_BUCKET_def SXE_HASH_NEW_BUCKET_def)
  qed
qed

lemma hash_move:
  assumes ok: "hash_ok env array m Q" and a: "a < states (pool_of m array)" and b: "b < states (pool_of m array)" and i: "i \<in> set (Q a)"
    and bucket: "2 \<le> b \<Longrightarrow> bucket_no (hash_of m array) (elem_key m array i) = b"
  obtains m' r where "sxe_pool_set_indexed_element_state env m array i a b = Some (m', r)"
    and "hash_ok env array m' (pool_move Q i a b)" and "client_same array m m'"
    and "hash_entries m array (pool_move Q i a b) = hash_entries m array Q - {i} \<union> (if 2 \<le> b then {i} else {})"
proof -
  note rep = hash_ok_rep[OF ok]
  obtain m' r where m': "sxe_pool_set_indexed_element_state env m array i a b = Some (m', r)"
    "unlocked_rep env array m' (pool_move Q i a b)" "client_same array m m'"
    using unlocked_pool.move_in[OF rep(5) a b i] by blast
  have "bucketed (states (pool_of m array)) (\<lambda>i. bucket_no (hash_of m array) (elem_key m array i)) (pool_move Q i a b)"
    by (rule unlocked_pool.move_bucketed[OF rep(5) a i rep(6) bucket])
  from that[OF m'(1) client_same_ok(1)[OF ok m'(3,2) this] m'(3) hash_entries_move[OF rep(5) a b i]] show thesis .
qed

lemma hash_map_repD:
  assumes "hash_map_rep env array m Q F"
  shows "hash_ok env array m Q" and "hash_classic m array"
    and "entries_map (hash_entries m array Q) (elem_key m array) (pair_value m array) F"
    and "F key = Some v \<longleftrightarrow> (\<exists>i \<in> hash_entries m array Q. elem_key m array i = key \<and> pair_value m array i = v)"
  using assms unfolding hash_map_rep_def entries_map_def by blast+

lemma hash_map_rep_transfer:
  assumes "client_same array m m'" and "hash_ok env array m' Q'" and "hash_classic m array"
    and "entries_map (hash_entries m array Q') (elem_key m array) (pair_value m array) F"
  shows "hash_map_rep env array m' Q' F"
proof -
  note same = client_same_hash[OF assms(1)]
  have "hash_classic m' array" using assms(3) by (simp add: hash_classic_def same(1))
  moreover have "hash_entries m' array Q' = hash_entries m array Q'" by (simp add: hash_entries_def same)
  moreover have "pair_value m' array = pair_value m array"
    by (simp add: fun_eq_iff pair_value_def read_bytes_cong[OF same(2)] same(1))
  ultimately show ?thesis using assms(2,4) by (simp add: hash_map_rep_def same(3))
qed

text \<open>Adding an element that was taken and given a key that is not in the table.\<close>

lemma hash_map_add:
  assumes rep: "hash_map_rep env array m Q F" and i: "i \<in> set (Q 1)" "i < hash_count (hash_of m array)"
    and key: "length key = 20" "F key = None"
    and m1: "m1 = write_bytes (pair_at array i + 20) (le32_bytes v) (write_bytes (pair_at array i) key m)"
  obtains m' Q' where "sxe_hash_add env m1 array i = Some m'" and "hash_map_rep env array m' Q' (F(key \<mapsto> v))"
    and "length (Q' 0) = length (Q 0)"
proof -
  note r = hash_map_repD[OF rep]
  note w = hash_ok_write[OF r(1,2) i(1) key(1) m1]
  have k: "elem_key m1 array i = key" using w(4)[OF i(2)] by simp
  have "i < hash_count (hash_of m1 array)" using i(2) by (simp add: m1)
  from classic_elem_key[OF w(1,2) this]
  have look: "read_bytes m1 (array + uint (i * hash_size (hash_of m1 array) + hash_key_offset (hash_of m1 array)))
      (unat (hash_key_size (hash_of m1 array))) = key"
    using k w(2) by (simp add: hash_classic_def pair_at_def sizeof_SXE_HASH_KEY_VALUE_PAIR_def sizeof_SXE_SHA1_def)
  let ?b = "bucket_no (hash_of m1 array) key"
  note b = hash_ok_bucket(1-3)[OF w(1), of key] hash_ok_bucket(4)[OF w(1)]
  obtain m' r' where m': "sxe_pool_set_indexed_element_state env m1 array i 1 ?b = Some (m', r')"
    "hash_ok env array m' (pool_move Q i 1 ?b)" "client_same array m1 m'"
    "hash_entries m1 array (pool_move Q i 1 ?b) = hash_entries m1 array Q - {i} \<union> (if 2 \<le> ?b then {i} else {})"
    by (rule hash_move[OF w(1) b(4) b(3) i(1)]) (auto simp: k)
  have ent: "hash_entries m1 array (pool_move Q i 1 ?b) = insert i (hash_entries m array Q)" using m'(4) b(2) w(3,6) by auto
  have old: "elem_key m1 array j = elem_key m array j" "pair_value m1 array j = pair_value m array j"
    if "j \<in> hash_entries m array Q" for j
    using w(4)[OF hash_entries_less[OF r(1) that]] w(5)[of j] that w(6) by auto
  have "entries_map (hash_entries m1 array (pool_move Q i 1 ?b)) (elem_key m1 array) (pair_value m1 array) (F(key \<mapsto> v))"
    unfolding ent by (rule entries_map_insert[OF r(3) w(6) key(2) _ _ old]) (simp_all add: k w(5))
  then have "hash_map_rep env array m' (pool_move Q i 1 ?b) (F(key \<mapsto> v))" by (rule hash_map_rep_transfer[OF m'(3,2) w(2)])
  moreover have "sxe_hash_add env m1 array i = Some m'"
    using m'(1) b(1) by (simp add: sxe_hash_add_def look SXE_HASH_NEW_BUCKET_def)
  moreover have "?b \<noteq> 0" using b(2) by (auto simp: word_le_nat_alt)
  ultimately show thesis by (intro that[of m' "pool_move Q i 1 ?b"]) (simp_all add: pool_move_def Let_def)
qed

lemma hash_map_set:
  assumes rep: "hash_map_rep env array m Q F" and key: "sha1_from_hex hex = Some (SXE_RETURN_OK, key)" "F key = None"
  obtains (full) m' where "Q 0 = []" and "sxe_hash_set env m array hex SXE_HASH_SHA1_AS_HEX_LENGTH v = Some (m', SXE_HASH_FULL)"
      and "hash_map_rep env array m' Q F"
  | (added) m' i Q' where "Q 0 \<noteq> []" and "sxe_hash_set env m array hex SXE_HASH_SHA1_AS_HEX_LENGTH v = Some (m', i)"
      and "i \<noteq> SXE_HASH_FULL" and "hash_map_rep env array m' Q' (F(key \<mapsto> v))" and "length (Q' 0) + 1 = length (Q 0)"
proof -
  note r = hash_map_repD[OF rep]
  show thesis
  proof (rule hash_take_cases[OF r(1)])
    fix m' assume m': "Q 0 = []" "sxe_hash_take env m array = Some (m', SXE_HASH_FULL)" "hash_ok env array m' Q" "client_same array m m'"
    then show thesis
      using full[OF m'(1) _ hash_map_rep_transfer[OF m'(4,3) r(2,3)]] by (simp add: sxe_hash_set_def)
  next
    fix m1 i assume m1: "i \<in> set (Q 0)" "sxe_hash_take env m array = Some (m1, i)" "i \<noteq> SXE_HASH_FULL"
      "i < hash_count (hash_of m array)" "hash_ok env array m1 (pool_move Q i 0 1)" "client_same array m m1"
      "i \<in> set (pool_move Q i 0 1 1)" "hash_entries m array (pool_move Q i 0 1) = hash_entries m array Q"
    have rep1: "hash_map_rep env array m1 (pool_move Q i 0 1) F"
      by (rule hash_map_rep_transfer[OF m1(6,5) r(2)]) (use r(3) m1(8) in simp)
    have i: "i < hash_count (hash_of m1 array)" using m1(4) by (simp add: client_same_hash(1)[OF m1(6)])
    obtain m' Q' where m': "sxe_hash_add env (write_bytes (pair_at array i + 20) (le32_bytes v) (write_bytes (pair_at array i) key m1)) array i = Some m'"
      "hash_map_rep env array m' Q' (F(key \<mapsto> v))" "length (Q' 0) = length (pool_move Q i 0 1 0)"
      by (rule hash_map_add[OF rep1 m1(7) i sha1_from_hex_length[OF key(1)] key(2) refl])
    have "length (Q' 0) + 1 = length (Q 0)" "Q 0 \<noteq> []"
      using m1(1) m'(3) by (auto simp: pool_move_def Let_def length_remove1 intro: Suc_pred dest: length_pos_if_in_set)
    then show thesis
      using added[OF _ _ m1(3) m'(2)] m1(2,3) m'(1) key(1) hash_ok_rep(7)[OF hash_map_repD(1)[OF rep1]]
      by (simp add: sxe_hash_set_def sizeof_SXE_SHA1_def)
  qed
qed

lemma hash_map_look:
  assumes rep: "hash_map_rep env array m Q F"
  obtains (found) i where "sxe_hash_look env m array key = Some (m, i)" and "i \<in> hash_entries m array Q" and "elem_key m array i = key"
      and "i \<noteq> SXE_HASH_KEY_NOT_FOUND" and "F key = Some (pair_value m array i)"
  | (missing) "sxe_hash_look env m array key = Some (m, SXE_HASH_KEY_NOT_FOUND)" and "F key = None"
proof -
  note r = hash_map_repD[OF rep]
  show thesis
  proof (rule hash_look_cases[OF r(1), of key])
    fix i assume i: "sxe_hash_look env m array key = Some (m, i)" "i \<in> hash_entries m array Q" "elem_key m array i = key"
      "i \<noteq> SXE_HASH_KEY_NOT_FOUND"
    then show thesis using found r(4) by blast
  next
    assume "sxe_hash_look env m array key = Some (m, SXE_HASH_KEY_NOT_FOUND)"
      "\<And>i. i \<in> hash_entries m array Q \<Longrightarrow> elem_key m array i \<noteq> key"
    moreover from this have "F key = None" using r(4)[of key] by (cases "F key") auto
    ultimately show thesis using missing by blast
  qed
qed

lemma hash_map_give:
  assumes rep: "hash_map_rep env array m Q F" and i: "i \<in> hash_entries m array Q"
  obtains m' Q' where "sxe_hash_give env m array i = Some m'" and "hash_map_rep env array m' Q' (F(elem_key m array i := None))"
    and "i \<in> set (Q' 0)"
proof -
  note r = hash_map_repD[OF rep]
  note k = hash_ok_rep[OF r(1)] and lim = hash_ok_bucket(4,5)[OF r(1)]
  obtain b where b: "2 \<le> b" "b < states (pool_of m array)" "i \<in> set (Q b)" using i by (auto simp: hash_entries_def)
  have state: "sxe_pool_index_to_state m array i = Some b"
    using pool_rep_state(4)[OF k(1) b(2,3)] pool_rep_in_number[OF k(1) b(2,3)] by (simp add: sxe_pool_index_to_state_def Let_def)
  obtain m' r' where m': "sxe_pool_set_indexed_element_state env m array i b 0 = Some (m', r')"
    "hash_ok env array m' (pool_move Q i b 0)" "client_same array m m'"
    "hash_entries m array (pool_move Q i b 0) = hash_entries m array Q - {i} \<union> (if 2 \<le> (0 :: u32) then {i} else {})"
    by (rule hash_move[OF r(1) b(2) lim(2) b(3)]) (auto simp: word_le_nat_alt)
  have "entries_map (hash_entries m array (pool_move Q i b 0)) (elem_key m array) (pair_value m array) (F(elem_key m array i := None))"
    using entries_map_remove[OF r(3) i] m'(4) by (simp add: word_le_nat_alt)
  from hash_map_rep_transfer[OF m'(3,2) r(2) this] show thesis
    by (rule that[rotated]) (simp_all add: sxe_hash_give_def state k(7) m'(1) SXE_HASH_UNUSED_BUCKET_def pool_move_def Let_def)
qed

lemma hash_new_rep:
  assumes malloc: "\<And>size a. sxe_malloc size = Some a \<Longrightarrow> 0 < a" and tid: "env_tid env \<noteq> 0"
    and n: "n \<noteq> 0" "unat n * 96 + 300 < 2 ^ 32"
    and new: "sxe_hash_new env sxe_hash_sum m sxe_malloc name n = Some (m', array)"
  shows "hash_map_rep env array m' (free_queue (built 0 (unat n))) Map.empty"
proof -
  obtain base m1 where base: "0 < base" and m1: "sxe_pool_construct env m (base + 40) name n 24 (n + 2) 0 = (m1, array)"
    and m': "m' = m1\<lparr>hash_impl := (hash_impl m1)(base := \<lparr>hash_pool = array, hash_count = n, hash_size = 24, hash_key_offset = 0,
      hash_key_size = 20, hash_options = 0, hash_key = sxe_prehashed_key_hash\<rparr>)\<rparr>"
    using new
    by (cases "sxe_malloc (40 + ucast (sxe_pool_size n 24 (n + 2)))"; cases "sxe_pool_construct env m (the (sxe_malloc (40 + ucast (sxe_pool_size n 24 (n + 2)))) + 40) name n 24 (n + 2) 0")
      (auto simp: sxe_hash_new_def sxe_hash_new_plus_def sizeof_SXE_HASH_def sizeof_SXE_HASH_KEY_VALUE_PAIR_def sizeof_SXE_SHA1_def
      SXE_HASH_OPTION_UNLOCKED_def SXE_HASH_BUCKETS_RESERVED_def Let_def dest: malloc)
  have un: "unat (n + 2) = unat n + 2" using n(2) by (simp add: unat_word_ariths(1))
  then have k: "0 < n + 2" by (simp add: word_less_nat_alt)
  have sz: "144 + unat n * unat (24 :: u64) + unat (n + 2) * 40 < 2 ^ 64" using n(2) un by simp
  have "0 < base + 40" using base by simp
  note c = construct_rep[OF this k sz m1]
  have impl: "SXE_POOL_ARRAY_TO_IMPL array = base + 40" using c(2) by simp
  have hash: "hash_of m' array = \<lparr>hash_pool = array, hash_count = n, hash_size = 24, hash_key_offset = 0,
      hash_key_size = 20, hash_options = 0, hash_key = sxe_prehashed_key_hash\<rparr>"
    by (simp add: m' SXE_HASH_ARRAY_TO_IMPL_def sxe_pool_to_base_def impl sizeof_SXE_HASH_def)
  have pool: "number (pool_of m' array) = n" "states (pool_of m' array) = n + 2" "options (pool_of m' array) = 0"
    using c(4-6) by (simp_all add: m' impl)
  have array: "array \<noteq> NULL" using c(3) base by simp
  have "pool_rep m' (base + 40) (free_queue (built 0 (unat n)))"
    using c(1) pool_rep_cong[of m' m1] by (simp add: m')
  then have u: "unlocked_rep env array m' (free_queue (built 0 (unat n)))"
    using tid array by (simp add: unlocked_rep_def impl pool[unfolded impl])
  have ent: "hash_entries m' array (free_queue (built 0 (unat n))) = {}"
    by (auto simp: hash_entries_def free_queue_def)
  have "bucketed (states (pool_of m' array)) f (free_queue (built 0 (unat n)))" for f by (simp add: bucketed_entries ent)
  then have "hash_ok env array m' (free_queue (built 0 (unat n)))"
    unfolding hash_ok_def using n un u by (simp add: pool hash)
  then show ?thesis by (simp add: hash_map_rep_def ent entries_map_def hash_classic_def hash sizeof_SXE_HASH_KEY_VALUE_PAIR_def sizeof_SXE_SHA1_def)
qed

section \<open>A concrete table\<close>

lemma hash_demo_rep: "hash_map_rep env0 (snd hash_demo) (fst hash_demo) (free_queue [1, 0]) Map.empty"
proof -
  have "sxe_hash_new env0 (\<lambda>_. 0) hash_mem0 (\<lambda>_. Some 1000) ''demo'' 2 = Some hash_demo"
    by (simp add: hash_demo_def sxe_hash_new_def sxe_hash_new_plus_def Let_def split: prod.splits)
  then have "hash_map_rep env0 (snd hash_demo) (fst hash_demo) (free_queue (built 0 (unat (2 :: u32)))) Map.empty"
    by (intro hash_new_rep[where sxe_malloc = "\<lambda>_. Some 1000"]) (auto simp: env0_def)
  moreover have "[0..<2] = [0, 1 :: nat]" by (simp add: upt_rec)
  ultimately show ?thesis by (simp add: built_def)
qed

lemma sha1_demo_hex: "sha1_from_hex (sxe_hex_from_bytes sha1_demo) = Some (SXE_RETURN_OK, sha1_demo)"
  using hex_loop_decodes[of 0 sha1_demo "[]"]
  by (simp add: sha1_from_hex_def sxe_hex_to_bytes_def SHA1_IN_HEX_LENGTH_def sha1_demo_def)

text \<open>
  C16: looking up a key in a well-formed hash table without a lock ends, changes nothing, and returns the index of an added element
  with that key, or \<open>SXE_HASH_KEY_NOT_FOUND\<close> exactly if no added element has it. (In a table with a lock a step of the walker may
  return \<open>SXE_POOL_LOCK_NOT_TAKEN\<close>, which the code takes for an index; such tables are left out by \<open>hash_ok\<close>.)
\<close>

theorem sxe_hash_look_correct:
  assumes "hash_ok env array m Q"
  shows "\<exists>i. sxe_hash_look env m array key = Some (m, i) \<and>
    (if i = SXE_HASH_KEY_NOT_FOUND then \<forall>j. j \<in> hash_entries m array Q \<longrightarrow> elem_key m array j \<noteq> key
     else i \<in> hash_entries m array Q \<and> elem_key m array i = key)"
  by (rule hash_look_cases[OF assms, of key]) auto

theorem sxe_hash_look_correct_witness:
  "\<exists>m j i. sxe_hash_set env0 (fst hash_demo) (snd hash_demo) (sxe_hex_from_bytes sha1_demo) SXE_HASH_SHA1_AS_HEX_LENGTH 7 = Some (m, j) \<and>
    sxe_hash_look env0 m (snd hash_demo) sha1_demo = Some (m, i) \<and> i \<noteq> SXE_HASH_KEY_NOT_FOUND \<and> elem_key m (snd hash_demo) i = sha1_demo \<and>
    sxe_hash_look env0 m (snd hash_demo) (replicate 20 0) = Some (m, SXE_HASH_KEY_NOT_FOUND)"
proof (rule hash_map_set[OF hash_demo_rep sha1_demo_hex refl, of 7])
  fix m j Q assume set: "sxe_hash_set env0 (fst hash_demo) (snd hash_demo) (sxe_hex_from_bytes sha1_demo) SXE_HASH_SHA1_AS_HEX_LENGTH 7 = Some (m, j)"
    and rep: "hash_map_rep env0 (snd hash_demo) m Q [sha1_demo \<mapsto> 7]"
  note r = hash_map_repD[OF rep]
  obtain k where k: "k \<in> hash_entries m (snd hash_demo) Q" "elem_key m (snd hash_demo) k = sha1_demo"
    using r(4)[of sha1_demo 7] by auto
  obtain i where "sxe_hash_look env0 m (snd hash_demo) sha1_demo = Some (m, i)" "i \<noteq> SXE_HASH_KEY_NOT_FOUND" "elem_key m (snd hash_demo) i = sha1_demo"
    using sxe_hash_look_correct[OF r(1), of sha1_demo] k by (auto split: if_splits)
  moreover have "elem_key m (snd hash_demo) l \<noteq> replicate 20 0" if "l \<in> hash_entries m (snd hash_demo) Q" for l
  proof -
    have "[sha1_demo \<mapsto> 7] (elem_key m (snd hash_demo) l) = Some (pair_value m (snd hash_demo) l)" using r(4) that by blast
    then have "elem_key m (snd hash_demo) l = sha1_demo" by (auto split: if_splits)
    moreover have "sha1_demo \<noteq> replicate 20 0" by (simp add: sha1_demo_def eval_nat_numeral)
    ultimately show ?thesis by simp
  qed
  then have "sxe_hash_look env0 m (snd hash_demo) (replicate 20 0) = Some (m, SXE_HASH_KEY_NOT_FOUND)"
    using sxe_hash_look_correct[OF r(1), of "replicate 20 0"] by (auto split: if_splits)
  ultimately show ?thesis using set by blast
qed (simp add: free_queue_def)

text \<open>
  C17: setting a key that is not in a classic table implements the update of the map the table represents and uses
  one free element, or reports \<open>SXE_HASH_FULL\<close> and keeps the map exactly if there is no free element.
\<close>

theorem sxe_hash_set_ok:
  assumes "hash_map_rep env array m Q F" and "sha1_from_hex hex = Some (SXE_RETURN_OK, key)" and "F key = None"
  shows "\<exists>m' i Q'. sxe_hash_set env m array hex SXE_HASH_SHA1_AS_HEX_LENGTH v = Some (m', i) \<and>
    (i = SXE_HASH_FULL \<longleftrightarrow> Q 0 = []) \<and> length (Q' 0) = length (Q 0) - 1 \<and>
    hash_map_rep env array m' Q' (if Q 0 = [] then F else F(key \<mapsto> v))"
proof (rule hash_map_set[OF assms, of v])
  fix m' assume "Q 0 = []" "sxe_hash_set env m array hex SXE_HASH_SHA1_AS_HEX_LENGTH v = Some (m', SXE_HASH_FULL)"
    "hash_map_rep env array m' Q F"
  then show ?thesis by (intro exI[of _ m'] exI[of _ SXE_HASH_FULL] exI[of _ Q]) simp
next
  fix m' i Q' assume "Q 0 \<noteq> []" "sxe_hash_set env m array hex SXE_HASH_SHA1_AS_HEX_LENGTH v = Some (m', i)" "i \<noteq> SXE_HASH_FULL"
    "hash_map_rep env array m' Q' (F(key \<mapsto> v))" "length (Q' 0) + 1 = length (Q 0)"
  then show ?thesis by (intro exI[of _ m'] exI[of _ i] exI[of _ Q']) simp
qed

theorem sxe_hash_set_ok_witness:
  "\<exists>m' i Q'. sxe_hash_set env0 (fst hash_demo) (snd hash_demo) (sxe_hex_from_bytes sha1_demo) SXE_HASH_SHA1_AS_HEX_LENGTH 7 = Some (m', i) \<and>
    i \<noteq> SXE_HASH_FULL \<and> length (Q' 0) = 1 \<and> hash_map_rep env0 (snd hash_demo) m' Q' [sha1_demo \<mapsto> 7]"
  using sxe_hash_set_ok[OF hash_demo_rep sha1_demo_hex refl, of 7] by (simp add: free_queue_def)

text \<open>
  C18: on a classic table that represents the map \<open>F\<close>, \<open>sxe_hash_get\<close> returns the value of
  the key and changes nothing; \<open>sxe_hash_remove\<close> returns it and implements the deletion of the key from the map.
  Both return \<open>SXE_HASH_KEY_NOT_FOUND\<close> for a key that is not in the map.
\<close>

theorem sxe_hash_get_remove_ok:
  assumes "hash_map_rep env array m Q F" and "sha1_from_hex hex = Some (SXE_RETURN_OK, key)"
  shows "sxe_hash_get env m array hex SXE_HASH_SHA1_AS_HEX_LENGTH =
      Some (m, case F key of None \<Rightarrow> SXE_HASH_KEY_NOT_FOUND | Some v \<Rightarrow> v) \<and>
    (\<exists>m' Q'. sxe_hash_remove env m array hex SXE_HASH_SHA1_AS_HEX_LENGTH =
      Some (m', case F key of None \<Rightarrow> SXE_HASH_KEY_NOT_FOUND | Some v \<Rightarrow> v) \<and>
      hash_map_rep env array m' Q' (F(key := None)))"
proof (rule hash_map_look[OF assms(1), of key])
  fix i assume i: "sxe_hash_look env m array key = Some (m, i)" "i \<in> hash_entries m array Q" "elem_key m array i = key"
    "i \<noteq> SXE_HASH_KEY_NOT_FOUND" "F key = Some (pair_value m array i)"
  obtain m' Q' where "sxe_hash_give env m array i = Some m'" "hash_map_rep env array m' Q' (F(elem_key m array i := None))"
    by (rule hash_map_give[OF assms(1) i(2)])
  then show ?thesis using i assms(2) by (auto simp: sxe_hash_get_def sxe_hash_remove_def Let_def)
next
  assume "sxe_hash_look env m array key = Some (m, SXE_HASH_KEY_NOT_FOUND)" "F key = None"
  moreover from this have "F(key := None) = F" by auto
  ultimately show ?thesis using assms by (auto simp: sxe_hash_get_def sxe_hash_remove_def)
qed

theorem sxe_hash_get_remove_ok_witness:
  "\<exists>m i. sxe_hash_set env0 (fst hash_demo) (snd hash_demo) (sxe_hex_from_bytes sha1_demo) SXE_HASH_SHA1_AS_HEX_LENGTH 7 = Some (m, i) \<and>
    sxe_hash_get env0 m (snd hash_demo) (sxe_hex_from_bytes sha1_demo) SXE_HASH_SHA1_AS_HEX_LENGTH = Some (m, 7)"
proof (rule hash_map_set[OF hash_demo_rep sha1_demo_hex refl, of 7])
  fix m i Q' assume set: "sxe_hash_set env0 (fst hash_demo) (snd hash_demo) (sxe_hex_from_bytes sha1_demo) SXE_HASH_SHA1_AS_HEX_LENGTH 7 = Some (m, i)"
    "hash_map_rep env0 (snd hash_demo) m Q' [sha1_demo \<mapsto> 7]"
  have "sxe_hash_get env0 m (snd hash_demo) (sxe_hex_from_bytes sha1_demo) SXE_HASH_SHA1_AS_HEX_LENGTH = Some (m, 7)"
    using sxe_hash_get_remove_ok[OF set(2) sha1_demo_hex] by simp
  with set(1) show ?thesis by blast
qed (simp add: free_queue_def)

end
