(* ===== verification/SxeDict.thy ===== *)
theory SxeDict
  imports SxePrelude "HOL-Library.Multiset"
begin

text \<open>
  \<^verbatim>\<open>lib-sxe-dict\<close>: a chained hash table of keys of any length that grows as it fills up. A chain of
  nodes linked by \<open>next\<close> is a list; a node keeps its address, which is what \<open>sxe_dict_add\<close> gives
  its caller a pointer into. Memory allocation is a parameter, a null pointer dereference or a
  division by zero is \<^const>\<open>None\<close>.
\<close>

unbundle bit_operations_syntax

section \<open>Data\<close>

record sxe_dict_node =
  node_addr :: addr
  node_key :: "u8 list"
  node_len :: u64
  node_value :: addr

record sxe_dict =
  dict_table :: "sxe_dict_node list list option"
  dict_size :: u32
  dict_count :: u32
  dict_load :: u32
  dict_growth :: u32

type_synonym malloc = "u64 \<Rightarrow> addr option"

definition sizeof_sxe_dict_node :: u64 where "sizeof_sxe_dict_node = 32"
definition sizeof_sxe_dict :: u64 where "sizeof_sxe_dict = 24"
definition sizeof_pointer :: u64 where "sizeof_pointer = 8"

section \<open>The hash function\<close>

function meiyan_blocks :: "u32 \<Rightarrow> u8 list \<Rightarrow> u32 \<times> u8 list" where
  "meiyan_blocks h key =
    (if 8 \<le> length key then
       meiyan_blocks ((h XOR ((push_bit 5 (le32 key) OR drop_bit 27 (le32 key)) XOR le32 (drop 4 key))) * 0xad3e7) (drop 8 key)
     else (h, key))"
  by pat_completeness auto
termination by (relation "measure (\<lambda>(h, key). length key)") auto

declare meiyan_blocks.simps [simp del]

definition meiyan_tmp :: "u32 \<times> u8 list \<Rightarrow> u32 \<times> u8 list" where
  "meiyan_tmp s = (let (h, key) = s in ((h XOR le16 key) * 0xad3e7, drop 2 key))"

text \<open>The last byte is read through a \<open>char\<close>, which is signed: it is sign-extended.\<close>

definition meiyan :: "u8 list \<Rightarrow> u32" where
  "meiyan key0 =
    (let (h, key) = meiyan_blocks 0x811c9dc5 key0;
         count = length key;
         (h, key) = (if bit count 2 then meiyan_tmp (meiyan_tmp (h, key)) else (h, key));
         (h, key) = (if bit count 1 then meiyan_tmp (h, key) else (h, key));
         h = (if bit count 0 then (h XOR scast (key ! 0)) * 0xad3e7 else h)
     in h XOR drop_bit 16 h)"

section \<open>Operations\<close>

text \<open>The bytes of a key of a given size.\<close>

definition key_bytes :: "u8 list \<Rightarrow> u64 \<Rightarrow> u8 list" where
  "key_bytes key keyn = map (byte_at key) [0..<unat keyn]"

definition sxe_calloc :: "malloc \<Rightarrow> u64 \<Rightarrow> u64 \<Rightarrow> addr option" where
  "sxe_calloc sxe_malloc num size1 =
    (if 2 ^ 64 \<le> unat num * unat size1 then None else sxe_malloc (num * size1))"

text \<open>A zeroed table; the number of buckets is an \<open>int\<close> converted to a \<open>size_t\<close>.\<close>

definition new_table :: "malloc \<Rightarrow> u32 \<Rightarrow> sxe_dict_node list list option" where
  "new_table sxe_malloc n =
     map_option (\<lambda>_. replicate (unat n) []) (sxe_calloc sxe_malloc sizeof_pointer (scast n))"

definition sxe_dict_node_new :: "malloc \<Rightarrow> u8 list \<Rightarrow> u64 \<Rightarrow> sxe_dict_node option" where
  "sxe_dict_node_new sxe_malloc k l = do {
     node \<leftarrow> sxe_malloc sizeof_sxe_dict_node;
     if l \<noteq> 0 \<and> sxe_malloc l = None then None
     else Some \<lparr>node_addr = node, node_key = key_bytes k l, node_len = l, node_value = 0\<rparr>
   }"

text \<open>What deleting a dictionary frees, in order.\<close>

datatype dict_free = Free_key addr | Free_node addr | Free_table | Free_dict

fun sxe_dict_node_delete :: "sxe_dict_node list \<Rightarrow> dict_free list" where
  "sxe_dict_node_delete [] = []"
| "sxe_dict_node_delete (node # rest) =
     Free_key (node_addr node) # (if rest \<noteq> [] then sxe_dict_node_delete rest else []) @ [Free_node (node_addr node)]"

definition sxe_dict_new :: "malloc \<Rightarrow> u32 \<Rightarrow> sxe_dict option" where
  "sxe_dict_new sxe_malloc initial_size = do {
     dic \<leftarrow> sxe_malloc sizeof_sxe_dict;
     Some \<lparr>dict_table = (if initial_size \<noteq> 0 then new_table sxe_malloc initial_size else None), dict_size = initial_size,
       dict_count = 0, dict_load = 100, dict_growth = 2\<rparr>
   }"

definition sxe_dict_delete :: "sxe_dict \<Rightarrow> dict_free list option" where
  "sxe_dict_delete dic =
    (case dict_table dic of
       None \<Rightarrow> if dict_size dic = 0 then Some [Free_table, Free_dict] else None
     | Some table \<Rightarrow>
         Some (concat (map (\<lambda>chain. if chain \<noteq> [] then sxe_dict_node_delete chain else []) (take (unat (dict_size dic)) table))
           @ [Free_table, Free_dict]))"

text \<open>The bucket number is an \<open>int\<close>: from \<open>2 ^ 31\<close> on it would be negative.\<close>

definition sxe_dict_reinsert_when_resizing :: "sxe_dict \<Rightarrow> sxe_dict_node \<Rightarrow> sxe_dict option" where
  "sxe_dict_reinsert_when_resizing dic k2 = do {
     (if dict_size dic = 0 then None else Some ());
     let n = meiyan (node_key k2) mod dict_size dic;
     table \<leftarrow> dict_table dic;
     if sint n < 0 then None
     else if table ! unat n = [] then Some (dic\<lparr>dict_table := Some (table[unat n := [k2]])\<rparr>)
     else Some (dic\<lparr>dict_table := Some (table[unat n := k2 # table ! unat n])\<rparr>)
   }"

fun resize_chain :: "sxe_dict \<Rightarrow> sxe_dict_node list \<Rightarrow> sxe_dict option" where
  "resize_chain dic [] = Some dic"
| "resize_chain dic (k # next1) = do {
     dic \<leftarrow> sxe_dict_reinsert_when_resizing dic k;
     resize_chain dic next1
   }"

fun resize_buckets :: "sxe_dict \<Rightarrow> sxe_dict_node list list \<Rightarrow> sxe_dict option" where
  "resize_buckets dic [] = Some dic"
| "resize_buckets dic (chain # old) = do {
     dic \<leftarrow> resize_chain dic chain;
     resize_buckets dic old
   }"

definition sxe_dict_resize :: "malloc \<Rightarrow> sxe_dict \<Rightarrow> u32 \<Rightarrow> sxe_dict option" where
  "sxe_dict_resize sxe_malloc dic newsize =
    (let o1 = dict_size dic;
         old = dict_table dic;
         dic = dic\<lparr>dict_table := new_table sxe_malloc newsize, dict_size := newsize\<rparr>
     in case old of
          None \<Rightarrow> if 0 < sint o1 then None else Some dic
        | Some table \<Rightarrow> resize_buckets dic (take (nat (sint o1)) table))"

text \<open>The result is the address of the new node, in which the caller stores the value.\<close>

definition sxe_dict_add :: "malloc \<Rightarrow> sxe_dict \<Rightarrow> u8 list \<Rightarrow> u64 \<Rightarrow> (sxe_dict \<times> addr) option" where
  "sxe_dict_add sxe_malloc dic key keyn0 =
    (let keyn = (if keyn0 \<noteq> 0 then keyn0 else of_nat (strlen key));
         dic = (if dict_table dic = None then dic\<lparr>dict_table := new_table sxe_malloc 1, dict_size := 1\<rparr> else dic);
         hash = meiyan (key_bytes key keyn)
     in do {
       (if dict_size dic = 0 then None else Some ());
       table \<leftarrow> dict_table dic;
       dic \<leftarrow>
         (if table ! unat (hash mod dict_size dic) \<noteq> [] then
            (let load = dict_count dic * 100 div dict_size dic
             in if dict_load dic \<le> load then sxe_dict_resize sxe_malloc dic (dict_size dic * dict_growth dic) else Some dic)
          else Some dic);
       (if dict_size dic = 0 then None else Some ());
       let bucket = hash mod dict_size dic;
       table \<leftarrow> dict_table dic;
       node \<leftarrow> sxe_dict_node_new sxe_malloc key keyn;
       Some (dic\<lparr>dict_table := Some (table[unat bucket := table ! unat bucket @ [node]]), dict_count := dict_count dic + 1\<rparr>,
         node_addr node)
     })"

text \<open>The store of a value through the pointer that \<open>sxe_dict_add\<close> returned.\<close>

definition store_value :: "addr \<Rightarrow> addr \<Rightarrow> sxe_dict \<Rightarrow> sxe_dict" where
  "store_value a v dic =
     dic\<lparr>dict_table := map_option (map (map (\<lambda>n. if node_addr n = a then n\<lparr>node_value := v\<rparr> else n))) (dict_table dic)\<rparr>"

fun find_chain :: "sxe_dict_node list \<Rightarrow> u8 list \<Rightarrow> u64 \<Rightarrow> addr" where
  "find_chain [] key keyn = 0"
| "find_chain (k # rest) key keyn = (if node_len k = keyn \<and> node_key k = key then node_value k else find_chain rest key keyn)"

definition sxe_dict_find :: "sxe_dict \<Rightarrow> u8 list \<Rightarrow> u64 \<Rightarrow> addr option" where
  "sxe_dict_find dic key keyn =
    (case dict_table dic of
       None \<Rightarrow> Some 0
     | Some table \<Rightarrow>
         if dict_size dic = 0 then None
         else Some (find_chain (table ! unat (meiyan (key_bytes key keyn) mod dict_size dic)) (key_bytes key keyn) keyn))"

text \<open>The callback may change the value it is given and the state behind \<open>user\<close>.\<close>

type_synonym 'u sxe_dict_iter = "u8 list \<Rightarrow> u64 \<Rightarrow> addr \<Rightarrow> 'u \<Rightarrow> bool \<times> addr \<times> 'u"

fun forEach_chain :: "'u sxe_dict_iter \<Rightarrow> sxe_dict_node list \<Rightarrow> 'u \<Rightarrow> bool \<times> sxe_dict_node list \<times> 'u" where
  "forEach_chain f [] user = (True, [], user)"
| "forEach_chain f (k # rest) user =
    (let (more, v, user) = f (node_key k) (node_len k) (node_value k) user;
         k = k\<lparr>node_value := v\<rparr>
     in if more then (let (more, rest, user) = forEach_chain f rest user in (more, k # rest, user)) else (False, k # rest, user))"

text \<open>The loop over the buckets \<open>i < size\<close>; a bucket behind the table is an access out of bounds.\<close>

fun forEach_buckets :: "'u sxe_dict_iter \<Rightarrow> nat \<Rightarrow> sxe_dict_node list list \<Rightarrow> 'u \<Rightarrow> (sxe_dict_node list list \<times> 'u) option" where
  "forEach_buckets f 0 table user = Some (table, user)"
| "forEach_buckets f (Suc n) [] user = None"
| "forEach_buckets f (Suc n) (chain # table) user =
    (let (more, chain, user) = forEach_chain f chain user
     in if more then do { (table, user) \<leftarrow> forEach_buckets f n table user; Some (chain # table, user) } else Some (chain # table, user))"

definition sxe_dict_forEach :: "'u sxe_dict_iter \<Rightarrow> sxe_dict \<Rightarrow> 'u \<Rightarrow> (sxe_dict \<times> 'u) option" where
  "sxe_dict_forEach f dic user =
    (case dict_table dic of
       None \<Rightarrow> if dict_size dic = 0 then Some (dic, user) else None
     | Some table \<Rightarrow> do {
         (table, user) \<leftarrow> forEach_buckets f (unat (dict_size dic)) table user;
         Some (dic\<lparr>dict_table := Some table\<rparr>, user)
       })"

section \<open>Abstract view\<close>

definition dict_nodes :: "sxe_dict \<Rightarrow> sxe_dict_node list" where
  "dict_nodes dic = (case dict_table dic of None \<Rightarrow> [] | Some table \<Rightarrow> concat table)"

text \<open>Every node is in the bucket its key hashes to.\<close>

definition filed :: "u32 \<Rightarrow> sxe_dict_node list list \<Rightarrow> bool" where
  "filed k table \<longleftrightarrow> length table = unat k \<and> 0 < unat k \<and> unat k < 2 ^ 31 \<and>
     (\<forall>b < length table. \<forall>n \<in> set (table ! b). unat (meiyan (node_key n) mod k) = b)"

definition dict_ok :: "sxe_dict \<Rightarrow> bool" where
  "dict_ok dic \<longleftrightarrow>
     (case dict_table dic of None \<Rightarrow> dict_size dic = 0 | Some table \<Rightarrow> filed (dict_size dic) table) \<and>
     dict_count dic = of_nat (length (dict_nodes dic)) \<and>
     distinct (map node_addr (dict_nodes dic)) \<and> (\<forall>n \<in> set (dict_nodes dic). unat (node_len n) = length (node_key n))"

definition dict_map_rep :: "sxe_dict \<Rightarrow> (u8 list \<rightharpoonup> addr) \<Rightarrow> bool" where
  "dict_map_rep dic F \<longleftrightarrow> dict_ok dic \<and> entries_map (set (dict_nodes dic)) node_key node_value F"

definition dict_demo :: sxe_dict where
  "dict_demo = \<lparr>dict_table = Some [[\<lparr>node_addr = 96, node_key = lit ''key'', node_len = 3, node_value = 7\<rparr>]], dict_size = 1,
     dict_count = 1, dict_load = 100, dict_growth = 2\<rparr>"

section \<open>Tables\<close>

lemma mset_concat_update:
  "i < length t \<Longrightarrow> mset (concat (t[i := xs])) + mset (t ! i) = mset (concat t) + mset xs"
proof (induction t arbitrary: i)
  case (Cons c t)
  show ?case
  proof (cases i)
    case (Suc j)
    have "mset (concat (t[j := xs])) + mset (t ! j) = mset (concat t) + mset xs" by (rule Cons.IH) (use Cons.prems Suc in simp)
    then show ?thesis using Suc by (simp add: ac_simps)
  qed (simp add: ac_simps)
qed simp

lemma small_sint:
  assumes "unat (w :: u32) < 2 ^ 31"
  shows "sint w = int (unat w)"
proof -
  have "uint w < 2 ^ 31" using assms by (metis of_nat_less_iff of_nat_numeral of_nat_power uint_nat)
  then have "signed_take_bit 31 (uint w) = uint w" by (intro signed_take_bit_int_eq_self) (simp_all add: order_trans[OF _ uint_ge_0])
  then show ?thesis by (simp add: sint_uint)
qed

lemma scast_small:
  assumes "unat (w :: u32) < 2 ^ 31"
  shows "unat (scast w :: u64) = unat w"
proof -
  have "(scast w :: u64) = of_nat (unat w)"
    by (metis assms of_int_of_nat_eq of_int_sint small_sint)
  moreover have "unat w < 2 ^ LENGTH(64)" using assms by simp
  ultimately show ?thesis by (simp only: unat_of_nat_small)
qed

lemma filed_bucket:
  assumes "filed k table"
  shows "unat (w mod k) < length table" and "0 \<le> sint (w mod k)" and "k \<noteq> 0"
proof -
  have k: "length table = unat k" "0 < unat k" "unat k < 2 ^ 31" using assms by (auto simp: filed_def)
  then show "unat (w mod k) < length table" by (simp add: unat_mod)
  then have "unat (w mod k) < 2 ^ 31" using k by simp
  then show "0 \<le> sint (w mod k)" by (simp add: small_sint)
  show "k \<noteq> 0" using k by auto
qed

lemma filed_update:
  assumes "filed k table" and "set xs \<subseteq> insert n (set (table ! unat (meiyan (node_key n) mod k)))"
  shows "filed k (table[unat (meiyan (node_key n) mod k) := xs])"
  using assms filed_bucket(1)[OF assms(1)] by (auto simp: filed_def nth_list_update)

lemma reinsert_ok:
  assumes "dict_table d = Some t" and "filed (dict_size d) t"
  obtains t' where "sxe_dict_reinsert_when_resizing d k = Some (d\<lparr>dict_table := Some t'\<rparr>)"
    and "filed (dict_size d) t'" and "mset (concat t') = add_mset k (mset (concat t))"
proof -
  let ?n = "unat (meiyan (node_key k) mod dict_size d)"
  note b = filed_bucket(1,2)[OF assms(2), of "meiyan (node_key k)"] filed_bucket(3)[OF assms(2)]
  have "sxe_dict_reinsert_when_resizing d k = Some (d\<lparr>dict_table := Some (t[?n := k # t ! ?n])\<rparr>)"
    using assms(1) b by (simp add: sxe_dict_reinsert_when_resizing_def Let_def)
  moreover have "filed (dict_size d) (t[?n := k # t ! ?n])" by (rule filed_update[OF assms(2)]) auto
  moreover have "mset (concat (t[?n := k # t ! ?n])) = add_mset k (mset (concat t))"
    using mset_concat_update[OF b(1), of "k # t ! ?n"] by simp
  ultimately show thesis by (rule that)
qed

lemma resize_chain_ok:
  assumes "dict_table d = Some t" and "filed (dict_size d) t"
  shows "\<exists>t'. resize_chain d c = Some (d\<lparr>dict_table := Some t'\<rparr>) \<and> filed (dict_size d) t' \<and>
    mset (concat t') = mset c + mset (concat t)"
  using assms
proof (induction c arbitrary: d t)
  case Nil
  then show ?case by (intro exI[of _ t]) (cases d, simp)
next
  case (Cons k c)
  obtain t1 where t1: "sxe_dict_reinsert_when_resizing d k = Some (d\<lparr>dict_table := Some t1\<rparr>)"
    "filed (dict_size d) t1" "mset (concat t1) = add_mset k (mset (concat t))"
    by (rule reinsert_ok[OF Cons.prems])
  obtain t' where "resize_chain (d\<lparr>dict_table := Some t1\<rparr>) c = Some (d\<lparr>dict_table := Some t'\<rparr>)"
    "filed (dict_size d) t'" "mset (concat t') = mset c + mset (concat t1)"
    using Cons.IH[of "d\<lparr>dict_table := Some t1\<rparr>" t1] t1(2) by auto
  then show ?case using t1 by (intro exI[of _ t']) simp
qed

lemma resize_buckets_ok:
  assumes "dict_table d = Some t" and "filed (dict_size d) t"
  shows "\<exists>t'. resize_buckets d cs = Some (d\<lparr>dict_table := Some t'\<rparr>) \<and> filed (dict_size d) t' \<and>
    mset (concat t') = mset (concat cs) + mset (concat t)"
  using assms
proof (induction cs arbitrary: d t)
  case Nil
  then show ?case by (intro exI[of _ t]) (cases d, simp)
next
  case (Cons c cs)
  obtain t1 where t1: "resize_chain d c = Some (d\<lparr>dict_table := Some t1\<rparr>)"
    "filed (dict_size d) t1" "mset (concat t1) = mset c + mset (concat t)"
    using resize_chain_ok[OF Cons.prems, of c] by blast
  obtain t' where "resize_buckets (d\<lparr>dict_table := Some t1\<rparr>) cs = Some (d\<lparr>dict_table := Some t'\<rparr>)"
    "filed (dict_size d) t'" "mset (concat t') = mset (concat cs) + mset (concat t1)"
    using Cons.IH[of "d\<lparr>dict_table := Some t1\<rparr>" t1] t1(2) by auto
  then show ?case using t1 by (intro exI[of _ t']) (simp add: ac_simps)
qed

lemma new_table_ok:
  assumes "0 < unat n" and "unat n < 2 ^ 31" and "\<And>z. sxe_malloc z \<noteq> None"
  shows "new_table sxe_malloc n = Some (replicate (unat n) [])" and "filed n (replicate (unat n) [])"
proof -
  obtain a where "sxe_malloc (sizeof_pointer * scast n) = Some a" using assms(3) by auto
  moreover have "unat sizeof_pointer * unat (scast n :: u64) < 2 ^ 64" using assms(2) by (simp add: scast_small sizeof_pointer_def)
  ultimately show "new_table sxe_malloc n = Some (replicate (unat n) [])" by (simp add: new_table_def sxe_calloc_def)
  show "filed n (replicate (unat n) [])" using assms(1,2) by (simp add: filed_def)
qed

lemma resize_ok:
  assumes "dict_table d = Some t" and "filed (dict_size d) t" and "0 < unat n" and "unat n < 2 ^ 31" and "\<And>z. sxe_malloc z \<noteq> None"
  obtains t' where "sxe_dict_resize sxe_malloc d n = Some (d\<lparr>dict_table := Some t', dict_size := n\<rparr>)"
    and "filed n t'" and "mset (concat t') = mset (concat t)"
proof -
  have o1: "sint (dict_size d) = int (length t)" using assms(2) by (simp add: filed_def small_sint)
  note new = new_table_ok[OF assms(3,4), of sxe_malloc, OF assms(5)]
  obtain t' where "resize_buckets (d\<lparr>dict_table := Some (replicate (unat n) []), dict_size := n\<rparr>) t =
      Some (d\<lparr>dict_table := Some t', dict_size := n\<rparr>)" "filed n t'" "mset (concat t') = mset (concat t)"
    using resize_buckets_ok[of "d\<lparr>dict_table := Some (replicate (unat n) []), dict_size := n\<rparr>" "replicate (unat n) []" t] new(2)
    by (cases d) auto
  then show thesis by (intro that[of t']) (simp_all add: sxe_dict_resize_def assms(1) o1 new(1))
qed

section \<open>Dictionaries\<close>

lemma length_key_bytes [simp]: "length (key_bytes key n) = unat n"
  by (simp add: key_bytes_def)

lemma find_chain_ok:
  assumes "\<forall>n \<in> set c. unat (node_len n) = length (node_key n)" and "length key = unat keyn"
  shows "find_chain c key keyn = (case filter (\<lambda>n. node_key n = key) c of [] \<Rightarrow> 0 | n # _ \<Rightarrow> node_value n)"
  using assms by (induction c) (auto simp: word_unat_eq_iff)

lemma dict_okD:
  assumes "dict_ok d"
  shows "dict_table d = Some t \<Longrightarrow> filed (dict_size d) t" and "dict_table d = None \<Longrightarrow> dict_size d = 0"
    and "dict_count d = of_nat (length (dict_nodes d))" and "distinct (map node_addr (dict_nodes d))"
    and "n \<in> set (dict_nodes d) \<Longrightarrow> unat (node_len n) = length (node_key n)"
  using assms by (auto simp: dict_ok_def)

lemma in_bucket:
  assumes "filed k t" and "n \<in> set (concat t)"
  shows "n \<in> set (t ! unat (meiyan (node_key n) mod k))"
proof -
  obtain c where c: "c \<in> set t" "n \<in> set c" using assms(2) by auto
  then obtain b where "b < length t" "t ! b = c" by (auto simp: in_set_conv_nth)
  then show ?thesis using assms(1) c(2) by (auto simp: filed_def)
qed

lemma dict_find_ok:
  assumes "dict_map_rep d F"
  shows "sxe_dict_find d key keyn = Some (case F (key_bytes key keyn) of None \<Rightarrow> 0 | Some v \<Rightarrow> v)"
proof -
  have ok: "dict_ok d" and em: "entries_map (set (dict_nodes d)) node_key node_value F"
    using assms by (simp_all add: dict_map_rep_def)
  let ?k = "key_bytes key keyn"
  show ?thesis
  proof (cases "dict_table d")
    case None
    then have "F ?k = None" by (intro entries_map_lookup(2)[OF em]) (simp add: dict_nodes_def)
    then show ?thesis using None by (simp add: sxe_dict_find_def)
  next
    case (Some t)
    note f = dict_okD(1)[OF ok Some] and nodes = dict_nodes_def[of d, unfolded Some, simplified]
    let ?c = "t ! unat (meiyan ?k mod dict_size d)"
    have c: "set ?c \<subseteq> set (dict_nodes d)" using nth_mem[OF filed_bucket(1)[OF f, of "meiyan ?k"]] by (auto simp: nodes)
    then have find: "find_chain ?c ?k keyn = (case filter (\<lambda>n. node_key n = ?k) ?c of [] \<Rightarrow> 0 | n # _ \<Rightarrow> node_value n)"
      using dict_okD(5)[OF ok] by (intro find_chain_ok) auto
    have "find_chain ?c ?k keyn = (case F ?k of None \<Rightarrow> 0 | Some v \<Rightarrow> v)"
    proof (cases "filter (\<lambda>n. node_key n = ?k) ?c")
      case Nil
      have "node_key n \<noteq> ?k" if "n \<in> set (dict_nodes d)" for n
        using in_bucket[OF f, of n] that Nil by (auto simp: nodes filter_empty_conv)
      then have "F ?k = None" by (rule entries_map_lookup(2)[OF em])
      then show ?thesis by (simp add: find Nil)
    next
      case (Cons n rest)
      then have "n \<in> set ?c" "node_key n = ?k" using Cons_eq_filterD[OF Cons[symmetric]] by auto
      then have "F ?k = Some (node_value n)" using entries_map_lookup(1)[OF em, of n] c by auto
      then show ?thesis by (simp add: find Cons)
    qed
    then show ?thesis using Some filed_bucket(3)[OF f] by (simp add: sxe_dict_find_def)
  qed
qed

text \<open>The table in which \<open>sxe_dict_add\<close> puts the new node: created on the first use, or resized when it is full.\<close>

lemma add_prepared:
  assumes ok: "dict_ok d" and mem: "\<And>z. sxe_malloc z \<noteq> None" and grow: "0 < unat (dict_growth d)"
    "unat (dict_size d) * unat (dict_growth d) < 2 ^ 31"
  obtains d' t where "dict_table d' = Some t" and "filed (dict_size d') t" and "mset (concat t) = mset (dict_nodes d)"
    and "dict_count d' = dict_count d" and "dict_growth d' = dict_growth d" and "dict_load d' = dict_load d"
    and "sxe_dict_add sxe_malloc d key keyn0 =
      (let keyn = if keyn0 \<noteq> 0 then keyn0 else of_nat (strlen key); bucket = unat (meiyan (key_bytes key keyn) mod dict_size d')
       in do {
         node \<leftarrow> sxe_dict_node_new sxe_malloc key keyn;
         Some (d'\<lparr>dict_table := Some (t[bucket := t ! bucket @ [node]]), dict_count := dict_count d' + 1\<rparr>, node_addr node)
       })"
proof (cases "dict_table d")
  case None
  note new = new_table_ok[of 1 sxe_malloc, OF _ _ mem, simplified]
  let ?d = "d\<lparr>dict_table := Some [[]], dict_size := 1\<rparr>"
  have "word mod 1 = (0 :: u32)" for word by (simp add: word_mod_def)
  then show ?thesis
    using None new by (intro that[of ?d "[[]]"]) (simp_all add: dict_nodes_def sxe_dict_add_def Let_def)
next
  case (Some t)
  note f = dict_okD(1)[OF ok Some] and nodes = dict_nodes_def[of d, unfolded Some, simplified]
  note k0 = filed_bucket(3)[OF f]
  let ?keyn = "if keyn0 \<noteq> 0 then keyn0 else of_nat (strlen key)"
  let ?h = "meiyan (key_bytes key ?keyn)"
  show ?thesis
  proof (cases "t ! unat (?h mod dict_size d) \<noteq> [] \<and> dict_load d \<le> dict_count d * 100 div dict_size d")
    case False
    then show ?thesis
      using that[OF Some f] Some k0 by (auto simp: nodes sxe_dict_add_def Let_def)
  next
    case True
    have n: "unat (dict_size d * dict_growth d) = unat (dict_size d) * unat (dict_growth d)"
      using grow(2) by (subst unat_mult_lem[THEN iffD1]) simp_all
    then have "0 < unat (dict_size d * dict_growth d)" "unat (dict_size d * dict_growth d) < 2 ^ 31"
      using f grow by (auto simp: filed_def)
    then obtain t' where t': "sxe_dict_resize sxe_malloc d (dict_size d * dict_growth d) =
        Some (d\<lparr>dict_table := Some t', dict_size := dict_size d * dict_growth d\<rparr>)"
      "filed (dict_size d * dict_growth d) t'" "mset (concat t') = mset (concat t)"
      by (rule resize_ok[OF Some f _ _ mem])
    then show ?thesis
      using that[of "d\<lparr>dict_table := Some t', dict_size := dict_size d * dict_growth d\<rparr>" t'] True Some k0 filed_bucket(3)[OF t'(2)]
      by (simp add: nodes sxe_dict_add_def Let_def)
  qed
qed

lemma dict_ok_mset:
  assumes "dict_table d' = Some t" and "filed (dict_size d') t" and "mset (concat t) = mset ns"
    and "dict_count d' = of_nat (length ns)" and "distinct (map node_addr ns)" and "\<forall>n \<in> set ns. unat (node_len n) = length (node_key n)"
  shows "dict_ok d'" and "set (dict_nodes d') = set ns"
proof -
  have nodes: "mset (dict_nodes d') = mset ns" using assms(1,3) by (simp add: dict_nodes_def)
  show "set (dict_nodes d') = set ns" using mset_eq_setD[OF nodes] .
  moreover have "distinct (map node_addr (dict_nodes d'))"
    using assms(5) mset_eq_imp_distinct_iff[of "map node_addr (dict_nodes d')" "map node_addr ns"] nodes by simp
  moreover have "length (dict_nodes d') = length ns" using nodes by (rule mset_eq_length)
  ultimately show "dict_ok d'" using assms(1,2,4,6) by (simp add: dict_ok_def)
qed

text \<open>Storing a value in the node at the end of the chain that was just extended.\<close>

lemma store_new:
  assumes "\<And>n. n \<in> set (concat t) \<Longrightarrow> node_addr n \<noteq> node_addr nd" and "b < length t"
  shows "map (map (\<lambda>n. if node_addr n = node_addr nd then n\<lparr>node_value := v\<rparr> else n)) (t[b := t ! b @ [nd]]) =
    t[b := t ! b @ [nd\<lparr>node_value := v\<rparr>]]"
proof (rule nth_equalityI)
  fix i assume "i < length (map (map (\<lambda>n. if node_addr n = node_addr nd then n\<lparr>node_value := v\<rparr> else n)) (t[b := t ! b @ [nd]]))"
  then have i: "i < length t" by simp
  have "node_addr n \<noteq> node_addr nd" if "n \<in> set (t ! i)" for n using assms(1) nth_mem[OF i] that by auto
  then have "map (\<lambda>n. if node_addr n = node_addr nd then n\<lparr>node_value := v\<rparr> else n) (t ! i) = t ! i"
    by (simp add: map_idI)
  then show "map (map (\<lambda>n. if node_addr n = node_addr nd then n\<lparr>node_value := v\<rparr> else n)) (t[b := t ! b @ [nd]]) ! i =
    t[b := t ! b @ [nd\<lparr>node_value := v\<rparr>]] ! i"
    using i assms(2) by (cases "i = b") (auto simp: nth_list_update)
qed simp

lemma dict_add_ok:
  assumes rep: "dict_map_rep d F" and key: "k = key_bytes key (if keyn \<noteq> 0 then keyn else of_nat (strlen key))" "F k = None"
    and mem: "\<And>z. sxe_malloc z \<noteq> None" "sxe_malloc sizeof_sxe_dict_node = Some a" "a \<notin> node_addr ` set (dict_nodes d)"
    and grow: "0 < unat (dict_growth d)" "unat (dict_size d) * unat (dict_growth d) < 2 ^ 31"
  obtains d' where "sxe_dict_add sxe_malloc d key keyn = Some (d', a)" and "dict_map_rep (store_value a v d') (F(k \<mapsto> v))"
proof -
  let ?n = "if keyn \<noteq> 0 then keyn else of_nat (strlen key)"
  have ok: "dict_ok d" and em: "entries_map (set (dict_nodes d)) node_key node_value F" using rep by (simp_all add: dict_map_rep_def)
  obtain d1 t where d1: "dict_table d1 = Some t" "filed (dict_size d1) t" "mset (concat t) = mset (dict_nodes d)"
    "dict_count d1 = dict_count d" and add: "sxe_dict_add sxe_malloc d key keyn =
      (let keyn = ?n; bucket = unat (meiyan (key_bytes key keyn) mod dict_size d1)
       in do {
         node \<leftarrow> sxe_dict_node_new sxe_malloc key keyn;
         Some (d1\<lparr>dict_table := Some (t[bucket := t ! bucket @ [node]]), dict_count := dict_count d1 + 1\<rparr>, node_addr node)
       })"
    by (rule add_prepared[where key = key and ?keyn0.0 = keyn, OF ok mem(1) grow])
  define nd where "nd = \<lparr>node_addr = a, node_key = k, node_len = ?n, node_value = 0\<rparr>"
  define b where "b = unat (meiyan k mod dict_size d1)"
  define d' where "d' = d1\<lparr>dict_table := Some (t[b := t ! b @ [nd]]), dict_count := dict_count d1 + 1\<rparr>"
  have "sxe_dict_node_new sxe_malloc key ?n = Some nd"
    using mem(1)[of ?n] mem(2) by (simp add: sxe_dict_node_new_def nd_def key(1))
  then have "sxe_dict_add sxe_malloc d key keyn = Some (d', a)"
    unfolding add Let_def by (simp add: d'_def b_def key(1)) (simp add: nd_def)
  moreover have "dict_map_rep (store_value a v d') (F(k \<mapsto> v))"
  proof -
    let ?nd = "nd\<lparr>node_value := v\<rparr>" and ?t = "t[b := t ! b @ [nd\<lparr>node_value := v\<rparr>]]"
    have b: "b < length t" using filed_bucket(1)[OF d1(2)] by (simp add: b_def)
    have set: "set (concat t) = set (dict_nodes d)" using d1(3) by (metis set_mset_mset)
    then have table: "dict_table (store_value a v d') = Some ?t"
      using store_new[OF _ b, of nd v] mem(3) by (force simp: store_value_def d'_def nd_def)
    have "filed (dict_size d1) (t[unat (meiyan (node_key ?nd) mod dict_size d1) := t ! b @ [?nd]])"
      by (rule filed_update[OF d1(2)]) (auto simp: b_def nd_def)
    then have f: "filed (dict_size (store_value a v d')) ?t" by (simp add: store_value_def d'_def nd_def b_def)
    have ms: "mset (concat ?t) = mset (?nd # dict_nodes d)" using mset_concat_update[OF b, of "t ! b @ [?nd]"] d1(3) by simp
    have c: "dict_count (store_value a v d') = of_nat (length (?nd # dict_nodes d))"
      using dict_okD(3)[OF ok] d1(4) by (simp add: store_value_def d'_def)
    have dist: "distinct (map node_addr (?nd # dict_nodes d))" using dict_okD(4)[OF ok] mem(3) by (auto simp: nd_def)
    have len: "\<forall>n \<in> set (?nd # dict_nodes d). unat (node_len n) = length (node_key n)"
      using dict_okD(5)[OF ok] by (auto simp: nd_def key(1))
    have "?nd \<notin> set (dict_nodes d)" using mem(3) by (auto simp: nd_def intro: rev_image_eqI)
    then have "entries_map (insert ?nd (set (dict_nodes d))) node_key node_value (F(k \<mapsto> v))"
      by (intro entries_map_insert[OF em _ key(2)]) (simp_all add: nd_def)
    with dict_ok_mset[OF table f ms c dist len] show ?thesis by (simp add: dict_map_rep_def)
  qed
  ultimately show thesis by (rule that)
qed

lemma forEach_chain_collect:
  "forEach_chain (\<lambda>key len value user. (True, value, user @ [(key, value)])) c user =
    (True, c, user @ map (\<lambda>n. (node_key n, node_value n)) c)"
  by (induction c arbitrary: user) auto

lemma forEach_buckets_collect:
  "forEach_buckets (\<lambda>key len value user. (True, value, user @ [(key, value)])) (length t) t user =
    Some (t, user @ map (\<lambda>n. (node_key n, node_value n)) (concat t))"
  by (induction t arbitrary: user) (auto simp: forEach_chain_collect)

lemma node_delete_mset:
  "mset (sxe_dict_node_delete c) = mset (map (\<lambda>n. Free_key (node_addr n)) c) + mset (map (\<lambda>n. Free_node (node_addr n)) c)"
  by (induction c) auto

section \<open>A concrete dictionary\<close>

lemma dict_demo_rep: "dict_map_rep dict_demo [lit ''key'' \<mapsto> 7]"
proof -
  have "w mod 1 = (0 :: u32)" for w by (simp add: word_mod_def)
  then show ?thesis
    by (simp add: dict_demo_def dict_map_rep_def dict_ok_def filed_def dict_nodes_def entries_map_def lit_def)
qed

text \<open>
  C19: adding a key that is not in a dictionary and storing a value through the returned pointer implements the
  update of the map the dictionary represents, whether the table is created, resized or has room; the dictionary
  stays well formed. Memory does not run out and the node is at a new address.
\<close>

theorem sxe_dict_add_refines:
  assumes "dict_map_rep dic F" and "k = key_bytes key (if keyn \<noteq> 0 then keyn else of_nat (strlen key))" and "F k = None"
    and "\<And>z. sxe_malloc z \<noteq> None" and "sxe_malloc sizeof_sxe_dict_node = Some a" and "a \<notin> node_addr ` set (dict_nodes dic)"
    and "0 < unat (dict_growth dic)" and "unat (dict_size dic) * unat (dict_growth dic) < 2 ^ 31"
  shows "\<exists>dic'. sxe_dict_add sxe_malloc dic key keyn = Some (dic', a) \<and> dict_map_rep (store_value a v dic') (F(k \<mapsto> v))"
  by (rule dict_add_ok[where sxe_malloc = sxe_malloc and v = v, OF assms]) blast

theorem sxe_dict_add_refines_witness:
  "\<exists>dic'. sxe_dict_add (\<lambda>_. Some 128) dict_demo (lit ''key2'') 4 = Some (dic', 128) \<and>
    dict_map_rep (store_value 128 9 dic') [lit ''key'' \<mapsto> 7, lit ''key2'' \<mapsto> 9]"
proof (rule sxe_dict_add_refines[where sxe_malloc = "\<lambda>_. Some 128", OF dict_demo_rep])
  show "lit ''key2'' = key_bytes (lit ''key2'') (if (4 :: u64) \<noteq> 0 then 4 else of_nat (strlen (lit ''key2'')))"
    by (simp add: key_bytes_def lit_def byte_at_def upt_rec)
  show "128 \<notin> node_addr ` set (dict_nodes dict_demo)" "0 < unat (dict_growth dict_demo)"
    "unat (dict_size dict_demo) * unat (dict_growth dict_demo) < 2 ^ 31"
    by (simp_all add: dict_demo_def dict_nodes_def)
qed (simp_all add: lit_def)

text \<open>
  C20: looking up the first \<open>keyn\<close> bytes of a key in a well-formed dictionary returns the value of that key, or \<open>NULL\<close> if the
  dictionary has no such key. For \<open>keyn = 0\<close> this is a lookup of the empty key, not, as the comment of the function says, of a string
  whose length is found with \<^verbatim>\<open>strlen\<close>.
\<close>

theorem sxe_dict_find_value:
  assumes "dict_map_rep dic F"
  shows "sxe_dict_find dic key keyn = Some (case F (key_bytes key keyn) of None \<Rightarrow> 0 | Some v \<Rightarrow> v)"
  by (rule dict_find_ok[OF assms])

theorem sxe_dict_find_value_witness:
  "sxe_dict_find dict_demo (lit ''keys'') 3 = Some 7 \<and> sxe_dict_find dict_demo (lit ''key'') 0 = Some 0"
proof -
  have "key_bytes (lit ''keys'') 3 = lit ''key''" "key_bytes (lit ''key'') 0 = []" by (simp_all add: key_bytes_def lit_def byte_at_def upt_rec)
  then show ?thesis using sxe_dict_find_value[OF dict_demo_rep, of "lit ''keys''" 3] sxe_dict_find_value[OF dict_demo_rep, of "lit ''key''" 0]
    by (simp add: lit_def)
qed

text \<open>
  C21: resizing a well-formed dictionary keeps exactly its nodes, keys and values and files every node under the bucket
  of its key in the new table.
\<close>

theorem sxe_dict_resize_preserves:
  assumes "dict_ok dic" and "dict_table dic \<noteq> None" and "0 < unat newsize" and "unat newsize < 2 ^ 31" and "\<And>z. sxe_malloc z \<noteq> None"
  shows "\<exists>dic'. sxe_dict_resize sxe_malloc dic newsize = Some dic' \<and> dict_ok dic' \<and> dict_size dic' = newsize \<and>
    mset (dict_nodes dic') = mset (dict_nodes dic)"
proof -
  obtain t where t: "dict_table dic = Some t" using assms(2) by blast
  obtain t' where t': "sxe_dict_resize sxe_malloc dic newsize = Some (dic\<lparr>dict_table := Some t', dict_size := newsize\<rparr>)"
    "filed newsize t'" "mset (concat t') = mset (concat t)"
    by (rule resize_ok[OF t dict_okD(1)[OF assms(1) t] assms(3,4,5)])
  let ?d = "dic\<lparr>dict_table := Some t', dict_size := newsize\<rparr>"
  have ms: "mset (concat t') = mset (dict_nodes dic)" using t t'(3) by (simp add: dict_nodes_def)
  have "dict_ok ?d"
    by (rule dict_ok_mset(1)[of ?d t' "dict_nodes dic"]) (use t'(2) ms dict_okD(3-5)[OF assms(1)] in auto)
  with t'(1) ms show ?thesis by (auto simp: dict_nodes_def)
qed

theorem sxe_dict_resize_preserves_witness:
  "\<exists>dic'. sxe_dict_resize (\<lambda>_. Some 512) dict_demo 5 = Some dic' \<and> dict_ok dic' \<and> dict_size dic' = 5 \<and>
    mset (dict_nodes dic') = mset (dict_nodes dict_demo)"
proof (rule sxe_dict_resize_preserves)
  show "dict_ok dict_demo" using dict_demo_rep by (simp add: dict_map_rep_def)
  show "dict_table dict_demo \<noteq> None" by (simp add: dict_demo_def)
qed simp_all

text \<open>
  C22: iterating over a well-formed dictionary with a callback that never stops visits every key with its value
  exactly once and leaves the dictionary alone; deleting it frees every node and every key exactly once.
\<close>

theorem sxe_dict_forEach_delete_once:
  assumes "dict_ok dic"
  shows "sxe_dict_forEach (\<lambda>key len value user. (True, value, user @ [(key, value)])) dic [] =
      Some (dic, map (\<lambda>n. (node_key n, node_value n)) (dict_nodes dic)) \<and>
    (\<exists>fs. sxe_dict_delete dic = Some fs \<and> distinct fs \<and>
      set fs = Free_key ` node_addr ` set (dict_nodes dic) \<union> Free_node ` node_addr ` set (dict_nodes dic) \<union> {Free_table, Free_dict})"
proof (cases "dict_table dic")
  case None
  then show ?thesis using dict_okD(2)[OF assms None] by (simp add: sxe_dict_forEach_def sxe_dict_delete_def dict_nodes_def)
next
  case (Some t)
  let ?ns = "dict_nodes dic"
  define fs where "fs = concat (map (\<lambda>c. if c \<noteq> [] then sxe_dict_node_delete c else []) t)"
  have del: "sxe_dict_delete dic = Some (fs @ [Free_table, Free_dict])"
    using Some dict_okD(1)[OF assms Some] by (simp add: sxe_dict_delete_def fs_def filed_def)
  have ms: "mset fs = mset (map (\<lambda>n. Free_key (node_addr n)) ?ns) + mset (map (\<lambda>n. Free_node (node_addr n)) ?ns)"
    unfolding fs_def dict_nodes_def Some by (induction t) (auto simp: node_delete_mset)
  then have "mset fs = mset (map Free_key (map node_addr ?ns) @ map Free_node (map node_addr ?ns))" by (simp add: comp_def)
  moreover have "distinct (map Free_key (map node_addr ?ns) @ map Free_node (map node_addr ?ns))"
    using dict_okD(4)[OF assms] distinct_map[of Free_key "map node_addr ?ns"] distinct_map[of Free_node "map node_addr ?ns"]
    by (auto simp: inj_on_def simp del: map_map)
  ultimately have "distinct fs" "set fs = set (map Free_key (map node_addr ?ns) @ map Free_node (map node_addr ?ns))"
    using mset_eq_imp_distinct_iff mset_eq_setD by blast+
  moreover have "length t = unat (dict_size dic)" using dict_okD(1)[OF assms Some] by (simp add: filed_def)
  then have "sxe_dict_forEach (\<lambda>key len value user. (True, value, user @ [(key, value)])) dic [] =
      Some (dic, map (\<lambda>n. (node_key n, node_value n)) ?ns)"
    using forEach_buckets_collect[of t "[]"] by (simp add: sxe_dict_forEach_def Some dict_nodes_def)
  ultimately show ?thesis using del by auto
qed

theorem sxe_dict_forEach_delete_once_witness:
  "sxe_dict_forEach (\<lambda>key len value user. (True, value, user @ [(key, value)])) dict_demo [] = Some (dict_demo, [(lit ''key'', 7)])"
proof -
  have "dict_ok dict_demo" using dict_demo_rep by (simp add: dict_map_rep_def)
  moreover have "map (\<lambda>n. (node_key n, node_value n)) (dict_nodes dict_demo) = [(lit ''key'', 7)]"
    by (simp add: dict_demo_def dict_nodes_def)
  ultimately show ?thesis using conjunct1[OF sxe_dict_forEach_delete_once, of dict_demo] by simp
qed

end
