(* ===== verification/SxeRingBuffer.thy ===== *)
theory SxeRingBuffer
  imports SxePrelude
begin

text \<open>
  \<^verbatim>\<open>lib-sxe-ring-buffer\<close>: a ring of bytes with one writer and any number of readers that may fall behind. The
  pointers into the array are modelled by their offset from \<open>SXE_RING_BUFFER_ARRAY_BASE\<close>; a copy out of the
  bounds of the array and a failed assertion are \<^const>\<open>None\<close>.
\<close>

section \<open>Data\<close>

record sxe_ring_buffer =
  ring_size :: u32
  ring_iteration :: u32
  ring_current :: int
  ring_writen_end :: int
  ring_array :: "u8 list"

record sxe_ring_buffer_context =
  itteration :: u32
  data_block :: int
  data_block_len :: u32
  writable_block :: int
  writable_block_len :: u32

definition SXE_RING_BUFFER_END :: "sxe_ring_buffer \<Rightarrow> int" where
  "SXE_RING_BUFFER_END r = uint (ring_size r) - 1"

definition SXE_RING_BUFFER_SIZE_OF_INTERNALS :: u64 where
  "SXE_RING_BUFFER_SIZE_OF_INTERNALS = 24"

section \<open>Operations\<close>

text \<open>\<open>memcpy\<close> of some bytes to an offset of the array.\<close>

definition ring_memcpy :: "int \<Rightarrow> u8 list \<Rightarrow> u8 list \<Rightarrow> u8 list option" where
  "ring_memcpy at bytes array =
    (if 0 \<le> at \<and> at + int (length bytes) \<le> int (length array)
     then Some (take (nat at) array @ bytes @ drop (nat at + length bytes) array) else None)"

text \<open>The array holds what the allocated memory happened to hold.\<close>

definition sxe_ring_buffer_new :: "(u64 \<Rightarrow> u8 list option) \<Rightarrow> u32 \<Rightarrow> sxe_ring_buffer option" where
  "sxe_ring_buffer_new sxe_malloc size1 = do {
     memory \<leftarrow> sxe_malloc (ucast size1 + SXE_RING_BUFFER_SIZE_OF_INTERNALS);
     Some \<lparr>ring_size = size1, ring_iteration = 0, ring_current = 0, ring_writen_end = 0,
       ring_array = drop (unat SXE_RING_BUFFER_SIZE_OF_INTERNALS) memory\<rparr>
   }"

definition sxe_ring_buffer_add :: "sxe_ring_buffer \<Rightarrow> u8 list \<Rightarrow> u32 \<Rightarrow> sxe_ring_buffer option" where
  "sxe_ring_buffer_add r buf len = do {
     SXEA1 (len \<le> ring_size r);
     let available_space = (of_int (SXE_RING_BUFFER_END r - ring_current r + 1) :: u32);
     if len \<le> available_space then do {
       array \<leftarrow> ring_memcpy (ring_current r) (take (unat len) buf) (ring_array r);
       let r = r\<lparr>ring_array := array, ring_current := ring_current r + uint len\<rparr>;
       Some (if ring_current r = SXE_RING_BUFFER_END r + 1
         then r\<lparr>ring_iteration := ring_iteration r + 1, ring_current := 0, ring_writen_end := SXE_RING_BUFFER_END r\<rparr>
         else if ring_writen_end r < ring_current r then r\<lparr>ring_writen_end := ring_current r - 1\<rparr> else r)
     }
     else do {
       array \<leftarrow> ring_memcpy (ring_current r) (take (unat available_space) buf) (ring_array r);
       let r = r\<lparr>ring_writen_end := SXE_RING_BUFFER_END r, ring_iteration := ring_iteration r + 1, ring_current := 0\<rparr>;
       array \<leftarrow> ring_memcpy 0 (take (unat (len - available_space)) (drop (unat available_space) buf)) array;
       Some (r\<lparr>ring_array := array, ring_current := ring_current r + uint (len - available_space)\<rparr>)
     }
   }"

definition sxe_ring_buffer_next_writable_block ::
  "sxe_ring_buffer \<Rightarrow> sxe_ring_buffer_context \<Rightarrow> sxe_ring_buffer_context option" where
  "sxe_ring_buffer_next_writable_block r ctx = do {
     let ctx = ctx\<lparr>writable_block := ring_current r,
       writable_block_len := of_int (SXE_RING_BUFFER_END r - ring_current r + 1)\<rparr>;
     SXEA1 (writable_block_len ctx \<noteq> 0);
     Some ctx
   }"

text \<open>What a writer does with the writable block: store bytes at its start.\<close>

definition store_block :: "sxe_ring_buffer \<Rightarrow> sxe_ring_buffer_context \<Rightarrow> u8 list \<Rightarrow> sxe_ring_buffer option" where
  "store_block r ctx bytes = do {
     array \<leftarrow> ring_memcpy (writable_block ctx) bytes (ring_array r);
     Some (r\<lparr>ring_array := array\<rparr>)
   }"

definition sxe_ring_buffer_wrote_block ::
  "sxe_ring_buffer \<Rightarrow> sxe_ring_buffer_context \<Rightarrow> u32 \<Rightarrow> sxe_ring_buffer option" where
  "sxe_ring_buffer_wrote_block r ctx len = do {
     SXEA1 (writable_block ctx = ring_current r);
     SXEA1 (len \<le> of_int (SXE_RING_BUFFER_END r - ring_current r + 1));
     let r = r\<lparr>ring_current := ring_current r + uint len\<rparr>;
     Some (if ring_current r = SXE_RING_BUFFER_END r + 1
       then r\<lparr>ring_iteration := ring_iteration r + 1, ring_current := 0, ring_writen_end := SXE_RING_BUFFER_END r\<rparr>
       else if ring_writen_end r < ring_current r then r\<lparr>ring_writen_end := ring_current r - 1\<rparr> else r)
   }"

definition sxe_ring_buffer_force_ring_wrap :: "sxe_ring_buffer \<Rightarrow> sxe_ring_buffer" where
  "sxe_ring_buffer_force_ring_wrap r =
     r\<lparr>ring_writen_end := ring_current r - 1, ring_current := 0, ring_iteration := ring_iteration r + 1\<rparr>"

definition sxe_ring_buffer_next_writable_block_size ::
  "sxe_ring_buffer \<Rightarrow> sxe_ring_buffer_context \<Rightarrow> u32 \<Rightarrow> (sxe_ring_buffer \<times> sxe_ring_buffer_context) option" where
  "sxe_ring_buffer_next_writable_block_size r ctx size1 = do {
     SXEA1 (size1 \<le> ring_size r);
     ctx \<leftarrow> sxe_ring_buffer_next_writable_block r ctx;
     if writable_block_len ctx < size1 then do {
       let r = sxe_ring_buffer_force_ring_wrap r;
       ctx \<leftarrow> sxe_ring_buffer_next_writable_block r ctx;
       Some (r, ctx)
     }
     else Some (r, ctx)
   }"

text \<open>Conversion of a pointer difference to \<open>int\<close>.\<close>

definition to_int :: "int \<Rightarrow> int" where
  "to_int d = sint (of_int d :: u32)"

definition sxe_ring_buffer_join :: "sxe_ring_buffer \<Rightarrow> sxe_ring_buffer_context \<Rightarrow> bool \<Rightarrow> sxe_ring_buffer_context" where
  "sxe_ring_buffer_join r ctx replay_half =
    (let ctx = ctx\<lparr>itteration := ring_iteration r, data_block := ring_current r, data_block_len := 0\<rparr>
     in if replay_half then
          if sint (ring_size r div 2) \<le> ring_current r
          then ctx\<lparr>data_block := ring_current r - uint (ring_size r div 2)\<rparr>
          else if ring_iteration r = 0 then ctx\<lparr>data_block := 0\<rparr>
          else ctx\<lparr>itteration := itteration ctx - 1,
            data_block := ring_current r + to_int ((ring_writen_end r + 1) div 2)\<rparr>
        else ctx)"

definition sxe_ring_buffer_check_over_run ::
  "sxe_ring_buffer \<Rightarrow> sxe_ring_buffer_context \<Rightarrow> SXE_RETURN \<times> sxe_ring_buffer_context" where
  "sxe_ring_buffer_check_over_run r ctx =
    (if itteration ctx + 1 < ring_iteration r \<or>
        itteration ctx < ring_iteration r \<and> data_block ctx < ring_current r
     then (SXE_RETURN_ERROR_INTERNAL,
       ctx\<lparr>data_block := ring_current r, itteration := ring_iteration r, data_block_len := 0\<rparr>)
     else (SXE_RETURN_OK, ctx))"

definition sxe_ring_buffer_next_block ::
  "sxe_ring_buffer \<Rightarrow> sxe_ring_buffer_context \<Rightarrow> SXE_RETURN \<times> sxe_ring_buffer_context" where
  "sxe_ring_buffer_next_block r ctx =
    (let (result, ctx) = sxe_ring_buffer_check_over_run r ctx
     in if result = SXE_RETURN_ERROR_INTERNAL then (result, ctx)
        else if data_block ctx < ring_current r
        then (result, ctx\<lparr>data_block_len := of_int (ring_current r - data_block ctx)\<rparr>)
        else if ring_current r \<le> data_block ctx \<and> ring_iteration r = itteration ctx + 1 \<and>
          ring_writen_end r = data_block ctx - 1
        then (result, ctx\<lparr>data_block := 0, itteration := itteration ctx + 1,
          data_block_len := of_int (ring_current r - 0)\<rparr>)
        else if itteration ctx < ring_iteration r
        then (result, ctx\<lparr>data_block_len := of_int (ring_writen_end r - data_block ctx + 1)\<rparr>)
        else (result, ctx))"

definition sxe_ring_buffer_consumed ::
  "sxe_ring_buffer \<Rightarrow> sxe_ring_buffer_context \<Rightarrow> u32 \<Rightarrow> (SXE_RETURN \<times> sxe_ring_buffer_context) option" where
  "sxe_ring_buffer_consumed r ctx len =
    (let (result, ctx) = sxe_ring_buffer_check_over_run r ctx
     in if result = SXE_RETURN_ERROR_INTERNAL then Some (result, ctx)
        else do {
          let ctx = ctx\<lparr>data_block := data_block ctx + uint len, data_block_len := data_block_len ctx - len\<rparr>;
          SXEA1 (data_block ctx \<le> ring_writen_end r + 1);
          if data_block ctx = ring_writen_end r + 1 \<and> data_block ctx \<noteq> ring_current r then do {
            SXEA1 (data_block_len ctx = 0);
            Some (result, ctx\<lparr>data_block := 0, itteration := itteration ctx + 1\<rparr>)
          }
          else Some (result, ctx)
        })"

section \<open>Abstract view\<close>

text \<open>
  \<open>ring_rep r S\<close>: the bytes \<open>S\<close> have been written to the ring since it was made, and it holds the last of them,
  the byte \<open>k\<close> of the stream at offset \<open>k mod size\<close>.
\<close>

definition ring_rep :: "sxe_ring_buffer \<Rightarrow> u8 list \<Rightarrow> bool" where
  "ring_rep r S \<longleftrightarrow>
    (let n = unat (ring_size r)
     in 0 < n \<and> n < 2 ^ 31 \<and> length (ring_array r) = n \<and>
        ring_current r = int (length S mod n) \<and> ring_iteration r = of_nat (length S div n) \<and>
        ring_writen_end r = (if n \<le> length S then int n - 1 else if S = [] then 0 else int (length S) - 1) \<and>
        (\<forall>k < length S. length S \<le> k + n \<longrightarrow> ring_array r ! (k mod n) = S ! k))"

text \<open>\<open>reader_at r ctx P\<close>: the reader has read the first \<open>P\<close> bytes of the stream.\<close>

definition reader_at :: "sxe_ring_buffer \<Rightarrow> sxe_ring_buffer_context \<Rightarrow> nat \<Rightarrow> bool" where
  "reader_at r ctx P \<longleftrightarrow>
     data_block ctx = int (P mod unat (ring_size r)) \<and> itteration ctx = of_nat (P div unat (ring_size r))"

text \<open>What writing into the room before the end of the array does to the positions.\<close>

definition ring_advance :: "sxe_ring_buffer \<Rightarrow> u32 \<Rightarrow> sxe_ring_buffer" where
  "ring_advance r len =
    (let r = r\<lparr>ring_current := ring_current r + uint len\<rparr>
     in if ring_current r = SXE_RING_BUFFER_END r + 1
        then r\<lparr>ring_iteration := ring_iteration r + 1, ring_current := 0, ring_writen_end := SXE_RING_BUFFER_END r\<rparr>
        else if ring_writen_end r < ring_current r then r\<lparr>ring_writen_end := ring_current r - 1\<rparr> else r)"

definition ring_demo :: sxe_ring_buffer where
  "ring_demo = \<lparr>ring_size = 4, ring_iteration = 1, ring_current = 1, ring_writen_end = 3, ring_array = [5, 2, 3, 4]\<rparr>"

definition context_demo :: sxe_ring_buffer_context where
  "context_demo = \<lparr>itteration = 0, data_block = 2, data_block_len = 0, writable_block = 0, writable_block_len = 0\<rparr>"

section \<open>Writing\<close>

lemma ring_memcpy_nth:
  assumes "ring_memcpy (int a) bytes array = Some array'"
  shows "length array' = length array"
    and "p < length array \<Longrightarrow> array' ! p = (if a \<le> p \<and> p < a + length bytes then bytes ! (p - a) else array ! p)"
proof -
  have a: "a + length bytes \<le> length array" and array': "array' = take a array @ bytes @ drop (a + length bytes) array"
    using assms by (auto simp: ring_memcpy_def split: if_splits)
  show "length array' = length array" using a by (simp add: array')
  show "p < length array \<Longrightarrow> array' ! p = (if a \<le> p \<and> p < a + length bytes then bytes ! (p - a) else array ! p)"
    using a by (auto simp: array' nth_append min_def)
qed

lemma ring_memcpy_Some: "a + length bytes \<le> length array \<Longrightarrow> \<exists>array'. ring_memcpy (int a) bytes array = Some array'"
  by (simp add: ring_memcpy_def)

lemma mod_apart:
  assumes "k < m" and "m < k + n"
  shows "k mod n \<noteq> m mod (n :: nat)"
proof
  assume "k mod n = m mod n"
  then have "n dvd m - k" using assms(1) by (metis less_imp_le mod_eq_dvd_iff_nat)
  then show False using assms dvd_imp_le[of n "m - k"] by simp
qed

text \<open>Writing the bytes of a buffer one after the other round the ring keeps the window on the stream.\<close>

lemma window_append:
  assumes "\<forall>k < length S. length S \<le> k + n \<longrightarrow> A ! (k mod n) = S ! k" and "length buf \<le> n" and "0 < n"
    and new: "\<And>j. j < length buf \<Longrightarrow> A' ! ((length S + j) mod n) = buf ! j"
    and old: "\<And>p. p < n \<Longrightarrow> (\<And>j. j < length buf \<Longrightarrow> p \<noteq> (length S + j) mod n) \<Longrightarrow> A' ! p = A ! p"
  shows "\<forall>k < length (S @ buf). length (S @ buf) \<le> k + n \<longrightarrow> A' ! (k mod n) = (S @ buf) ! k"
proof (intro allI impI)
  fix k assume k: "k < length (S @ buf)" "length (S @ buf) \<le> k + n"
  show "A' ! (k mod n) = (S @ buf) ! k"
  proof (cases "k < length S")
    case True
    have "k mod n \<noteq> (length S + j) mod n" if "j < length buf" for j by (rule mod_apart) (use True k(2) that in auto)
    then have "A' ! (k mod n) = A ! (k mod n)" using assms(3) by (intro old) auto
    then show ?thesis using assms(1) True k(2) by (auto simp: nth_append)
  next
    case False
    then show ?thesis using new[of "k - length S"] k(1) by (auto simp: nth_append)
  qed
qed

lemma div_mod_add:
  assumes "0 < (n :: nat)" and "j \<le> n"
  shows "(L + j) mod n = (if L mod n + j < n then L mod n + j else L mod n + j - n)"
    and "(L + j) div n = (if L mod n + j < n then L div n else L div n + 1)"
proof -
  have c: "L mod n < n" using assms(1) by simp
  have m: "(L + j) mod n = (L mod n + j) mod n" by (simp add: mod_add_left_eq)
  have "(L div n * n + (L mod n + j)) div n = L div n + (L mod n + j) div n" by (rule div_mult_self3) (use assms(1) in simp)
  then have d: "(L + j) div n = L div n + (L mod n + j) div n" by (simp only: add.assoc[symmetric] div_mult_mod_eq)
  have x: "x mod n = (if x < n then x else x - n)" "x div n = (if x < n then 0 else 1)" if "x < 2 * n" for x
    using that by (simp_all add: le_mod_geq le_div_geq)
  have "L mod n + j < 2 * n" using c assms(2) by simp
  from x[OF this] show "(L + j) mod n = (if L mod n + j < n then L mod n + j else L mod n + j - n)"
    "(L + j) div n = (if L mod n + j < n then L div n else L div n + 1)"
    by (simp_all only: m d split: if_split) simp_all
qed

lemma ring_repD:
  assumes "ring_rep r S" and "n = unat (ring_size r)"
  shows "0 < n" and "n < 2 ^ 31" and "length (ring_array r) = n" and "ring_current r = int (length S mod n)"
    and "ring_iteration r = of_nat (length S div n)"
    and "ring_writen_end r = (if n \<le> length S then int n - 1 else if S = [] then 0 else int (length S) - 1)"
    and "\<forall>k < length S. length S \<le> k + n \<longrightarrow> ring_array r ! (k mod n) = S ! k"
    and "uint (ring_size r) = int n" and "SXE_RING_BUFFER_END r = int n - 1"
    and "unat (of_int (SXE_RING_BUFFER_END r - ring_current r + 1) :: u32) = n - length S mod n"
proof -
  show rep: "0 < n" "n < 2 ^ 31" "length (ring_array r) = n" "ring_current r = int (length S mod n)"
    "ring_iteration r = of_nat (length S div n)"
    "ring_writen_end r = (if n \<le> length S then int n - 1 else if S = [] then 0 else int (length S) - 1)"
    "\<forall>k < length S. length S \<le> k + n \<longrightarrow> ring_array r ! (k mod n) = S ! k"
    using assms by (auto simp: ring_rep_def Let_def)
  show u: "uint (ring_size r) = int n" by (simp add: assms(2))
  then show "SXE_RING_BUFFER_END r = int n - 1" by (simp add: SXE_RING_BUFFER_END_def)
  have c: "length S mod n < n" using rep(1) by simp
  have "SXE_RING_BUFFER_END r - ring_current r + 1 = int (n - length S mod n)"
    using u rep(4) c by (simp add: SXE_RING_BUFFER_END_def of_nat_diff)
  moreover have "n - length S mod n < 2 ^ LENGTH(32)" using rep(2) by simp
  ultimately show "unat (of_int (SXE_RING_BUFFER_END r - ring_current r + 1) :: u32) = n - length S mod n"
    by (simp only: of_int_of_nat_eq unat_of_nat_small)
qed

lemma ring_repI:
  assumes "n = unat (ring_size r)" and "0 < n" and "n < 2 ^ 31" and "length (ring_array r) = n" and "ring_current r = int (length S mod n)"
    and "ring_iteration r = of_nat (length S div n)"
    and "ring_writen_end r = (if n \<le> length S then int n - 1 else if S = [] then 0 else int (length S) - 1)"
    and "\<forall>k < length S. length S \<le> k + n \<longrightarrow> ring_array r ! (k mod n) = S ! k"
  shows "ring_rep r S"
  unfolding ring_rep_def Let_def assms(1)[symmetric] by (intro conjI assms)

lemma ring_advance_rep:
  assumes rep: "ring_rep r S" and n: "n = unat (ring_size r)" and fits: "length S mod n + unat len \<le> n" and buf: "length buf = unat len"
    and A: "ring_memcpy (ring_current r) buf (ring_array r) = Some A"
  shows "ring_rep (ring_advance (r\<lparr>ring_array := A\<rparr>) len) (S @ buf)" and "ring_size (ring_advance (r\<lparr>ring_array := A\<rparr>) len) = ring_size r"
proof -
  note D = ring_repD[OF rep n]
  define c where "c = length S mod n"
  have c: "c < n" and cl: "c \<le> length S" using D(1) by (simp_all add: c_def)
  note fits = fits[folded c_def] and pos = div_mod_add[OF D(1), of _ "length S", folded c_def]
  note An = ring_memcpy_nth[OF A[unfolded D(4), folded c_def], unfolded D(3)]
  have win: "\<forall>k < length (S @ buf). length (S @ buf) \<le> k + n \<longrightarrow> A ! (k mod n) = (S @ buf) ! k"
  proof (rule window_append[OF D(7) _ D(1)])
    show "length buf \<le> n" using fits buf by simp
    fix j assume j: "j < length buf"
    then have "c + j < n" using fits buf by simp
    then show "A ! ((length S + j) mod n) = buf ! j" using An(2)[of "c + j"] j pos(1)[of j] by simp
  next
    fix p assume p: "p < n" "\<And>j. j < length buf \<Longrightarrow> p \<noteq> (length S + j) mod n"
    have "\<not> (c \<le> p \<and> p < c + length buf)"
    proof
      assume h: "c \<le> p \<and> p < c + length buf"
      then have eq: "(length S + (p - c)) mod n = p" using pos(1)[of "p - c"] p(1) by simp
      have "p - c < length buf" using h by linarith
      then show False by (rule notE[OF p(2) eq[symmetric]])
    qed
    then show "A ! p = ring_array r ! p" using An(2)[OF p(1)] by auto
  qed
  have ul: "int c + uint len = int n \<longleftrightarrow> c + unat len = n" by (metis of_nat_add of_nat_eq_iff uint_nat)
  have E: "SXE_RING_BUFFER_END (r\<lparr>ring_array := A, ring_current := x\<rparr>) = int n - 1" for x by (simp add: SXE_RING_BUFFER_END_def D(8))
  show "ring_size (ring_advance (r\<lparr>ring_array := A\<rparr>) len) = ring_size r" by (simp add: ring_advance_def Let_def)
  show "ring_rep (ring_advance (r\<lparr>ring_array := A\<rparr>) len) (S @ buf)"
  proof (cases "c + unat len = n")
    case True
    then have "ring_advance (r\<lparr>ring_array := A\<rparr>) len = r\<lparr>ring_array := A, ring_current := 0,
        ring_iteration := ring_iteration r + 1, ring_writen_end := int n - 1\<rparr>"
      using D(4) by (simp add: ring_advance_def Let_def E c_def[symmetric] ul)
    moreover have "n \<le> length (S @ buf)" using True buf cl by simp
    moreover have "(length S + unat len) mod n = 0" "(length S + unat len) div n = length S div n + 1"
      using pos[of "unat len"] True by simp_all
    ultimately show ?thesis
      using win An(1) D(5) buf by (intro ring_repI[OF _ D(1,2)]) (simp_all add: n)
  next
    case False
    then have lt: "c + unat len < n" using fits by simp
    then have adv: "ring_advance (r\<lparr>ring_array := A\<rparr>) len = r\<lparr>ring_array := A, ring_current := int (c + unat len),
        ring_writen_end := (if ring_writen_end r < int (c + unat len) then int (c + unat len) - 1 else ring_writen_end r)\<rparr>"
      using D(4) by (simp add: ring_advance_def Let_def E c_def[symmetric] ul)
    have we: "(if ring_writen_end r < int (c + unat len) then int (c + unat len) - 1 else ring_writen_end r) =
        (if n \<le> length (S @ buf) then int n - 1 else if S @ buf = [] then 0 else int (length (S @ buf)) - 1)"
    proof (cases "n \<le> length S")
      case True
      have "int c + uint len < int n" using lt by (metis of_nat_add of_nat_less_iff uint_nat)
      then show ?thesis using D(6) True by simp
    next
      case False
      then have "c = length S" by (simp add: c_def)
      then show ?thesis using D(6) lt False by (cases "S = []"; cases "buf = []") (simp_all add: buf[symmetric])
    qed
    have "(length S + unat len) mod n = c + unat len" "(length S + unat len) div n = length S div n"
      using pos[of "unat len"] lt by simp_all
    then show ?thesis
      unfolding adv we using win An(1) D(5) buf by (intro ring_repI[OF _ D(1,2)]) (simp_all add: n)
  qed
qed

lemma ring_add_fits:
  assumes rep: "ring_rep r S" and n: "n = unat (ring_size r)" and fits: "length S mod n + unat len \<le> n" and buf: "length buf = unat len"
  obtains r' where "sxe_ring_buffer_add r buf len = Some r'" and "ring_rep r' (S @ buf)" and "ring_size r' = ring_size r"
proof -
  note D = ring_repD[OF rep n]
  obtain A where A: "ring_memcpy (ring_current r) buf (ring_array r) = Some A"
    unfolding D(4) using ring_memcpy_Some[of "length S mod n" buf "ring_array r"] fits D(3) buf by auto
  have "len \<le> ring_size r" "len \<le> of_int (SXE_RING_BUFFER_END r - ring_current r + 1)"
    using fits D(10) n by (simp_all add: word_le_nat_alt)
  then have "sxe_ring_buffer_add r buf len = Some (ring_advance (r\<lparr>ring_array := A\<rparr>) len)"
    using A buf by (simp add: sxe_ring_buffer_add_def ring_advance_def Let_def)
  then show thesis using that ring_advance_rep[OF rep n fits buf A] by blast
qed

lemma ring_add_wraps:
  assumes rep: "ring_rep r S" and n: "n = unat (ring_size r)" and wraps: "n < length S mod n + unat len" "unat len \<le> n"
    and buf: "length buf = unat len"
  obtains r' where "sxe_ring_buffer_add r buf len = Some r'" and "ring_rep r' (S @ buf)" and "ring_size r' = ring_size r"
proof -
  note D = ring_repD[OF rep n]
  define c where "c = length S mod n"
  have c: "c < n" and cl: "c \<le> length S" using D(1) by (simp_all add: c_def)
  note w = wraps(1)[folded c_def] and pos = div_mod_add[OF D(1), of _ "length S", folded c_def]
  define a where "a = (of_int (SXE_RING_BUFFER_END r - ring_current r + 1) :: u32)"
  have a: "unat a = n - c" using D(10) by (simp add: a_def c_def)
  have al: "unat (len - a) = unat len - (n - c)" "\<not> len \<le> a"
    using w c a by (simp_all add: unat_sub_if' word_le_nat_alt)
  obtain A where A: "ring_memcpy (int c) (take (n - c) buf) (ring_array r) = Some A"
    using ring_memcpy_Some[of c "take (n - c) buf" "ring_array r"] D(3) c w buf by auto
  note A1 = ring_memcpy_nth[OF A, unfolded D(3)]
  obtain A' where A': "ring_memcpy 0 (drop (n - c) buf) A = Some A'"
    using ring_memcpy_Some[of 0 "drop (n - c) buf" A] A1(1) c wraps(2) buf by fastforce
  note A2 = ring_memcpy_nth[of 0, simplified, OF A', unfolded A1(1)]
  have nth: "A' ! p = (if p < c + unat len - n then buf ! (n - c + p) else if c \<le> p then buf ! (p - c) else ring_array r ! p)"
    if "p < n" for p
    using A1(2)[OF that] A2(2)[OF that] that w c wraps(2) buf by auto
  have "\<forall>k < length (S @ buf). length (S @ buf) \<le> k + n \<longrightarrow> A' ! (k mod n) = (S @ buf) ! k"
  proof (rule window_append[OF D(7) _ D(1)])
    show "length buf \<le> n" using wraps(2) buf by simp
    fix j assume j: "j < length buf"
    then show "A' ! ((length S + j) mod n) = buf ! j"
      using nth[of "(length S + j) mod n"] pos(1)[of j] D(1) c w wraps(2) buf by (auto split: if_splits)
  next
    fix p assume p: "p < n" "\<And>j. j < length buf \<Longrightarrow> p \<noteq> (length S + j) mod n"
    have "\<not> c \<le> p"
    proof
      assume h: "c \<le> p"
      then have eq: "(length S + (p - c)) mod n = p" using pos(1)[of "p - c"] p(1) by simp
      have "p - c < length buf" using h p(1) w buf by linarith
      then show False by (rule notE[OF p(2) eq[symmetric]])
    qed
    moreover have "\<not> p < c + unat len - n"
    proof
      assume h: "p < c + unat len - n"
      then have eq: "(length S + (n - c + p)) mod n = p" using pos(1)[of "n - c + p"] p(1) c wraps(2) by simp
      have "n - c + p < length buf" using h c buf by linarith
      then show False by (rule notE[OF p(2) eq[symmetric]])
    qed
    ultimately show "A' ! p = ring_array r ! p" using nth[OF p(1)] by simp
  qed
  moreover have "n \<le> length (S @ buf)" using w buf cl by simp
  moreover define r' where "r' = r\<lparr>ring_array := A', ring_current := int (c + unat len - n),
      ring_writen_end := int n - 1, ring_iteration := ring_iteration r + 1\<rparr>"
  moreover have "sxe_ring_buffer_add r buf len = Some r'"
  proof -
    have le: "len \<le> ring_size r" using wraps(2) n by (simp add: word_le_nat_alt)
    have "take (unat len - (n - c)) (drop (n - c) buf) = drop (n - c) buf" using buf by simp
    moreover have "uint (len - a) = int (c + unat len - n)" using al(1) w c by (metis Nat.add_diff_assoc2 Nat.diff_diff_right add.commute less_imp_le uint_nat)
    ultimately show ?thesis
      unfolding sxe_ring_buffer_add_def Let_def a_def[symmetric]
      using A A' al le a by (simp add: r'_def D(4) D(9) c_def[symmetric])
  qed
  moreover have "(length S + unat len) mod n = c + unat len - n" "(length S + unat len) div n = length S div n + 1"
    using pos[of "unat len"] w wraps(2) by simp_all
  ultimately show thesis
    using D(5) A1(1) A2(1) buf by (intro that[of r'] ring_repI[OF _ D(1,2)]) (simp_all add: n)
qed

section \<open>Reading\<close>

lemma behind:
  assumes "0 < (n :: nat)" and "P \<le> L"
  shows "(P div n + 1 < L div n \<or> P div n < L div n \<and> P mod n < L mod n) \<longleftrightarrow> n < L - P"
    and "L - P \<le> n \<Longrightarrow> L div n = P div n \<and> L - P = L mod n - P mod n \<and> P mod n \<le> L mod n \<or>
      L div n = P div n + 1 \<and> L - P = n - P mod n + L mod n \<and> L mod n \<le> P mod n"
proof -
  define q c p d where "q = L div n" and "c = L mod n" and "p = P div n" and "d = P mod n"
  have L: "L = q * n + c" "c < n" and P: "P = p * n + d" "d < n" using assms(1) by (simp_all add: q_def c_def p_def d_def)
  have "p \<le> q" using assms(2) by (simp add: p_def q_def div_le_mono)
  then consider "q = p" | "q = p + 1" | "p + 2 \<le> q" by linarith
  then have "((p + 1 < q \<or> p < q \<and> d < c) \<longleftrightarrow> n < L - P) \<and>
    (L - P \<le> n \<longrightarrow> q = p \<and> L - P = c - d \<and> d \<le> c \<or> q = p + 1 \<and> L - P = n - d + c \<and> c \<le> d)"
  proof cases
    case 1
    then show ?thesis using L P assms(2) by auto
  next
    case 2
    then have "L - P = n + c - d" using L P by simp
    then show ?thesis using 2 L(2) P(2) by auto
  next
    case 3
    then have "(p + 2) * n \<le> q * n" by (rule mult_le_mono1)
    then have "n < L - P" using L P by simp
    then show ?thesis using 3 by auto
  qed
  then show "(P div n + 1 < L div n \<or> P div n < L div n \<and> P mod n < L mod n) \<longleftrightarrow> n < L - P"
    "L - P \<le> n \<Longrightarrow> L div n = P div n \<and> L - P = L mod n - P mod n \<and> P mod n \<le> L mod n \<or>
      L div n = P div n + 1 \<and> L - P = n - P mod n + L mod n \<and> L mod n \<le> P mod n"
    by (simp_all add: q_def c_def p_def d_def)
qed

lemma check_over_run:
  assumes rep: "ring_rep r S" and n: "n = unat (ring_size r)" and at: "reader_at r ctx P" "P \<le> length S" and it: "length S div n + 1 < 2 ^ 32"
  shows "sxe_ring_buffer_check_over_run r ctx =
    (if n < length S - P
     then (SXE_RETURN_ERROR_INTERNAL, ctx\<lparr>data_block := ring_current r, itteration := ring_iteration r, data_block_len := 0\<rparr>)
     else (SXE_RETURN_OK, ctx))"
proof -
  note D = ring_repD[OF rep n]
  have "P div n + 1 < 2 ^ 32" using it div_le_mono[OF at(2), of n] by simp
  then have "unat (itteration ctx + 1) = P div n + 1" "unat (itteration ctx) = P div n"
    using at(1) by (simp_all add: reader_at_def n[symmetric] unat_of_nat_small unat_word_ariths(1))
  moreover have "unat (ring_iteration r) = length S div n" using it D(5) by (simp add: unat_of_nat_small)
  ultimately show ?thesis
    using behind(1)[OF D(1) at(2)] at(1) D(4) by (simp add: sxe_ring_buffer_check_over_run_def reader_at_def n[symmetric] word_less_nat_alt)
qed

lemma of_int_small: "0 \<le> x \<Longrightarrow> x < 2 ^ 32 \<Longrightarrow> unat (of_int x :: u32) = nat x"
  using unat_of_nat_small[where 'a = 32, of "nat x"] by (cases x rule: int_cases) simp_all

text \<open>The block a reader gets when it has not been overrun: it ends at the head of the ring or at the end of the array.\<close>

lemma next_block_len:
  assumes rep: "ring_rep r S" and n: "n = unat (ring_size r)" and at: "reader_at r ctx P" "P \<le> length S" "length S - P \<le> n"
    and it: "length S div n + 1 < 2 ^ 32" and len: "P = length S \<Longrightarrow> data_block_len ctx = 0"
  obtains m where "sxe_ring_buffer_next_block r ctx = (SXE_RETURN_OK, ctx\<lparr>data_block_len := m\<rparr>)"
    and "unat m = min (length S - P) (n - P mod n)"
proof -
  note D = ring_repD[OF rep n]
  have check: "sxe_ring_buffer_check_over_run r ctx = (SXE_RETURN_OK, ctx)"
    using check_over_run[OF rep n at(1,2) it] at(3) by simp
  have db: "data_block ctx = int (P mod n)" and ci: "itteration ctx = of_nat (P div n)" using at(1) by (simp_all add: reader_at_def n)
  have lt: "P mod n < n" "length S mod n < n" using D(1) by simp_all
  from behind(2)[OF D(1) at(2,3)] show thesis
  proof (elim disjE conjE)
    assume h: "length S div n = P div n" "length S - P = length S mod n - P mod n" "P mod n \<le> length S mod n"
    show thesis
    proof (cases "P mod n < length S mod n")
      case True
      have "unat (of_int (ring_current r - data_block ctx) :: u32) = length S mod n - P mod n"
        using of_int_small[of "int (length S mod n) - int (P mod n)"] True lt D(2) by (simp add: db D(4))
      then show thesis
        using True h lt by (intro that) (simp_all add: sxe_ring_buffer_next_block_def check db D(4))
    next
      case False
      then have "length S - P = 0" unfolding h(2) by simp
      then have P: "P = length S" using at(2) by simp
      have "ctx\<lparr>data_block_len := 0\<rparr> = ctx" using len[OF P] by (cases ctx) simp
      moreover have "\<not> itteration ctx < ring_iteration r" "ring_iteration r \<noteq> itteration ctx + 1"
        using h(1) by (simp_all add: ci D(5))
      ultimately show thesis
        using False P by (intro that[of 0]) (simp_all add: sxe_ring_buffer_next_block_def check db D(4))
    qed
  next
    assume h: "length S div n = P div n + 1" "length S - P = n - P mod n + length S mod n" "length S mod n \<le> P mod n"
    have "n \<le> length S" by (rule ccontr) (use h(1) in simp)
    then have we: "ring_writen_end r = int n - 1" using D(6) by simp
    have "itteration ctx < ring_iteration r"
      unfolding ci D(5) h(1) using h(1) it by (simp add: word_less_nat_alt unat_of_nat_small unat_word_ariths(1))
    moreover have "unat (of_int (ring_writen_end r - data_block ctx + 1) :: u32) = n - P mod n"
      using of_int_small[of "int n - int (P mod n)"] lt D(2) by (simp add: db we)
    moreover have "ring_writen_end r \<noteq> data_block ctx - 1" using lt(1) by (simp add: we db)
    moreover have "\<not> data_block ctx < ring_current r" using h(3) by (simp add: db D(4))
    ultimately show thesis
      using h(2) by (intro that) (simp_all add: sxe_ring_buffer_next_block_def check)
  qed
qed

lemma consumed_at:
  assumes rep: "ring_rep r S" and n: "n = unat (ring_size r)" and at: "reader_at r ctx P" "P \<le> length S" "length S - P \<le> n"
    and it: "length S div n + 1 < 2 ^ 32" and m: "unat (data_block_len ctx) = min (length S - P) (n - P mod n)"
    and k: "unat k \<le> unat (data_block_len ctx)"
  obtains ctx' where "sxe_ring_buffer_consumed r ctx k = Some (SXE_RETURN_OK, ctx')" and "reader_at r ctx' (P + unat k)"
    and "data_block_len ctx' = data_block_len ctx - k"
proof -
  note D = ring_repD[OF rep n]
  have check: "sxe_ring_buffer_check_over_run r ctx = (SXE_RETURN_OK, ctx)"
    using check_over_run[OF rep n at(1,2) it] at(3) by simp
  have db: "data_block ctx = int (P mod n)" and ci: "itteration ctx = of_nat (P div n)" using at(1) by (simp_all add: reader_at_def n)
  have lt: "P mod n < n" "length S mod n < n" using D(1) by simp_all
  have "unat k \<le> n - P mod n" using k m by simp
  then have kn: "unat k \<le> length S - P" "P mod n + unat k \<le> n" using k m lt(1) by (simp, linarith)
  note pos = div_mod_add[OF D(1), of "unat k" P]
  have dbk: "data_block ctx + uint k = int (P mod n + unat k)" by (simp add: db)
  show thesis
  proof (cases "P mod n + unat k = n")
    case True
    have "P mod n \<le> P" by simp
    then have "n \<le> length S" using True kn(1) at(2) by linarith
    then have we: "ring_writen_end r = int n - 1" using D(6) by simp
    have "unat (data_block_len ctx) \<le> n - P mod n" using m by simp
    then have "unat (data_block_len ctx) = unat k" using True k by linarith
    then have "data_block_len ctx = k" by (simp add: word_unat_eq_iff)
    moreover have "data_block ctx + uint k = int n" unfolding dbk True ..
    moreover have "reader_at r (ctx\<lparr>data_block := 0, data_block_len := 0, itteration := itteration ctx + 1\<rparr>) (P + unat k)"
      using pos True lt by (simp add: reader_at_def n[symmetric] ci)
    ultimately show thesis
      using lt(2) by (intro that[of "ctx\<lparr>data_block := 0, data_block_len := 0, itteration := itteration ctx + 1\<rparr>"])
        (simp_all add: sxe_ring_buffer_consumed_def check we D(4))
  next
    case False
    then have db': "P mod n + unat k < n" using kn(2) by simp
    have "data_block ctx + uint k \<le> ring_writen_end r + 1 \<and>
      (data_block ctx + uint k = ring_writen_end r + 1 \<longrightarrow> data_block ctx + uint k = ring_current r)"
    proof (cases "n \<le> length S")
      case True
      have "int (P mod n + unat k) < int n" using db' by (simp only: of_nat_less_iff)
      then show ?thesis unfolding dbk using D(6) True by simp
    next
      case False
      then have pm: "P mod n = P" "length S mod n = length S" using at(2) by simp_all
      have "int (P + unat k) \<le> int (length S)" using kn(1) at(2) by (simp only: of_nat_le_iff)
      then show ?thesis unfolding dbk pm using D(4,6) False by (cases "S = []") simp_all
    qed
    moreover have "reader_at r (ctx\<lparr>data_block := data_block ctx + uint k, data_block_len := data_block_len ctx - k\<rparr>) (P + unat k)"
      using pos db' unfolding reader_at_def n[symmetric] dbk by (simp add: ci)
    ultimately show thesis by (intro that) (auto simp: sxe_ring_buffer_consumed_def check Let_def)
  qed
qed

lemma block_data:
  assumes rep: "ring_rep r S" and n: "n = unat (ring_size r)" and P: "length S - P \<le> n" "P + m \<le> length S" "P mod n + m \<le> n"
  shows "take m (drop (P mod n) (ring_array r)) = take m (drop P S)"
proof (rule nth_equalityI)
  note D = ring_repD[OF rep n]
  show "length (take m (drop (P mod n) (ring_array r))) = length (take m (drop P S))" using P D(3) by simp
  fix j assume "j < length (take m (drop (P mod n) (ring_array r)))"
  then have j: "j < m" by simp
  then have "(P + j) mod n = P mod n + j" using div_mod_add(1)[OF D(1), of j P] P(3) by simp
  then have "ring_array r ! (P mod n + j) = S ! (P + j)" using D(7)[rule_format, of "P + j"] j P(1,2) by simp
  then show "take m (drop (P mod n) (ring_array r)) ! j = take m (drop P S) ! j" using j P(2,3) D(3) by simp
qed

section \<open>A concrete ring\<close>

lemma ring_demo_rep: "ring_rep ring_demo [1, 2, 3, 4, 5]"
proof -
  have "ring_array ring_demo ! (k mod 4) = [1, 2, 3, 4, 5] ! k" if "k < 5" "5 \<le> k + 4" for k
    using that by (cases "k = 1"; cases "k = 2"; cases "k = 3"; cases "k = 4") (simp_all add: ring_demo_def)
  then show ?thesis by (intro ring_repI[of 4]) (simp_all add: ring_demo_def)
qed

text \<open>
  After a forced wrap and more writes, \<open>sxe_ring_buffer_join\<close> with a replay can put a reader behind the last written byte; the
  length of its next block then wraps around.
\<close>

lemma join_replay_past_end:
  "data_block_len (snd (sxe_ring_buffer_next_block r (sxe_ring_buffer_join r context_demo True))) = - 2"
  if "r = \<lparr>ring_size = 10, ring_iteration = 1, ring_current = 4, ring_writen_end = 3, ring_array = replicate 10 0\<rparr>"
  unfolding that by (simp add: sxe_ring_buffer_join_def sxe_ring_buffer_next_block_def sxe_ring_buffer_check_over_run_def to_int_def context_demo_def)

text \<open>
  C23: adding at most \<open>size\<close> bytes to a ring copies them within the bounds of the array and never aborts, and the ring then holds
  the end of the stream that is the bytes written before followed by the new ones.
\<close>

theorem sxe_ring_buffer_add_refines:
  assumes "ring_rep r S" and "len \<le> ring_size r" and "length buf = unat len"
  shows "\<exists>r'. sxe_ring_buffer_add r buf len = Some r' \<and> ring_rep r' (S @ buf) \<and> ring_size r' = ring_size r"
proof -
  have len: "unat len \<le> unat (ring_size r)" using assms(2) by (simp add: word_le_nat_alt)
  show ?thesis
  proof (cases "length S mod unat (ring_size r) + unat len \<le> unat (ring_size r)")
    case True
    show ?thesis by (rule ring_add_fits[OF assms(1) refl True assms(3)]) blast
  next
    case False
    then have "unat (ring_size r) < length S mod unat (ring_size r) + unat len" by simp
    then show ?thesis by (rule ring_add_wraps[OF assms(1) refl _ len assms(3)]) blast
  qed
qed

theorem sxe_ring_buffer_add_refines_witness:
  "\<exists>r'. sxe_ring_buffer_add ring_demo [6, 7, 8, 9] 4 = Some r' \<and> ring_rep r' [1, 2, 3, 4, 5, 6, 7, 8, 9] \<and> ring_size r' = 4"
  using sxe_ring_buffer_add_refines[OF ring_demo_rep, of 4 "[6, 7, 8, 9]"] by (simp add: ring_demo_def)

text \<open>
  C24: a reader that has read \<open>P\<close> bytes of the stream and is at most one ring behind the writer gets a block that is not empty
  unless it has read everything, holds exactly the next bytes of the stream and lies within the array; consuming any part
  of the block moves the reader on by that part. A reader that is further behind gets an error and is moved to the head of the ring.
\<close>

theorem sxe_ring_buffer_read_refines:
  assumes "ring_rep r S" and "reader_at r ctx P" and "P \<le> length S" and "length S div unat (ring_size r) + 1 < 2 ^ 32"
    and "P = length S \<Longrightarrow> data_block_len ctx = 0"
  shows "\<exists>result ctx'. sxe_ring_buffer_next_block r ctx = (result, ctx') \<and>
    (if unat (ring_size r) < length S - P
     then result = SXE_RETURN_ERROR_INTERNAL \<and> reader_at r ctx' (length S) \<and> data_block_len ctx' = 0
     else result = SXE_RETURN_OK \<and> reader_at r ctx' P \<and>
       take (unat (data_block_len ctx')) (drop (nat (data_block ctx')) (ring_array r)) =
         take (unat (data_block_len ctx')) (drop P S) \<and>
       P + unat (data_block_len ctx') \<le> length S \<and> (P < length S \<longrightarrow> 0 < data_block_len ctx') \<and>
       (\<forall>k. k \<le> data_block_len ctx' \<longrightarrow> (\<exists>ctx''. sxe_ring_buffer_consumed r ctx' k = Some (SXE_RETURN_OK, ctx'') \<and>
         reader_at r ctx'' (P + unat k) \<and> data_block_len ctx'' = data_block_len ctx' - k)))"
proof (cases "unat (ring_size r) < length S - P")
  case True
  then show ?thesis
    using check_over_run[OF assms(1) refl assms(2,3,4)] ring_repD(4,5)[OF assms(1) refl]
    by (simp add: sxe_ring_buffer_next_block_def reader_at_def)
next
  case False
  define n where "n = unat (ring_size r)"
  have d: "length S - P \<le> n" using False by (simp add: n_def)
  note D = ring_repD[OF assms(1) n_def] and it = assms(4)[folded n_def]
  have lt: "P mod n < n" using D(1) by simp
  obtain m where m: "sxe_ring_buffer_next_block r ctx = (SXE_RETURN_OK, ctx\<lparr>data_block_len := m\<rparr>)"
    "unat m = min (length S - P) (n - P mod n)"
    by (rule next_block_len[OF assms(1) n_def assms(2,3) d it assms(5)])
  let ?c = "ctx\<lparr>data_block_len := m\<rparr>"
  have at: "reader_at r ?c P" "data_block ?c = int (P mod n)" using assms(2) by (simp_all add: reader_at_def n_def)
  have um: "unat m \<le> length S - P" "unat m \<le> n - P mod n" using m(2) by simp_all
  then have "P + unat m \<le> length S" "P mod n + unat m \<le> n" using assms(3) lt by (linarith, linarith)
  then have "take (unat m) (drop (P mod n) (ring_array r)) = take (unat m) (drop P S) \<and> P + unat m \<le> length S"
    using block_data[OF assms(1) n_def d, of "unat m"] by blast
  moreover have "0 < m" if "P < length S" using m(2) that lt by (simp add: word_less_nat_alt)
  moreover have "\<exists>ctx''. sxe_ring_buffer_consumed r ?c k = Some (SXE_RETURN_OK, ctx'') \<and>
      reader_at r ctx'' (P + unat k) \<and> data_block_len ctx'' = m - k" if "k \<le> m" for k
    by (rule consumed_at[OF assms(1) n_def at(1) assms(3) d it, of k]) (use m(2) that in \<open>auto simp: word_le_nat_alt\<close>)
  ultimately show ?thesis using False m(1) at by (intro exI[of _ SXE_RETURN_OK] exI[of _ ?c]) simp
qed

theorem sxe_ring_buffer_read_refines_witness:
  "\<exists>ctx'. sxe_ring_buffer_next_block ring_demo context_demo = (SXE_RETURN_OK, ctx') \<and>
    take (unat (data_block_len ctx')) (drop (nat (data_block ctx')) (ring_array ring_demo)) =
      take (unat (data_block_len ctx')) [3, 4, 5]"
proof -
  have "reader_at ring_demo context_demo 2" by (simp add: reader_at_def ring_demo_def context_demo_def)
  from sxe_ring_buffer_read_refines[OF ring_demo_rep this] show ?thesis by (auto simp: ring_demo_def)
qed

end
