(* ===== verification/SxeHttp.thy ===== *)
theory SxeHttp
  imports SxePrelude
begin

text \<open>
  \<^verbatim>\<open>lib-sxe-http\<close>: the incremental parser of HTTP request lines and headers, and the URL parser. The parser keeps offsets
  into a receive buffer that is filled piece by piece. The list of bytes of the buffer may be longer than the part that has been
  received: the code reads the byte after the received data before it compares the offset with the length. Bytes
  after the list read as NUL.
\<close>

section \<open>Data\<close>

datatype SXE_HTTP_LINE_ELEMENT_TYPE = SXE_HTTP_LINE_ELEMENT_TYPE_TOKEN | SXE_HTTP_LINE_ELEMENT_TYPE_END_OF_LINE

record sxe_http_message =
  buffer :: "u8 list"
  buffer_length :: u32
  consumed :: u32
  element_length :: u32
  name_length :: u32
  value_offset :: u32
  value_length :: u32
  next_field :: u32
  ignore_line :: bool
  ignore_length :: u32

record sxe_http_url =
  scheme :: "nat option"
  scheme_length :: u32
  host :: "nat option"
  host_length :: u32
  port :: u32
  port_length :: u32
  path :: "nat option"
  path_length :: u32

definition SXE_HTTP_LINE_PARSED :: u32 where "SXE_HTTP_LINE_PARSED = - 1"

definition CR :: u8 where "CR = 13"
definition LF :: u8 where "LF = 10"
definition SP :: u8 where "SP = 32"
definition HT :: u8 where "HT = 9"
definition COLON :: u8 where "COLON = 58"
definition SLASH :: u8 where "SLASH = 47"

abbreviation msg_at :: "sxe_http_message \<Rightarrow> u32 \<Rightarrow> u8" where
  "msg_at m offset \<equiv> byte_at (buffer m) (unat offset)"

definition isgraph :: "u8 \<Rightarrow> bool" where
  "isgraph c \<longleftrightarrow> 33 \<le> c \<and> c \<le> 126"

definition isspace :: "u8 \<Rightarrow> bool" where
  "isspace c \<longleftrightarrow> 9 \<le> c \<and> c \<le> 13 \<or> c = 32"

section \<open>The message parser\<close>

text \<open>The lengths of the header are not initialised: what the structure held before is an argument.\<close>

definition sxe_http_message_construct :: "sxe_http_message \<Rightarrow> u8 list \<Rightarrow> u32 \<Rightarrow> sxe_http_message" where
  "sxe_http_message_construct m buffer1 buffer_length1 =
     m\<lparr>buffer := buffer1, buffer_length := buffer_length1, consumed := 0, element_length := 0, next_field := 0,
       ignore_line := False, ignore_length := 0\<rparr>"

definition sxe_http_message_increase_buffer_length :: "sxe_http_message \<Rightarrow> u32 \<Rightarrow> sxe_http_message option" where
  "sxe_http_message_increase_buffer_length m buffer_length1 = do {
     SXEA1 (buffer_length m \<le> buffer_length1);
     Some (m\<lparr>buffer_length := buffer_length1\<rparr>)
   }"

definition sxe_http_message_get_line_element :: "sxe_http_message \<Rightarrow> u32 option" where
  "sxe_http_message_get_line_element m = do { SXEA1 (0 < element_length m); Some (consumed m) }"

definition sxe_http_message_get_request_line_length :: "sxe_http_message \<Rightarrow> u32" where
  "sxe_http_message_get_request_line_length m = element_length m + consumed m"

definition sxe_http_message_get_header_name :: "sxe_http_message \<Rightarrow> u32 option" where
  "sxe_http_message_get_header_name m = do { SXEA1 (0 < name_length m); Some (consumed m) }"

definition sxe_http_message_set_ignore_line :: "sxe_http_message \<Rightarrow> sxe_http_message" where
  "sxe_http_message_set_ignore_line m = m\<lparr>buffer_length := 0, ignore_line := True\<rparr>"

definition sxe_http_message_buffer_shift_ignore_length :: "sxe_http_message \<Rightarrow> sxe_http_message" where
  "sxe_http_message_buffer_shift_ignore_length m =
    (let moved = map (\<lambda>i. byte_at (buffer m) (unat (ignore_length m) + i)) [0..<unat (buffer_length m)]
     in m\<lparr>buffer := moved @ drop (unat (buffer_length m)) (buffer m)\<rparr>)"

function skip_whitespace_loop :: "sxe_http_message \<Rightarrow> u32 \<Rightarrow> SXE_RETURN \<times> u32" where
  "skip_whitespace_loop m offset =
    (if buffer_length m \<le> offset then (SXE_RETURN_WARN_WOULD_BLOCK, offset)
     else if msg_at m offset \<noteq> SP \<and> msg_at m offset \<noteq> HT then (SXE_RETURN_OK, offset)
     else skip_whitespace_loop m (offset + 1))"
  by pat_completeness auto
termination
  by (relation "measure (\<lambda>(m, offset). unat (buffer_length m) - unat offset)")
    (auto simp: not_le unat_suc_of_less word_less_nat_alt)

definition sxe_http_message_skip_whitespace :: "sxe_http_message \<Rightarrow> SXE_RETURN \<times> sxe_http_message" where
  "sxe_http_message_skip_whitespace m =
    (let (result, offset) = skip_whitespace_loop m (consumed m) in (result, m\<lparr>consumed := offset\<rparr>))"

text \<open>How a scan of the buffer for some character ends.\<close>

datatype http_scan = Scan_found u32 | Scan_bad u32 | Scan_partial u32

text \<open>\<open>strchr\<close> also finds the NUL that ends the string of terminators.\<close>

function line_element_scan :: "u8 list \<Rightarrow> sxe_http_message \<Rightarrow> u32 \<Rightarrow> http_scan" where
  "line_element_scan terminator m offset =
    (if msg_at m offset \<in> set (terminator @ [0]) then Scan_found offset
     else if msg_at m offset = LF then Scan_bad offset
     else if buffer_length m \<le> offset then Scan_partial offset
     else line_element_scan terminator m (offset + 1))"
  by pat_completeness auto
termination
  by (relation "measure (\<lambda>(t, m, offset). unat (buffer_length m) - unat offset)")
    (auto simp: not_le unat_suc_of_less word_less_nat_alt)

declare skip_whitespace_loop.simps [simp del] line_element_scan.simps [simp del]

definition sxe_http_message_parse_next_line_element ::
  "sxe_http_message \<Rightarrow> SXE_HTTP_LINE_ELEMENT_TYPE \<Rightarrow> SXE_RETURN \<times> sxe_http_message" where
  "sxe_http_message_parse_next_line_element m type =
    (let terminator = (if type = SXE_HTTP_LINE_ELEMENT_TYPE_TOKEN then [SP, HT, CR] else [CR]);
         next = next_field m
     in if element_length m = SXE_HTTP_LINE_PARSED \<or> 2 \<le> next \<and> msg_at m (next - 2) = CR \<and> msg_at m (next - 1) = LF
        then (SXE_RETURN_END_OF_FILE, m\<lparr>element_length := SXE_HTTP_LINE_PARSED\<rparr>)
        else
          (let m = (if next_field m \<noteq> 0 \<or> consumed m = 0
                    then m\<lparr>element_length := 0, consumed := next_field m, next_field := 0\<rparr> else m);
               (skipped, m) = (if element_length m = 0 then sxe_http_message_skip_whitespace m else (SXE_RETURN_OK, m))
           in if skipped \<noteq> SXE_RETURN_OK then (SXE_RETURN_WARN_WOULD_BLOCK, m)
              else if buffer_length m - consumed m < 2 then (SXE_RETURN_WARN_WOULD_BLOCK, m)
              else if msg_at m (consumed m) = CR \<and> msg_at m (consumed m + 1) = LF
              then (let m = m\<lparr>consumed := consumed m + 2\<rparr>
                    in (SXE_RETURN_END_OF_FILE, m\<lparr>next_field := consumed m, element_length := SXE_HTTP_LINE_PARSED\<rparr>))
              else
                (case line_element_scan terminator m (consumed m) of
                   Scan_bad _ \<Rightarrow> (SXE_RETURN_ERROR_BAD_MESSAGE, m)
                 | Scan_partial offset \<Rightarrow>
                     (SXE_RETURN_WARN_WOULD_BLOCK, m\<lparr>element_length := offset - consumed m, consumed := offset\<rparr>)
                 | Scan_found offset \<Rightarrow>
                     (let m = m\<lparr>element_length := offset - consumed m\<rparr>
                      in if msg_at m offset = CR then
                           (let offset = offset + 1
                            in if buffer_length m \<le> offset
                               then (SXE_RETURN_WARN_WOULD_BLOCK, m\<lparr>element_length := offset - consumed m\<rparr>)
                               else if msg_at m offset \<noteq> LF then (SXE_RETURN_ERROR_BAD_MESSAGE, m)
                               else (SXE_RETURN_OK, m\<lparr>next_field := offset + 1\<rparr>))
                         else if type = SXE_HTTP_LINE_ELEMENT_TYPE_END_OF_LINE then (SXE_RETURN_WARN_WOULD_BLOCK, m)
                         else (SXE_RETURN_OK, m\<lparr>next_field := offset + 1\<rparr>)))))"

subsection \<open>Headers\<close>

function scan_for :: "u8 \<Rightarrow> sxe_http_message \<Rightarrow> u32 \<Rightarrow> http_scan" where
  "scan_for c m offset =
    (if msg_at m offset = c then Scan_found offset
     else if buffer_length m \<le> offset then Scan_partial offset
     else scan_for c m (offset + 1))"
  by pat_completeness auto
termination
  by (relation "measure (\<lambda>(c, m, offset). unat (buffer_length m) - unat offset)")
    (auto simp: not_le unat_suc_of_less word_less_nat_alt)

function name_scan :: "sxe_http_message \<Rightarrow> u32 \<Rightarrow> http_scan" where
  "name_scan m offset =
    (if msg_at m offset = COLON then Scan_found offset
     else if buffer_length m \<le> offset then Scan_partial offset
     else if \<not> isgraph (msg_at m offset) then Scan_bad offset
     else name_scan m (offset + 1))"
  by pat_completeness auto
termination
  by (relation "measure (\<lambda>(m, offset). unat (buffer_length m) - unat offset)")
    (auto simp: not_le unat_suc_of_less word_less_nat_alt)

function value_scan :: "sxe_http_message \<Rightarrow> u32 \<Rightarrow> http_scan" where
  "value_scan m offset =
    (if msg_at m offset = CR then Scan_found offset
     else if msg_at m offset = LF then Scan_bad offset
     else if buffer_length m \<le> offset then Scan_partial offset
     else value_scan m (offset + 1))"
  by pat_completeness auto
termination
  by (relation "measure (\<lambda>(m, offset). unat (buffer_length m) - unat offset)")
    (auto simp: not_le unat_suc_of_less word_less_nat_alt)

declare scan_for.simps [simp del] name_scan.simps [simp del] value_scan.simps [simp del]

text \<open>The exit of the search for the end of a line that is ignored.\<close>

definition ignore_line_early_out :: "sxe_http_message \<Rightarrow> SXE_RETURN \<times> sxe_http_message" where
  "ignore_line_early_out m =
     (SXE_RETURN_WARN_WOULD_BLOCK, m\<lparr>buffer_length := buffer_length m - ignore_length m, consumed := 0\<rparr>)"

partial_function (option) ignore_line_loop :: "sxe_http_message \<Rightarrow> (SXE_RETURN \<times> sxe_http_message) option" where
  "ignore_line_loop m =
    (case scan_for LF m (consumed m) of
       Scan_partial offset \<Rightarrow> Some (ignore_line_early_out (m\<lparr>ignore_length := buffer_length m\<rparr>))
     | Scan_bad offset \<Rightarrow> None
     | Scan_found offset \<Rightarrow>
         if buffer_length m \<le> offset + 2 then Some (ignore_line_early_out (m\<lparr>ignore_length := buffer_length m - 2\<rparr>))
         else if msg_at m (offset + 1) = CR \<and> msg_at m (offset + 2) = LF
         then Some (SXE_RETURN_END_OF_FILE, m\<lparr>ignore_line := False, ignore_length := offset + 3, consumed := offset + 3,
           buffer_length := buffer_length m - (offset + 3)\<rparr>)
         else if msg_at m (offset + 1) \<noteq> SP \<and> msg_at m (offset + 1) \<noteq> HT
         then Some (ignore_line_early_out (m\<lparr>ignore_length := offset + 1, ignore_line := False, name_length := 0,
           value_offset := 0, value_length := 0\<rparr>))
         else ignore_line_loop (m\<lparr>consumed := offset + 1\<rparr>))"

text \<open>The end of the value: \<open>Inl\<close> is an early return.\<close>

partial_function (option) value_loop ::
  "sxe_http_message \<Rightarrow> (SXE_RETURN \<times> sxe_http_message + sxe_http_message) option" where
  "value_loop m =
    (case value_scan m (value_offset m + value_length m) of
       Scan_bad offset \<Rightarrow> Some (Inl (SXE_RETURN_ERROR_BAD_MESSAGE, m))
     | Scan_partial offset \<Rightarrow> Some (Inl (SXE_RETURN_WARN_WOULD_BLOCK, m\<lparr>value_length := offset - value_offset m\<rparr>))
     | Scan_found offset \<Rightarrow>
         (let m = m\<lparr>value_length := offset - value_offset m\<rparr>
          in if buffer_length m \<le> offset + 2 then Some (Inl (SXE_RETURN_WARN_WOULD_BLOCK, m))
             else if msg_at m (offset + 1) \<noteq> LF then Some (Inl (SXE_RETURN_ERROR_BAD_MESSAGE, m))
             else if msg_at m (offset + 2) \<noteq> SP \<and> msg_at m (offset + 2) \<noteq> HT
             then Some (Inr (m\<lparr>value_length := offset + 2 - 2 - value_offset m, next_field := offset + 2\<rparr>))
             else value_loop (m\<lparr>value_length := offset + 2 - value_offset m\<rparr>)))"

fun trim_value :: "sxe_http_message \<Rightarrow> nat \<Rightarrow> nat" where
  "trim_value m 0 = 0"
| "trim_value m (Suc k) = (if isspace (byte_at (buffer m) (unat (value_offset m) + k)) then trim_value m k else Suc k)"

text \<open>The rest of the function, once the position of the field is known and no line is ignored.\<close>

definition parse_header_value :: "sxe_http_message \<Rightarrow> (SXE_RETURN \<times> sxe_http_message) option" where
  "parse_header_value m =
    (let (result, offset) = (if value_length m = 0 then skip_whitespace_loop m (value_offset m) else (SXE_RETURN_OK, value_offset m));
         m = m\<lparr>value_offset := offset\<rparr>
     in if result \<noteq> SXE_RETURN_OK then Some (SXE_RETURN_WARN_WOULD_BLOCK, m)
        else do {
          parsed \<leftarrow> value_loop m;
          case parsed of
            Inl early \<Rightarrow> Some early
          | Inr m \<Rightarrow> Some (SXE_RETURN_OK, m\<lparr>value_length := of_nat (trim_value m (unat (value_length m)))\<rparr>)
        })"

definition parse_header_field :: "sxe_http_message \<Rightarrow> (SXE_RETURN \<times> sxe_http_message) option" where
  "parse_header_field m =
    (if value_offset m = 0 then
       if name_length m = 0 \<and> msg_at m (consumed m) = COLON then Some (SXE_RETURN_ERROR_BAD_MESSAGE, m)
       else
         (case name_scan m (consumed m + name_length m) of
            Scan_partial offset \<Rightarrow> Some (SXE_RETURN_WARN_WOULD_BLOCK, m\<lparr>name_length := offset - consumed m\<rparr>)
          | Scan_bad offset \<Rightarrow> Some (SXE_RETURN_ERROR_BAD_MESSAGE, m)
          | Scan_found offset \<Rightarrow> parse_header_value (m\<lparr>name_length := offset - consumed m, value_offset := offset + 1\<rparr>))
     else parse_header_value m)"

definition sxe_http_message_parse_next_header :: "sxe_http_message \<Rightarrow> (SXE_RETURN \<times> sxe_http_message) option" where
  "sxe_http_message_parse_next_header m = do {
     m \<leftarrow> (if element_length m \<noteq> SXE_HTTP_LINE_PARSED then do {
            SXEA6 (2 \<le> next_field m);
            SXEA6 (msg_at m (next_field m - 2) = CR \<and> msg_at m (next_field m - 1) = LF);
            Some (m\<lparr>element_length := SXE_HTTP_LINE_PARSED\<rparr>)
          } else Some m);
     let m = m\<lparr>ignore_length := 0\<rparr>;
     if next_field m \<noteq> 0 then
       (let m = m\<lparr>consumed := next_field m, name_length := 0, value_offset := 0, value_length := 0, next_field := 0\<rparr>
        in if buffer_length m - consumed m < 2 then Some (SXE_RETURN_WARN_WOULD_BLOCK, m)
           else if msg_at m (consumed m) = CR \<and> msg_at m (consumed m + 1) = LF
           then Some (SXE_RETURN_END_OF_FILE, m\<lparr>consumed := consumed m + 2\<rparr>)
           else if ignore_line m then ignore_line_loop m
           else parse_header_field m)
     else if ignore_line m then ignore_line_loop m
     else parse_header_field m
   }"

definition sxe_http_message_consume_parsed_headers :: "sxe_http_message \<Rightarrow> u32 \<times> sxe_http_message" where
  "sxe_http_message_consume_parsed_headers m =
    (let (consumed1, m) =
           (if next_field m \<noteq> 0
            then (next_field m, m\<lparr>name_length := 0, value_offset := 0, value_length := 0, next_field := 0\<rparr>)
            else (consumed m, if value_offset m \<noteq> 0 then m\<lparr>value_offset := value_offset m - consumed m\<rparr> else m))
     in (consumed1, m\<lparr>consumed := 0, buffer_length := buffer_length m - consumed1\<rparr>))"

section \<open>The URL parser\<close>

text \<open>
  Offsets are natural numbers: a URL is shorter than \<open>2 ^ 32\<close> bytes. A pointer into the string is its offset.
\<close>

function url_scheme_loop :: "u8 list \<Rightarrow> nat \<Rightarrow> nat \<Rightarrow> nat option" where
  "url_scheme_loop str maximum idx =
    (if maximum \<le> idx \<or> byte_at str idx = 0 then None
     else if byte_at str idx = COLON then (if idx = 0 then None else Some idx)
     else url_scheme_loop str maximum (idx + 1))"
  by pat_completeness auto
termination
  by (relation "measure (\<lambda>(s, maximum, idx). length s - idx)") (auto simp: byte_at_def split: if_splits)

function url_host_loop :: "u8 list \<Rightarrow> nat \<Rightarrow> nat \<Rightarrow> nat" where
  "url_host_loop str maximum idx =
    (if idx < maximum \<and> byte_at str idx \<noteq> 0 \<and> byte_at str idx \<noteq> COLON \<and> byte_at str idx \<noteq> SLASH
     then url_host_loop str maximum (idx + 1) else idx)"
  by pat_completeness auto
termination
  by (relation "measure (\<lambda>(s, maximum, idx). length s - idx)") (auto simp: byte_at_def split: if_splits)

definition isdigit :: "u8 \<Rightarrow> bool" where
  "isdigit c \<longleftrightarrow> 48 \<le> c \<and> c \<le> 57"

function url_port_loop :: "u8 list \<Rightarrow> nat \<Rightarrow> nat \<Rightarrow> u32 \<Rightarrow> nat \<times> u32" where
  "url_port_loop str maximum idx port1 =
    (if idx < maximum \<and> isdigit (byte_at str idx)
     then url_port_loop str maximum (idx + 1) (port1 * 10 + ucast (byte_at str idx) - 48) else (idx, port1))"
  by pat_completeness auto
termination
  by (relation "measure (\<lambda>(s, maximum, idx, port). length s - idx)") (auto simp: byte_at_def isdigit_def split: if_splits)

declare url_scheme_loop.simps [simp del] url_host_loop.simps [simp del] url_port_loop.simps [simp del]

definition url_null :: sxe_http_url where
  "url_null = \<lparr>scheme = None, scheme_length = 0, host = None, host_length = 0, port = 0, port_length = 0, path = None, path_length = 0\<rparr>"

definition url_parse_path :: "u8 list \<Rightarrow> u32 \<Rightarrow> sxe_http_url \<Rightarrow> nat \<Rightarrow> SXE_RETURN \<times> sxe_http_url" where
  "url_parse_path str string_length url idx =
     (SXE_RETURN_OK, url\<lparr>path := Some idx, path_length := (if string_length = 0 then 0 else string_length - of_nat idx)\<rparr>)"

definition sxe_http_url_parse :: "u8 list \<Rightarrow> u32 \<Rightarrow> SXE_RETURN \<times> sxe_http_url" where
  "sxe_http_url_parse str string_length =
    (let maximum = unat (if string_length = 0 then - 1 else string_length)
     in case url_scheme_loop str maximum 0 of
          None \<Rightarrow> (SXE_RETURN_ERROR_INVALID, url_null)
        | Some idx \<Rightarrow>
            (let url = url_null\<lparr>scheme := Some 0, scheme_length := of_nat idx\<rparr>;
                 idx = idx + 1
             in if maximum \<le> idx + 1 \<or> byte_at str idx \<noteq> SLASH \<or> byte_at str (idx + 1) \<noteq> SLASH
                then (SXE_RETURN_ERROR_INVALID, url)
                else
                  (let start = idx + 2;
                       idx = url_host_loop str maximum start
                   in if idx = start then (SXE_RETURN_ERROR_INVALID, url)
                      else
                        (let url = url\<lparr>host := Some start, host_length := of_nat (idx - start)\<rparr>
                         in if maximum \<le> idx \<or> byte_at str idx = 0 then (SXE_RETURN_OK, url)
                            else if byte_at str idx = COLON then
                              (let start = idx + 1
                               in if maximum \<le> start \<or> \<not> isdigit (byte_at str start) then (SXE_RETURN_ERROR_INVALID, url)
                                  else
                                    (let (idx, port1) = url_port_loop str maximum start 0;
                                         url = url\<lparr>port := port1, port_length := of_nat (idx - start + 1)\<rparr>
                                     in if maximum \<le> idx \<or> byte_at str idx = 0 then (SXE_RETURN_OK, url)
                                        else if byte_at str idx \<noteq> SLASH then (SXE_RETURN_ERROR_INVALID, url)
                                        else url_parse_path str string_length url (idx + 1)))
                            else url_parse_path str string_length url (idx + 1)))))"

section \<open>Specification\<close>

text \<open>The text of a URL, and of a header line.\<close>

definition url_text :: "u8 list \<Rightarrow> u8 list \<Rightarrow> u8 list \<Rightarrow> u8 list \<Rightarrow> u8 list" where
  "url_text sch hst digits pth =
     sch @ [COLON, SLASH, SLASH] @ hst @ (if digits = [] then [] else COLON # digits) @ SLASH # pth"

definition dec_value :: "u8 list \<Rightarrow> nat" where
  "dec_value digits = foldl (\<lambda>v c. v * 10 + (unat c - 48)) 0 digits"

definition header_text :: "u8 list \<Rightarrow> u8 list \<Rightarrow> u8 list \<Rightarrow> u8 list" where
  "header_text name ws val = name @ COLON # ws @ val @ [CR, LF]"

definition message_demo :: sxe_http_message where
  "message_demo = \<lparr>buffer = lit ''G'' @ [CR, LF] @ lit ''Host:  a b'' @ [CR, LF, CR, LF], buffer_length = 17, consumed = 0,
     element_length = - 1, name_length = 0, value_offset = 0, value_length = 0, next_field = 3, ignore_line = False, ignore_length = 0\<rparr>"

section \<open>Scanning URLs\<close>

lemma byte_at_mid [simp]: "byte_at (pre @ c # post) (length pre) = c"
  by (simp add: byte_at_def)

lemma byte_at_end [simp]: "byte_at s (length s) = 0"
  by (simp add: byte_at_def)

lemma scheme_loop_found:
  assumes "\<forall>c \<in> set sch. c \<noteq> 0 \<and> c \<noteq> COLON" and "length pre + length sch < maximum" and "0 < length pre + length sch"
  shows "url_scheme_loop (pre @ sch @ COLON # post) maximum (length pre) = Some (length pre + length sch)"
  using assms
proof (induction sch arbitrary: pre)
  case Nil
  then show ?case by (subst url_scheme_loop.simps) (simp add: COLON_def)
next
  case (Cons c sch)
  from Cons.IH[of "pre @ [c]"] Cons.prems show ?case by (subst url_scheme_loop.simps) simp
qed

lemma host_loop_found:
  assumes "\<forall>c \<in> set hst. c \<noteq> 0 \<and> c \<noteq> COLON \<and> c \<noteq> SLASH" and "length pre + length hst < maximum" and "c = COLON \<or> c = SLASH"
  shows "url_host_loop (pre @ hst @ c # post) maximum (length pre) = length pre + length hst"
  using assms
proof (induction hst arbitrary: pre)
  case Nil
  then show ?case by (subst url_host_loop.simps) auto
next
  case (Cons d hst)
  from Cons.IH[of "pre @ [d]"] Cons.prems show ?case by (subst url_host_loop.simps) simp
qed

lemma digit_step:
  assumes "isdigit c"
  shows "(of_nat v :: u32) * 10 + ucast c - 48 = of_nat (v * 10 + (unat c - 48))"
proof -
  have "48 \<le> unat c" using assms by (simp add: isdigit_def word_le_nat_alt)
  moreover have "(ucast c :: u32) = of_nat (unat c)" by simp
  ultimately show ?thesis by (simp only: of_nat_diff of_nat_add of_nat_mult of_nat_numeral) simp
qed

lemma port_loop_found:
  assumes "\<forall>c \<in> set digits. isdigit c" and "length pre + length digits < maximum"
  shows "url_port_loop (pre @ digits @ SLASH # post) maximum (length pre) (of_nat v) =
    (length pre + length digits, of_nat (foldl (\<lambda>v c. v * 10 + (unat c - 48)) v digits))"
  using assms
proof (induction digits arbitrary: pre v)
  case Nil
  then show ?case by (subst url_port_loop.simps) (simp add: isdigit_def SLASH_def)
next
  case (Cons c digits)
  from Cons.IH[of "pre @ [c]" "v * 10 + (unat c - 48)"] Cons.prems show ?case
    by (subst url_port_loop.simps) (simp add: digit_step)
qed

lemma unat_rest: "k \<le> unat (w :: u32) \<Longrightarrow> unat (w - of_nat k) = unat w - k"
  using unat_lt2p[of w] by (simp add: unat_sub_if' unat_of_nat_small)

section \<open>Scanning messages\<close>

lemma less_by_unat: "unat o1 < unat p \<Longrightarrow> p \<le> b \<Longrightarrow> (o1 :: u32) < b \<and> \<not> b \<le> o1 \<and> unat (o1 + 1) = unat o1 + 1"
  using unat_suc_of_less[of o1 p] by (auto simp: word_less_nat_alt word_le_nat_alt)

lemma skip_whitespace_found:
  assumes "buffer m = pre @ ws @ c # post" and "\<forall>w \<in> set ws. w = SP \<or> w = HT" and "c \<noteq> SP" and "c \<noteq> HT"
    and "unat o1 = length pre" and "unat p = length pre + length ws" and "p < buffer_length m"
  shows "skip_whitespace_loop m o1 = (SXE_RETURN_OK, p)"
  using assms
proof (induction ws arbitrary: pre o1)
  case Nil
  then have "o1 = p" by (simp add: word_unat_eq_iff)
  then show ?case using Nil by (subst skip_whitespace_loop.simps) simp
next
  case (Cons w ws)
  then have "unat o1 < unat p" "p \<le> buffer_length m" by simp_all
  note o1 = less_by_unat[OF this]
  have "skip_whitespace_loop m (o1 + 1) = (SXE_RETURN_OK, p)"
    by (rule Cons.IH[of "pre @ [w]"]) (use Cons.prems o1 in simp_all)
  moreover have "msg_at m o1 = w" using Cons.prems by simp
  ultimately show ?case using Cons.prems(2) o1 by (subst skip_whitespace_loop.simps) auto
qed

lemma name_scan_found:
  assumes "buffer m = pre @ name @ COLON # post" and "\<forall>c \<in> set name. isgraph c \<and> c \<noteq> COLON"
    and "unat o1 = length pre" and "unat p = length pre + length name" and "p \<le> buffer_length m"
  shows "name_scan m o1 = Scan_found p"
  using assms
proof (induction name arbitrary: pre o1)
  case Nil
  then have "o1 = p" by (simp add: word_unat_eq_iff)
  then show ?case using Nil by (subst name_scan.simps) simp
next
  case (Cons c name)
  then have "unat o1 < unat p" by simp
  note o1 = less_by_unat[OF this Cons.prems(5)]
  have "name_scan m (o1 + 1) = Scan_found p" by (rule Cons.IH[of "pre @ [c]"]) (use Cons.prems o1 in simp_all)
  moreover have "msg_at m o1 = c" using Cons.prems by simp
  ultimately show ?case using Cons.prems(2) o1 by (subst name_scan.simps) auto
qed

lemma value_scan_found:
  assumes "buffer m = pre @ val @ CR # post" and "\<forall>c \<in> set val. c \<noteq> CR \<and> c \<noteq> LF"
    and "unat o1 = length pre" and "unat p = length pre + length val" and "p \<le> buffer_length m"
  shows "value_scan m o1 = Scan_found p"
  using assms
proof (induction val arbitrary: pre o1)
  case Nil
  then have "o1 = p" by (simp add: word_unat_eq_iff)
  then show ?case using Nil by (subst value_scan.simps) simp
next
  case (Cons c val)
  then have "unat o1 < unat p" by simp
  note o1 = less_by_unat[OF this Cons.prems(5)]
  have "value_scan m (o1 + 1) = Scan_found p" by (rule Cons.IH[of "pre @ [c]"]) (use Cons.prems o1 in simp_all)
  moreover have "msg_at m o1 = c" using Cons.prems by simp
  ultimately show ?case using Cons.prems(2) o1 by (subst value_scan.simps) auto
qed

lemma byte_at_offset: "byte_at (pre @ xs) (length pre + k) = byte_at xs k"
  by (auto simp: byte_at_def nth_append)

lemma trim_value_exact:
  assumes "val \<noteq> [] \<Longrightarrow> \<not> isspace (last val)" and "buffer m = pre @ val @ post" and "unat (value_offset m) = length pre"
  shows "trim_value m (length val) = length val"
proof (cases val rule: rev_cases)
  case (snoc ys y)
  then have "byte_at (buffer m) (length pre + length ys) = y"
    using byte_at_offset[of pre "val @ post" "length ys"] by (simp add: assms(2) byte_at_def)
  then show ?thesis using assms(1,3) snoc by simp
qed simp

lemma unat_plus2:
  assumes "unat (e :: u32) + 2 < unat (b :: u32)"
  shows "unat (e + 1) = unat e + 1" and "unat (e + 2) = unat e + 2" and "\<not> b \<le> e + 2"
proof -
  have "unat e + 2 < 2 ^ 32" using assms unat_lt2p[of b] by simp
  then show "unat (e + 1) = unat e + 1" and *: "unat (e + 2) = unat e + 2" by (simp_all add: unat_word_ariths(1))
  then show "\<not> b \<le> e + 2" using assms by (simp add: word_le_nat_alt)
qed

lemma parse_value_found:
  assumes buf: "buffer m = pre @ ws @ val @ CR # LF # c # post" and ws: "\<forall>w \<in> set ws. w = SP \<or> w = HT"
    and val: "\<forall>c \<in> set val. c \<noteq> CR \<and> c \<noteq> LF" "val \<noteq> [] \<Longrightarrow> hd val \<noteq> SP \<and> hd val \<noteq> HT \<and> \<not> isspace (last val)"
    and c: "c \<noteq> SP" "c \<noteq> HT" and m: "unat (value_offset m) = length pre" "value_length m = 0"
    and v: "unat v = length pre + length ws" and e: "unat e = length pre + length ws + length val" "unat e + 2 < unat (buffer_length m)"
  shows "parse_header_value m = Some (SXE_RETURN_OK, m\<lparr>value_offset := v, value_length := e - v, next_field := e + 2\<rparr>)"
proof -
  have le: "v < buffer_length m" "e \<le> buffer_length m" using v e by (simp_all add: word_less_nat_alt word_le_nat_alt)
  note e2 = unat_plus2[OF e(2)]
  obtain d rest where d: "val @ CR # LF # c # post = d # rest" "d \<noteq> SP" "d \<noteq> HT"
    using val(2) by (cases val) (auto simp: CR_def SP_def HT_def)
  have skip: "skip_whitespace_loop m (value_offset m) = (SXE_RETURN_OK, v)"
    by (rule skip_whitespace_found[of m pre ws d rest]) (use buf d ws m v le in auto)
  define m1 where "m1 = m\<lparr>value_offset := v\<rparr>"
  have b1: "buffer m1 = (pre @ ws) @ val @ CR # LF # c # post" using buf by (simp add: m1_def)
  have scan: "value_scan m1 v = Scan_found e" by (rule value_scan_found[OF b1 val(1)]) (use v e le in \<open>simp_all add: m1_def\<close>)
  have "byte_at (buffer m) (unat e + 1) = LF" "byte_at (buffer m) (unat e + 2) = c"
    using byte_at_offset[of "pre @ ws @ val" "CR # LF # c # post" 1] byte_at_offset[of "pre @ ws @ val" "CR # LF # c # post" 2]
    by (simp_all add: buf e(1) byte_at_def add.assoc)
  then have loop: "value_loop m1 = Some (Inr (m1\<lparr>value_length := e - v, next_field := e + 2\<rparr>))"
    using scan e2 c m(2) by (subst value_loop.simps) (simp add: m1_def Let_def)
  have ev: "unat (e - v) = length val" using v e(1) by (simp add: unat_sub_if')
  then have "trim_value (m1\<lparr>value_length := e - v, next_field := e + 2\<rparr>) (unat (e - v)) = length val"
    using trim_value_exact[of val "m1\<lparr>value_length := e - v, next_field := e + 2\<rparr>" "pre @ ws" "CR # LF # c # post"] val(2) b1 v
    by (simp add: m1_def)
  moreover have "of_nat (unat (e - v)) = e - v" by simp
  ultimately show ?thesis
    unfolding parse_header_value_def m(2) by (simp add: skip m1_def[symmetric] loop ev)
qed

section \<open>A concrete message\<close>

text \<open>
  C25: parsing the next header of a message whose line has been parsed finds the name and the value of a header line without
  continuation, whatever white space is before the value, and where the next field starts, once the byte after the
  line has been received.
\<close>

theorem sxe_http_message_parse_next_header_roundtrip:
  assumes "buffer m = pre @ header_text name ws val @ c # post" and "unat (next_field m) = length pre" and "pre \<noteq> []"
    and "element_length m = SXE_HTTP_LINE_PARSED" and "\<not> ignore_line m"
    and "name \<noteq> []" and "\<forall>c \<in> set name. isgraph c \<and> c \<noteq> COLON" and "\<forall>w \<in> set ws. w = SP \<or> w = HT"
    and "\<forall>c \<in> set val. c \<noteq> CR \<and> c \<noteq> LF" and "val \<noteq> [] \<Longrightarrow> hd val \<noteq> SP \<and> hd val \<noteq> HT \<and> \<not> isspace (last val)"
    and "c \<noteq> SP" and "c \<noteq> HT" and "length pre + length (header_text name ws val) < unat (buffer_length m)"
  shows "\<exists>m'. sxe_http_message_parse_next_header m = Some (SXE_RETURN_OK, m') \<and> buffer m' = buffer m \<and>
    take (unat (name_length m')) (drop (unat (consumed m')) (buffer m')) = name \<and>
    take (unat (value_length m')) (drop (unat (value_offset m')) (buffer m')) = val \<and>
    unat (next_field m') = length pre + length (header_text name ws val)"
proof -
  define p :: u32 where "p = of_nat (length pre + length name)"
  define v :: u32 where "v = of_nat (length pre + length name + 1 + length ws)"
  define e :: u32 where "e = of_nat (length pre + length name + 1 + length ws + length val)"
  have len: "length pre + length name + 1 + length ws + length val + 2 < unat (buffer_length m)"
    using assms(13) by (simp add: header_text_def)
  then have small: "length pre + length name + 1 + length ws + length val + 2 < 2 ^ 32" using unat_lt2p[of "buffer_length m"] by simp
  have u: "unat p = length pre + length name" "unat v = length pre + length name + 1 + length ws"
    "unat e = length pre + length name + 1 + length ws + length val"
    unfolding p_def v_def e_def using small by (subst unat_of_nat_small; simp)+
  define m1 where "m1 = m\<lparr>ignore_length := 0, consumed := next_field m, name_length := 0, value_offset := 0, value_length := 0, next_field := 0\<rparr>"
  have b1: "buffer m1 = pre @ name @ COLON # ws @ val @ CR # LF # c # post" using assms(1) by (simp add: m1_def header_text_def)
  obtain d name' where d: "name = d # name'" using assms(6) by (cases name) auto
  then have hd: "msg_at m1 (next_field m) = d" "d \<noteq> COLON" "d \<noteq> CR"
    using b1 assms(2,7) by (auto simp: isgraph_def CR_def)
  have "2 \<le> unat (buffer_length m) - unat (next_field m)" using len assms(2) by simp
  then have big: "\<not> buffer_length m - next_field m < 2" by (simp add: word_less_nat_alt unat_sub_if' split: if_splits)
  have nf: "next_field m \<noteq> 0" using assms(2,3) by auto
  have scan: "name_scan m1 (next_field m) = Scan_found p"
    by (rule name_scan_found[OF b1 assms(7)]) (use u assms(2) len in \<open>simp_all add: m1_def word_le_nat_alt\<close>)
  define m2 where "m2 = m1\<lparr>name_length := p - next_field m, value_offset := p + 1\<rparr>"
  have p1: "unat (p + 1) = length pre + length name + 1" using u(1) small by (simp add: unat_word_ariths(1))
  have "parse_header_value m2 = Some (SXE_RETURN_OK, m2\<lparr>value_offset := v, value_length := e - v, next_field := e + 2\<rparr>)"
    by (rule parse_value_found[of m2 "pre @ name @ [COLON]" ws val c post, OF _ assms(8-12)])
      (use b1 u p1 len in \<open>simp_all add: m2_def m1_def\<close>)
  then have "sxe_http_message_parse_next_header m = Some (SXE_RETURN_OK, m2\<lparr>value_offset := v, value_length := e - v, next_field := e + 2\<rparr>)"
    using assms(4,5) nf big hd scan
    by (simp add: sxe_http_message_parse_next_header_def parse_header_field_def Let_def m1_def[symmetric])
      (simp add: m1_def m2_def)
  moreover have "unat (p - next_field m) = length name" "unat (e - v) = length val"
    using u assms(2) by (simp_all add: unat_sub_if')
  moreover have "unat (e + 2) = length pre + length (header_text name ws val)"
    using unat_plus2(2)[of e "buffer_length m"] u(3) len by (simp add: header_text_def)
  ultimately show ?thesis using b1 u assms(1,2) by (intro exI) (auto simp: m2_def m1_def)
qed

theorem sxe_http_message_parse_next_header_roundtrip_witness:
  "\<exists>m'. sxe_http_message_parse_next_header message_demo = Some (SXE_RETURN_OK, m') \<and>
    take (unat (value_length m')) (drop (unat (value_offset m')) (buffer m')) = lit ''a b''"
proof -
  have "buffer message_demo = lit ''G'' @ [CR, LF] @ header_text (lit ''Host'') [SP, SP] (lit ''a b'') @ CR # [LF]"
    by (simp add: message_demo_def header_text_def lit_def SP_def COLON_def)
  then show ?thesis
    using sxe_http_message_parse_next_header_roundtrip[of message_demo "lit ''G'' @ [CR, LF]" "lit ''Host''" "[SP, SP]" "lit ''a b''" CR "[LF]"]
    by (auto simp: message_demo_def header_text_def lit_def isgraph_def isspace_def SP_def HT_def CR_def LF_def COLON_def SXE_HTTP_LINE_PARSED_def)
qed

text \<open>
  C26: parsing the text of a URL of a given length finds its scheme, host, port, which is the decimal number written modulo
  \<open>2 ^ 32\<close> or 0 if there is none, and path.
\<close>

theorem sxe_http_url_parse_roundtrip:
  assumes "sch \<noteq> []" and "\<forall>c \<in> set sch. c \<noteq> 0 \<and> c \<noteq> COLON" and "hst \<noteq> []" and "\<forall>c \<in> set hst. c \<noteq> 0 \<and> c \<noteq> COLON \<and> c \<noteq> SLASH"
    and "\<forall>c \<in> set digits. isdigit c" and "unat string_length = length (url_text sch hst digits pth)"
  shows "\<exists>url. sxe_http_url_parse (url_text sch hst digits pth) string_length = (SXE_RETURN_OK, url) \<and>
    scheme url = Some 0 \<and> unat (scheme_length url) = length sch \<and>
    host url = Some (length sch + 3) \<and> unat (host_length url) = length hst \<and>
    port url = of_nat (dec_value digits) \<and> unat (port_length url) = (if digits = [] then 0 else length digits + 1) \<and>
    path url = Some (length (url_text sch hst digits []) ) \<and> unat (path_length url) = length pth"
proof -
  define n where "n = unat string_length"
  let ?pp = "if digits = [] then [] else COLON # digits" and ?s = "url_text sch hst digits pth"
  have n: "n = length sch + 3 + length hst + length ?pp + 1 + length pth" "n < 2 ^ 32"
    using assms(6) unat_lt2p[of string_length] by (simp_all add: n_def url_text_def)
  have len: "string_length \<noteq> 0" using n(1) by (auto simp: n_def)
  have s1: "?s = [] @ sch @ COLON # SLASH # SLASH # hst @ ?pp @ SLASH # pth" by (simp add: url_text_def)
  have sl: "url_scheme_loop ?s n 0 = Some (length sch)"
    using scheme_loop_found[of sch "[]" n] assms(1,2) n(1) unfolding s1 by simp
  have at: "byte_at ?s (length sch + 1) = SLASH" "byte_at ?s (length sch + 2) = SLASH"
    using byte_at_offset[of sch "COLON # SLASH # SLASH # hst @ ?pp @ SLASH # pth" 1]
      byte_at_offset[of sch "COLON # SLASH # SLASH # hst @ ?pp @ SLASH # pth" 2]
    by (simp_all add: s1 byte_at_def)
  obtain c rest where c: "?pp @ SLASH # pth = c # rest" "c = (if digits = [] then SLASH else COLON)" by (cases digits) auto
  let ?pre = "sch @ [COLON, SLASH, SLASH]"
  have s2: "?s = ?pre @ hst @ c # rest" using c(1) by (simp add: s1)
  have lp: "length ?pre = length sch + 3" by simp
  have "url_host_loop (?pre @ hst @ c # rest) n (length ?pre) = length ?pre + length hst"
    by (rule host_loop_found[OF assms(4)]) (use n(1) c(2) in auto)
  then have hl: "url_host_loop ?s n (length sch + 3) = length sch + 3 + length hst" unfolding s2 lp .
  have atc: "byte_at ?s (length sch + 3 + length hst) = c"
    using byte_at_mid[of "?pre @ hst" c rest] unfolding s2 by (simp add: numeral_3_eq_3)
  have "c \<noteq> 0" using c(2) by (simp add: SLASH_def COLON_def)
  show ?thesis
  proof (cases digits)
    case Nil
    let ?k = "length sch + 3 + length hst + 1"
    have "sxe_http_url_parse ?s string_length = (SXE_RETURN_OK, url_null\<lparr>scheme := Some 0, scheme_length := of_nat (length sch),
        host := Some (length sch + 3), host_length := of_nat (length hst), path := Some ?k, path_length := string_length - of_nat ?k\<rparr>)"
      unfolding sxe_http_url_parse_def url_parse_path_def
      using sl at hl atc c(2) \<open>c \<noteq> 0\<close> n(1) len Nil assms(3) by (simp add: Let_def n_def[symmetric] SLASH_def COLON_def numeral_3_eq_3)
    moreover have "unat (string_length - of_nat ?k) = length pth" using unat_rest[of ?k string_length] n(1) Nil by (simp add: n_def[symmetric])
    ultimately show ?thesis
      using n Nil by (simp add: url_null_def unat_of_nat_small dec_value_def url_text_def)
  next
    case (Cons d ds)
    let ?st = "length sch + 3 + length hst + 1"
    let ?k = "?st + length digits + 1"
    have s3: "?s = (?pre @ hst @ [COLON]) @ digits @ SLASH # pth" using Cons by (simp add: url_text_def)
    have l3: "length (?pre @ hst @ [COLON]) = ?st" by simp
    have pl: "url_port_loop ?s n ?st 0 = (?st + length digits, of_nat (dec_value digits))"
    proof -
      have "?st + length digits < n" using n(1) Cons by simp
      from port_loop_found[of digits "?pre @ hst @ [COLON]" n pth 0, unfolded l3, OF assms(5) this] show ?thesis
        unfolding s3 dec_value_def by simp
    qed
    have at3: "byte_at ?s (?st + k) = byte_at (digits @ SLASH # pth) k" for k
      unfolding s3 l3[symmetric] by (rule byte_at_offset)
    have "byte_at (digits @ SLASH # pth) 0 = d" "byte_at (digits @ SLASH # pth) (length digits) = SLASH"
      by (simp_all add: Cons byte_at_def)
    then have atd: "byte_at ?s ?st = d" "byte_at ?s (?st + length digits) = SLASH"
      using at3[of 0] at3[of "length digits"] by simp_all
    have "sxe_http_url_parse ?s string_length = (SXE_RETURN_OK, url_null\<lparr>scheme := Some 0, scheme_length := of_nat (length sch),
        host := Some (length sch + 3), host_length := of_nat (length hst), port := of_nat (dec_value digits),
        port_length := of_nat (length digits + 1), path := Some ?k, path_length := string_length - of_nat ?k\<rparr>)"
      unfolding sxe_http_url_parse_def url_parse_path_def
      using sl at hl atc c(2) \<open>c \<noteq> 0\<close> n(1) len Cons assms(3,5) pl atd
      by (simp add: Let_def n_def[symmetric] SLASH_def COLON_def numeral_3_eq_3)
    moreover have "unat (string_length - of_nat ?k) = length pth" using unat_rest[of ?k string_length] n(1) Cons by (simp add: n_def[symmetric])
    moreover have "unat (of_nat (length digits + 1) :: u32) = length digits + 1" using n Cons by (intro unat_of_nat_small) simp
    ultimately show ?thesis
      using n Cons by (simp add: url_null_def unat_of_nat_small url_text_def)
  qed
qed

theorem sxe_http_url_parse_roundtrip_witness:
  "\<exists>url. sxe_http_url_parse (lit ''http://a.b:8080/c'') 17 = (SXE_RETURN_OK, url) \<and> host url = Some 7 \<and> port url = 8080"
proof -
  have "url_text (lit ''http'') (lit ''a.b'') (lit ''8080'') (lit ''c'') = lit ''http://a.b:8080/c''"
    by (simp add: url_text_def lit_def COLON_def SLASH_def)
  then show ?thesis
    using sxe_http_url_parse_roundtrip[of "lit ''http''" "lit ''a.b''" "lit ''8080''" 17 "lit ''c''"]
    by (auto simp: lit_def COLON_def SLASH_def isdigit_def dec_value_def)
qed

end
