(* ===== verification/SxeBuffer.thy ===== *)
theory SxeBuffer
  imports SxePrelude
begin

text \<open>
  \<^verbatim>\<open>lib-sxe-buffer\<close> and \<^verbatim>\<open>lib-sxe-cstr\<close>: counted strings over fixed space. A pointer to a counted string may also be a C string
  in disguise, which the code recognises by its first two bytes; here that is the constructor \<open>Literal\<close>. The
  bytes a counted string points to are a list; a write outside it and a failed assertion are \<^const>\<open>None\<close>. The
  bytes that \<open>vsnprintf\<close> and \<open>strftime\<close> format are arguments.
\<close>

unbundle bit_operations_syntax

section \<open>C strings\<close>

datatype 'b counted = Literal "u8 list" | Counted 'b

definition c_string :: "u8 list \<Rightarrow> u8 list" where
  "c_string s = takeWhile (\<lambda>c. c \<noteq> 0) s"

fun strcmp :: "u8 list \<Rightarrow> u8 list \<Rightarrow> int" where
  "strcmp [] [] = 0"
| "strcmp [] (d # ds) = - uint d"
| "strcmp (c # cs) [] = uint c"
| "strcmp (c # cs) (d # ds) = (if c = d \<and> c \<noteq> 0 then strcmp cs ds else uint c - uint d)"

text \<open>
  \<open>vsnprintf\<close> stores as much of its output as fits with a NUL in the given size and returns the length of
  all of it; \<open>strftime\<close> returns 0 and leaves the space unspecified (here: alone) when its output does not fit;
  \<open>strncat\<close> appends to the C string it is given at most \<open>n\<close> bytes of another and then a NUL.
\<close>

definition vsnprintf :: "nat \<Rightarrow> nat \<Rightarrow> u8 list \<Rightarrow> u8 list \<Rightarrow> u8 list option" where
  "vsnprintf k size1 formatted space1 =
    (if size1 = 0 then Some space1 else write_at k (take (size1 - 1) formatted @ [0]) space1)"

text \<open>The result of \<open>vsnprintf\<close>: the length of its output, or a negative number when that is no \<open>int\<close>.\<close>

definition printf_result :: "u8 list \<Rightarrow> int" where
  "printf_result formatted = (if length formatted < 2 ^ 31 then int (length formatted) else - 1)"

definition strftime :: "nat \<Rightarrow> nat \<Rightarrow> u8 list \<Rightarrow> u8 list \<Rightarrow> (nat \<times> u8 list) option" where
  "strftime k size1 formatted space1 =
    (if length formatted < size1 then map_option (Pair (length formatted)) (write_at k (formatted @ [0]) space1)
     else Some (0, space1))"

definition strncat :: "nat \<Rightarrow> u8 list \<Rightarrow> nat \<Rightarrow> u8 list \<Rightarrow> u8 list option" where
  "strncat k src n space1 = write_at (k + strlen (drop k space1)) (take n (c_string src) @ [0]) space1"

text \<open>\<open>strchr\<close> finds the NUL that ends \<open>reject\<close> too.\<close>

fun cspn_loop :: "u8 list \<Rightarrow> u8 list \<Rightarrow> nat" where
  "cspn_loop reject [] = 0"
| "cspn_loop reject (c # cs) = (if c \<in> set (c_string reject) \<or> c = 0 then 0 else Suc (cspn_loop reject cs))"

definition strcspn :: "u8 list \<Rightarrow> u8 list \<Rightarrow> nat" where
  "strcspn s reject = length (takeWhile (\<lambda>c. c \<notin> set (c_string reject)) (c_string s))"

section \<open>Buffers\<close>

record sxe_buffer =
  buffer_flags :: u8
  buffer_size :: u16
  buffer_len :: u16
  buffer_consumed :: u16
  buffer_space :: "u8 list"

definition SXE_BUFFER_FLAG_IS_CSTR :: u8 where "SXE_BUFFER_FLAG_IS_CSTR = 0x01"
definition SXE_BUFFER_FLAG_OVERFLOW :: u8 where "SXE_BUFFER_FLAG_OVERFLOW = 0x02"
definition SXE_BUFFER_FLAG_IS_CONST :: u8 where "SXE_BUFFER_FLAG_IS_CONST = 0x04"

abbreviation buffer_is_const :: "sxe_buffer \<Rightarrow> bool" where
  "buffer_is_const b \<equiv> buffer_flags b AND SXE_BUFFER_FLAG_IS_CONST \<noteq> 0"

definition sxe_buffer_memcpy :: "sxe_buffer \<Rightarrow> u8 list \<Rightarrow> u32 \<Rightarrow> sxe_buffer option" where
  "sxe_buffer_memcpy b data len = do {
     SXEA1 (\<not> buffer_is_const b);
     SXEA6 (buffer_len b \<le> buffer_size b);
     let room = (ucast (buffer_size b) - ucast (buffer_len b) :: u32);
     let (b, len) = (if room < len then (b\<lparr>buffer_flags := buffer_flags b OR SXE_BUFFER_FLAG_OVERFLOW\<rparr>, room) else (b, len));
     space1 \<leftarrow> write_at (unat (buffer_len b)) (take (unat len) data) (buffer_space b);
     Some (b\<lparr>buffer_space := space1, buffer_len := buffer_len b + ucast len\<rparr>)
   }"

definition sxe_buffer_cat :: "sxe_buffer \<Rightarrow> sxe_buffer counted \<Rightarrow> sxe_buffer option" where
  "sxe_buffer_cat b ccat = do {
     SXEA1 (\<not> buffer_is_const b);
     let (ccat_str, ccat_len) =
       (case ccat of Counted c \<Rightarrow> (buffer_space c, ucast (buffer_len c)) | Literal s \<Rightarrow> (s, of_nat (strlen s)));
     sxe_buffer_memcpy b ccat_str ccat_len
   }"

definition sxe_buffer_clear :: "sxe_buffer \<Rightarrow> sxe_buffer option" where
  "sxe_buffer_clear b = do {
     SXEA1 (\<not> buffer_is_const b);
     space1 \<leftarrow> write_at 0 [0] (buffer_space b);
     Some (b\<lparr>buffer_flags := buffer_flags b AND NOT SXE_BUFFER_FLAG_OVERFLOW, buffer_len := 0, buffer_space := space1\<rparr>)
   }"

text \<open>Comparing a pointer with itself gives 0 without a look at the bytes, as the comparison of the bytes would.\<close>

definition sxe_buffer_cmp :: "sxe_buffer counted \<Rightarrow> sxe_buffer counted \<Rightarrow> int" where
  "sxe_buffer_cmp left right =
    (let str = (\<lambda>s. case s of Counted c \<Rightarrow> buffer_space c | Literal s \<Rightarrow> s) in strcmp (str left) (str right))"

definition sxe_buffer_consume :: "sxe_buffer counted \<Rightarrow> u32 \<Rightarrow> sxe_buffer option" where
  "sxe_buffer_consume buffer1 bytes =
    (case buffer1 of
       Literal _ \<Rightarrow> None
     | Counted b \<Rightarrow> do {
         SXEA1 (bytes \<le> ucast (buffer_len b) - ucast (buffer_consumed b));
         Some (b\<lparr>buffer_consumed := buffer_consumed b + ucast bytes\<rparr>)
       })"

definition sxe_buffer_ftime :: "sxe_buffer \<Rightarrow> u8 list \<Rightarrow> (nat \<times> sxe_buffer) option" where
  "sxe_buffer_ftime b formatted = do {
     SXEA1 (\<not> buffer_is_const b);
     (ret, space1) \<leftarrow> strftime (unat (buffer_len b)) (unat (ucast (buffer_size b) - ucast (buffer_len b) :: u64)) formatted (buffer_space b);
     Some (ret, b\<lparr>buffer_space := space1, buffer_len := buffer_len b + of_nat ret\<rparr>)
   }"

definition sxe_buffer_get_data :: "sxe_buffer counted \<Rightarrow> u8 list" where
  "sxe_buffer_get_data buffer1 =
    (case buffer1 of Literal s \<Rightarrow> s | Counted b \<Rightarrow> drop (unat (buffer_consumed b)) (buffer_space b))"

definition sxe_buffer_get_room :: "sxe_buffer counted \<Rightarrow> u32 option" where
  "sxe_buffer_get_room buffer1 =
    (case buffer1 of Literal _ \<Rightarrow> None | Counted b \<Rightarrow> Some (ucast (buffer_size b) - ucast (buffer_len b)))"

definition sxe_buffer_get_str :: "sxe_buffer \<Rightarrow> sxe_buffer option" where
  "sxe_buffer_get_str b = do {
     SXEA1 (\<not> buffer_is_const b);
     let b = (if buffer_size b \<le> buffer_len b
       then b\<lparr>buffer_len := buffer_size b - 1, buffer_flags := buffer_flags b OR SXE_BUFFER_FLAG_OVERFLOW\<rparr> else b);
     space1 \<leftarrow> write_at (unat (buffer_len b)) [0] (buffer_space b);
     Some (b\<lparr>buffer_space := space1\<rparr>)
   }"

definition sxe_buffer_is_overflow :: "sxe_buffer \<Rightarrow> bool" where
  "sxe_buffer_is_overflow b \<longleftrightarrow> buffer_flags b AND SXE_BUFFER_FLAG_OVERFLOW \<noteq> 0"

definition sxe_buffer_length :: "sxe_buffer counted \<Rightarrow> u32" where
  "sxe_buffer_length buffer1 =
    (case buffer1 of Literal s \<Rightarrow> of_nat (strlen s) | Counted b \<Rightarrow> ucast (buffer_len b) - ucast (buffer_consumed b))"

definition sxe_buffer_construct :: "u8 list \<Rightarrow> u32 \<Rightarrow> u32 \<Rightarrow> sxe_buffer option" where
  "sxe_buffer_construct space1 len size1 = do {
     SXEA1 (size1 \<le> 0xffff);
     SXEA1 (len \<le> size1);
     SXEA1 (size1 \<noteq> 0);
     SXEA1 (len \<le> size1);
     Some \<lparr>buffer_flags = SXE_BUFFER_FLAG_IS_CSTR, buffer_size = ucast size1, buffer_len = ucast len, buffer_consumed = 0,
       buffer_space = space1\<rparr>
   }"

definition sxe_buffer_construct_const :: "u8 list \<Rightarrow> u32 \<Rightarrow> sxe_buffer option" where
  "sxe_buffer_construct_const space1 len = do {
     b \<leftarrow> sxe_buffer_construct space1 len len;
     Some (b\<lparr>buffer_flags := buffer_flags b OR SXE_BUFFER_FLAG_IS_CONST\<rparr>)
   }"

definition sxe_buffer_vprintf :: "sxe_buffer \<Rightarrow> u8 list \<Rightarrow> (u32 \<times> sxe_buffer) option" where
  "sxe_buffer_vprintf b formatted = do {
     SXEA1 (\<not> buffer_is_const b);
     let size1 = (ucast (buffer_size b) - ucast (buffer_len b) :: u32);
     space1 \<leftarrow> vsnprintf (unat (buffer_len b)) (unat size1) formatted (buffer_space b);
     let b = b\<lparr>buffer_space := space1\<rparr>;
     (ret, b) \<leftarrow> (if printf_result formatted < 0
        then if buffer_size b = 0 then None
             else do { space1 \<leftarrow> write_at (unat (buffer_size b) - 1) [0] (buffer_space b); Some (size1, b\<lparr>buffer_space := space1\<rparr>) }
        else Some (word_of_int (printf_result formatted), b));
     if ret < size1 then Some (ret, b\<lparr>buffer_len := buffer_len b + ucast ret\<rparr>)
     else Some (ret, b\<lparr>buffer_flags := buffer_flags b OR SXE_BUFFER_FLAG_OVERFLOW, buffer_len := buffer_size b - 1\<rparr>)
   }"

definition sxe_buffer_printf :: "sxe_buffer \<Rightarrow> u8 list \<Rightarrow> (u32 \<times> sxe_buffer) option" where
  "sxe_buffer_printf b formatted = do { SXEA1 (\<not> buffer_is_const b); sxe_buffer_vprintf b formatted }"

definition sxe_buffer_cspn :: "sxe_buffer counted \<Rightarrow> u32 \<Rightarrow> u8 list \<Rightarrow> nat" where
  "sxe_buffer_cspn buffer1 start_at reject =
    (case buffer1 of
       Literal s \<Rightarrow> strcspn (drop (unat start_at) s) reject
     | Counted b \<Rightarrow> cspn_loop reject (drop (unat start_at) (take (unat (buffer_len b)) (buffer_space b))))"

section \<open>Counted C strings\<close>

record sxe_cstr =
  cstr_flags :: u8
  cstr_size :: u32
  cstr_len :: u16
  cstr_buf :: "u8 list"

definition SXE_CSTR_FLAG_IS_CSTR :: u8 where "SXE_CSTR_FLAG_IS_CSTR = 0x01"
definition SXE_CSTR_FLAG_OVERFLOW :: u8 where "SXE_CSTR_FLAG_OVERFLOW = 0x02"
definition SXE_CSTR_FLAG_IS_CONST :: u8 where "SXE_CSTR_FLAG_IS_CONST = 0x04"

abbreviation cstr_is_const :: "sxe_cstr \<Rightarrow> bool" where
  "cstr_is_const c \<equiv> cstr_flags c AND SXE_CSTR_FLAG_IS_CONST \<noteq> 0"

definition sxe_cstr_cat :: "sxe_cstr \<Rightarrow> sxe_cstr counted \<Rightarrow> sxe_cstr option" where
  "sxe_cstr_cat c ccat = do {
     SXEA1 (\<not> cstr_is_const c);
     let (ccat_str, ccat_len) =
       (case ccat of Counted d \<Rightarrow> (cstr_buf d, ucast (cstr_len d)) | Literal s \<Rightarrow> (s, of_nat (strlen s) :: u32));
     let size1 = cstr_size c - ucast (cstr_len c);
     buf \<leftarrow> strncat (unat (cstr_len c)) ccat_str (unat size1) (cstr_buf c);
     let c = c\<lparr>cstr_buf := buf, cstr_len := cstr_len c + ucast ccat_len\<rparr>;
     Some (if cstr_size c < ucast (cstr_len c)
       then c\<lparr>cstr_flags := cstr_flags c OR SXE_CSTR_FLAG_OVERFLOW, cstr_len := ucast (cstr_size c)\<rparr> else c)
   }"

definition sxe_cstr_clear :: "sxe_cstr \<Rightarrow> sxe_cstr option" where
  "sxe_cstr_clear c = do {
     SXEA1 (\<not> cstr_is_const c);
     buf \<leftarrow> write_at 0 [0] (cstr_buf c);
     Some (c\<lparr>cstr_flags := cstr_flags c AND NOT SXE_CSTR_FLAG_OVERFLOW, cstr_len := 0, cstr_buf := buf\<rparr>)
   }"

definition sxe_cstr_cmp :: "sxe_cstr counted \<Rightarrow> sxe_cstr counted \<Rightarrow> int" where
  "sxe_cstr_cmp left right =
    (let str = (\<lambda>s. case s of Counted c \<Rightarrow> cstr_buf c | Literal s \<Rightarrow> s) in strcmp (str left) (str right))"

definition sxe_cstr_ftime :: "sxe_cstr \<Rightarrow> u8 list \<Rightarrow> (nat \<times> sxe_cstr) option" where
  "sxe_cstr_ftime c formatted = do {
     SXEA1 (\<not> cstr_is_const c);
     (ret, buf) \<leftarrow> strftime (unat (cstr_len c)) (unat (cstr_size c - ucast (cstr_len c))) formatted (cstr_buf c);
     Some (ret, c\<lparr>cstr_buf := buf, cstr_len := cstr_len c + of_nat ret\<rparr>)
   }"

definition sxe_cstr_get_str :: "sxe_cstr \<Rightarrow> sxe_cstr option" where
  "sxe_cstr_get_str c = do {
     SXEA1 (\<not> cstr_is_const c);
     let c = (if cstr_size c \<le> ucast (cstr_len c)
       then c\<lparr>cstr_len := ucast (cstr_size c - 1), cstr_flags := cstr_flags c OR SXE_CSTR_FLAG_OVERFLOW\<rparr> else c);
     buf \<leftarrow> write_at (unat (cstr_len c)) [0] (cstr_buf c);
     Some (c\<lparr>cstr_buf := buf\<rparr>)
   }"

definition sxe_cstr_is_overflow :: "sxe_cstr \<Rightarrow> bool" where
  "sxe_cstr_is_overflow c \<longleftrightarrow> cstr_flags c AND SXE_CSTR_FLAG_OVERFLOW \<noteq> 0"

definition sxe_cstr_length :: "sxe_cstr counted \<Rightarrow> u32" where
  "sxe_cstr_length cstr = (case cstr of Literal s \<Rightarrow> of_nat (strlen s) | Counted c \<Rightarrow> ucast (cstr_len c))"

definition sxe_cstr_construct :: "u8 list \<Rightarrow> u32 \<Rightarrow> u32 \<Rightarrow> sxe_cstr option" where
  "sxe_cstr_construct buf len size1 = do {
     SXEA1 (size1 \<noteq> 0);
     SXEA1 (len \<le> size1);
     Some \<lparr>cstr_flags = SXE_CSTR_FLAG_IS_CSTR, cstr_size = size1, cstr_len = ucast len, cstr_buf = buf\<rparr>
   }"

definition sxe_cstr_construct_const :: "u8 list \<Rightarrow> u32 \<Rightarrow> sxe_cstr option" where
  "sxe_cstr_construct_const buf len = do {
     c \<leftarrow> sxe_cstr_construct buf len len;
     Some (c\<lparr>cstr_flags := cstr_flags c OR SXE_CSTR_FLAG_IS_CONST\<rparr>)
   }"

definition sxe_cstr_vprintf :: "sxe_cstr \<Rightarrow> u8 list \<Rightarrow> (u32 \<times> sxe_cstr) option" where
  "sxe_cstr_vprintf c formatted = do {
     SXEA1 (\<not> cstr_is_const c);
     let size1 = cstr_size c - ucast (cstr_len c);
     buf \<leftarrow> vsnprintf (unat (cstr_len c)) (unat size1) formatted (cstr_buf c);
     let c = c\<lparr>cstr_buf := buf\<rparr>;
     (ret, c) \<leftarrow> (if printf_result formatted < 0
        then do { buf \<leftarrow> write_at (unat (cstr_size c - 1)) [0] (cstr_buf c); Some (size1, c\<lparr>cstr_buf := buf\<rparr>) }
        else Some (word_of_int (printf_result formatted), c));
     if ret < size1 then Some (ret, c\<lparr>cstr_len := cstr_len c + ucast ret\<rparr>)
     else Some (ret, c\<lparr>cstr_flags := cstr_flags c OR SXE_CSTR_FLAG_OVERFLOW, cstr_len := ucast (cstr_size c - 1)\<rparr>)
   }"

definition sxe_cstr_printf :: "sxe_cstr \<Rightarrow> u8 list \<Rightarrow> (u32 \<times> sxe_cstr) option" where
  "sxe_cstr_printf c formatted = do { SXEA1 (\<not> cstr_is_const c); sxe_cstr_vprintf c formatted }"

definition sxe_cstr_cspn :: "sxe_cstr counted \<Rightarrow> u32 \<Rightarrow> u8 list \<Rightarrow> nat" where
  "sxe_cstr_cspn cstr start_at reject =
    (case cstr of
       Literal s \<Rightarrow> strcspn (drop (unat start_at) s) reject
     | Counted c \<Rightarrow> cspn_loop reject (drop (unat start_at) (take (unat (cstr_len c)) (cstr_buf c))))"

section \<open>Abstract view\<close>

definition buffer_ok :: "sxe_buffer \<Rightarrow> bool" where
  "buffer_ok b \<longleftrightarrow> \<not> buffer_is_const b \<and> buffer_len b \<le> buffer_size b \<and> unat (buffer_size b) \<le> length (buffer_space b)"

definition buffer_content :: "sxe_buffer \<Rightarrow> u8 list" where
  "buffer_content b = take (unat (buffer_len b)) (buffer_space b)"

definition buffer_print_ok :: "sxe_buffer \<Rightarrow> bool" where
  "buffer_print_ok b \<longleftrightarrow> buffer_ok b \<and> buffer_len b < buffer_size b"

definition cstr_ok :: "sxe_cstr \<Rightarrow> bool" where
  "cstr_ok c \<longleftrightarrow> \<not> cstr_is_const c \<and> ucast (cstr_len c) < cstr_size c \<and> unat (cstr_size c) \<le> 2 ^ 16 \<and>
     unat (cstr_size c) \<le> length (cstr_buf c)"

definition cstr_content :: "sxe_cstr \<Rightarrow> u8 list" where
  "cstr_content c = take (unat (cstr_len c)) (cstr_buf c)"

fun foldM :: "('s \<Rightarrow> 'd \<Rightarrow> 's option) \<Rightarrow> 's \<Rightarrow> 'd list \<Rightarrow> 's option" where
  "foldM f s [] = Some s"
| "foldM f s (d # ds) = do { s \<leftarrow> f s d; foldM f s ds }"

definition buffer_demo :: sxe_buffer where
  "buffer_demo = the (sxe_buffer_construct (lit ''ab......'') 2 5)"

definition cstr_demo :: sxe_cstr where
  "cstr_demo = the (sxe_cstr_construct (lit ''ab......'') 2 5)"

text \<open>
  A bounded string: appending never fails, keeps the longest prefix that fits and raises a flag exactly when
  something was cut off.
\<close>

locale bounded_string =
  fixes ok :: "'s \<Rightarrow> bool"
    and content :: "'s \<Rightarrow> u8 list"
    and cap :: "'s \<Rightarrow> nat"
    and flag :: "'s \<Rightarrow> bool"
    and append :: "'s \<Rightarrow> u8 list \<Rightarrow> 's option"
    and limit :: nat
  assumes append_ok: "ok s \<Longrightarrow> length data < limit \<Longrightarrow>
      \<exists>s'. append s data = Some s' \<and> ok s' \<and> cap s' = cap s \<and> content s' = take (cap s) (content s @ data) \<and>
        (flag s' \<longleftrightarrow> flag s \<or> cap s < length (content s @ data))"
    and content_cap: "ok s \<Longrightarrow> length (content s) \<le> cap s"
begin

lemma append_all:
  assumes "ok s" and "\<forall>d \<in> set ds. length d < limit"
  shows "\<exists>s'. foldM append s ds = Some s' \<and> ok s' \<and> cap s' = cap s \<and> content s' = take (cap s) (content s @ concat ds) \<and>
    (flag s' \<longleftrightarrow> flag s \<or> cap s < length (content s @ concat ds))"
  using assms
proof (induction ds arbitrary: s)
  case Nil
  then show ?case using content_cap[OF Nil(1)] by simp
next
  case (Cons d ds)
  obtain s1 where s1: "append s d = Some s1" "ok s1" "cap s1 = cap s" "content s1 = take (cap s) (content s @ d)"
    "flag s1 \<longleftrightarrow> flag s \<or> cap s < length (content s @ d)"
    using append_ok[OF Cons.prems(1), of d] Cons.prems(2) by auto
  obtain s' where "foldM append s1 ds = Some s'" "ok s'" "cap s' = cap s1" "content s' = take (cap s1) (content s1 @ concat ds)"
    "flag s' \<longleftrightarrow> flag s1 \<or> cap s1 < length (content s1 @ concat ds)"
    using Cons.IH[OF s1(2)] Cons.prems(2) by auto
  moreover have "take (cap s) (content s1 @ concat ds) = take (cap s) (content s @ d @ concat ds)"
    using content_cap[OF Cons.prems(1)] unfolding s1(4) by (cases "cap s \<le> length (content s @ d)") (simp_all add: min_def)
  moreover have "flag s1 \<or> cap s < length (content s1 @ concat ds) \<longleftrightarrow> flag s \<or> cap s < length (content s @ d @ concat ds)"
    unfolding s1(4,5) by auto
  ultimately show ?case using s1(1,3) by simp
qed

end

section \<open>Both kinds of counted string are bounded strings\<close>

lemma write_at_content:
  assumes "k + length bytes \<le> length s"
  obtains s' where "write_at k bytes s = Some s'" and "length s' = length s" and "n \<le> length bytes \<Longrightarrow> take (k + n) s' = take k s @ take n bytes"
proof -
  define s' where "s' = take k s @ bytes @ drop (k + length bytes) s"
  have "write_at k bytes s = Some s'" "length s' = length s" using assms by (simp_all add: write_at_def s'_def)
  moreover have "n \<le> length bytes \<Longrightarrow> take (k + n) s' = take k s @ take n bytes"
    using assms by (simp add: s'_def take_add)
  ultimately show thesis by (rule that)
qed

lemma flag_bits [simp]:
  "((f :: u8) OR 2) AND 4 = f AND 4" "(f OR 2) AND 2 \<noteq> 0"
proof -
  show "(f OR 2) AND 4 = f AND 4" by (rule bit_word_eqI) (auto simp: bit_simps)
  have "bit ((f OR 2) AND 2) 1" by (simp add: bit_simps)
  then show "(f OR 2) AND 2 \<noteq> 0" by auto
qed

text \<open>Adding a count to a 16-bit length that stays in range.\<close>

lemma unat_add_ucast:
  assumes "unat (n :: u32) = k" and "unat (l :: u16) + k < 2 ^ 16"
  shows "unat (l + ucast n) = unat l + k"
proof -
  have "unat (ucast n :: u16) = k" using assms by (simp add: unsigned_ucast_eq take_bit_nat_eq_self)
  then show ?thesis using assms(2) by (simp add: unat_word_ariths(1))
qed

lemma buffer_memcpy_ok:
  assumes "buffer_ok b" and "length data < 2 ^ 32"
  shows "\<exists>b'. sxe_buffer_memcpy b data (of_nat (length data)) = Some b' \<and> buffer_ok b' \<and> buffer_size b' = buffer_size b \<and>
    buffer_content b' = take (unat (buffer_size b)) (buffer_content b @ data) \<and>
    (sxe_buffer_is_overflow b' \<longleftrightarrow> sxe_buffer_is_overflow b \<or> unat (buffer_size b) < length (buffer_content b @ data))"
proof -
  let ?l = "unat (buffer_len b)" and ?z = "unat (buffer_size b)"
  have l: "?l \<le> ?z" "?z \<le> length (buffer_space b)" "\<not> buffer_is_const b" using assms(1) by (simp_all add: buffer_ok_def word_le_nat_alt)
  have c: "length (buffer_content b) = ?l" using l by (simp add: buffer_content_def)
  define room where "room = (ucast (buffer_size b) - ucast (buffer_len b) :: u32)"
  have room: "unat room = ?z - ?l" using l(1) by (simp add: room_def unat_sub_if' unat_ucast_up)
  define n where "n = min (?z - ?l) (length data)"
  obtain s' where s': "write_at ?l (take n data) (buffer_space b) = Some s'" "length s' = length (buffer_space b)"
    "n \<le> length (take n data) \<Longrightarrow> take (?l + n) s' = take ?l (buffer_space b) @ take n (take n data)"
    by (rule write_at_content[of ?l "take n data" "buffer_space b" n]) (use l in \<open>auto simp: n_def\<close>)
  define over where "over \<longleftrightarrow> room < of_nat (length data)"
  define len' where "len' = (if over then room else of_nat (length data))"
  define b' where "b' = b\<lparr>buffer_flags := (if over then buffer_flags b OR SXE_BUFFER_FLAG_OVERFLOW else buffer_flags b),
    buffer_space := s', buffer_len := buffer_len b + ucast len'\<rparr>"
  have over: "over \<longleftrightarrow> ?z - ?l < length data" using room assms(2) by (simp add: over_def word_less_nat_alt unat_of_nat_small)
  have n: "unat len' = n" using over room assms(2) by (auto simp: len'_def n_def unat_of_nat_small)
  have "sxe_buffer_memcpy b data (of_nat (length data)) = Some b'"
    using l s'(1) n by (auto simp: sxe_buffer_memcpy_def Let_def room_def[symmetric] over_def[symmetric] b'_def len'_def word_le_nat_alt
      split: if_splits)
  moreover have len: "unat (buffer_len b') = ?l + n"
    using unat_add_ucast[OF n, of "buffer_len b"] l unat_lt2p[of "buffer_size b"] by (simp add: b'_def n_def)
  moreover have "buffer_ok b'"
    using l s'(2) len by (simp add: buffer_ok_def b'_def word_le_nat_alt n_def SXE_BUFFER_FLAG_IS_CONST_def SXE_BUFFER_FLAG_OVERFLOW_def)
  moreover have "buffer_content b' = take ?z (buffer_content b @ data)"
  proof -
    have "buffer_content b' = buffer_content b @ take n data"
      using s'(3) len by (simp add: buffer_content_def b'_def n_def)
    also have "\<dots> = take ?z (buffer_content b @ data)" using c l(1) by (simp add: n_def min_def)
    finally show ?thesis .
  qed
  moreover have "sxe_buffer_is_overflow b' \<longleftrightarrow> sxe_buffer_is_overflow b \<or> ?z < length (buffer_content b @ data)"
    using over c l(1) by (auto simp: sxe_buffer_is_overflow_def b'_def SXE_BUFFER_FLAG_OVERFLOW_def)
  ultimately show ?thesis by (auto simp: b'_def)
qed

lemma vsnprintf_content:
  assumes "k < z" and "z \<le> length s"
  obtains s' where "vsnprintf k (z - k) f s = Some s'" and "length s' = length s"
    and "take (min (z - 1) (k + length f)) s' = take (z - 1) (take k s @ f)"
proof -
  let ?n = "min (z - k - 1) (length f)"
  obtain s' where s': "write_at k (take (z - k - 1) f @ [0]) s = Some s'" "length s' = length s"
    "?n \<le> length (take (z - k - 1) f @ [0]) \<Longrightarrow> take (k + ?n) s' = take k s @ take ?n (take (z - k - 1) f @ [0])"
    by (rule write_at_content[of k "take (z - k - 1) f @ [0]" s ?n]) (use assms in auto)
  have "min (z - 1) (k + length f) = k + ?n" using assms(1) by auto
  moreover have "take k s @ take ?n (take (z - k - 1) f @ [0]) = take (z - 1) (take k s @ f)"
    using assms by (cases "k = z - 1") (auto simp: min_def)
  ultimately show thesis using s' assms(1) by (intro that[of s']) (simp_all add: vsnprintf_def)
qed

lemma printf_result_small: "length f < 2 ^ 31 \<Longrightarrow> printf_result f = int (length f)"
  by (simp add: printf_result_def)

lemma buffer_vprintf_ok:
  assumes "buffer_print_ok b" and "length f < 2 ^ 31"
  shows "\<exists>b'. map_option snd (sxe_buffer_vprintf b f) = Some b' \<and> buffer_print_ok b' \<and> unat (buffer_size b') - 1 = unat (buffer_size b) - 1 \<and>
    buffer_content b' = take (unat (buffer_size b) - 1) (buffer_content b @ f) \<and>
    (sxe_buffer_is_overflow b' \<longleftrightarrow> sxe_buffer_is_overflow b \<or> unat (buffer_size b) - 1 < length (buffer_content b @ f))"
proof -
  let ?l = "unat (buffer_len b)" and ?z = "unat (buffer_size b)"
  have l: "?l < ?z" "?z \<le> length (buffer_space b)" "\<not> buffer_is_const b"
    using assms(1) by (simp_all add: buffer_print_ok_def buffer_ok_def word_less_nat_alt)
  have c: "length (buffer_content b) = ?l" using l by (simp add: buffer_content_def)
  define size1 where "size1 = (ucast (buffer_size b) - ucast (buffer_len b) :: u32)"
  have size1: "unat size1 = ?z - ?l" using l(1) by (simp add: size1_def unat_sub_if' unat_ucast_up)
  obtain s' where s': "vsnprintf ?l (?z - ?l) f (buffer_space b) = Some s'" "length s' = length (buffer_space b)"
    "take (min (?z - 1) (?l + length f)) s' = take (?z - 1) (take ?l (buffer_space b) @ f)"
    by (rule vsnprintf_content[OF l(1,2)])
  define fits where "fits \<longleftrightarrow> of_nat (length f) < size1"
  have fits: "fits \<longleftrightarrow> ?l + length f < ?z" using size1 assms(2) l(1) by (auto simp: fits_def word_less_nat_alt unat_of_nat_small)
  define b' where "b' = b\<lparr>buffer_space := s', buffer_flags := (if fits then buffer_flags b else buffer_flags b OR SXE_BUFFER_FLAG_OVERFLOW),
    buffer_len := (if fits then buffer_len b + ucast (of_nat (length f) :: u32) else buffer_size b - 1)\<rparr>"
  have "map_option snd (sxe_buffer_vprintf b f) = Some b'"
    using l(3) s'(1) printf_result_small[OF assms(2)] by (simp add: sxe_buffer_vprintf_def Let_def size1_def[symmetric] size1 fits_def[symmetric] b'_def)
  moreover have len: "unat (buffer_len b') = min (?z - 1) (?l + length f)"
  proof (cases fits)
    case True
    have "unat (of_nat (length f) :: u32) = length f" using assms(2) by (simp add: unat_of_nat_small)
    from unat_add_ucast[OF this, of "buffer_len b"] True fits unat_lt2p[of "buffer_size b"] show ?thesis by (simp add: b'_def)
  next
    case False
    then show ?thesis using fits l(1) by (simp add: b'_def unat_sub_if' unat_eq_zero)
  qed
  moreover have "buffer_print_ok b'"
  proof -
    have "unat (buffer_len b') < ?z" using len l(1) by linarith
    moreover have "\<not> buffer_is_const b'" using l(3) by (simp add: b'_def SXE_BUFFER_FLAG_IS_CONST_def SXE_BUFFER_FLAG_OVERFLOW_def)
    moreover have "buffer_size b' = buffer_size b" "length (buffer_space b') = length (buffer_space b)" using s'(2) by (simp_all add: b'_def)
    ultimately show ?thesis using l(2) by (simp add: buffer_print_ok_def buffer_ok_def word_le_nat_alt word_less_nat_alt)
  qed
  moreover have "buffer_content b' = take (?z - 1) (buffer_content b @ f)"
    using s'(3) len by (simp add: buffer_content_def b'_def)
  moreover have "sxe_buffer_is_overflow b' \<longleftrightarrow> sxe_buffer_is_overflow b \<or> ?z - 1 < length (buffer_content b @ f)"
    using fits c l(1) by (auto simp: sxe_buffer_is_overflow_def b'_def SXE_BUFFER_FLAG_OVERFLOW_def)
  ultimately show ?thesis by (auto simp: b'_def)
qed

lemma cstr_vprintf_ok:
  assumes "cstr_ok b" and "length f < 2 ^ 31"
  shows "\<exists>b'. map_option snd (sxe_cstr_vprintf b f) = Some b' \<and> cstr_ok b' \<and> unat (cstr_size b') - 1 = unat (cstr_size b) - 1 \<and>
    cstr_content b' = take (unat (cstr_size b) - 1) (cstr_content b @ f) \<and>
    (sxe_cstr_is_overflow b' \<longleftrightarrow> sxe_cstr_is_overflow b \<or> unat (cstr_size b) - 1 < length (cstr_content b @ f))"
proof -
  let ?l = "unat (cstr_len b)" and ?z = "unat (cstr_size b)"
  have l: "?l < ?z" "?z \<le> length (cstr_buf b)" "\<not> cstr_is_const b" "?z \<le> 2 ^ 16"
    using assms(1) by (simp_all add: cstr_ok_def word_less_nat_alt unat_ucast_up)
  have c: "length (cstr_content b) = ?l" using l by (simp add: cstr_content_def)
  define size1 where "size1 = cstr_size b - ucast (cstr_len b)"
  have size1: "unat size1 = ?z - ?l" using l(1) by (simp add: size1_def unat_sub_if' unat_ucast_up)
  obtain s' where s': "vsnprintf ?l (?z - ?l) f (cstr_buf b) = Some s'" "length s' = length (cstr_buf b)"
    "take (min (?z - 1) (?l + length f)) s' = take (?z - 1) (take ?l (cstr_buf b) @ f)"
    by (rule vsnprintf_content[OF l(1,2)])
  define fits where "fits \<longleftrightarrow> of_nat (length f) < size1"
  have fits: "fits \<longleftrightarrow> ?l + length f < ?z" using size1 assms(2) l(1) by (auto simp: fits_def word_less_nat_alt unat_of_nat_small)
  define b' where "b' = b\<lparr>cstr_buf := s', cstr_flags := (if fits then cstr_flags b else cstr_flags b OR SXE_CSTR_FLAG_OVERFLOW),
    cstr_len := (if fits then cstr_len b + ucast (of_nat (length f) :: u32) else ucast (cstr_size b - 1))\<rparr>"
  have "map_option snd (sxe_cstr_vprintf b f) = Some b'"
    using l(3) s'(1) printf_result_small[OF assms(2)] by (simp add: sxe_cstr_vprintf_def Let_def size1_def[symmetric] size1 fits_def[symmetric] b'_def)
  moreover have len: "unat (cstr_len b') = min (?z - 1) (?l + length f)"
  proof (cases fits)
    case True
    have "unat (of_nat (length f) :: u32) = length f" using assms(2) by (simp add: unat_of_nat_small)
    from unat_add_ucast[OF this, of "cstr_len b"] True fits l(4) show ?thesis by (simp add: b'_def)
  next
    case False
    have "unat (cstr_size b - 1) = ?z - 1" using l(1) by (simp add: unat_sub_if' unat_eq_zero)
    then have "unat (0 + ucast (cstr_size b - 1) :: u16) = ?z - 1" using unat_add_ucast[of "cstr_size b - 1" "?z - 1" 0] l(1,4) by simp
    then show ?thesis using fits False by (simp add: b'_def)
  qed
  moreover have "cstr_ok b'"
  proof -
    have "unat (cstr_len b') < ?z" using len l(1) by linarith
    moreover have "\<not> cstr_is_const b'" using l(3) by (simp add: b'_def SXE_CSTR_FLAG_IS_CONST_def SXE_CSTR_FLAG_OVERFLOW_def)
    moreover have "cstr_size b' = cstr_size b" "length (cstr_buf b') = length (cstr_buf b)" using s'(2) by (simp_all add: b'_def)
    ultimately show ?thesis using l(2,4) by (simp add: cstr_ok_def word_less_nat_alt unat_ucast_up)
  qed
  moreover have "cstr_content b' = take (?z - 1) (cstr_content b @ f)"
    using s'(3) len by (simp add: cstr_content_def b'_def)
  moreover have "sxe_cstr_is_overflow b' \<longleftrightarrow> sxe_cstr_is_overflow b \<or> ?z - 1 < length (cstr_content b @ f)"
    using fits c l(1) by (auto simp: sxe_cstr_is_overflow_def b'_def SXE_CSTR_FLAG_OVERFLOW_def)
  ultimately show ?thesis by (auto simp: b'_def)
qed

interpretation buffer_copy: bounded_string buffer_ok buffer_content "\<lambda>b. unat (buffer_size b)" sxe_buffer_is_overflow
    "\<lambda>b data. sxe_buffer_memcpy b data (of_nat (length data))" "2 ^ 32"
proof
  show "\<And>b. buffer_ok b \<Longrightarrow> length (buffer_content b) \<le> unat (buffer_size b)"
    by (auto simp: buffer_ok_def buffer_content_def word_le_nat_alt)
qed (use buffer_memcpy_ok in fastforce)

interpretation buffer_print: bounded_string buffer_print_ok buffer_content "\<lambda>b. unat (buffer_size b) - 1" sxe_buffer_is_overflow
    "\<lambda>b f. map_option snd (sxe_buffer_vprintf b f)" "2 ^ 31"
proof
  show "\<And>b. buffer_print_ok b \<Longrightarrow> length (buffer_content b) \<le> unat (buffer_size b) - 1"
    by (auto simp: buffer_print_ok_def buffer_ok_def buffer_content_def word_less_nat_alt)
qed (rule buffer_vprintf_ok)

interpretation cstr_print: bounded_string cstr_ok cstr_content "\<lambda>c. unat (cstr_size c) - 1" sxe_cstr_is_overflow
    "\<lambda>c f. map_option snd (sxe_cstr_vprintf c f)" "2 ^ 31"
proof
  show "\<And>c. cstr_ok c \<Longrightarrow> length (cstr_content c) \<le> unat (cstr_size c) - 1"
    by (auto simp: cstr_ok_def cstr_content_def word_less_nat_alt unat_ucast_up)
qed (rule cstr_vprintf_ok)

section \<open>Concrete strings\<close>

text \<open>
  C27: copying any sequence of pieces of data into a buffer never writes outside its space and never aborts; the buffer then holds
  the longest prefix of its old content and the pieces that fits its size, and reports an overflow exactly if it did before
  or something was cut off.
\<close>

theorem sxe_buffer_memcpy_sequence:
  assumes "buffer_ok b" and "\<forall>d \<in> set ds. length d < 2 ^ 32"
  shows "\<exists>b'. foldM (\<lambda>b data. sxe_buffer_memcpy b data (of_nat (length data))) b ds = Some b' \<and> buffer_ok b' \<and>
    buffer_content b' = take (unat (buffer_size b)) (buffer_content b @ concat ds) \<and>
    (sxe_buffer_is_overflow b' \<longleftrightarrow> sxe_buffer_is_overflow b \<or> unat (buffer_size b) < length (buffer_content b @ concat ds))"
  using buffer_copy.append_all[OF assms] by blast

theorem sxe_buffer_memcpy_sequence_witness:
  "\<exists>b'. foldM (\<lambda>b data. sxe_buffer_memcpy b data (of_nat (length data))) buffer_demo [lit ''cd'', lit ''efg''] = Some b' \<and>
    buffer_content b' = lit ''abcde'' \<and> sxe_buffer_is_overflow b'"
proof -
  have "buffer_ok buffer_demo" "buffer_content buffer_demo = lit ''ab''" "unat (buffer_size buffer_demo) = 5"
    by (simp_all add: buffer_demo_def sxe_buffer_construct_def buffer_ok_def buffer_content_def lit_def
      SXE_BUFFER_FLAG_IS_CONST_def SXE_BUFFER_FLAG_IS_CSTR_def)
  then show ?thesis
    using sxe_buffer_memcpy_sequence[of buffer_demo "[lit ''cd'', lit ''efg'']"] by (auto simp: lit_def)
qed

text \<open>
  C28: printing any sequence of formatted texts to a counted C string of at most \<open>2 ^ 16\<close> bytes never writes outside
  its space and never aborts; the string then holds the longest prefix that leaves room for a NUL, and reports an
  overflow exactly if it did before or something was cut off.
\<close>

theorem sxe_cstr_vprintf_sequence:
  assumes "cstr_ok c" and "\<forall>f \<in> set fs. length f < 2 ^ 31"
  shows "\<exists>c'. foldM (\<lambda>c f. map_option snd (sxe_cstr_vprintf c f)) c fs = Some c' \<and> cstr_ok c' \<and>
    cstr_content c' = take (unat (cstr_size c) - 1) (cstr_content c @ concat fs) \<and>
    (sxe_cstr_is_overflow c' \<longleftrightarrow> sxe_cstr_is_overflow c \<or> unat (cstr_size c) - 1 < length (cstr_content c @ concat fs))"
  using cstr_print.append_all[OF assms] by blast

theorem sxe_cstr_vprintf_sequence_witness:
  "\<exists>c'. foldM (\<lambda>c f. map_option snd (sxe_cstr_vprintf c f)) cstr_demo [lit ''c'', lit ''defg''] = Some c' \<and>
    cstr_content c' = lit ''abcd'' \<and> sxe_cstr_is_overflow c'"
proof -
  have "cstr_ok cstr_demo" "cstr_content cstr_demo = lit ''ab''" "unat (cstr_size cstr_demo) = 5"
    by (simp_all add: cstr_demo_def sxe_cstr_construct_def cstr_ok_def cstr_content_def lit_def
      SXE_CSTR_FLAG_IS_CONST_def SXE_CSTR_FLAG_IS_CSTR_def)
  then show ?thesis
    using sxe_cstr_vprintf_sequence[of cstr_demo "[lit ''c'', lit ''defg'']"] by (auto simp: lit_def)
qed

end
