(* ===== verification/SxeJitsonSource.thy ===== *)
theory SxeJitsonSource
  imports SxePrelude
begin

text \<open>
  The lexical layer of \<^verbatim>\<open>lib-sxe-jitson\<close>: the encoder of code points (\<^verbatim>\<open>sxe-unicode.c\<close>) and the sources the
  parser reads from (\<^verbatim>\<open>sxe-jitson-source.c\<close>). A source is the list of the bytes that can be read at its
  text with the offset of the next one; its end is \<^const>\<open>None\<close> where the text is NUL-terminated and the code
  uses the largest pointer. A read outside the bytes and a failed assertion are \<^const>\<open>None\<close>.
\<close>

unbundle bit_operations_syntax

section \<open>Code points\<close>

text \<open>The bytes stored at \<open>utf_out\<close>; their number is the result of the code, 0 for what is no code point.\<close>

definition sxe_unicode_to_utf8 :: "u32 \<Rightarrow> u8 list" where
  "sxe_unicode_to_utf8 unicode =
    (if unicode \<le> 0x7F then [ucast unicode]
     else if unicode \<le> 0x7FF then
       [ucast (0xC0 OR drop_bit 6 unicode), ucast (0x80 OR (unicode AND 0x3F))]
     else if unicode \<le> 0xFFFF then
       [ucast (0xE0 OR drop_bit 12 unicode), ucast (0x80 OR (drop_bit 6 unicode AND 0x3F)), ucast (0x80 OR (unicode AND 0x3F))]
     else if unicode \<le> 0x10FFFF then
       [ucast (0xF0 OR drop_bit 18 unicode), ucast (0x80 OR (drop_bit 12 unicode AND 0x3F)),
        ucast (0x80 OR (drop_bit 6 unicode AND 0x3F)), ucast (0x80 OR (unicode AND 0x3F))]
     else [])"

section \<open>Sources\<close>

record sxe_jitson_source =
  src_json :: "u8 list"
  src_next :: nat
  src_end :: "nat option"
  src_flags :: u32

definition SXE_JITSON_FLAG_STRICT :: u32 where "SXE_JITSON_FLAG_STRICT = 0"
definition SXE_JITSON_FLAG_ALLOW_HEX :: u32 where "SXE_JITSON_FLAG_ALLOW_HEX = 0x00000001"
definition SXE_JITSON_FLAG_ALLOW_CONSTS :: u32 where "SXE_JITSON_FLAG_ALLOW_CONSTS = 0x00000002"
definition SXE_JITSON_FLAG_ALLOW_IDENTS :: u32 where "SXE_JITSON_FLAG_ALLOW_IDENTS = 0x00000004"

definition sxe_jitson_source_from_buffer :: "u8 list \<Rightarrow> nat \<Rightarrow> u32 \<Rightarrow> sxe_jitson_source" where
  "sxe_jitson_source_from_buffer string len flags = \<lparr>src_json = string, src_next = 0, src_end = Some len, src_flags = flags\<rparr>"

definition sxe_jitson_source_from_string :: "u8 list \<Rightarrow> u32 \<Rightarrow> sxe_jitson_source" where
  "sxe_jitson_source_from_string string flags = \<lparr>src_json = string, src_next = 0, src_end = None, src_flags = flags\<rparr>"

definition src_at_end :: "sxe_jitson_source \<Rightarrow> bool" where
  "src_at_end src = (case src_end src of None \<Rightarrow> False | Some e \<Rightarrow> e \<le> src_next src)"

definition src_byte :: "sxe_jitson_source \<Rightarrow> nat \<Rightarrow> u8 option" where
  "src_byte src k = (if k < length (src_json src) then Some (src_json src ! k) else None)"

definition sxe_jitson_source_get_char :: "sxe_jitson_source \<Rightarrow> (u8 \<times> sxe_jitson_source) option" where
  "sxe_jitson_source_get_char src =
    (if src_at_end src then Some (0, src)
     else do { c \<leftarrow> src_byte src (src_next src); Some (c, src\<lparr>src_next := src_next src + 1\<rparr>) })"

definition sxe_jitson_source_push_char :: "sxe_jitson_source \<Rightarrow> u8 \<Rightarrow> sxe_jitson_source option" where
  "sxe_jitson_source_push_char src c = do {
     SXEA1 (0 < src_next src);
     let src = src\<lparr>src_next := src_next src - 1\<rparr>;
     d \<leftarrow> src_byte src (src_next src);
     SXEA1 (d = c);
     Some src
   }"

definition source_peek_next :: "sxe_jitson_source \<Rightarrow> u8 option" where
  "source_peek_next src = (if src_at_end src then Some 0 else src_byte src (src_next src))"

text \<open>The C library's character classes in the C locale.\<close>

definition isspace :: "u8 \<Rightarrow> bool" where
  "isspace c \<longleftrightarrow> c = 32 \<or> 9 \<le> c \<and> c \<le> 13"

definition isdigit :: "u8 \<Rightarrow> bool" where
  "isdigit c \<longleftrightarrow> 48 \<le> c \<and> c \<le> 57"

definition isxdigit :: "u8 \<Rightarrow> bool" where
  "isxdigit c \<longleftrightarrow> isdigit c \<or> 65 \<le> c \<and> c \<le> 70 \<or> 97 \<le> c \<and> c \<le> 102"

text \<open>The loops \<^verbatim>\<open>while (p(source_peek_next(source))) source->next++;\<close> of this file.\<close>

partial_function (option) skip_while :: "(u8 \<Rightarrow> bool) \<Rightarrow> sxe_jitson_source \<Rightarrow> sxe_jitson_source option" where
  "skip_while p src = do {
     c \<leftarrow> source_peek_next src;
     if p c then skip_while p (src\<lparr>src_next := src_next src + 1\<rparr>) else Some src
   }"

definition sxe_jitson_source_get_nonspace :: "sxe_jitson_source \<Rightarrow> (u8 \<times> sxe_jitson_source) option" where
  "sxe_jitson_source_get_nonspace src = do {
     src \<leftarrow> skip_while isspace src;
     sxe_jitson_source_get_char src
   }"

definition identifier_chars :: "u64 list" where
  "identifier_chars = [0x03FF400000000000, 0x07FFFFFE87FFFFFE, 0, 0]"

definition is_identifier_char :: "u8 \<Rightarrow> bool" where
  "is_identifier_char c \<longleftrightarrow> identifier_chars ! unat (drop_bit 6 c) AND push_bit (unat (c AND 0x3F)) 1 \<noteq> 0"

text \<open>The result is the offset of the identifier (\<^const>\<open>None\<close> for NULL), its length and the source after it.\<close>

definition sxe_jitson_source_get_identifier :: "sxe_jitson_source \<Rightarrow> (nat option \<times> nat \<times> sxe_jitson_source) option" where
  "sxe_jitson_source_get_identifier src = do {
     let identifier = src_next src;
     src \<leftarrow> skip_while is_identifier_char src;
     let len = src_next src - identifier;
     Some (if len \<noteq> 0 then Some identifier else None, len, src)
   }"

definition sxe_jitson_parse_identifier :: "u32 \<Rightarrow> u8 list \<Rightarrow> nat option" where
  "sxe_jitson_parse_identifier flags json = do {
     let src = sxe_jitson_source_from_string json flags;
     (_, len, _) \<leftarrow> sxe_jitson_source_get_identifier src;
     Some len
   }"

definition sxe_jitson_source_get_flags :: "sxe_jitson_source \<Rightarrow> u32" where
  "sxe_jitson_source_get_flags src = src_flags src"

definition sxe_jitson_source_get_consumed :: "sxe_jitson_source \<Rightarrow> nat" where
  "sxe_jitson_source_get_consumed src = src_next src"

subsection \<open>Numbers\<close>

definition src_advance :: "sxe_jitson_source \<Rightarrow> sxe_jitson_source" where
  "src_advance src = src\<lparr>src_next := src_next src + 1\<rparr>"

text \<open>The fraction and the exponent: \<^const>\<open>None\<close> inside is the jump to \<^verbatim>\<open>INVALID\<close>, otherwise whether there was one.\<close>

definition get_fraction :: "sxe_jitson_source \<Rightarrow> (bool option \<times> sxe_jitson_source) option" where
  "get_fraction src = do {
     c \<leftarrow> source_peek_next src;
     if c = 0x2E then do {
       let src = src_advance src;
       c \<leftarrow> source_peek_next src;
       if \<not> isdigit c then Some (None, src)
       else do { src \<leftarrow> skip_while isdigit src; Some (Some True, src) }
     } else Some (Some False, src)
   }"

definition get_exponent :: "sxe_jitson_source \<Rightarrow> (bool option \<times> sxe_jitson_source) option" where
  "get_exponent src = do {
     c \<leftarrow> source_peek_next src;
     if c = 0x45 \<or> c = 0x65 then do {
       let src = src_advance src;
       c \<leftarrow> source_peek_next src;
       let src = (if c = 0x2D \<or> c = 0x2B then src_advance src else src);
       c \<leftarrow> source_peek_next src;
       if \<not> isdigit c then Some (None, src)
       else do { src \<leftarrow> skip_while isdigit src; Some (Some True, src) }
     } else Some (Some False, src)
   }"

text \<open>
  The result is \<^const>\<open>None\<close> for no valid number (NULL, with \<open>errno\<close> set to \<open>EINVAL\<close>), otherwise the offset of the number, its
  length and whether it is an unsigned integer.
\<close>

definition sxe_jitson_source_get_number :: "sxe_jitson_source \<Rightarrow> ((nat \<times> nat \<times> bool) option \<times> sxe_jitson_source) option" where
  "sxe_jitson_source_get_number src = do {
     let number = src_next src;
     c \<leftarrow> source_peek_next src;
     let (is_uint, src) = (if c = 0x2D then (False, src_advance src) else (True, src));
     c \<leftarrow> source_peek_next src;
     if \<not> isdigit c then Some (None, src)
     else do {
       let src = src_advance src;
       first \<leftarrow> src_byte src number;
       c \<leftarrow> source_peek_next src;
       if src_flags src AND SXE_JITSON_FLAG_ALLOW_HEX \<noteq> 0 \<and> first = 0x30 \<and> c = 0x78 then do {
         src \<leftarrow> skip_while isxdigit (src_advance src);
         if src_next src - number \<le> 2 then Some (None, src)
         else Some (Some (number, src_next src - number, is_uint), src)
       } else do {
         src \<leftarrow> skip_while isdigit src;
         (fraction, src) \<leftarrow> get_fraction src;
         case fraction of
           None \<Rightarrow> Some (None, src)
         | Some has_fraction \<Rightarrow> do {
             (exponent, src) \<leftarrow> get_exponent src;
             case exponent of
               None \<Rightarrow> Some (None, src)
             | Some has_exponent \<Rightarrow>
                 Some (Some (number, src_next src - number, is_uint \<and> \<not> has_fraction \<and> \<not> has_exponent), src)
           }
       }
     }
   }"

section \<open>Decoding\<close>

text \<open>
  A decoder read off both columns of the table of RFC 3629: the bits of the octets give the character number, which has to be in the
  range of the row, so that no longer encoding of it is decoded. (The text of the RFC also forbids the numbers of surrogates, U+D800 to
  U+DFFF, which the table has in its range; so does not the code.)
\<close>

definition utf8_trail :: "u8 \<Rightarrow> bool" where
  "utf8_trail b \<longleftrightarrow> b AND 0xC0 = 0x80"

fun utf8_decode :: "u8 list \<Rightarrow> u32 option" where
  "utf8_decode [a] = (if a AND 0x80 = 0 then Some (ucast a) else None)"
| "utf8_decode [a, b] =
    (let u = push_bit 6 (ucast (a AND 0x1F)) OR ucast (b AND 0x3F)
     in if a AND 0xE0 = 0xC0 \<and> utf8_trail b \<and> 0x80 \<le> u \<and> u \<le> 0x7FF then Some u else None)"
| "utf8_decode [a, b, c] =
    (let u = push_bit 12 (ucast (a AND 0x0F)) OR push_bit 6 (ucast (b AND 0x3F)) OR ucast (c AND 0x3F)
     in if a AND 0xF0 = 0xE0 \<and> utf8_trail b \<and> utf8_trail c \<and> 0x800 \<le> u \<and> u \<le> 0xFFFF then Some u else None)"
| "utf8_decode [a, b, c, d] =
    (let u = push_bit 18 (ucast (a AND 0x07)) OR push_bit 12 (ucast (b AND 0x3F)) OR push_bit 6 (ucast (c AND 0x3F)) OR ucast (d AND 0x3F)
     in if a AND 0xF8 = 0xF0 \<and> utf8_trail b \<and> utf8_trail c \<and> utf8_trail d \<and> 0x10000 \<le> u \<and> u \<le> 0x10FFFF then Some u else None)"
| "utf8_decode _ = None"

text \<open>A statement on the bits of a word of known size is checked bit by bit.\<close>

lemmas bit_by_bit = bit_simps lessThan_nat_numeral lessThan_Suc

text \<open>
  What is left of a source; a source that reads a NUL-terminated string has a NUL among what is left, and its text is what
  comes before the NUL.
\<close>

definition src_rest :: "sxe_jitson_source \<Rightarrow> u8 list" where
  "src_rest src = drop (src_next src) (src_json src)"

definition src_skip :: "nat \<Rightarrow> sxe_jitson_source \<Rightarrow> sxe_jitson_source" where
  "src_skip k src = src\<lparr>src_next := src_next src + k\<rparr>"

text \<open>The parts of a number.\<close>

definition num_digits :: "u8 list \<Rightarrow> bool" where
  "num_digits ds \<longleftrightarrow> ds \<noteq> [] \<and> (\<forall>c \<in> set ds. isdigit c)"

definition num_sign :: "u8 list \<Rightarrow> bool" where
  "num_sign s \<longleftrightarrow> s = [] \<or> s = [0x2D]"

definition num_fraction :: "u8 list \<Rightarrow> bool" where
  "num_fraction f \<longleftrightarrow> f = [] \<or> (\<exists>ds. f = 0x2E # ds \<and> num_digits ds)"

definition num_exponent :: "u8 list \<Rightarrow> bool" where
  "num_exponent e \<longleftrightarrow> e = [] \<or>
    (\<exists>c s ds. e = c # s @ ds \<and> (c = 0x45 \<or> c = 0x65) \<and> (s = [] \<or> s = [0x2D] \<or> s = [0x2B]) \<and> num_digits ds)"

text \<open>The byte after a number does not continue it.\<close>

definition num_follow :: "u8 list \<Rightarrow> u8 list \<Rightarrow> u8 \<Rightarrow> bool" where
  "num_follow f e d \<longleftrightarrow> \<not> isdigit d \<and> (e = [] \<longrightarrow> d \<noteq> 0x45 \<and> d \<noteq> 0x65) \<and> (f = [] \<and> e = [] \<longrightarrow> d \<noteq> 0x2E)"

text \<open>
  The integer part of a number: RFC 8259 allows a single zero or digits that do not start with zero. The scanner also takes digits with
  zeros before them.
\<close>

definition rfc_int :: "u8 list \<Rightarrow> bool" where
  "rfc_int ds \<longleftrightarrow> num_digits ds \<and> (ds = [0x30] \<or> hd ds \<noteq> 0x30)"

definition zeros_int :: "u8 list \<Rightarrow> bool" where
  "zeros_int ds \<longleftrightarrow> num_digits ds \<and> hd ds = 0x30 \<and> tl ds \<noteq> []"

text \<open>
  The text of a source starts with a number, whose integer part is as \<open>whole\<close> says and which the next byte does not continue. With
  \<^const>\<open>rfc_int\<close> these are the numbers of RFC 8259.
\<close>

definition number_at :: "(u8 list \<Rightarrow> bool) \<Rightarrow> sxe_jitson_source \<Rightarrow> nat \<Rightarrow> nat \<Rightarrow> bool \<Rightarrow> bool" where
  "number_at whole src number len is_uint \<longleftrightarrow>
    (\<exists>s ds f e d r. src_rest src = (s @ ds @ f @ e) @ d # r \<and> num_sign s \<and> whole ds \<and> num_fraction f \<and> num_exponent e
      \<and> num_follow f e d \<and> number = src_next src \<and> len = length (s @ ds @ f @ e) \<and> is_uint = (s = [] \<and> f = [] \<and> e = []))"

lemma byte_eqI:
  fixes u v :: u8
  assumes "\<forall>n \<in> {..<8}. bit u n = bit v n"
  shows "u = v"
  by (rule bit_word_eqI) (use assms in auto)

lemma high_bit_zero:
  fixes u :: u32
  assumes "unat u < 2 ^ k" and "k \<le> n"
  shows "\<not> bit u n"
proof
  assume b: "bit u n"
  then have "bit (unat u) n" by (simp add: bit_unsigned_iff)
  moreover have "take_bit k (unat u) = unat u" using assms(1) by (simp add: take_bit_nat_eq_self)
  ultimately show False using assms(2) by (metis bit_take_bit_iff linorder_not_le)
qed

lemma word32_eqI:
  fixes u v :: u32
  assumes "\<forall>n \<in> {..<32}. bit u n = bit v n"
  shows "u = v"
  by (rule bit_word_eqI) (use assms in auto)

lemmas high_bits_zero = high_bit_zero[of _ 7, simplified] high_bit_zero[of _ 11, simplified] high_bit_zero[of _ 16, simplified]
  high_bit_zero[of _ 21, simplified]

lemma utf8_trail_byte: "utf8_trail (ucast (0x80 OR (v AND 0x3F) :: u32))"
  unfolding utf8_trail_def
  by (rule byte_eqI) (simp add: bit_by_bit)

lemma utf8_lead_byte:
  fixes u :: u32
  shows "unat u < 2 ^ 11 \<Longrightarrow> (ucast (0xC0 OR drop_bit 6 u) :: u8) AND 0xE0 = 0xC0"
    and "unat u < 2 ^ 16 \<Longrightarrow> (ucast (0xE0 OR drop_bit 12 u) :: u8) AND 0xF0 = 0xE0"
    and "unat u < 2 ^ 21 \<Longrightarrow> (ucast (0xF0 OR drop_bit 18 u) :: u8) AND 0xF8 = 0xF0"
    and "unat u < 2 ^ 7 \<Longrightarrow> (ucast u :: u8) AND 0x80 = 0"
  by (rule byte_eqI, simp add: bit_by_bit high_bits_zero)+

lemma utf8_join_1: "unat u < 2 ^ 7 \<Longrightarrow> ucast (ucast u :: u8) = (u :: u32)"
  by (rule word32_eqI) (simp add: bit_by_bit high_bits_zero)

lemma utf8_join_2:
  fixes u :: u32
  assumes "unat u < 2 ^ 11"
  shows "push_bit 6 (ucast ((ucast (0xC0 OR drop_bit 6 u) :: u8) AND 0x1F)) OR ucast ((ucast (0x80 OR (u AND 0x3F)) :: u8) AND 0x3F) = u"
  by (rule word32_eqI) (simp add: bit_by_bit high_bit_zero[OF assms])

lemma utf8_join_3:
  fixes u :: u32
  assumes "unat u < 2 ^ 16"
  shows "push_bit 12 (ucast ((ucast (0xE0 OR drop_bit 12 u) :: u8) AND 0x0F)) OR
    push_bit 6 (ucast ((ucast (0x80 OR (drop_bit 6 u AND 0x3F)) :: u8) AND 0x3F)) OR
    ucast ((ucast (0x80 OR (u AND 0x3F)) :: u8) AND 0x3F) = u"
  by (rule word32_eqI) (simp add: bit_by_bit high_bit_zero[OF assms])

lemma utf8_join_4:
  fixes u :: u32
  assumes "unat u < 2 ^ 21"
  shows "push_bit 18 (ucast ((ucast (0xF0 OR drop_bit 18 u) :: u8) AND 0x07)) OR
    push_bit 12 (ucast ((ucast (0x80 OR (drop_bit 12 u AND 0x3F)) :: u8) AND 0x3F)) OR
    push_bit 6 (ucast ((ucast (0x80 OR (drop_bit 6 u AND 0x3F)) :: u8) AND 0x3F)) OR
    ucast ((ucast (0x80 OR (u AND 0x3F)) :: u8) AND 0x3F) = u"
  by (rule word32_eqI) (simp add: bit_by_bit high_bit_zero[OF assms])

lemma masked_bits:
  fixes a :: u8
  assumes "a AND m = v" and "bit m n"
  shows "bit a n = bit v n"
  using assms(2) by (simp flip: assms(1) add: bit_and_iff)

lemma masked_lead:
  fixes a :: u8
  shows "a AND 0xE0 = 0xC0 \<Longrightarrow> bit a 7 \<and> bit a 6 \<and> \<not> bit a 5"
    and "a AND 0xF0 = 0xE0 \<Longrightarrow> bit a 7 \<and> bit a 6 \<and> bit a 5 \<and> \<not> bit a 4"
    and "a AND 0xF8 = 0xF0 \<Longrightarrow> bit a 7 \<and> bit a 6 \<and> bit a 5 \<and> bit a 4 \<and> \<not> bit a 3"
    and "a AND 0x80 = 0 \<Longrightarrow> \<not> bit a 7"
    and "utf8_trail a \<Longrightarrow> bit a 7 \<and> \<not> bit a 6"
  using masked_bits[of a "0xE0" "0xC0" 7] masked_bits[of a "0xE0" "0xC0" 6] masked_bits[of a "0xE0" "0xC0" 5]
    masked_bits[of a "0xF0" "0xE0" 7] masked_bits[of a "0xF0" "0xE0" 6] masked_bits[of a "0xF0" "0xE0" 5] masked_bits[of a "0xF0" "0xE0" 4]
    masked_bits[of a "0xF8" "0xF0" 7] masked_bits[of a "0xF8" "0xF0" 6] masked_bits[of a "0xF8" "0xF0" 5] masked_bits[of a "0xF8" "0xF0" 4] masked_bits[of a "0xF8" "0xF0" 3]
    masked_bits[of a "0x80" "0" 7]
    masked_bits[of a "0xC0" "0x80" 7] masked_bits[of a "0xC0" "0x80" 6]
  by (simp_all add: utf8_trail_def bit_by_bit)

lemma utf8_split_1: "(a :: u8) AND 0x80 = 0 \<Longrightarrow> (ucast a :: u32) \<le> 0x7F"
proof -
  assume a: "(a :: u8) AND 0x80 = 0"
  have "a = a AND 0x7F" by (rule byte_eqI) (use masked_lead(4)[OF a] in \<open>simp add: bit_by_bit\<close>)
  then have "a \<le> 0x7F" by (metis word_and_le1)
  then show ?thesis by (simp add: word_le_nat_alt unat_ucast_up)
qed

lemma utf8_split_2:
  fixes a b :: u8
  assumes "a AND 0xE0 = 0xC0" "utf8_trail b"
  defines "u \<equiv> push_bit 6 (ucast (a AND 0x1F)) OR ucast (b AND 0x3F) :: u32"
  shows "ucast (0xC0 OR drop_bit 6 u) = a" "ucast (0x80 OR (u AND 0x3F)) = b"
  unfolding u_def using masked_lead(1)[OF assms(1)] masked_lead(5)[OF assms(2)]
  by - (rule byte_eqI, simp add: bit_by_bit)+

lemma utf8_split_3:
  fixes a b c :: u8
  assumes "a AND 0xF0 = 0xE0" "utf8_trail b" "utf8_trail c"
  defines "u \<equiv> push_bit 12 (ucast (a AND 0x0F)) OR push_bit 6 (ucast (b AND 0x3F)) OR ucast (c AND 0x3F) :: u32"
  shows "ucast (0xE0 OR drop_bit 12 u) = a" "ucast (0x80 OR (drop_bit 6 u AND 0x3F)) = b" "ucast (0x80 OR (u AND 0x3F)) = c"
  unfolding u_def using masked_lead(2)[OF assms(1)] masked_lead(5)[OF assms(2)] masked_lead(5)[OF assms(3)]
  by - (rule byte_eqI, simp add: bit_by_bit)+

lemma utf8_split_4:
  fixes a b c d :: u8
  assumes "a AND 0xF8 = 0xF0" "utf8_trail b" "utf8_trail c" "utf8_trail d"
  defines "u \<equiv> push_bit 18 (ucast (a AND 0x07)) OR push_bit 12 (ucast (b AND 0x3F)) OR push_bit 6 (ucast (c AND 0x3F)) OR ucast (d AND 0x3F) :: u32"
  shows "ucast (0xF0 OR drop_bit 18 u) = a" "ucast (0x80 OR (drop_bit 12 u AND 0x3F)) = b" "ucast (0x80 OR (drop_bit 6 u AND 0x3F)) = c"
    "ucast (0x80 OR (u AND 0x3F)) = d"
  unfolding u_def using masked_lead(3)[OF assms(1)] masked_lead(5)[OF assms(2)] masked_lead(5)[OF assms(3)] masked_lead(5)[OF assms(4)]
  by - (rule byte_eqI, simp add: bit_by_bit)+

lemma utf8_decode_encoded: "unicode \<le> 0x10FFFF \<Longrightarrow> utf8_decode (sxe_unicode_to_utf8 unicode) = Some unicode"
  by (auto simp: sxe_unicode_to_utf8_def utf8_trail_byte utf8_lead_byte utf8_join_1 utf8_join_2 utf8_join_3 utf8_join_4 word_le_nat_alt
      word_less_nat_alt Let_def)

lemma utf8_byte_id: "(ucast (ucast a :: u32) :: u8) = a"
  by (rule byte_eqI) (simp add: bit_by_bit)

lemma utf8_encode_decoded:
  assumes "utf8_decode bytes = Some unicode"
  shows "unicode \<le> 0x10FFFF \<and> sxe_unicode_to_utf8 unicode = bytes"
  using assms
proof (cases bytes rule: utf8_decode.cases)
  case (1 a)
  then have a: "a AND 0x80 = 0" "unicode = ucast a" using assms by (auto split: if_splits)
  have "unicode \<le> 0x7F" using utf8_split_1[OF a(1)] a(2) by simp
  then show ?thesis using 1 a(2) order_trans[of unicode "0x7F" "0x10FFFF"] by (simp add: sxe_unicode_to_utf8_def utf8_byte_id)
next
  case (2 a b)
  then have u: "a AND 0xE0 = 0xC0" "utf8_trail b" "unicode = push_bit 6 (ucast (a AND 0x1F)) OR ucast (b AND 0x3F)" "0x80 \<le> unicode" "unicode \<le> 0x7FF"
    using assms by (auto simp: Let_def split: if_splits)
  note s = utf8_split_2[OF u(1,2), folded u(3)]
  have "\<not> unicode \<le> 0x7F" using u(4) by (simp add: word_le_nat_alt)
  then show ?thesis using 2 s u(5) order_trans[of unicode "0x7FF" "0x10FFFF"] by (simp add: sxe_unicode_to_utf8_def)
next
  case (3 a b c)
  then have u: "a AND 0xF0 = 0xE0" "utf8_trail b" "utf8_trail c"
      "unicode = push_bit 12 (ucast (a AND 0x0F)) OR push_bit 6 (ucast (b AND 0x3F)) OR ucast (c AND 0x3F)" "0x800 \<le> unicode" "unicode \<le> 0xFFFF"
    using assms by (auto simp: Let_def split: if_splits)
  note s = utf8_split_3[OF u(1-3), folded u(4)]
  have "\<not> unicode \<le> 0x7F" "\<not> unicode \<le> 0x7FF" using u(5) by (simp_all add: word_le_nat_alt)
  then show ?thesis using 3 s u(6) order_trans[of unicode "0xFFFF" "0x10FFFF"] by (simp add: sxe_unicode_to_utf8_def)
next
  case (4 a b c d)
  then have u: "a AND 0xF8 = 0xF0" "utf8_trail b" "utf8_trail c" "utf8_trail d"
      "unicode = push_bit 18 (ucast (a AND 0x07)) OR push_bit 12 (ucast (b AND 0x3F)) OR push_bit 6 (ucast (c AND 0x3F)) OR ucast (d AND 0x3F)"
      "0x10000 \<le> unicode" "unicode \<le> 0x10FFFF"
    using assms by (auto simp: Let_def split: if_splits)
  note s = utf8_split_4[OF u(1-4), folded u(5)]
  have "\<not> unicode \<le> 0x7F" "\<not> unicode \<le> 0x7FF" "\<not> unicode \<le> 0xFFFF" using u(6) by (simp_all add: word_le_nat_alt)
  then show ?thesis using 4 s u(7) by (simp add: sxe_unicode_to_utf8_def)
qed (use assms in auto)

section \<open>NUL-terminated sources\<close>

lemma peek_rest: "src_end src = None \<Longrightarrow> src_rest src = c # r \<Longrightarrow> source_peek_next src = Some c"
  by (auto simp: source_peek_next_def src_at_end_def src_byte_def src_rest_def nth_via_drop dest: drop_eq_Nil[THEN iffD2, OF leI, THEN sym] split: if_splits)
     (metis drop_all linorder_not_less list.distinct(1))

lemma get_char_rest: "src_end src = None \<Longrightarrow> src_rest src = c # r \<Longrightarrow> sxe_jitson_source_get_char src = Some (c, src_skip 1 src)"
  using peek_rest[of src c r]
  by (auto simp: sxe_jitson_source_get_char_def source_peek_next_def src_at_end_def src_skip_def)

lemma src_skip_simps [simp]:
  "src_end (src_skip k src) = src_end src" "src_flags (src_skip k src) = src_flags src" "src_json (src_skip k src) = src_json src"
  "src_next (src_skip k src) = src_next src + k" "src_skip 0 src = src" "src_skip k (src_skip l src) = src_skip (l + k) src"
  "src_advance src = src_skip 1 src" "src_rest (src_skip k src) = drop k (src_rest src)"
  by (simp_all add: src_skip_def src_advance_def src_rest_def add_ac)

lemma skip_while_rest:
  assumes "src_end src = None" and "src_rest src = xs @ d # r" and "\<forall>c \<in> set xs. p c" and "\<not> p d"
  shows "skip_while p src = Some (src_skip (length xs) src)"
  using assms
proof (induction xs arbitrary: src)
  case Nil
  then show ?case by (subst skip_while.simps) (simp add: peek_rest)
next
  case (Cons a xs)
  have "skip_while p (src_skip 1 src) = Some (src_skip (length xs) (src_skip 1 src))"
    by (rule Cons.IH) (use Cons.prems in auto)
  then show ?case using Cons.prems
    by (subst skip_while.simps) (simp add: peek_rest src_skip_def[of "Suc 0" src])
qed

lemma push_char_rest:
  assumes "src_rest src = c # r"
  shows "sxe_jitson_source_push_char (src_skip 1 src) c = Some src"
proof -
  have "src_next src < length (src_json src)" using assms by (auto simp: src_rest_def intro: ccontr)
  then show ?thesis using assms by (simp add: sxe_jitson_source_push_char_def src_byte_def src_rest_def nth_via_drop src_skip_def)
qed

lemma get_nonspace_rest:
  assumes "src_end src = None" and "src_rest src = xs @ d # r" and "\<forall>c \<in> set xs. isspace c" and "\<not> isspace d"
  shows "sxe_jitson_source_get_nonspace src = Some (d, src_skip (length xs + 1) src)"
  using assms by (simp add: sxe_jitson_source_get_nonspace_def skip_while_rest get_char_rest)

lemma get_identifier_rest:
  assumes "src_end src = None" and "src_rest src = xs @ d # r" and "\<forall>c \<in> set xs. is_identifier_char c" and "\<not> is_identifier_char d"
    and "xs \<noteq> []"
  shows "sxe_jitson_source_get_identifier src = Some (Some (src_next src), length xs, src_skip (length xs) src)"
  using assms by (simp add: sxe_jitson_source_get_identifier_def skip_while_rest)

subsection \<open>Numbers\<close>

lemma digit_not_special: "isdigit c \<Longrightarrow> c \<noteq> 0x2D \<and> c \<noteq> 0x2B \<and> c \<noteq> 0x2E \<and> c \<noteq> 0x45 \<and> c \<noteq> 0x65 \<and> c \<noteq> 0x78 \<and> c \<noteq> 0"
  by (auto simp: isdigit_def word_le_nat_alt)

lemma num_digits_cons: "num_digits ds \<longleftrightarrow> (\<exists>c cs. ds = c # cs \<and> isdigit c \<and> (\<forall>c \<in> set cs. isdigit c))"
  by (cases ds) (auto simp: num_digits_def)

lemma get_fraction_rest:
  assumes "src_end src = None" and "src_rest src = f @ d # r" and "num_fraction f" and "\<not> isdigit d" and "f = [] \<longrightarrow> d \<noteq> 0x2E"
  shows "get_fraction src = Some (Some (f \<noteq> []), src_skip (length f) src)"
proof (cases "f = []")
  case True
  then show ?thesis using assms by (simp add: get_fraction_def peek_rest)
next
  case False
  then obtain ds where f: "f = 0x2E # ds" and ds: "num_digits ds" using assms(3) by (auto simp: num_fraction_def)
  then obtain c cs where c: "ds = c # cs" "isdigit c" by (auto simp: num_digits_cons)
  have "skip_while isdigit (src_skip 1 src) = Some (src_skip (length ds) (src_skip 1 src))"
    by (rule skip_while_rest) (use assms f ds in \<open>auto simp: num_digits_def\<close>)
  then show ?thesis using assms f c by (simp add: get_fraction_def peek_rest)
qed

lemma get_exponent_rest:
  assumes "src_end src = None" and "src_rest src = e @ d # r" and "num_exponent e" and "\<not> isdigit d"
    and "e = [] \<longrightarrow> d \<noteq> 0x45 \<and> d \<noteq> 0x65"
  shows "get_exponent src = Some (Some (e \<noteq> []), src_skip (length e) src)"
proof (cases "e = []")
  case True
  then show ?thesis using assms by (simp add: get_exponent_def peek_rest)
next
  case False
  then obtain a s ds where e: "e = a # s @ ds" "a = 0x45 \<or> a = 0x65" "s = [] \<or> s = [0x2D] \<or> s = [0x2B]" and ds: "num_digits ds"
    using assms(3) by (auto simp: num_exponent_def)
  then obtain c cs where c: "ds = c # cs" "isdigit c" by (auto simp: num_digits_cons)
  have "skip_while isdigit (src_skip (1 + length s) src) = Some (src_skip (length ds) (src_skip (1 + length s) src))"
    by (rule skip_while_rest) (use assms e ds in \<open>auto simp: num_digits_def\<close>)
  then show ?thesis using assms e(1,2) c digit_not_special[OF c(2)] e(3) by (auto simp: get_exponent_def peek_rest)
qed

lemma get_number_rest:
  assumes "src_end src = None" and "src_flags src = SXE_JITSON_FLAG_STRICT" and "src_rest src = (s @ ds @ f @ e) @ d # r"
    and "num_sign s" and "num_digits ds" and "num_fraction f" and "num_exponent e" and "num_follow f e d"
  shows "sxe_jitson_source_get_number src =
    Some (Some (src_next src, length (s @ ds @ f @ e), s = [] \<and> f = [] \<and> e = []), src_skip (length (s @ ds @ f @ e)) src)"
proof -
  obtain c cs where c: "ds = c # cs" "isdigit c" "\<forall>c \<in> set cs. isdigit c" using assms(5) by (auto simp: num_digits_cons)
  let ?s1 = "src_skip (length s) src"
  obtain a as where fed: "f @ e @ d # r = a # as" by (cases f; cases e) auto
  have "\<not> isdigit a" using fed assms(6-8) digit_not_special[of a]
    by (cases f; cases e) (auto simp: num_fraction_def num_exponent_def num_follow_def)
  then have 1: "skip_while isdigit (src_skip 1 ?s1) = Some (src_skip (length cs) (src_skip 1 ?s1))"
    by (intro skip_while_rest) (use assms c fed in auto)
  obtain b bs where ed: "e @ d # r = b # bs" by (cases e) auto
  have "\<not> isdigit b \<and> (f = [] \<longrightarrow> b \<noteq> 0x2E)" using ed assms(7,8) digit_not_special[of b]
    by (cases e) (auto simp: num_exponent_def num_follow_def)
  then have 2: "get_fraction (src_skip (length ds) ?s1) = Some (Some (f \<noteq> []), src_skip (length f) (src_skip (length ds) ?s1))"
    by (intro get_fraction_rest) (use assms(1,3,6) ed in auto)
  have 3: "get_exponent (src_skip (length (ds @ f)) ?s1) = Some (Some (e \<noteq> []), src_skip (length e) (src_skip (length (ds @ f)) ?s1))"
    by (rule get_exponent_rest) (use assms in \<open>auto simp: num_follow_def\<close>)
  obtain b' bs' where n1: "cs @ f @ e @ d # r = b' # bs'" by (cases cs; cases f; cases e) auto
  have "source_peek_next (src_skip 1 ?s1) = Some b'" by (rule peek_rest) (use assms c n1 in auto)
  moreover have "src_byte (src_skip 1 ?s1) (src_next src) \<noteq> None"
    using assms(3) c by (auto simp: src_byte_def src_rest_def intro: ccontr)
  moreover have "source_peek_next ?s1 = Some c" by (rule peek_rest) (use assms c in auto)
  moreover have "source_peek_next src = Some (if s = [] then c else 0x2D)"
    using assms(1,3,4) c by (auto intro!: peek_rest simp: num_sign_def)
  ultimately show ?thesis using assms(2,4) c(1,2) 1 2 3 digit_not_special[OF c(2)]
    by (auto simp: sxe_jitson_source_get_number_def SXE_JITSON_FLAG_STRICT_def num_sign_def add_ac)
qed

text \<open>Every text that a NUL ends has a result.\<close>

lemma span_nul: "0 \<in> set xs \<Longrightarrow> \<not> p (0 :: u8) \<Longrightarrow> \<exists>ys d r. xs = ys @ d # r \<and> (\<forall>c \<in> set ys. p c) \<and> \<not> p d"
  using split_list_first_prop[of xs "\<lambda>c. \<not> p c"] by blast

lemma not_digit_0 [simp]: "\<not> isdigit 0" "\<not> isspace 0" "\<not> is_identifier_char 0"
  by (simp_all add: isdigit_def isspace_def is_identifier_char_def identifier_chars_def)

lemma digits_nul:
  assumes "0 \<in> set (c # xs)" and "isdigit c"
  shows "\<exists>ds d r. c # xs = ds @ d # r \<and> num_digits ds \<and> \<not> isdigit d"
proof -
  obtain ds d r where "c # xs = ds @ d # r" "\<forall>c \<in> set ds. isdigit c" "\<not> isdigit d"
    using span_nul[OF assms(1), of isdigit] by auto
  moreover then have "ds \<noteq> []" using assms(2) by (cases ds) auto
  ultimately show ?thesis by (auto simp: num_digits_def)
qed

lemma get_fraction_total:
  assumes "src_end src = None" and "0 \<in> set (src_rest src)"
  shows "(\<exists>src'. get_fraction src = Some (None, src')) \<or>
    (\<exists>f d r. src_rest src = f @ d # r \<and> num_fraction f \<and> \<not> isdigit d \<and> (f = [] \<longrightarrow> d \<noteq> 0x2E)) \<or>
    (\<exists>d r. src_rest src = d # r \<and> isdigit d)"
proof -
  obtain c xs where r: "src_rest src = c # xs" using assms(2) by (cases "src_rest src") auto
  show ?thesis
  proof (cases "c = 0x2E")
    case True
    then obtain d ys where ys: "xs = d # ys" "0 \<in> set (d # ys)" using assms(2) r by (cases xs) auto
    show ?thesis
    proof (cases "isdigit d")
      case True
      from digits_nul[OF ys(2) this] obtain ds d' r' where "xs = ds @ d' # r'" "num_digits ds" "\<not> isdigit d'" using ys by auto
      then show ?thesis using r \<open>c = 0x2E\<close> by (intro disjI2 disjI1 exI[of _ "c # ds"]) (auto simp: num_fraction_def)
    next
      case False
      then show ?thesis using assms r ys \<open>c = 0x2E\<close> by (simp add: get_fraction_def peek_rest)
    qed
  next
    case False
    then show ?thesis using r by (cases "isdigit c") (auto simp: num_fraction_def intro: exI[of _ "[]"])
  qed
qed

lemma get_exponent_total:
  assumes "src_end src = None" and "0 \<in> set (src_rest src)"
  shows "(\<exists>src'. get_exponent src = Some (None, src')) \<or>
    (\<exists>e d r. src_rest src = e @ d # r \<and> num_exponent e \<and> \<not> isdigit d \<and> (e = [] \<longrightarrow> d \<noteq> 0x45 \<and> d \<noteq> 0x65)) \<or>
    (\<exists>d r. src_rest src = d # r \<and> isdigit d)"
proof -
  obtain c xs where r: "src_rest src = c # xs" using assms(2) by (cases "src_rest src") auto
  show ?thesis
  proof (cases "c = 0x45 \<or> c = 0x65")
    case True
    then obtain a ys where a: "xs = a # ys" "0 \<in> set xs" using assms(2) r by (cases xs) auto
    define s where "s = (if a = 0x2D \<or> a = 0x2B then [a] else [])"
    then obtain d zs where zs: "xs = s @ d # zs" "0 \<in> set (d # zs)" using a by (cases ys) (auto split: if_splits)
    show ?thesis
    proof (cases "isdigit d")
      case True
      from digits_nul[OF zs(2) this] obtain ds d' r' where "d # zs = ds @ d' # r'" "num_digits ds" "\<not> isdigit d'" by auto
      moreover have "s = [] \<or> s = [0x2D] \<or> s = [0x2B]" by (auto simp: s_def)
      ultimately have "num_exponent (c # s @ ds)" using \<open>c = 0x45 \<or> c = 0x65\<close> unfolding num_exponent_def by blast
      moreover have "src_rest src = (c # s @ ds) @ d' # r'" using r zs \<open>d # zs = ds @ d' # r'\<close> by simp
      ultimately show ?thesis using \<open>\<not> isdigit d'\<close> by blast
    next
      case False
      then show ?thesis using assms r zs a \<open>c = 0x45 \<or> c = 0x65\<close>
        by (auto simp: get_exponent_def peek_rest s_def split: if_splits)
    qed
  next
    case False
    then show ?thesis using r by (cases "isdigit c") (auto simp: num_exponent_def intro: exI[of _ "[]"])
  qed
qed

lemma get_number_total:
  assumes "src_end src = None" and "src_flags src = SXE_JITSON_FLAG_STRICT" and "0 \<in> set (src_rest src)"
  shows "(\<exists>src'. sxe_jitson_source_get_number src = Some (None, src')) \<or>
    (\<exists>s ds f e d r. src_rest src = (s @ ds @ f @ e) @ d # r \<and> num_sign s \<and> num_digits ds \<and> num_fraction f \<and> num_exponent e
      \<and> num_follow f e d)"
proof -
  obtain s where s_def: "s = (if source_peek_next src = Some 0x2D then [0x2D] else [] :: u8 list)" by simp
  obtain a xs where a: "src_rest src = a # xs" using assms(3) by (cases "src_rest src") auto
  then have pa: "source_peek_next src = Some a" using assms(1) by (simp add: peek_rest)
  then have "\<exists>c ys. src_rest src = s @ c # ys \<and> 0 \<in> set (c # ys)"
    using a assms(3) by (cases "a = 0x2D"; cases xs) (auto simp: s_def)
  then obtain c ys where c: "src_rest src = s @ c # ys" and nul: "0 \<in> set (c # ys)" by blast
  let ?s1 = "src_skip (length s) src"
  have pc: "source_peek_next ?s1 = Some c" by (rule peek_rest) (use assms c in auto)
  show ?thesis
  proof (cases "isdigit c")
    case False
    then have "sxe_jitson_source_get_number src = Some (None, ?s1)"
      using pa pc by (auto simp: sxe_jitson_source_get_number_def s_def split: if_splits)
    then show ?thesis by blast
  next
    case True
    obtain ds d r where ds: "c # ys = ds @ d # r" "num_digits ds" "\<not> isdigit d" using digits_nul[OF nul True] by blast
    obtain b bs where b: "ys = b # bs" using nul digit_not_special[OF True] by (cases ys) auto
    have sk: "skip_while isdigit (src_skip 1 ?s1) = Some (src_skip (length ds) ?s1)"
      using skip_while_rest[of "src_skip 1 ?s1" "tl ds" d r isdigit] assms(1) c ds by (cases ds) (auto simp: num_digits_def)
    have by_skip: "sxe_jitson_source_get_number src = do {
        (fraction, src') \<leftarrow> get_fraction (src_skip (length ds) ?s1);
        case fraction of None \<Rightarrow> Some (None, src')
        | Some has_fraction \<Rightarrow> do {
             (exponent, src'') \<leftarrow> get_exponent src';
             case exponent of None \<Rightarrow> Some (None, src'')
             | Some has_exponent \<Rightarrow>
                 Some (Some (src_next src, src_next src'' - src_next src, s = [] \<and> \<not> has_fraction \<and> \<not> has_exponent), src'')
        } }"
    proof -
      have "src_byte (src_skip 1 ?s1) (src_next src) \<noteq> None"
        using c by (auto simp: src_byte_def src_rest_def intro: ccontr)
      moreover have "source_peek_next (src_skip 1 ?s1) = Some b" by (rule peek_rest) (use assms(1) c b in auto)
      moreover have "a = 0x2D \<and> s = [0x2D] \<or> a \<noteq> 0x2D \<and> s = []" using pa by (simp add: s_def)
      moreover note pa pc True sk assms(2) digit_not_special[OF True]
      ultimately show ?thesis
        by (elim disjE conjE; hypsubst)
           (auto simp: sxe_jitson_source_get_number_def SXE_JITSON_FLAG_STRICT_def Let_def cong: option.case_cong)
    qed
    have rest1: "src_rest (src_skip (length ds) ?s1) = d # r" using c ds(1) by simp
    have nul1: "0 \<in> set (d # r)" using nul ds by (auto simp: num_digits_def)
    from get_fraction_total[of "src_skip (length ds) ?s1"] assms(1) rest1 nul1 ds(3)
    consider src' where "get_fraction (src_skip (length ds) ?s1) = Some (None, src')"
      | f d' r' where "d # r = f @ d' # r'" "num_fraction f" "\<not> isdigit d'" "f = [] \<longrightarrow> d' \<noteq> 0x2E" by auto
    then show ?thesis
    proof cases
      case 1
      then show ?thesis using by_skip by simp
    next
      case (2 f d' r')
      let ?s2 = "src_skip (length f) (src_skip (length ds) ?s1)"
      have fr: "get_fraction (src_skip (length ds) ?s1) = Some (Some (f \<noteq> []), ?s2)"
        by (rule get_fraction_rest) (use assms(1) rest1 2 in auto)
      have rest2: "src_rest ?s2 = d' # r'" using c ds(1) 2(1) by simp
      have nul2: "0 \<in> set (d' # r')"
        using nul1 2(1,2) by (auto simp: num_fraction_def num_digits_def dest: bspec[of _ _ 0])
      from get_exponent_total[of ?s2] assms(1) rest2 nul2 2(3)
      consider src' where "get_exponent ?s2 = Some (None, src')"
        | e d'' r'' where "d' # r' = e @ d'' # r''" "num_exponent e" "\<not> isdigit d''" "e = [] \<longrightarrow> d'' \<noteq> 0x45 \<and> d'' \<noteq> 0x65" by auto
      then show ?thesis
      proof cases
        case 1
        then show ?thesis using by_skip fr by simp
      next
        case (2 e d'' r'')
        have "src_rest src = (s @ ds @ f @ e) @ d'' # r''" using c ds(1) \<open>d # r = f @ d' # r'\<close> 2(1) by simp
        moreover have "num_follow f e d''" using 2 \<open>f = [] \<longrightarrow> d' \<noteq> 0x2E\<close> by (cases e) (auto simp: num_follow_def)
        moreover have "num_sign s" by (auto simp: s_def num_sign_def)
        ultimately show ?thesis using ds(2) \<open>num_fraction f\<close> 2(2) by blast
      qed
    qed
  qed
qed

section \<open>Properties\<close>

text \<open>
  C30: the octets that the encoder returns for a code point are the ones, and the only ones, that the table of RFC 3629 gives for it: a
  sequence of octets decodes to a code point exactly if it is its encoding, so that encodings can be decoded and are the shortest
  ones. What is beyond the last code point is refused. (Surrogates are encoded like other numbers of the table.)
\<close>

theorem sxe_unicode_to_utf8_roundtrip:
  "(utf8_decode octets = Some unicode \<longleftrightarrow> unicode \<le> 0x10FFFF \<and> octets = sxe_unicode_to_utf8 unicode)
   \<and> (0x10FFFF < unicode \<longrightarrow> sxe_unicode_to_utf8 unicode = [])"
  using utf8_decode_encoded[of unicode] utf8_encode_decoded[of octets unicode]
  by (auto simp: sxe_unicode_to_utf8_def word_le_nat_alt word_less_nat_alt)

theorem sxe_unicode_to_utf8_roundtrip_witness:
  "utf8_decode (sxe_unicode_to_utf8 0x20AC) = Some 0x20AC \<and> utf8_decode [0xF0, 0x82, 0x82, 0xAC] \<noteq> Some 0x20AC \<and> sxe_unicode_to_utf8 0x110000 = []"
proof -
  have "[0xF0, 0x82, 0x82, 0xAC] \<noteq> sxe_unicode_to_utf8 0x20AC" by (simp add: sxe_unicode_to_utf8_def)
  then show ?thesis
    using sxe_unicode_to_utf8_roundtrip[of "sxe_unicode_to_utf8 0x20AC" "0x20AC"] sxe_unicode_to_utf8_roundtrip[of "[0xF0, 0x82, 0x82, 0xAC]" "0x20AC"]
      sxe_unicode_to_utf8_roundtrip[of _ "0x110000"] by simp
qed

lemma number_atI:
  "src_rest src = (s @ ds @ f @ e) @ d # r \<Longrightarrow> num_sign s \<Longrightarrow> num_digits ds \<Longrightarrow> num_fraction f \<Longrightarrow> num_exponent e
    \<Longrightarrow> num_follow f e d \<Longrightarrow> number_at num_digits src (src_next src) (length (s @ ds @ f @ e)) (s = [] \<and> f = [] \<and> e = [])"
  unfolding number_at_def by blast

lemma digits_int: "num_digits ds \<longleftrightarrow> rfc_int ds \<or> zeros_int ds"
  by (cases ds) (auto simp: rfc_int_def zeros_int_def num_digits_def)

lemma number_at_int: "number_at num_digits src number len is_uint \<longleftrightarrow> number_at rfc_int src number len is_uint \<or> number_at zeros_int src number len is_uint"
  unfolding number_at_def digits_int by blast

lemma get_number_digits:
  assumes "src_end src = None" and "src_flags src = SXE_JITSON_FLAG_STRICT" and "0 \<in> set (src_rest src)"
  shows "\<exists>res src'. sxe_jitson_source_get_number src = Some (res, src') \<and>
    (\<forall>number len is_uint. res = Some (number, len, is_uint) \<longleftrightarrow> number_at num_digits src number len is_uint)"
proof -
  have found: "\<exists>src'. sxe_jitson_source_get_number src = Some (Some (number, len, is_uint), src')"
    if "number_at num_digits src number len is_uint" for number len is_uint
    using that unfolding number_at_def by (elim exE conjE) (simp add: get_number_rest[OF assms(1,2)])
  from get_number_total[OF assms]
  consider src' where "sxe_jitson_source_get_number src = Some (None, src')"
    | number len is_uint where "number_at num_digits src number len is_uint"
    by (elim disjE exE conjE) (blast, blast intro: number_atI)
  then show ?thesis
  proof cases
    case 1
    have "\<not> number_at num_digits src number len is_uint" for number len is_uint using found[of number len is_uint] 1 by auto
    then show ?thesis using 1 by simp
  next
    case (2 n l u)
    obtain src' where g: "sxe_jitson_source_get_number src = Some (Some (n, l, u), src')" using found[OF 2] by blast
    have "number_at num_digits src number len is_uint \<longleftrightarrow> (number, len, is_uint) = (n, l, u)" for number len is_uint
      using found[of number len is_uint] g 2 by auto
    then show ?thesis using g by auto
  qed
qed

text \<open>
  C29: on a NUL-terminated text and with the flags 0, documented as strict JSON, the scanner of numbers always returns. It finds a
  number exactly when the text has, followed by a byte that does not continue it, a number of RFC 8259 or one that differs
  from those by zeros before its integer part, which RFC 8259 does not allow. It gives the length of the number and calls it an
  unsigned integer exactly when it has no sign, no fraction and no exponent.
\<close>

theorem sxe_jitson_source_get_number_grammar:
  assumes "src_end src = None" and "src_flags src = SXE_JITSON_FLAG_STRICT" and "0 \<in> set (src_rest src)"
  shows "\<exists>res src'. sxe_jitson_source_get_number src = Some (res, src') \<and>
    (\<forall>number len is_uint. res = Some (number, len, is_uint) \<longleftrightarrow>
      number_at rfc_int src number len is_uint \<or> number_at zeros_int src number len is_uint)"
  using get_number_digits[OF assms] unfolding number_at_int .

theorem sxe_jitson_source_get_number_grammar_witness:
  "\<exists>src' src''. sxe_jitson_source_get_number (sxe_jitson_source_from_string (lit ''-1.5e3,'' @ [0]) SXE_JITSON_FLAG_STRICT) = Some (Some (0, 6, False), src') \<and>
    sxe_jitson_source_get_number (sxe_jitson_source_from_string (lit ''007'' @ [0]) SXE_JITSON_FLAG_STRICT) = Some (Some (0, 3, True), src'')"
proof -
  let ?a = "sxe_jitson_source_from_string (lit ''-1.5e3,'' @ [0]) SXE_JITSON_FLAG_STRICT"
  let ?b = "sxe_jitson_source_from_string (lit ''007'' @ [0]) SXE_JITSON_FLAG_STRICT"
  have "num_exponent [0x65, 0x33]" unfolding num_exponent_def
    by (rule disjI2, rule exI[of _ "0x65"], rule exI[of _ "[]"], rule exI[of _ "[0x33]"]) (simp add: num_digits_def isdigit_def)
  then have a: "number_at rfc_int ?a 0 6 False"
    unfolding number_at_def
    by (intro exI[of _ "[0x2D]"] exI[of _ "[0x31]"] exI[of _ "[0x2E, 0x35]"] exI[of _ "[0x65, 0x33]"] exI[of _ "0x2C"] exI[of _ "[0]"])
      (simp add: sxe_jitson_source_from_string_def src_rest_def lit_def num_sign_def rfc_int_def num_fraction_def num_follow_def num_digits_def isdigit_def)
  have b: "number_at zeros_int ?b 0 3 True"
    unfolding number_at_def
    by (intro exI[of _ "[]"] exI[of _ "[0x30, 0x30, 0x37]"] exI[of _ "0"])
      (simp add: sxe_jitson_source_from_string_def src_rest_def lit_def num_sign_def zeros_int_def num_fraction_def num_exponent_def num_follow_def
        num_digits_def isdigit_def)
  have s: "src_end (sxe_jitson_source_from_string (t @ [0]) SXE_JITSON_FLAG_STRICT) = None"
    "src_flags (sxe_jitson_source_from_string (t @ [0]) SXE_JITSON_FLAG_STRICT) = SXE_JITSON_FLAG_STRICT"
    "0 \<in> set (src_rest (sxe_jitson_source_from_string (t @ [0]) SXE_JITSON_FLAG_STRICT))" for t
    by (simp_all add: sxe_jitson_source_from_string_def src_rest_def)
  obtain res src' where r: "sxe_jitson_source_get_number ?a = Some (res, src')" "\<And>number len is_uint. res = Some (number, len, is_uint) \<longleftrightarrow>
      number_at rfc_int ?a number len is_uint \<or> number_at zeros_int ?a number len is_uint"
    using sxe_jitson_source_get_number_grammar[OF s] by blast
  obtain res' src'' where r': "sxe_jitson_source_get_number ?b = Some (res', src'')" "\<And>number len is_uint. res' = Some (number, len, is_uint) \<longleftrightarrow>
      number_at rfc_int ?b number len is_uint \<or> number_at zeros_int ?b number len is_uint"
    using sxe_jitson_source_get_number_grammar[OF s] by blast
  have "res = Some (0, 6, False)" "res' = Some (0, 3, True)" using r(2) r'(2) a b by blast+
  then show ?thesis using r(1) r'(1) by blast
qed

end
