(* ===== verification/SxeJitsonStack.thy ===== *)
theory SxeJitsonStack
  imports SxePrelude SxeJitsonSource
begin

text \<open>
  The stack machine of \<^verbatim>\<open>lib-sxe-jitson\<close> (\<^verbatim>\<open>sxe-jitson-stack.c\<close>): the parser from JSON text to jitson tokens and the
  operations that build tokens by hand. The tokens are the bytes they are in memory, 16 to a token, since copied strings
  run on into the tokens that follow; \<^const>\<open>None\<close> is an abort or an access outside the allocated tokens. The
  allocator, \<open>strtod\<close> and the two hooks of the parser are parameters.
\<close>

unbundle bit_operations_syntax

section \<open>Tokens\<close>

definition SXE_JITSON_TYPE_INVALID :: u32 where "SXE_JITSON_TYPE_INVALID = 0"
definition SXE_JITSON_TYPE_NULL :: u32 where "SXE_JITSON_TYPE_NULL = 1"
definition SXE_JITSON_TYPE_BOOL :: u32 where "SXE_JITSON_TYPE_BOOL = 2"
definition SXE_JITSON_TYPE_NUMBER :: u32 where "SXE_JITSON_TYPE_NUMBER = 3"
definition SXE_JITSON_TYPE_STRING :: u32 where "SXE_JITSON_TYPE_STRING = 4"
definition SXE_JITSON_TYPE_ARRAY :: u32 where "SXE_JITSON_TYPE_ARRAY = 5"
definition SXE_JITSON_TYPE_OBJECT :: u32 where "SXE_JITSON_TYPE_OBJECT = 6"
definition SXE_JITSON_TYPE_REFERENCE :: u32 where "SXE_JITSON_TYPE_REFERENCE = 7"
definition SXE_JITSON_TYPE_MASK :: u32 where "SXE_JITSON_TYPE_MASK = 0xFFFF"
definition SXE_JITSON_TYPE_IS_UINT :: u32 where "SXE_JITSON_TYPE_IS_UINT = 0x08000000"
definition SXE_JITSON_TYPE_IS_KEY :: u32 where "SXE_JITSON_TYPE_IS_KEY = 0x10000000"
definition SXE_JITSON_TYPE_IS_COPY :: u32 where "SXE_JITSON_TYPE_IS_COPY = 0"
definition SXE_JITSON_TYPE_IS_REF :: u32 where "SXE_JITSON_TYPE_IS_REF = 0x20000000"
definition SXE_JITSON_TYPE_IS_OWN :: u32 where "SXE_JITSON_TYPE_IS_OWN = 0x40000000"
definition SXE_JITSON_TYPE_ALLOCED :: u32 where "SXE_JITSON_TYPE_ALLOCED = 0x80000000"

definition SXE_JITSON_STACK_ERROR :: u32 where "SXE_JITSON_STACK_ERROR = - 1"
definition SXE_JITSON_TOKEN_SIZE :: nat where "SXE_JITSON_TOKEN_SIZE = 16"
definition SXE_JITSON_STRING_SIZE :: nat where "SXE_JITSON_STRING_SIZE = 8"

text \<open>
  The fields of \<open>struct sxe_jitson\<close>: \<open>type\<close> at offset 0, \<open>len\<close> (or \<open>link\<close>) at 4 and the union at 8, in which
  \<open>partial\<close> has \<open>no_value\<close> at 8, \<open>nested\<close> at 9 and \<open>collection\<close> at 12.
\<close>

definition le64_bytes :: "u64 \<Rightarrow> u8 list" where
  "le64_bytes v = le32_bytes (ucast v) @ le32_bytes (ucast (drop_bit 32 v))"

record sxe_jitson_stack =
  stack_maximum :: u32
  stack_count :: u32
  stack_jitsons :: "u8 list option"
  stack_open :: u32

datatype jitson_errno = ENODATA | EINVAL | EILSEQ | ENOMEM

type_synonym jitson_result = "jitson_errno + unit"

text \<open>
  What the code calls outside the file. \<open>env_malloc\<close> gives the contents of newly allocated memory of a size,
  \<open>env_strtod\<close> the bits of the double that \<open>strtod\<close> reads and the number of bytes it used. \<open>env_constants\<close> finds the
  tokens of the value of a registered constant (\<open>jitson_constants\<close> and \<open>sxe_jitson_object_get_member\<close>), \<open>env_clone\<close>
  is \<open>sxe_jitson_clone\<close> on copied tokens, and \<open>env_push_ident\<close> is the hook \<open>sxe_jitson_stack_push_ident\<close>.
\<close>

record jitson_env =
  env_malloc :: "u64 \<Rightarrow> u8 list option"
  env_strtod :: "u8 list \<Rightarrow> u64 \<times> nat"
  env_constants :: "(u8 list \<Rightarrow> u8 list option) option"
  env_clone :: "u8 list \<Rightarrow> bool \<times> u8 list"
  env_push_ident :: "(sxe_jitson_stack \<Rightarrow> u32 \<Rightarrow> u8 list \<Rightarrow> (jitson_result \<times> sxe_jitson_stack) option) option"

definition stack_write :: "sxe_jitson_stack \<Rightarrow> nat \<Rightarrow> u8 list \<Rightarrow> sxe_jitson_stack option" where
  "stack_write stack k bytes = do {
     m \<leftarrow> stack_jitsons stack;
     m \<leftarrow> write_at k bytes m;
     Some (stack\<lparr>stack_jitsons := Some m\<rparr>)
   }"

definition stack_read :: "sxe_jitson_stack \<Rightarrow> nat \<Rightarrow> nat \<Rightarrow> u8 list option" where
  "stack_read stack k n = do {
     m \<leftarrow> stack_jitsons stack;
     if k + n \<le> length m then Some (take n (drop k m)) else None
   }"

definition jitson_at :: "u32 \<Rightarrow> nat" where
  "jitson_at index = SXE_JITSON_TOKEN_SIZE * unat index"

definition jitson_set_type :: "sxe_jitson_stack \<Rightarrow> u32 \<Rightarrow> u32 \<Rightarrow> sxe_jitson_stack option" where
  "jitson_set_type stack index type = stack_write stack (jitson_at index) (le32_bytes type)"

definition jitson_set_len :: "sxe_jitson_stack \<Rightarrow> u32 \<Rightarrow> u32 \<Rightarrow> sxe_jitson_stack option" where
  "jitson_set_len stack index len = stack_write stack (jitson_at index + 4) (le32_bytes len)"

definition jitson_set_integer :: "sxe_jitson_stack \<Rightarrow> u32 \<Rightarrow> u64 \<Rightarrow> sxe_jitson_stack option" where
  "jitson_set_integer stack index v = stack_write stack (jitson_at index + 8) (le64_bytes v)"

definition jitson_get_type :: "sxe_jitson_stack \<Rightarrow> u32 \<Rightarrow> u32 option" where
  "jitson_get_type stack index = map_option le32 (stack_read stack (jitson_at index) 4)"

definition jitson_get_len :: "sxe_jitson_stack \<Rightarrow> u32 \<Rightarrow> u32 option" where
  "jitson_get_len stack index = map_option le32 (stack_read stack (jitson_at index + 4) 4)"

text \<open>\<^verbatim>\<open>jitson->string[jitson->len++] = c\<close>\<close>

definition jitson_put_char :: "sxe_jitson_stack \<Rightarrow> u32 \<Rightarrow> u8 \<Rightarrow> sxe_jitson_stack option" where
  "jitson_put_char stack index c = do {
     len \<leftarrow> jitson_get_len stack index;
     stack \<leftarrow> stack_write stack (jitson_at index + 8 + unat len) [c];
     jitson_set_len stack index (len + 1)
   }"

section \<open>The stack\<close>

definition JITSON_STACK_INIT_SIZE :: u32 where "JITSON_STACK_INIT_SIZE = 1"
definition JITSON_STACK_MAX_INCR :: u32 where "JITSON_STACK_MAX_INCR = 4096"

definition sxe_jitson_stack_make :: "(u64 \<Rightarrow> u8 list option) \<Rightarrow> u32 \<Rightarrow> bool \<times> sxe_jitson_stack" where
  "sxe_jitson_stack_make malloc init_size =
    (let jitsons = malloc (ucast init_size * 16)
     in (jitsons \<noteq> None, \<lparr>stack_maximum = init_size, stack_count = 0, stack_jitsons = jitsons, stack_open = 0\<rparr>))"

definition sxe_jitson_stack_new :: "(u64 \<Rightarrow> u8 list option) \<Rightarrow> bool \<Rightarrow> u32 \<Rightarrow> sxe_jitson_stack option" where
  "sxe_jitson_stack_new malloc object_allocated init_size =
    (if \<not> object_allocated then None
     else let (made, stack) = sxe_jitson_stack_make malloc init_size in if made then Some stack else None)"

definition sxe_jitson_stack_clear :: "sxe_jitson_stack \<Rightarrow> sxe_jitson_stack" where
  "sxe_jitson_stack_clear stack = stack\<lparr>stack_count := 0, stack_open := 0\<rparr>"

text \<open>The tokens taken off the stack; where \<open>realloc\<close> cannot shrink them they stay as they are.\<close>

definition sxe_jitson_stack_get_jitson :: "(u64 \<Rightarrow> u8 list option) \<Rightarrow> sxe_jitson_stack \<Rightarrow> (u8 list \<times> sxe_jitson_stack) option" where
  "sxe_jitson_stack_get_jitson malloc stack = do {
     SXEA1 (stack_jitsons stack \<noteq> None);
     SXEA1 (stack_open stack = 0);
     jitsons \<leftarrow> stack_jitsons stack;
     let ret = (if stack_count stack < stack_maximum stack
       then (case sxe_realloc malloc (Some jitsons) (ucast (stack_count stack) * 16) of Some new \<Rightarrow> new | None \<Rightarrow> jitsons)
       else jitsons);
     let stack = stack\<lparr>stack_jitsons := None, stack_count := 0\<rparr>;
     ret \<leftarrow> write_at 0 (le32_bytes (le32 (take 4 ret) OR SXE_JITSON_TYPE_ALLOCED)) ret;
     Some (ret, stack)
   }"

definition sxe_jitson_stack_expand :: "(u64 \<Rightarrow> u8 list option) \<Rightarrow> sxe_jitson_stack \<Rightarrow> u32 \<Rightarrow> (u32 \<times> sxe_jitson_stack) option" where
  "sxe_jitson_stack_expand malloc stack extra =
    (let expanded = stack_count stack + extra; maximum = stack_maximum stack in
     if maximum < expanded then
       if expanded < JITSON_STACK_MAX_INCR \<and> maximum = 0 then None
       else
         let new_maximum = (if expanded < JITSON_STACK_MAX_INCR then ((expanded - 1) div maximum + 1) * maximum
             else ((expanded - 1) div JITSON_STACK_MAX_INCR + 1) * JITSON_STACK_MAX_INCR)
         in (case sxe_realloc malloc (stack_jitsons stack) (ucast new_maximum * 16) of
               None \<Rightarrow> Some (SXE_JITSON_STACK_ERROR, stack)
             | Some new_jitsons \<Rightarrow>
                 Some (expanded - extra, stack\<lparr>stack_maximum := new_maximum, stack_jitsons := Some new_jitsons, stack_count := expanded\<rparr>))
     else
       (case stack_jitsons stack of
          Some _ \<Rightarrow> Some (expanded - extra, stack\<lparr>stack_count := expanded\<rparr>)
        | None \<Rightarrow>
            (case malloc (ucast maximum * 16) of
               None \<Rightarrow> Some (SXE_JITSON_STACK_ERROR, stack)
             | Some jitsons \<Rightarrow> Some (expanded - extra, stack\<lparr>stack_jitsons := Some jitsons, stack_count := expanded\<rparr>))))"

text \<open>The jump to \<^verbatim>\<open>ERROR\<close> discards what was added from \<open>index\<close> on.\<close>

definition stack_error :: "jitson_errno \<Rightarrow> sxe_jitson_stack \<Rightarrow> u32 \<Rightarrow> jitson_result \<times> sxe_jitson_stack" where
  "stack_error e stack index = (Inl e, stack\<lparr>stack_count := index\<rparr>)"

section \<open>Strings\<close>

definition hex_escape_digit :: "u8 \<Rightarrow> u32 option" where
  "hex_escape_digit c =
    (if 0x30 \<le> c \<and> c \<le> 0x39 then Some (ucast c - 0x30)
     else if 0x61 \<le> c \<and> c \<le> 0x66 then Some (ucast c - 0x61 + 10)
     else if 0x41 \<le> c \<and> c \<le> 0x46 then Some (ucast c - 0x41 + 10)
     else None)"

text \<open>The four digits of a \<^verbatim>\<open>\\u\<close> escape; an inner \<^const>\<open>None\<close> is the jump to \<^verbatim>\<open>ERROR\<close>.\<close>

fun load_unicode :: "nat \<Rightarrow> u32 \<Rightarrow> sxe_jitson_source \<Rightarrow> (u32 option \<times> sxe_jitson_source) option" where
  "load_unicode 0 unicode src = Some (Some unicode, src)"
| "load_unicode (Suc n) unicode src = do {
     (c, src) \<leftarrow> sxe_jitson_source_get_char src;
     case hex_escape_digit c of
       None \<Rightarrow> Some (None, src)
     | Some d \<Rightarrow> load_unicode n (push_bit 4 unicode + d) src
   }"

text \<open>
  What the bytes after a backslash stand for: the bytes to store (for an escape of a code point, its encoding), or
  \<^const>\<open>None\<close> for the jump to \<^verbatim>\<open>ERROR\<close>.
\<close>

definition load_escape :: "sxe_jitson_source \<Rightarrow> (u8 list option \<times> sxe_jitson_source) option" where
  "load_escape src = do {
     (c, src) \<leftarrow> sxe_jitson_source_get_char src;
     if c = 0x22 \<or> c = 0x5C \<or> c = 0x2F then Some (Some [c], src)
     else if c = 0x62 then Some (Some [0x08], src)
     else if c = 0x66 then Some (Some [0x0C], src)
     else if c = 0x6E then Some (Some [0x0A], src)
     else if c = 0x72 then Some (Some [0x0D], src)
     else if c = 0x74 then Some (Some [0x09], src)
     else if c = 0x75 then do {
       (unicode, src) \<leftarrow> load_unicode 4 0 src;
       Some (map_option sxe_unicode_to_utf8 unicode, src)
     } else Some (None, src)
   }"

text \<open>
  One turn of the loop after its character has been decoded: the first byte is stored, the stack is expanded where
  the code thinks that a token is full, and the other bytes of an encoded code point are copied.
\<close>

definition store_char :: "(u64 \<Rightarrow> u8 list option) \<Rightarrow> sxe_jitson_stack \<Rightarrow> u32 \<Rightarrow> u8 list \<Rightarrow> (bool \<times> sxe_jitson_stack) option" where
  "store_char malloc stack index utf8 = do {
     SXEA1 (utf8 \<noteq> []);
     stack \<leftarrow> jitson_put_char stack index (hd utf8);
     len \<leftarrow> jitson_get_len stack index;
     let i = length utf8;
     let edge = unat len mod SXE_JITSON_TOKEN_SIZE;
     (r, stack) \<leftarrow> (if SXE_JITSON_TOKEN_SIZE div 2 \<le> edge \<and> edge < SXE_JITSON_TOKEN_SIZE div 2 + i
                    then sxe_jitson_stack_expand malloc stack 1 else Some (0, stack));
     if r = SXE_JITSON_STACK_ERROR then Some (False, stack)
     else if 1 < i then do {
       stack \<leftarrow> stack_write stack (jitson_at index + 8 + unat len) (tl utf8);
       stack \<leftarrow> jitson_set_len stack index (len + of_nat (i - 1));
       Some (True, stack)
     } else Some (True, stack)
   }"

partial_function (option) load_string_loop ::
    "(u64 \<Rightarrow> u8 list option) \<Rightarrow> sxe_jitson_stack \<Rightarrow> sxe_jitson_source \<Rightarrow> u32
     \<Rightarrow> (jitson_result \<times> sxe_jitson_stack \<times> sxe_jitson_source) option" where
  "load_string_loop malloc stack src index = do {
     (c, src) \<leftarrow> sxe_jitson_source_get_char src;
     if c = 0x22 then do {
       len \<leftarrow> jitson_get_len stack index;
       stack \<leftarrow> stack_write stack (jitson_at index + 8 + unat len) [0];
       Some (Inr (), stack, src)
     } else if c = 0 then let (r, stack) = stack_error EINVAL stack index in Some (r, stack, src)
     else do {
       (utf8, src) \<leftarrow> (if c = 0x5C then load_escape src else Some (Some [c], src));
       case utf8 of
         None \<Rightarrow> let (r, stack) = stack_error EILSEQ stack index in Some (r, stack, src)
       | Some utf8 \<Rightarrow> do {
           (stored, stack) \<leftarrow> store_char malloc stack index utf8;
           if stored then load_string_loop malloc stack src index
           else let (r, stack) = stack_error ENOMEM stack index in Some (r, stack, src)
         }
     }
   }"

definition sxe_jitson_stack_load_string ::
    "(u64 \<Rightarrow> u8 list option) \<Rightarrow> sxe_jitson_stack \<Rightarrow> sxe_jitson_source \<Rightarrow> bool
     \<Rightarrow> (jitson_result \<times> sxe_jitson_stack \<times> sxe_jitson_source) option" where
  "sxe_jitson_stack_load_string malloc stack src is_member_name = do {
     (index, stack) \<leftarrow> sxe_jitson_stack_expand malloc stack 1;
     if index = SXE_JITSON_STACK_ERROR then Some (Inl ENOMEM, stack, src)
     else do {
       stack \<leftarrow> jitson_set_type stack index (SXE_JITSON_TYPE_STRING OR (if is_member_name then SXE_JITSON_TYPE_IS_KEY else 0));
       stack \<leftarrow> jitson_set_len stack index 0;
       load_string_loop malloc stack src index
     }
   }"

section \<open>The parser\<close>

definition INV :: u8 where "INV = 0"
definition SYM :: u8 where "SYM = 1"
definition QOT :: u8 where "QOT = 2"
definition DIG :: u8 where "DIG = 4"
definition ALP :: u8 where "ALP = 5"

definition jitson_class :: "u8 list" where
  "jitson_class =
    [INV, INV, INV, INV, INV, INV, INV, INV, INV, INV, INV, INV, INV, INV, INV, INV,
     INV, INV, INV, INV, INV, INV, INV, INV, INV, INV, INV, INV, INV, INV, INV, INV,
     INV, SYM, 0x22, SYM, SYM, SYM, SYM, QOT, 0x28, 0x29, SYM, SYM, SYM, 0x2D, SYM, SYM,
     DIG, DIG, DIG, DIG, DIG, DIG, DIG, DIG, DIG, DIG, SYM, SYM, SYM, SYM, SYM, SYM,
     SYM, ALP, ALP, ALP, ALP, ALP, ALP, ALP, ALP, ALP, ALP, ALP, ALP, ALP, ALP, ALP,
     ALP, ALP, ALP, ALP, ALP, ALP, ALP, ALP, ALP, ALP, ALP, 0x5B, SYM, 0x5D, SYM, ALP,
     QOT, ALP, ALP, ALP, ALP, ALP, ALP, ALP, ALP, ALP, ALP, ALP, ALP, ALP, ALP, ALP,
     ALP, ALP, ALP, ALP, ALP, ALP, ALP, ALP, ALP, ALP, ALP, 0x7B, SYM, 0x7D, SYM, INV] @ replicate 128 INV"

text \<open>\<open>strtoul\<close> of a text that starts with a digit: the value, which saturates, and the number of bytes used.\<close>

definition digit_value :: "u8 \<Rightarrow> nat" where
  "digit_value c = (if isdigit c then unat c - 48 else if 97 \<le> c \<and> c \<le> 122 then unat c - 87 else if 65 \<le> c \<and> c \<le> 90 then unat c - 55 else 36)"

definition digits_value :: "nat \<Rightarrow> u8 list \<Rightarrow> nat" where
  "digits_value b ds = foldl (\<lambda>v c. v * b + digit_value c) 0 ds"

definition strtoul :: "u8 list \<Rightarrow> nat \<Rightarrow> u64 \<times> nat" where
  "strtoul s base =
    (let (b, skip) =
       (if base = 0 then
          if byte_at s 0 = 0x30 \<and> (byte_at s 1 = 0x78 \<or> byte_at s 1 = 0x58) \<and> isxdigit (byte_at s 2) then (16, 2)
          else if byte_at s 0 = 0x30 then (8, 0) else (10, 0)
        else (base, 0));
       ds = takeWhile (\<lambda>c. digit_value c < b) (drop skip s)
     in (of_nat (min (digits_value b ds) (2 ^ 64 - 1)), skip + length ds))"

definition sxe_jitson_stack_dup_at_index ::
    "jitson_env \<Rightarrow> sxe_jitson_stack \<Rightarrow> u32 \<Rightarrow> u8 list \<Rightarrow> (bool \<times> sxe_jitson_stack) option" where
  "sxe_jitson_stack_dup_at_index env stack index value1 = do {
     let (ret, cloned) = env_clone env value1;
     stack \<leftarrow> stack_write stack (jitson_at index) cloned;
     type \<leftarrow> jitson_get_type stack index;
     stack \<leftarrow> jitson_set_type stack index (type AND NOT SXE_JITSON_TYPE_ALLOCED);
     Some (ret, stack)
   }"

text \<open>The tokens of a number and of an identifier, whose first character the parser pushed back.\<close>

definition load_number ::
    "jitson_env \<Rightarrow> sxe_jitson_stack \<Rightarrow> sxe_jitson_source \<Rightarrow> u32 \<Rightarrow> (jitson_result \<times> sxe_jitson_stack \<times> sxe_jitson_source) option" where
  "load_number env stack src index = do {
     (number, src) \<leftarrow> sxe_jitson_source_get_number src;
     case number of
       None \<Rightarrow> let (r, stack) = stack_error EINVAL stack index in Some (r, stack, src)
     | Some (token, len, is_uint) \<Rightarrow>
         if is_uint then do {
           stack \<leftarrow> jitson_set_type stack index (SXE_JITSON_TYPE_NUMBER OR SXE_JITSON_TYPE_IS_UINT);
           let (v, used) = strtoul (drop token (src_json src))
             (if sxe_jitson_source_get_flags src AND SXE_JITSON_FLAG_ALLOW_HEX \<noteq> 0 then 0 else 10);
           stack \<leftarrow> jitson_set_integer stack index v;
           SXEA6 (used = len);
           Some (Inr (), stack, src)
         } else do {
           stack \<leftarrow> jitson_set_type stack index SXE_JITSON_TYPE_NUMBER;
           let (v, used) = env_strtod env (drop token (src_json src));
           stack \<leftarrow> jitson_set_integer stack index v;
           SXEA6 (used = len);
           Some (Inr (), stack, src)
         }
   }"

definition load_constant ::
    "jitson_env \<Rightarrow> sxe_jitson_stack \<Rightarrow> sxe_jitson_source \<Rightarrow> u32 \<Rightarrow> u8 list
     \<Rightarrow> (jitson_result \<times> sxe_jitson_stack \<times> sxe_jitson_source) option" where
  "load_constant env stack src index value1 = do {
     let size1 = length value1 div SXE_JITSON_TOKEN_SIZE;
     (r, stack) \<leftarrow> (if 1 < size1 then sxe_jitson_stack_expand (env_malloc env) stack (of_nat (size1 - 1)) else Some (0, stack));
     if r = SXE_JITSON_STACK_ERROR then let (r, stack) = stack_error ENOMEM stack index in Some (r, stack, src)
     else do {
       (_, stack) \<leftarrow> sxe_jitson_stack_dup_at_index env stack index value1;
       Some (Inr (), stack, src)
     }
   }"

definition load_identifier ::
    "jitson_env \<Rightarrow> sxe_jitson_stack \<Rightarrow> sxe_jitson_source \<Rightarrow> u32 \<Rightarrow> (jitson_result \<times> sxe_jitson_stack \<times> sxe_jitson_source) option" where
  "load_identifier env stack src index = do {
     (token, len, src) \<leftarrow> sxe_jitson_source_get_identifier src;
     start \<leftarrow> token;
     let token = take len (drop start (src_json src));
     let flags = sxe_jitson_source_get_flags src;
     if token = lit ''false'' then do {
       stack \<leftarrow> jitson_set_type stack index SXE_JITSON_TYPE_BOOL;
       stack \<leftarrow> stack_write stack (jitson_at index + 8) [0];
       Some (Inr (), stack, src)
     } else if token = lit ''null'' then do {
       stack \<leftarrow> jitson_set_type stack index SXE_JITSON_TYPE_NULL;
       Some (Inr (), stack, src)
     } else if token = lit ''true'' then do {
       stack \<leftarrow> jitson_set_type stack index SXE_JITSON_TYPE_BOOL;
       stack \<leftarrow> stack_write stack (jitson_at index + 8) [1];
       Some (Inr (), stack, src)
     } else
       let constant = (case env_constants env of
           Some member \<Rightarrow> if flags AND SXE_JITSON_FLAG_ALLOW_CONSTS \<noteq> 0 then member token else None
         | None \<Rightarrow> None)
       in (case constant of
             Some value1 \<Rightarrow> load_constant env stack src index value1
           | None \<Rightarrow>
               (case env_push_ident env of
                  Some push_ident \<Rightarrow>
                    if flags AND SXE_JITSON_FLAG_ALLOW_IDENTS \<noteq> 0 then do {
                      (r, stack) \<leftarrow> push_ident stack index token;
                      case r of
                        Inl e \<Rightarrow> let (r, stack) = stack_error e stack index in Some (r, stack, src)
                      | Inr _ \<Rightarrow> Some (Inr (), stack, src)
                    } else let (r, stack) = stack_error EINVAL stack index in Some (r, stack, src)
                | None \<Rightarrow> let (r, stack) = stack_error EINVAL stack index in Some (r, stack, src)))
   }"

text \<open>
  The parser calls itself for the values of a collection. The fuel bounds the depth of the calls and turns of its two
  loops; twice the number of bytes left in the source is enough.
\<close>

fun sxe_jitson_stack_load_json ::
      "nat \<Rightarrow> jitson_env \<Rightarrow> sxe_jitson_stack \<Rightarrow> sxe_jitson_source \<Rightarrow> (jitson_result \<times> sxe_jitson_stack \<times> sxe_jitson_source) option"
  and load_members ::
      "nat \<Rightarrow> jitson_env \<Rightarrow> sxe_jitson_stack \<Rightarrow> sxe_jitson_source \<Rightarrow> u32 \<Rightarrow> u8
       \<Rightarrow> (jitson_result \<times> sxe_jitson_stack \<times> sxe_jitson_source) option"
  and load_elements ::
      "nat \<Rightarrow> jitson_env \<Rightarrow> sxe_jitson_stack \<Rightarrow> sxe_jitson_source \<Rightarrow> u32
       \<Rightarrow> (jitson_result \<times> sxe_jitson_stack \<times> sxe_jitson_source) option" where
  "sxe_jitson_stack_load_json 0 env stack src = None"
| "sxe_jitson_stack_load_json (Suc fuel) env stack src = do {
     (c, src) \<leftarrow> sxe_jitson_source_get_nonspace src;
     if c = 0 then Some (Inl ENODATA, stack, src)
     else do {
       (index, stack) \<leftarrow> sxe_jitson_stack_expand (env_malloc env) stack 1;
       if index = SXE_JITSON_STACK_ERROR then Some (Inl ENOMEM, stack, src)
       else
         let cls = jitson_class ! unat c in
         if cls = 0x22 then
           sxe_jitson_stack_load_string (env_malloc env) (stack\<lparr>stack_count := stack_count stack - 1\<rparr>) src False
         else if cls = 0x7B then do {
           stack \<leftarrow> jitson_set_type stack index SXE_JITSON_TYPE_OBJECT;
           stack \<leftarrow> jitson_set_len stack index 0;
           (c, src) \<leftarrow> sxe_jitson_source_get_nonspace src;
           if c = 0x7D then do {
             stack \<leftarrow> jitson_set_integer stack index 1;
             Some (Inr (), stack, src)
           } else load_members fuel env stack src index c
         }
         else if cls = 0x5B then do {
           stack \<leftarrow> jitson_set_type stack index SXE_JITSON_TYPE_ARRAY;
           stack \<leftarrow> jitson_set_len stack index 0;
           (c, src) \<leftarrow> sxe_jitson_source_get_nonspace src;
           if c = 0x5D then do {
             stack \<leftarrow> jitson_set_integer stack index 1;
             Some (Inr (), stack, src)
           } else do {
             src \<leftarrow> sxe_jitson_source_push_char src c;
             load_elements fuel env stack src index
           }
         }
         else if cls = 0x2D \<or> cls = DIG then do {
           src \<leftarrow> sxe_jitson_source_push_char src c;
           load_number env stack src index
         }
         else if cls = ALP then do {
           src \<leftarrow> sxe_jitson_source_push_char src c;
           load_identifier env stack src index
         }
         else let (r, stack) = stack_error EINVAL stack index in Some (r, stack, src)
     }
   }"
| "load_members 0 env stack src index c = None"
| "load_members (Suc fuel) env stack src index c =
     (if c \<noteq> 0x22 then let (r, stack) = stack_error EINVAL stack index in Some (r, stack, src)
      else do {
        (r, stack, src) \<leftarrow> sxe_jitson_stack_load_string (env_malloc env) stack src True;
        case r of
          Inl e \<Rightarrow> let (r, stack) = stack_error e stack index in Some (r, stack, src)
        | Inr _ \<Rightarrow> do {
            (c, src) \<leftarrow> sxe_jitson_source_get_nonspace src;
            if c \<noteq> 0x3A then let (r, stack) = stack_error EINVAL stack index in Some (r, stack, src)
            else do {
              (r, stack, src) \<leftarrow> sxe_jitson_stack_load_json fuel env stack src;
              case r of
                Inl e \<Rightarrow> let (r, stack) = stack_error e stack index in Some (r, stack, src)
              | Inr _ \<Rightarrow> do {
                  len \<leftarrow> jitson_get_len stack index;
                  stack \<leftarrow> jitson_set_len stack index (len + 1);
                  (c, src) \<leftarrow> sxe_jitson_source_get_nonspace src;
                  (again, c, src) \<leftarrow> (if c = 0x2C then do { (c, src) \<leftarrow> sxe_jitson_source_get_nonspace src; Some (c \<noteq> 0, c, src) }
                                     else Some (False, c, src));
                  if again then load_members fuel env stack src index c
                  else if c = 0x7D then do {
                    stack \<leftarrow> jitson_set_integer stack index (ucast (stack_count stack - index));
                    Some (Inr (), stack, src)
                  } else let (r, stack) = stack_error EINVAL stack index in Some (r, stack, src)
                }
            }
          }
      })"
| "load_elements 0 env stack src index = None"
| "load_elements (Suc fuel) env stack src index = do {
     (r, stack, src) \<leftarrow> sxe_jitson_stack_load_json fuel env stack src;
     case r of
       Inl e \<Rightarrow> let (r, stack) = stack_error e stack index in Some (r, stack, src)
     | Inr _ \<Rightarrow> do {
         len \<leftarrow> jitson_get_len stack index;
         stack \<leftarrow> jitson_set_len stack index (len + 1);
         (c, src) \<leftarrow> sxe_jitson_source_get_nonspace src;
         if c = 0x2C then load_elements fuel env stack src index
         else if c = 0x5D then do {
           stack \<leftarrow> jitson_set_integer stack index (ucast (stack_count stack - index));
           Some (Inr (), stack, src)
         } else let (r, stack) = stack_error EINVAL stack index in Some (r, stack, src)
       }
   }"

text \<open>The offset of the character after the text parsed, \<^const>\<open>None\<close> for NULL.\<close>

definition sxe_jitson_stack_parse_json ::
    "jitson_env \<Rightarrow> u32 \<Rightarrow> sxe_jitson_stack \<Rightarrow> u8 list \<Rightarrow> (nat option \<times> sxe_jitson_stack) option" where
  "sxe_jitson_stack_parse_json env flags stack json = do {
     let src = sxe_jitson_source_from_string json flags;
     (r, stack, src) \<leftarrow> sxe_jitson_stack_load_json (2 * length json + 1) env stack src;
     case r of
       Inl _ \<Rightarrow> Some (None, stack)
     | Inr _ \<Rightarrow> Some (Some (sxe_jitson_source_get_consumed src), stack)
   }"

section \<open>What the stack holds\<close>

text \<open>The tokens on the stack, as one list of bytes; after its tokens have been taken the stack has no memory.\<close>

definition stack_holds :: "u32 \<Rightarrow> sxe_jitson_stack \<Rightarrow> u8 list \<Rightarrow> bool" where
  "stack_holds opened st c \<longleftrightarrow> stack_open st = opened \<and> 0 < stack_maximum st \<and> stack_count st \<le> stack_maximum st \<and>
    (case stack_jitsons st of
       None \<Rightarrow> stack_count st = 0 \<and> c = []
     | Some m \<Rightarrow> length m = 16 * unat (stack_maximum st) \<and> c = take (16 * unat (stack_count st)) m)"

datatype json =
  JNull | JBool bool | JUint u64 | JReal u64 | JString "u8 list" | JArray "json list" | JObject "(u8 list \<times> json) list"

definition string_tokens :: "u32 \<Rightarrow> u8 list \<Rightarrow> u8 list \<Rightarrow> bool" where
  "string_tokens ty s blk \<longleftrightarrow> (\<exists>junk. blk = le32_bytes ty @ le32_bytes (of_nat (length s)) @ s @ 0 # junk
     \<and> length junk < 16 \<and> 16 dvd length blk)"

text \<open>A string under construction always has room for one more byte.\<close>

definition string_partial :: "u32 \<Rightarrow> u8 list \<Rightarrow> u8 list \<Rightarrow> bool" where
  "string_partial ty s blk \<longleftrightarrow> (\<exists>j junk. blk = le32_bytes ty @ le32_bytes (of_nat (length s)) @ s @ j # junk
     \<and> length junk < 16 \<and> 16 dvd length blk)"

definition escape_char :: "u8 \<Rightarrow> u8 option" where
  "escape_char e =
    (if e = 0x22 \<or> e = 0x5C \<or> e = 0x2F then Some e else if e = 0x62 then Some 0x08 else if e = 0x66 then Some 0x0C
     else if e = 0x6E then Some 0x0A else if e = 0x72 then Some 0x0D else if e = 0x74 then Some 0x09 else None)"

definition escape_code :: "u8 \<Rightarrow> u8 \<Rightarrow> u8 \<Rightarrow> u8 \<Rightarrow> u32 option" where
  "escape_code h1 h2 h3 h4 = do {
     d1 \<leftarrow> hex_escape_digit h1; d2 \<leftarrow> hex_escape_digit h2; d3 \<leftarrow> hex_escape_digit h3; d4 \<leftarrow> hex_escape_digit h4;
     Some (push_bit 4 (push_bit 4 (push_bit 4 d1 + d2) + d3) + d4)
   }"

text \<open>
  What the parser takes for one byte of a string: any byte but NUL, the quote and the backslash, control characters included, a short
  escape, or the escape of a code point below 128.
\<close>

definition accepted_char :: "u8 \<Rightarrow> u8 list \<Rightarrow> bool" where
  "accepted_char c a \<longleftrightarrow> (a = [c] \<and> c \<noteq> 0 \<and> c \<noteq> 0x22 \<and> c \<noteq> 0x5C) \<or> (\<exists>e. a = [0x5C, e] \<and> escape_char e = Some c)
     \<or> (\<exists>h1 h2 h3 h4 code. a = [0x5C, 0x75, h1, h2, h3, h4] \<and> escape_code h1 h2 h3 h4 = Some code \<and> code \<le> 0x7F \<and> c = ucast code)"

inductive accepted_string :: "u8 list \<Rightarrow> u8 list \<Rightarrow> bool" where
  "accepted_string [] []"
| "accepted_char c a \<Longrightarrow> accepted_string s t \<Longrightarrow> accepted_string (c # s) (a @ t)"

text \<open>
  The characters of RFC 8259, on the level of bytes: no control character stands for itself, escapes may be of any code point, and those
  above U+FFFF are two escapes, of a high and of a low surrogate. The value of a character are the octets that RFC 3629 decodes to it. \<open>esc\<close>
  limits the code units that are escaped; without a limit this is RFC 8259.
\<close>

definition ascii_escape :: "u32 \<Rightarrow> bool" where
  "ascii_escape code \<longleftrightarrow> code \<le> 0x7F"

definition escape_text :: "(u32 \<Rightarrow> bool) \<Rightarrow> u32 \<Rightarrow> u8 list \<Rightarrow> bool" where
  "escape_text esc code a \<longleftrightarrow> (\<exists>h1 h2 h3 h4. a = [0x5C, 0x75, h1, h2, h3, h4] \<and> escape_code h1 h2 h3 h4 = Some code \<and> esc code)"

definition rfc_char :: "(u32 \<Rightarrow> bool) \<Rightarrow> u8 list \<Rightarrow> u8 list \<Rightarrow> bool" where
  "rfc_char esc octets a \<longleftrightarrow>
     (\<exists>c. a = [c] \<and> octets = [c] \<and> 0x20 \<le> c \<and> c \<noteq> 0x22 \<and> c \<noteq> 0x5C) \<or> (\<exists>e c. a = [0x5C, e] \<and> escape_char e = Some c \<and> octets = [c])
     \<or> (\<exists>code. escape_text esc code a \<and> \<not> (0xD800 \<le> code \<and> code \<le> 0xDFFF) \<and> utf8_decode octets = Some code)
     \<or> (\<exists>high low a1 a2. a = a1 @ a2 \<and> escape_text esc high a1 \<and> 0xD800 \<le> high \<and> high \<le> 0xDBFF
          \<and> escape_text esc low a2 \<and> 0xDC00 \<le> low \<and> low \<le> 0xDFFF
          \<and> utf8_decode octets = Some (0x10000 + (high - 0xD800) * 0x400 + (low - 0xDC00)))"

inductive rfc_string :: "(u32 \<Rightarrow> bool) \<Rightarrow> u8 list \<Rightarrow> u8 list \<Rightarrow> bool" for esc where
  rfc_string_nil: "rfc_string esc [] []"
| rfc_string_cons: "rfc_char esc octets a \<Longrightarrow> rfc_string esc s t \<Longrightarrow> rfc_string esc (octets @ s) (a @ t)"

text \<open>
  Every well-formed \<^verbatim>\<open>\\u\<close> escape is of a code point below 128, since the parser misplaces the bytes of the others. This looks at the bytes
  only: a backslash that is itself escaped counts too.
\<close>

definition small_escapes :: "u8 list \<Rightarrow> bool" where
  "small_escapes t \<longleftrightarrow> (\<forall>a b h1 h2 h3 h4 code. t = a @ 0x5C # 0x75 # h1 # h2 # h3 # h4 # b \<and> escape_code h1 h2 h3 h4 = Some code \<longrightarrow> code \<le> 0x7F)"

section \<open>Strings of RFC 8259\<close>

lemma rfc_char_accepted:
  assumes "rfc_char ascii_escape octets a"
  shows "\<exists>c. octets = [c] \<and> accepted_char c a"
proof -
  have esc: "code \<le> 0x7F" if "escape_text ascii_escape code a'" for code a' using that by (auto simp: escape_text_def ascii_escape_def)
  from assms consider (plain) c where "a = [c]" "octets = [c]" "0x20 \<le> c" "c \<noteq> 0x22" "c \<noteq> 0x5C"
    | (short) e c where "a = [0x5C, e]" "escape_char e = Some c" "octets = [c]"
    | (code) code where "escape_text ascii_escape code a" "utf8_decode octets = Some code"
    | (pair) high a1 where "escape_text ascii_escape high a1" "0xD800 \<le> high"
    unfolding rfc_char_def by blast
  then show ?thesis
  proof cases
    case plain
    then have "c \<noteq> 0" by auto
    then show ?thesis using plain by (auto simp: accepted_char_def)
  next
    case short
    then show ?thesis by (auto simp: accepted_char_def)
  next
    case (code code)
    then have "octets = [ucast code]" using utf8_encode_decoded[OF code(2)] esc[OF code(1)] by (simp add: sxe_unicode_to_utf8_def)
    then show ?thesis using code(1) by (auto simp: accepted_char_def escape_text_def ascii_escape_def)
  next
    case pair
    have "(0xD800 :: u32) \<le> 0x7F" using pair(2) esc[OF pair(1)] by (rule order_trans)
    then show ?thesis by (simp add: word_le_nat_alt)
  qed
qed

lemma rfc_string_accepted: "rfc_string ascii_escape s t \<Longrightarrow> accepted_string s t"
proof (induction rule: rfc_string.induct)
  case (rfc_string_cons octets a s t)
  obtain c where "octets = [c]" "accepted_char c a" using rfc_char_accepted[OF rfc_string_cons.hyps(1)] by blast
  then show ?case using accepted_string.intros(2)[OF _ rfc_string_cons.IH] by simp
qed (rule accepted_string.intros)

section \<open>What the stack holds\<close>

lemma stack_holds_length: "stack_holds opened st c \<Longrightarrow> length c = 16 * unat (stack_count st)"
  by (auto simp: stack_holds_def word_le_nat_alt min_def split: option.splits)

lemma stack_holds_write:
  assumes "stack_holds opened st (xs @ old @ ys)" and "length xs = k" and "length old = length b" and "b \<noteq> []"
  shows "\<exists>st'. stack_write st k b = Some st' \<and> stack_holds opened st' (xs @ b @ ys) \<and> stack_count st' = stack_count st"
proof -
  obtain m where m: "stack_jitsons st = Some m" "length m = 16 * unat (stack_maximum st)"
    and c: "xs @ old @ ys = take (16 * unat (stack_count st)) m"
    using assms by (auto simp: stack_holds_def split: option.splits)
  have m_eq: "m = xs @ old @ ys @ drop (16 * unat (stack_count st)) m"
    using append_take_drop_id[of "16 * unat (stack_count st)" m] c by (metis append.assoc)
  have len: "length (xs @ b @ ys) = 16 * unat (stack_count st)"
    using stack_holds_length[OF assms(1)] assms(3) by simp
  have "write_at k b m = Some (xs @ b @ ys @ drop (16 * unat (stack_count st)) m)"
    using assms(2,3) by (subst (1) m_eq) (simp add: write_at_def)
  then have "stack_write st k b = Some (st\<lparr>stack_jitsons := Some (xs @ b @ ys @ drop (16 * unat (stack_count st)) m)\<rparr>)"
    using m by (simp add: stack_write_def)
  moreover have "length (xs @ b @ ys @ drop (16 * unat (stack_count st)) m) = length m"
    using arg_cong[OF m_eq, of length] assms(3) by simp
  ultimately show ?thesis using assms(1) m len by (simp add: stack_holds_def)
qed

lemma stack_holds_read:
  assumes "stack_holds opened st (xs @ b @ ys)" and "length xs = k" and "length b = n" and "b \<noteq> []"
  shows "stack_read st k n = Some b"
proof -
  obtain m where m: "stack_jitsons st = Some m" and c: "xs @ b @ ys = take (16 * unat (stack_count st)) m"
    using assms by (auto simp: stack_holds_def split: option.splits)
  have "m = xs @ b @ ys @ drop (16 * unat (stack_count st)) m"
    using append_take_drop_id[of "16 * unat (stack_count st)" m] c by (metis append.assoc)
  then have "k + n \<le> length m \<and> take n (drop k m) = b"
    using assms(2,3) by (metis append_eq_conv_conj append_assoc length_append le_add1)
  then show ?thesis using m by (simp add: stack_read_def)
qed

lemma stack_holds_shrink:
  assumes "stack_holds opened st (pre @ x)" and "jitson_at index = length pre"
  shows "stack_holds opened (st\<lparr>stack_count := index\<rparr>) pre"
proof -
  have i: "16 * unat index = length pre" using assms(2) by (simp add: jitson_at_def SXE_JITSON_TOKEN_SIZE_def)
  then have le: "index \<le> stack_count st" using stack_holds_length[OF assms(1)] by (simp add: word_le_nat_alt)
  show ?thesis
  proof (cases "stack_jitsons st")
    case None
    then have "pre = []" using assms(1) by (auto simp: stack_holds_def)
    then show ?thesis using assms(1) None i by (auto simp: stack_holds_def unat_eq_0)
  next
    case (Some m)
    then have "pre @ x = take (16 * unat (stack_count st)) m" using assms(1) by (simp add: stack_holds_def)
    then have "take (16 * unat index) m = pre"
      using i le by (metis append_eq_conv_conj take_take min.absorb1 mult_le_mono2 word_le_nat_alt)
    then show ?thesis using assms(1) Some le by (auto simp: stack_holds_def)
  qed
qed

lemma stack_error_holds:
  "stack_holds opened st (pre @ x) \<Longrightarrow> jitson_at index = length pre \<Longrightarrow>
    \<exists>st'. stack_error e st index = (Inl e, st') \<and> stack_holds opened st' pre"
  by (auto simp: stack_error_def intro: stack_holds_shrink)

text \<open>New tokens are appended, whatever they contain.\<close>

lemma new_maximum_bound:
  fixes expanded maximum :: u32
  assumes "maximum < expanded" and "unat expanded < 2 ^ 31" and "0 < maximum"
  defines "new_maximum \<equiv> if expanded < JITSON_STACK_MAX_INCR then ((expanded - 1) div maximum + 1) * maximum
             else ((expanded - 1) div JITSON_STACK_MAX_INCR + 1) * JITSON_STACK_MAX_INCR"
  shows "expanded \<le> new_maximum"
proof -
  have key: "expanded \<le> ((expanded - 1) div q + 1) * q" if q: "0 < q" "unat q \<le> 4096" for q :: u32
  proof -
    have e1: "unat (expanded - 1) = unat expanded - 1" using assms(1) by (subst unat_sub) (auto simp: word_le_nat_alt word_less_nat_alt)
    have q0: "0 < unat q" using q by (simp add: word_less_nat_alt)
    let ?n = "(unat expanded - 1) div unat q"
    have div_le: "?n * unat q \<le> unat expanded - 1" by simp
    have lt: "unat expanded - 1 < (?n + 1) * unat q" using q0 by (metis Suc_eq_plus1 dividend_less_div_times add.commute mult_Suc)
    have "?n * unat q + unat q < 4294967296" using div_le assms(2)[simplified] q(2) by linarith
    then have small: "(?n + 1) * unat q < 2 ^ 32" by (simp add: add_mult_distrib)
    have "?n < 2147483648" using assms(2)[simplified] div_le_dividend[of "unat expanded - 1" "unat q"] by linarith
    then have n1: "?n + 1 < 2 ^ 32" by simp
    have "unat ((expanded - 1) div q + 1) = ?n + 1"
      using n1 e1 by (simp add: unat_word_ariths(1) unat_div_distrib)
    then have "unat (((expanded - 1) div q + 1) * q) = (?n + 1) * unat q"
      using small by (simp add: unat_word_ariths(2))
    then show ?thesis using lt by (simp add: word_le_nat_alt)
  qed
  show "expanded \<le> new_maximum"
    unfolding new_maximum_def using assms(1,3) key[of maximum] key[of JITSON_STACK_MAX_INCR]
    by (auto simp: JITSON_STACK_MAX_INCR_def word_less_nat_alt)
qed

lemma unat_bytes: "unat (ucast (n :: u32) * 16 :: u64) = 16 * unat n"
  using unat_lt2p[of n] by (simp add: unat_word_ariths(2) unat_ucast_up)

lemma stack_expand:
  assumes "stack_holds opened st c" and "malloc_ok malloc" and "0 < unat k" and "unat (stack_count st) + unat k < 2 ^ 31"
  shows "\<exists>r st'. sxe_jitson_stack_expand malloc st k = Some (r, st') \<and>
    ((r = SXE_JITSON_STACK_ERROR \<and> st' = st \<and> (\<exists>n. malloc n = None)) \<or>
     (r = stack_count st \<and> r \<noteq> SXE_JITSON_STACK_ERROR \<and> stack_count st' = stack_count st + k \<and>
      (\<exists>junk. length junk = 16 * unat k \<and> stack_holds opened st' (c @ junk))))"
proof -
  let ?e = "stack_count st + k" and ?m = "stack_maximum st"
  have ue: "unat ?e = unat (stack_count st) + unat k" using assms(4) by (simp add: unat_word_ariths(1))
  have noerr: "stack_count st \<noteq> SXE_JITSON_STACK_ERROR"
    using assms(4) by (auto simp: SXE_JITSON_STACK_ERROR_def unsigned_minus_1_eq_mask mask_eq_exp_minus_1)
  have pos: "0 < ?m" using assms(1) by (simp add: stack_holds_def)
  have lc: "length c = 16 * unat (stack_count st)" by (rule stack_holds_length[OF assms(1)])
  have holds: "\<exists>junk. length junk = 16 * unat k \<and>
      stack_holds opened (st\<lparr>stack_maximum := M, stack_jitsons := Some b, stack_count := ?e\<rparr>) (c @ junk)"
    if "?e \<le> M" "length b = 16 * unat M" "take (length c) b = c" for M b
  proof -
    have "take (16 * unat ?e) b = c @ take (16 * unat k) (drop (length c) b)"
      using that(3) lc ue by (simp add: add_mult_distrib2 take_add)
    moreover have "16 * unat ?e \<le> length b" using that(1,2) by (simp add: word_le_nat_alt)
    then have "length (take (16 * unat k) (drop (length c) b)) = 16 * unat k" using lc ue that(2) by simp
    moreover have "0 < unat M" using that(1) ue assms(3) by (simp add: word_le_nat_alt)
    ultimately show ?thesis using assms(1) that pos
      by (intro exI[of _ "take (16 * unat k) (drop (length c) b)"]) (auto simp: stack_holds_def word_less_nat_alt word_le_nat_alt)
  qed
  show ?thesis
  proof (cases "?m < ?e")
    case True
    define M where "M = (if ?e < JITSON_STACK_MAX_INCR then ((?e - 1) div ?m + 1) * ?m
             else ((?e - 1) div JITSON_STACK_MAX_INCR + 1) * JITSON_STACK_MAX_INCR)"
    have M: "?e \<le> M" unfolding M_def by (rule new_maximum_bound) (use True pos ue assms(4) in auto)
    have ex: "sxe_jitson_stack_expand malloc st k = (case sxe_realloc malloc (stack_jitsons st) (ucast M * 16) of
               None \<Rightarrow> Some (SXE_JITSON_STACK_ERROR, st)
             | Some b \<Rightarrow> Some (stack_count st, st\<lparr>stack_maximum := M, stack_jitsons := Some b, stack_count := ?e\<rparr>))"
      using True less_imp_neq[OF pos] unfolding sxe_jitson_stack_expand_def Let_def M_def[symmetric] by (simp cong: option.case_cong)
    show ?thesis
    proof (cases "sxe_realloc malloc (stack_jitsons st) (ucast M * 16)")
      case None
      then have "\<exists>n. malloc n = None" by (auto simp: sxe_realloc_def split: option.splits)
      then show ?thesis using ex None by simp
    next
      case (Some b)
      have old: "length o1 \<le> unat (ucast M * 16 :: u64)" if "stack_jitsons st = Some o1" for o1
        using that assms(1) True M by (simp add: unat_bytes stack_holds_def word_le_nat_alt word_less_nat_alt)
      have lb: "length b = 16 * unat M" using realloc_length(1)[OF assms(2) Some old] by (simp add: unat_bytes)
      have "take (length c) b = c"
      proof (cases "stack_jitsons st")
        case None then show ?thesis using assms(1) by (simp add: stack_holds_def)
      next
        case (Some o1)
        have "take (length o1) b = o1" by (rule realloc_length(2)[OF assms(2) \<open>sxe_realloc _ _ _ = Some b\<close> old Some])
        moreover have "c = take (length c) o1 \<and> length c \<le> length o1" using assms(1) Some lc by (auto simp: stack_holds_def)
        ultimately show ?thesis by (metis min.absorb1 take_take)
      qed
      from holds[OF M lb this] show ?thesis using ex Some noerr by auto
    qed
  next
    case False
    then have le: "?e \<le> ?m" by simp
    show ?thesis
    proof (cases "stack_jitsons st")
      case None
      show ?thesis
      proof (cases "malloc (ucast ?m * 16)")
        case None
        then show ?thesis using False \<open>stack_jitsons st = None\<close> by (auto simp: sxe_jitson_stack_expand_def)
      next
        case (Some b)
        have "length b = 16 * unat ?m" using assms(2) Some by (simp add: malloc_ok_def unat_bytes)
        moreover have "take (length c) b = c" using assms(1) None by (simp add: stack_holds_def)
        ultimately have "\<exists>junk. length junk = 16 * unat k \<and>
            stack_holds opened (st\<lparr>stack_maximum := ?m, stack_jitsons := Some b, stack_count := ?e\<rparr>) (c @ junk)"
          using holds[OF le] by blast
        moreover have "sxe_jitson_stack_expand malloc st k =
            Some (stack_count st, st\<lparr>stack_maximum := ?m, stack_jitsons := Some b, stack_count := ?e\<rparr>)"
          using False None Some by (simp add: sxe_jitson_stack_expand_def)
        ultimately show ?thesis using noerr by auto
      qed
    next
      case (Some b)
      have lb: "length b = 16 * unat ?m" "take (length c) b = c" using assms(1) Some lc by (auto simp: stack_holds_def)
      have "\<exists>junk. length junk = 16 * unat k \<and>
            stack_holds opened (st\<lparr>stack_maximum := ?m, stack_jitsons := Some b, stack_count := ?e\<rparr>) (c @ junk)"
        using holds[OF le lb] by blast
      moreover have "sxe_jitson_stack_expand malloc st k =
            Some (stack_count st, st\<lparr>stack_maximum := ?m, stack_jitsons := Some b, stack_count := ?e\<rparr>)"
        using False Some by (simp add: sxe_jitson_stack_expand_def)
      ultimately show ?thesis using noerr by auto
    qed
  qed
qed

section \<open>Representation of values\<close>

lemma length_le_bytes [simp]: "length (le32_bytes v) = 4" "length (le64_bytes u) = 8" "le32_bytes v \<noteq> []" "le64_bytes u \<noteq> []"
  by (simp_all add: le32_bytes_def le64_bytes_def)

lemma get_len_holds:
  assumes "stack_holds opened st (pre @ le32_bytes ty @ le32_bytes v @ y)" and "jitson_at index = length pre"
  shows "jitson_get_len st index = Some v"
  using stack_holds_read[of opened st "pre @ le32_bytes ty" "le32_bytes v" y] assms
  by (simp add: jitson_get_len_def le32_le32_bytes)

lemma set_type_holds:
  assumes "stack_holds opened st (pre @ x @ y)" and "jitson_at index = length pre" and "length x = 4"
  shows "\<exists>st'. jitson_set_type st index v = Some st' \<and> stack_holds opened st' (pre @ le32_bytes v @ y) \<and> stack_count st' = stack_count st"
  using stack_holds_write[of opened st pre x y "jitson_at index" "le32_bytes v"] assms by (simp add: jitson_set_type_def)

lemma set_len_holds:
  assumes "stack_holds opened st (pre @ ty @ x @ y)" and "jitson_at index = length pre" and "length ty = 4" and "length x = 4"
  shows "\<exists>st'. jitson_set_len st index v = Some st' \<and> stack_holds opened st' (pre @ ty @ le32_bytes v @ y) \<and> stack_count st' = stack_count st"
  using stack_holds_write[of opened st "pre @ ty" x y "jitson_at index + 4" "le32_bytes v"] assms by (simp add: jitson_set_len_def)

lemma set_integer_holds:
  assumes "stack_holds opened st (pre @ h @ x @ y)" and "jitson_at index = length pre" and "length h = 8" and "length x = 8"
  shows "\<exists>st'. jitson_set_integer st index v = Some st' \<and> stack_holds opened st' (pre @ h @ le64_bytes v @ y) \<and> stack_count st' = stack_count st"
  using stack_holds_write[of opened st "pre @ h" x y "jitson_at index + 8" "le64_bytes v"] assms by (simp add: jitson_set_integer_def)

lemma put_char_holds:
  assumes "stack_holds opened st (pre @ le32_bytes ty @ le32_bytes (of_nat (length s)) @ s @ j # junk)" and "jitson_at index = length pre"
    and "length s < 2 ^ 31"
  shows "\<exists>st'. jitson_put_char st index c = Some st' \<and> stack_count st' = stack_count st \<and>
    stack_holds opened st' (pre @ le32_bytes ty @ le32_bytes (of_nat (length (s @ [c]))) @ (s @ [c]) @ junk)"
proof -
  have len: "jitson_get_len st index = Some (of_nat (length s))" by (rule get_len_holds[OF assms(1,2)])
  have u: "unat (of_nat (length s) :: u32) = length s" by (rule unat_of_nat_small) (use assms(3) in simp)
  obtain st1 where w: "stack_write st (jitson_at index + 8 + length s) [c] = Some st1" and c1: "stack_count st1 = stack_count st"
    and h1: "stack_holds opened st1 ((pre @ le32_bytes ty @ le32_bytes (of_nat (length s)) @ s) @ [c] @ junk)"
    using stack_holds_write[of opened st "pre @ le32_bytes ty @ le32_bytes (of_nat (length s)) @ s" "[j]" junk "jitson_at index + 8 + length s" "[c]"]
      assms by auto
  have "\<exists>st'. jitson_set_len st1 index (of_nat (length s) + 1) = Some st' \<and>
    stack_holds opened st' (pre @ le32_bytes ty @ le32_bytes (of_nat (length s) + 1) @ s @ [c] @ junk) \<and> stack_count st' = stack_count st1"
    by (rule set_len_holds[of _ _ _ _ "le32_bytes (of_nat (length s))"]) (use h1 assms(2) in auto)
  then show ?thesis using len u w c1 by (auto simp: jitson_put_char_def add.commute)
qed

lemma store_char_holds:
  assumes "stack_holds opened st (pre @ blk)" and "string_partial ty s blk" and "jitson_at index = length pre"
    and "malloc_ok malloc" and "length (pre @ blk) + 16 < 2 ^ 31"
  shows "\<exists>stored st'. store_char malloc st index [c] = Some (stored, st') \<and>
    (if stored then \<exists>blk'. stack_holds opened st' (pre @ blk') \<and> string_partial ty (s @ [c]) blk' \<and> length blk' \<le> length blk + 16
     else (\<exists>n. malloc n = None) \<and> (\<exists>x. stack_holds opened st' (pre @ x)))"
proof -
  obtain j junk where blk: "blk = le32_bytes ty @ le32_bytes (of_nat (length s)) @ s @ j # junk" and j16: "length junk < 16"
    and dv: "16 dvd length blk" using assms(2) by (auto simp: string_partial_def)
  have s31: "length s < 2 ^ 31" using blk assms(5) by simp
  let ?blk1 = "le32_bytes ty @ le32_bytes (of_nat (length (s @ [c]))) @ (s @ [c]) @ junk"
  obtain st1 where p: "jitson_put_char st index c = Some st1" and c1: "stack_count st1 = stack_count st"
    and h1: "stack_holds opened st1 (pre @ ?blk1)"
    using put_char_holds[of opened st pre ty s j junk index c] assms(1,3) blk s31 by auto
  have len: "jitson_get_len st1 index = Some (of_nat (length (s @ [c])))" by (rule get_len_holds[OF h1 assms(3)])
  have u: "unat (of_nat (length (s @ [c])) :: u32) = length s + 1"
    by (subst unat_of_nat_small) (use blk assms(5) in auto)
  have lblk: "length ?blk1 = length blk" by (simp add: blk)
  have edge: "8 \<le> (length s + 1) mod 16 \<and> (length s + 1) mod 16 < 9 \<longleftrightarrow> junk = []"
  proof -
    have d: "16 dvd 9 + length s + length junk" using dv blk by (simp add: add_ac)
    have "(length s + 1) mod 16 = 8 \<longleftrightarrow> length junk = 0" using d j16 by presburger
    then show ?thesis by auto
  qed
  show ?thesis
  proof (cases "junk = []")
    case False
    then obtain j' junk' where "junk = j' # junk'" by (cases junk) auto
    then have "string_partial ty (s @ [c]) ?blk1" unfolding string_partial_def using j16 dv lblk by auto
    then show ?thesis using False p len u edge h1 lblk
      by (intro exI[of _ True] exI[of _ st1]) (auto simp: store_char_def SXE_JITSON_TOKEN_SIZE_def SXE_JITSON_STACK_ERROR_def)
  next
    case True
    have cnt: "unat (stack_count st1) + unat (1 :: u32) < 2 ^ 31"
      using stack_holds_length[OF h1] assms(5) lblk by simp
    obtain r st2 where e: "sxe_jitson_stack_expand malloc st1 1 = Some (r, st2)"
      and cases1: "(r = SXE_JITSON_STACK_ERROR \<and> st2 = st1 \<and> (\<exists>n. malloc n = None)) \<or>
        (r \<noteq> SXE_JITSON_STACK_ERROR \<and> (\<exists>new. length new = 16 * unat (1 :: u32) \<and> stack_holds opened st2 ((pre @ ?blk1) @ new)))"
      using stack_expand[OF h1 assms(4) _ cnt] by fastforce
    have step: "store_char malloc st index [c] = Some (r \<noteq> SXE_JITSON_STACK_ERROR, st2)"
      using True p len u edge e by (simp add: store_char_def SXE_JITSON_TOKEN_SIZE_def)
    from cases1 show ?thesis
    proof (elim disjE conjE exE)
      fix n assume "r = SXE_JITSON_STACK_ERROR" "st2 = st1" "malloc n = None"
      then show ?thesis using step h1 by auto
    next
      fix new assume r: "r \<noteq> SXE_JITSON_STACK_ERROR" and new: "length new = 16 * unat (1 :: u32)" "stack_holds opened st2 ((pre @ ?blk1) @ new)"
      then obtain a as where as: "new = a # as" "length as = 15" by (cases new) auto
      have "string_partial ty (s @ [c]) (?blk1 @ new)"
      proof -
        have "16 dvd 9 + length s" using dv blk True by (simp add: add_ac)
        then have "16 dvd 25 + length s" by presburger
        then show ?thesis unfolding string_partial_def using as True by (intro exI[of _ a] exI[of _ as]) auto
      qed
      then show ?thesis using step r new lblk by (intro exI[of _ True] exI[of _ st2]) auto
    qed
  qed
qed

section \<open>Texts of strings\<close>

lemma small_escapes_suffix: "small_escapes (x @ y) \<Longrightarrow> small_escapes y"
  unfolding small_escapes_def by (metis append.assoc)

lemma small_escapes_tl: "small_escapes (x # y) \<Longrightarrow> small_escapes y"
  using small_escapes_suffix[of "[x]" y] by simp

lemma load_unicode_rest:
  assumes "src_end src = None" and "src_rest src = [h1, h2, h3, h4] @ r"
    and "escape_code h1 h2 h3 h4 = Some code"
  shows "load_unicode 4 0 src = Some (Some code, src_skip 4 src)"
  using assms
  by (auto simp: escape_code_def eval_nat_numeral get_char_rest split: Option.bind_splits)

lemma load_unicode_fail:
  assumes "src_end src = None" and "src_rest src = t @ 0 # r" and "\<not> (\<exists>h1 h2 h3 h4 t' code. t = h1 # h2 # h3 # h4 # t' \<and> escape_code h1 h2 h3 h4 = Some code)"
  shows "\<exists>src'. load_unicode 4 0 src = Some (None, src')"
proof -
  have gen: "(\<exists>src'. load_unicode n u src = Some (None, src')) \<or> (\<exists>ds t'. t = ds @ t' \<and> length ds = n \<and> (\<forall>c \<in> set ds. hex_escape_digit c \<noteq> None))"
    if "src_end src = None" "src_rest src = t @ 0 # r" for n u src t
    using that
  proof (induction n arbitrary: u src t)
    case 0
    then show ?case by simp
  next
    case (Suc n)
    have h0: "hex_escape_digit 0 = None" by (simp add: hex_escape_digit_def)
    show ?case
    proof (cases t)
      case Nil
      then show ?thesis using Suc.prems h0 by (simp add: get_char_rest)
    next
      case (Cons c t')
      show ?thesis
      proof (cases "hex_escape_digit c")
        case None
        then show ?thesis using Suc.prems Cons by (simp add: get_char_rest)
      next
        case (Some d)
        have "(\<exists>src'. load_unicode n (push_bit 4 u + d) (src_skip 1 src) = Some (None, src')) \<or>
          (\<exists>ds t''. t' = ds @ t'' \<and> length ds = n \<and> (\<forall>c \<in> set ds. hex_escape_digit c \<noteq> None))"
          by (rule Suc.IH) (use Suc.prems Cons in auto)
        then show ?thesis
        proof
          assume "\<exists>ds t''. t' = ds @ t'' \<and> length ds = n \<and> (\<forall>c \<in> set ds. hex_escape_digit c \<noteq> None)"
          then obtain ds t'' where "t' = ds @ t''" "length ds = n" "\<forall>c \<in> set ds. hex_escape_digit c \<noteq> None" by blast
          then show ?thesis using Cons Some by (intro disjI2 exI[of _ "c # ds"] exI[of _ t'']) auto
        qed (use Suc.prems Cons Some in \<open>simp add: get_char_rest\<close>)
      qed
    qed
  qed
  from gen[OF assms(1,2), of 4 0] show ?thesis
  proof
    assume "\<exists>ds t'. t = ds @ t' \<and> length ds = 4 \<and> (\<forall>c \<in> set ds. hex_escape_digit c \<noteq> None)"
    then obtain ds t' where ds: "t = ds @ t'" "length ds = 4" "\<forall>c \<in> set ds. hex_escape_digit c \<noteq> None" by blast
    then obtain h1 h2 h3 h4 where "ds = [h1, h2, h3, h4]" by (auto simp: eval_nat_numeral length_Suc_conv)
    then show ?thesis using ds assms(3) by (auto simp: escape_code_def)
  qed simp
qed

section \<open>Loading strings\<close>

lemma load_string_step:
  assumes "src_end src = None" and "src_rest src = a @ r" and "accepted_char c a"
  shows "load_string_loop malloc st src index = do {
     (stored, st') \<leftarrow> store_char malloc st index [c];
     if stored then load_string_loop malloc st' (src_skip (length a) src) index
     else let (r, st') = stack_error ENOMEM st' index in Some (r, st', src_skip (length a) src) }"
proof -
  from assms(3) consider "a = [c]" "c \<noteq> 0" "c \<noteq> 0x22" "c \<noteq> 0x5C" | e where "a = [0x5C, e]" "escape_char e = Some c"
    | h1 h2 h3 h4 code where "a = [0x5C, 0x75, h1, h2, h3, h4]" "escape_code h1 h2 h3 h4 = Some code" "code \<le> 0x7F" "c = ucast code"
    unfolding accepted_char_def by blast
  then show ?thesis
  proof cases
    case 1
    then show ?thesis using assms by (subst load_string_loop.simps) (simp add: get_char_rest cong: if_cong)
  next
    case (2 e)
    have g: "sxe_jitson_source_get_char src = Some (0x5C, src_skip 1 src)" by (rule get_char_rest) (use assms 2 in auto)
    have "sxe_jitson_source_get_char (src_skip 1 src) = Some (e, src_skip 1 (src_skip 1 src))" by (rule get_char_rest) (use assms 2 in auto)
    then have "load_escape (src_skip 1 src) = Some (Some [c], src_skip (length a) src)"
      using 2 by (auto simp: load_escape_def escape_char_def split: if_splits)
    then show ?thesis using g 2 by (subst load_string_loop.simps) (simp  cong: if_cong)
  next
    case (3 h1 h2 h3 h4 code)
    have g: "sxe_jitson_source_get_char src = Some (0x5C, src_skip 1 src)" by (rule get_char_rest) (use assms 3 in auto)
    have g2: "sxe_jitson_source_get_char (src_skip 1 src) = Some (0x75, src_skip 1 (src_skip 1 src))" by (rule get_char_rest) (use assms 3 in auto)
    have "load_unicode 4 0 (src_skip (Suc (Suc 0)) src) = Some (Some code, src_skip 4 (src_skip (Suc (Suc 0)) src))"
      by (rule load_unicode_rest) (use assms 3 in auto)
    then have "load_escape (src_skip 1 src) = Some (Some [c], src_skip (length a) src)"
      using 3 g2 by (simp add: load_escape_def sxe_unicode_to_utf8_def)
    then show ?thesis using g 3 by (subst load_string_loop.simps) (simp cong: if_cong)
  qed
qed

lemma load_string_close:
  assumes "src_end src = None" and "src_rest src = 0x22 # r" and "stack_holds opened st (pre @ blk)" and "string_partial ty s blk"
    and "jitson_at index = length pre" and "length (pre @ blk) < 2 ^ 31"
  shows "\<exists>st' blk'. load_string_loop malloc st src index = Some (Inr (), st', src_skip 1 src) \<and> stack_holds opened st' (pre @ blk')
    \<and> string_tokens ty s blk' \<and> length blk' = length blk"
proof -
  obtain j junk where blk: "blk = le32_bytes ty @ le32_bytes (of_nat (length s)) @ s @ j # junk" "length junk < 16" "16 dvd length blk"
    using assms(4) by (auto simp: string_partial_def)
  have len: "jitson_get_len st index = Some (of_nat (length s))"
    by (rule get_len_holds[of opened st pre ty _ "s @ j # junk"]) (use assms(3,5) blk in auto)
  have u: "unat (of_nat (length s) :: u32) = length s" by (rule unat_of_nat_small) (use blk assms(6) in auto)
  obtain st' where w: "stack_write st (jitson_at index + 8 + length s) [0] = Some st'"
    and h: "stack_holds opened st' ((pre @ le32_bytes ty @ le32_bytes (of_nat (length s)) @ s) @ [0] @ junk)"
    using stack_holds_write[of opened st "pre @ le32_bytes ty @ le32_bytes (of_nat (length s)) @ s" "[j]" junk "jitson_at index + 8 + length s" "[0]"]
      assms(3,5) blk by auto
  have "string_tokens ty s (le32_bytes ty @ le32_bytes (of_nat (length s)) @ s @ 0 # junk)"
    unfolding string_tokens_def using blk by auto
  then show ?thesis using assms(1,2) len u w h blk
    by (subst load_string_loop.simps) (auto simp: get_char_rest)
qed

lemma load_string_loop_complete:
  assumes "accepted_string s t" and "src_end src = None" and "src_rest src = t @ 0x22 # r"
    and "stack_holds opened st (pre @ blk)" and "string_partial ty s0 blk" and "jitson_at index = length pre"
    and "malloc_ok malloc" and "\<And>n. malloc n \<noteq> None" and "length (pre @ blk) + 16 * length t + 16 < 2 ^ 31"
  shows "\<exists>st' blk'. load_string_loop malloc st src index = Some (Inr (), st', src_skip (length t + 1) src) \<and> stack_holds opened st' (pre @ blk')
    \<and> string_tokens ty (s0 @ s) blk' \<and> length blk' \<le> length blk + 16 * length t"
  using assms
proof (induction arbitrary: st src blk s0 rule: accepted_string.induct)
  case 1
  then show ?case using load_string_close[of src r opened st pre blk ty s0 index malloc] by fastforce
next
  case (2 c a s t)
  have a0: "0 < length a" using 2(1) by (auto simp: accepted_char_def)
  obtain stored st1 where sc: "store_char malloc st index [c] = Some (stored, st1)"
    and post: "if stored then \<exists>blk'. stack_holds opened st1 (pre @ blk') \<and> string_partial ty (s0 @ [c]) blk' \<and> length blk' \<le> length blk + 16
     else (\<exists>n. malloc n = None) \<and> (\<exists>x. stack_holds opened st1 (pre @ x))"
    using store_char_holds[of opened st pre blk ty s0 index malloc c] 2(6-9,11) by auto
  have stored
  proof (rule ccontr)
    assume "\<not> stored"
    then obtain n where "malloc n = None" using post by auto
    then show False using 2(10)[of n] by simp
  qed
  then obtain blk1 where h1: "stack_holds opened st1 (pre @ blk1)" "string_partial ty (s0 @ [c]) blk1" "length blk1 \<le> length blk + 16"
    using post by auto
  have step: "load_string_loop malloc st src index = load_string_loop malloc st1 (src_skip (length a) src) index"
    using load_string_step[of src a "t @ 0x22 # r" c malloc st index] 2(1,4,5) sc \<open>stored\<close> by simp
  have "\<exists>st' blk'. load_string_loop malloc st1 (src_skip (length a) src) index = Some (Inr (), st', src_skip (length t + 1) (src_skip (length a) src))
    \<and> stack_holds opened st' (pre @ blk') \<and> string_tokens ty ((s0 @ [c]) @ s) blk' \<and> length blk' \<le> length blk1 + 16 * length t"
  proof (rule 2(3))
    show "src_rest (src_skip (length a) src) = t @ 0x22 # r" using 2(5) by simp
    show "length (pre @ blk1) + 16 * length t + 16 < 2 ^ 31" using 2(11) h1(3) a0 by (cases "length a") auto
  qed (use 2 h1 in auto)
  then show ?case using step h1(3) a0 by (cases "length a") (fastforce simp: add_ac)+
qed

lemma load_string_loop_sound:
  assumes "src_end src = None" and "src_rest src = t @ 0 # r" and "0 \<notin> set t" and "small_escapes t"
    and "stack_holds opened st (pre @ blk)" and "string_partial ty s0 blk" and "jitson_at index = length pre"
    and "malloc_ok malloc" and "length (pre @ blk) + 16 * length t + 16 < 2 ^ 31"
  shows "\<exists>res st' src'. load_string_loop malloc st src index = Some (res, st', src') \<and>
    (case res of Inl _ \<Rightarrow> stack_holds opened st' pre
     | Inr _ \<Rightarrow> \<exists>s u v blk'. t = u @ 0x22 # v \<and> accepted_string s u \<and> src' = src_skip (length u + 1) src \<and> stack_holds opened st' (pre @ blk')
         \<and> string_tokens ty (s0 @ s) blk' \<and> length blk' \<le> length blk + 16 * length u)"
  using assms
proof (induction "length t" arbitrary: t src st blk s0 rule: less_induct)
  case less
  note asm = less.prems
  have err: "\<exists>st'. stack_error e st index = (Inl e, st') \<and> stack_holds opened st' pre" for e
    by (rule stack_error_holds[OF asm(5,7)])
  have char: ?case if "t = a @ t'" "accepted_char c a" for a t' c
  proof -
    have a0: "0 < length a" using that(2) by (auto simp: accepted_char_def)
    have step: "load_string_loop malloc st src index = do {
     (stored, st') \<leftarrow> store_char malloc st index [c];
     if stored then load_string_loop malloc st' (src_skip (length a) src) index
     else let (r, st') = stack_error ENOMEM st' index in Some (r, st', src_skip (length a) src) }"
      by (rule load_string_step[of src a "t' @ 0 # r"]) (use asm that in auto)
    obtain stored st1 where sc: "store_char malloc st index [c] = Some (stored, st1)"
      and post: "if stored then \<exists>blk'. stack_holds opened st1 (pre @ blk') \<and> string_partial ty (s0 @ [c]) blk' \<and> length blk' \<le> length blk + 16
       else (\<exists>n. malloc n = None) \<and> (\<exists>x. stack_holds opened st1 (pre @ x))"
      using store_char_holds[of opened st pre blk ty s0 index malloc c] asm by auto
    show ?case
    proof (cases stored)
      case False
      then obtain x where "stack_holds opened st1 (pre @ x)" using post by auto
      from stack_error_holds[OF this asm(7)] obtain st' where "stack_error ENOMEM st1 index = (Inl ENOMEM, st')" "stack_holds opened st' pre"
        by blast
      then show ?thesis using step sc False by auto
    next
      case True
      then obtain blk1 where h1: "stack_holds opened st1 (pre @ blk1)" "string_partial ty (s0 @ [c]) blk1" "length blk1 \<le> length blk + 16"
        using post by auto
      have go: "load_string_loop malloc st src index = load_string_loop malloc st1 (src_skip (length a) src) index"
        using step sc True by simp
      have "\<exists>res st' src'. load_string_loop malloc st1 (src_skip (length a) src) index = Some (res, st', src') \<and>
        (case res of Inl _ \<Rightarrow> stack_holds opened st' pre
         | Inr _ \<Rightarrow> \<exists>s u v blk'. t' = u @ 0x22 # v \<and> accepted_string s u \<and> src' = src_skip (length u + 1) (src_skip (length a) src)
             \<and> stack_holds opened st' (pre @ blk') \<and> string_tokens ty ((s0 @ [c]) @ s) blk' \<and> length blk' \<le> length blk1 + 16 * length u)"
      proof (rule less.hyps)
        show "src_rest (src_skip (length a) src) = t' @ 0 # r" using asm(2) that by simp
        show "small_escapes t'" using asm(4) that(1) small_escapes_suffix by blast
        show "length (pre @ blk1) + 16 * length t' + 16 < 2 ^ 31" using asm(9) h1(3) a0 that(1) by (cases "length a") auto
      qed (use asm that h1 a0 in auto)
      then obtain res st' src' where res: "load_string_loop malloc st1 (src_skip (length a) src) index = Some (res, st', src')"
        and body: "case res of Inl _ \<Rightarrow> stack_holds opened st' pre
         | Inr _ \<Rightarrow> \<exists>s u v blk'. t' = u @ 0x22 # v \<and> accepted_string s u \<and> src' = src_skip (length u + 1) (src_skip (length a) src)
             \<and> stack_holds opened st' (pre @ blk') \<and> string_tokens ty ((s0 @ [c]) @ s) blk' \<and> length blk' \<le> length blk1 + 16 * length u"
        by blast
      show ?thesis
      proof (cases res)
        case (Inl e)
        then show ?thesis using go res body by auto
      next
        case (Inr x)
        then obtain s u v blk' where b: "t' = u @ 0x22 # v" "accepted_string s u" "src' = src_skip (length u + 1) (src_skip (length a) src)"
            "stack_holds opened st' (pre @ blk')" "string_tokens ty ((s0 @ [c]) @ s) blk'" "length blk' \<le> length blk1 + 16 * length u"
          using body by auto
        have "t = (a @ u) @ 0x22 # v" using that(1) b(1) by simp
        moreover have "accepted_string (c # s) (a @ u)" by (rule accepted_string.intros(2)[OF that(2) b(2)])
        moreover have "src' = src_skip (length (a @ u) + 1) src" using b(3) by (simp add: add_ac)
        moreover have "string_tokens ty (s0 @ c # s) blk'" using b(5) by simp
        moreover have "length blk' \<le> length blk + 16 * length (a @ u)" using b(6) h1(3) a0 by (cases "length a") auto
        ultimately show ?thesis using go res Inr b(4) by (auto simp del: length_append append_assoc)
      qed
    qed
  qed
  show ?case
  proof (cases t)
    case Nil
    then show ?thesis using asm err[of EINVAL] by (subst load_string_loop.simps) (auto simp: get_char_rest)
  next
    case (Cons c t')
    have c0: "c \<noteq> 0" using asm(3) Cons by auto
    consider "c = 0x22" | "c \<noteq> 0x22" "c \<noteq> 0x5C" | "c = 0x5C" by blast
    then show ?thesis
    proof cases
      case 1
      obtain st' blk' where "load_string_loop malloc st src index = Some (Inr (), st', src_skip (length ([] :: u8 list) + 1) src)" "stack_holds opened st' (pre @ blk')"
        "string_tokens ty s0 blk'" "length blk' = length blk"
        using load_string_close[of src "t' @ 0 # r" opened st pre blk ty s0 index malloc] asm Cons 1 by auto
      moreover have "t = [] @ 0x22 # t'" using Cons 1 by simp
      ultimately show ?thesis using accepted_string.intros(1) by fastforce
    next
      case 2
      then show ?thesis using char[of "[c]" t' c] Cons c0 by (simp add: accepted_char_def)
    next
      case 3
      have g: "sxe_jitson_source_get_char src = Some (0x5C, src_skip 1 src)" by (rule get_char_rest) (use asm Cons 3 in auto)
      have fail: ?thesis if "load_escape (src_skip 1 src) = Some (None, src')" for src'
        using that g err[of EILSEQ] by (subst load_string_loop.simps) auto
      show ?thesis
      proof (cases t')
        case Nil
        have "sxe_jitson_source_get_char (src_skip 1 src) = Some (0, src_skip 1 (src_skip 1 src))"
          by (rule get_char_rest) (use asm Cons Nil in auto)
        then show ?thesis using fail by (simp add: load_escape_def)
      next
        case (Cons e t'')
        have t: "t = [0x5C, e] @ t''" using \<open>t = c # t'\<close> Cons 3 by simp
        have ge: "sxe_jitson_source_get_char (src_skip 1 src) = Some (e, src_skip 1 (src_skip 1 src))"
          by (rule get_char_rest) (use asm t in auto)
        consider a where "escape_char e = Some a" | "escape_char e = None" "e \<noteq> 0x75" | "e = 0x75" by fastforce
        then show ?thesis
        proof cases
          case 1
          then show ?thesis using char[OF t] by (simp add: accepted_char_def)
        next
          case 2
          then show ?thesis using fail ge by (auto simp: load_escape_def escape_char_def split: if_splits)
        next
          case 3
          show ?thesis
          proof (cases "\<exists>h1 h2 h3 h4 t' code. t'' = h1 # h2 # h3 # h4 # t' \<and> escape_code h1 h2 h3 h4 = Some code")
            case True
            then obtain h1 h2 h3 h4 t1 code where h: "t'' = h1 # h2 # h3 # h4 # t1" "escape_code h1 h2 h3 h4 = Some code" by blast
            have "t = [] @ 0x5C # 0x75 # h1 # h2 # h3 # h4 # t1" using t 3 h by simp
            then have "code \<le> 0x7F" using asm(4) h(2) unfolding small_escapes_def by blast
            then show ?thesis using char[of "[0x5C, 0x75, h1, h2, h3, h4]" t1 "ucast code"] t 3 h by (auto simp: accepted_char_def)
          next
            case False
            obtain src' where "load_unicode 4 0 (src_skip (Suc (Suc 0)) src) = Some (None, src')"
              using load_unicode_fail[of "src_skip (Suc (Suc 0)) src" t'' r] False asm t by auto
            then show ?thesis using fail ge 3 by (simp add: load_escape_def)
          qed
        qed
      qed
    qed
  qed
qed

end
