(* ===== verification/SxeJitsonParser.thy ===== *)
theory SxeJitsonParser
  imports SxeJitsonStack
begin

text \<open>
  The parser of \<^verbatim>\<open>sxe-jitson-stack.c\<close> accepts JSON: the grammar of RFC 8259 and the somewhat larger one of the texts that the parser accepts,
  both relating values to their texts, a relation between values and the tokens that represent them, and the proof that a text of a
  value is loaded as tokens of that value. What one call
  does is \<open>load_json_dispatch\<close>; the cases of the grammar are composed in \<open>text_loads\<close>.
\<close>

unbundle bit_operations_syntax

section \<open>Definitions\<close>

definition ws :: "u8 list \<Rightarrow> bool" where
  "ws w \<longleftrightarrow> (\<forall>c \<in> set w. isspace c)"

text \<open>
  The texts that the parser accepts, and their values. They are those of RFC 8259 below, and more: zeros before the integer part of a number, vertical
  tab and form feed as white space (\<open>ws\<close>), and control characters in strings (\<^const>\<open>accepted_char\<close>). Escapes of code points from
  U+0080 on are left out, because the parser may then write past its tokens.
\<close>

inductive accepted_text :: "(u8 list \<Rightarrow> u64) \<Rightarrow> json \<Rightarrow> u8 list \<Rightarrow> bool"
  and accepted_elements :: "(u8 list \<Rightarrow> u64) \<Rightarrow> json list \<Rightarrow> u8 list \<Rightarrow> bool"
  and accepted_member :: "(u8 list \<Rightarrow> u64) \<Rightarrow> u8 list \<Rightarrow> json \<Rightarrow> u8 list \<Rightarrow> bool"
  and accepted_members :: "(u8 list \<Rightarrow> u64) \<Rightarrow> (u8 list \<times> json) list \<Rightarrow> u8 list \<Rightarrow> bool" for dbl where
  text_null: "accepted_text dbl JNull (lit ''null'')"
| text_true: "accepted_text dbl (JBool True) (lit ''true'')"
| text_false: "accepted_text dbl (JBool False) (lit ''false'')"
| text_uint: "num_digits ds \<Longrightarrow> accepted_text dbl (JUint (of_nat (min (digits_value 10 ds) (2 ^ 64 - 1)))) ds"
| text_real: "num_sign s \<Longrightarrow> num_digits ds \<Longrightarrow> num_fraction f \<Longrightarrow> num_exponent e \<Longrightarrow> \<not> (s = [] \<and> f = [] \<and> e = []) \<Longrightarrow>
    accepted_text dbl (JReal (dbl (s @ ds @ f @ e))) (s @ ds @ f @ e)"
| text_string: "accepted_string s t \<Longrightarrow> accepted_text dbl (JString s) (0x22 # t @ [0x22])"
| text_array_empty: "ws w \<Longrightarrow> accepted_text dbl (JArray []) (0x5B # w @ [0x5D])"
| text_array: "accepted_elements dbl vs t \<Longrightarrow> accepted_text dbl (JArray vs) (0x5B # t @ [0x5D])"
| text_object_empty: "ws w \<Longrightarrow> accepted_text dbl (JObject []) (0x7B # w @ [0x7D])"
| text_object: "accepted_members dbl ms t \<Longrightarrow> accepted_text dbl (JObject ms) (0x7B # t @ [0x7D])"
| text_element: "ws w1 \<Longrightarrow> accepted_text dbl v t \<Longrightarrow> ws w2 \<Longrightarrow> accepted_elements dbl [v] (w1 @ t @ w2)"
| text_elements: "ws w1 \<Longrightarrow> accepted_text dbl v t \<Longrightarrow> ws w2 \<Longrightarrow> accepted_elements dbl vs t2 \<Longrightarrow>
    accepted_elements dbl (v # vs) (w1 @ t @ w2 @ 0x2C # t2)"
| text_member: "ws w1 \<Longrightarrow> accepted_string k kt \<Longrightarrow> ws w2 \<Longrightarrow> ws w3 \<Longrightarrow> accepted_text dbl v t \<Longrightarrow> ws w4 \<Longrightarrow>
    accepted_member dbl k v (w1 @ 0x22 # kt @ 0x22 # w2 @ 0x3A # w3 @ t @ w4)"
| text_one_member: "accepted_member dbl k v t \<Longrightarrow> accepted_members dbl [(k, v)] t"
| text_members: "accepted_member dbl k v t \<Longrightarrow> accepted_members dbl ms t2 \<Longrightarrow> accepted_members dbl ((k, v) # ms) (t @ 0x2C # t2)"

text \<open>The grammar of RFC 8259, with \<open>esc\<close> for the code units that may be escaped in strings.\<close>

definition rfc_ws :: "u8 list \<Rightarrow> bool" where
  "rfc_ws w \<longleftrightarrow> set w \<subseteq> {0x20, 0x09, 0x0A, 0x0D}"

inductive rfc_text :: "(u32 \<Rightarrow> bool) \<Rightarrow> (u8 list \<Rightarrow> u64) \<Rightarrow> json \<Rightarrow> u8 list \<Rightarrow> bool"
  and rfc_elements :: "(u32 \<Rightarrow> bool) \<Rightarrow> (u8 list \<Rightarrow> u64) \<Rightarrow> json list \<Rightarrow> u8 list \<Rightarrow> bool"
  and rfc_member :: "(u32 \<Rightarrow> bool) \<Rightarrow> (u8 list \<Rightarrow> u64) \<Rightarrow> u8 list \<Rightarrow> json \<Rightarrow> u8 list \<Rightarrow> bool"
  and rfc_members :: "(u32 \<Rightarrow> bool) \<Rightarrow> (u8 list \<Rightarrow> u64) \<Rightarrow> (u8 list \<times> json) list \<Rightarrow> u8 list \<Rightarrow> bool" for esc dbl where
  rfc_null: "rfc_text esc dbl JNull (lit ''null'')"
| rfc_true: "rfc_text esc dbl (JBool True) (lit ''true'')"
| rfc_false: "rfc_text esc dbl (JBool False) (lit ''false'')"
| rfc_uint: "rfc_int ds \<Longrightarrow> rfc_text esc dbl (JUint (of_nat (min (digits_value 10 ds) (2 ^ 64 - 1)))) ds"
| rfc_real: "num_sign s \<Longrightarrow> rfc_int ds \<Longrightarrow> num_fraction f \<Longrightarrow> num_exponent e \<Longrightarrow> \<not> (s = [] \<and> f = [] \<and> e = []) \<Longrightarrow>
    rfc_text esc dbl (JReal (dbl (s @ ds @ f @ e))) (s @ ds @ f @ e)"
| rfc_of_string: "rfc_string esc s t \<Longrightarrow> rfc_text esc dbl (JString s) (0x22 # t @ [0x22])"
| rfc_array_empty: "rfc_ws w \<Longrightarrow> rfc_text esc dbl (JArray []) (0x5B # w @ [0x5D])"
| rfc_array: "rfc_elements esc dbl vs t \<Longrightarrow> rfc_text esc dbl (JArray vs) (0x5B # t @ [0x5D])"
| rfc_object_empty: "rfc_ws w \<Longrightarrow> rfc_text esc dbl (JObject []) (0x7B # w @ [0x7D])"
| rfc_object: "rfc_members esc dbl ms t \<Longrightarrow> rfc_text esc dbl (JObject ms) (0x7B # t @ [0x7D])"
| rfc_element: "rfc_ws w1 \<Longrightarrow> rfc_text esc dbl v t \<Longrightarrow> rfc_ws w2 \<Longrightarrow> rfc_elements esc dbl [v] (w1 @ t @ w2)"
| rfc_more_elements: "rfc_ws w1 \<Longrightarrow> rfc_text esc dbl v t \<Longrightarrow> rfc_ws w2 \<Longrightarrow> rfc_elements esc dbl vs t2 \<Longrightarrow>
    rfc_elements esc dbl (v # vs) (w1 @ t @ w2 @ 0x2C # t2)"
| rfc_one: "rfc_ws w1 \<Longrightarrow> rfc_string esc k kt \<Longrightarrow> rfc_ws w2 \<Longrightarrow> rfc_ws w3 \<Longrightarrow> rfc_text esc dbl v t \<Longrightarrow> rfc_ws w4 \<Longrightarrow>
    rfc_member esc dbl k v (w1 @ 0x22 # kt @ 0x22 # w2 @ 0x3A # w3 @ t @ w4)"
| rfc_one_member: "rfc_member esc dbl k v t \<Longrightarrow> rfc_members esc dbl [(k, v)] t"
| rfc_more_members: "rfc_member esc dbl k v t \<Longrightarrow> rfc_members esc dbl ms t2 \<Longrightarrow> rfc_members esc dbl ((k, v) # ms) (t @ 0x2C # t2)"

definition collection_header :: "u32 \<Rightarrow> nat \<Rightarrow> u8 list \<Rightarrow> u8 list" where
  "collection_header ty n blk = le32_bytes ty @ le32_bytes (of_nat n) @ le64_bytes (of_nat (1 + length blk div 16))"

inductive jrep :: "json \<Rightarrow> u8 list \<Rightarrow> bool"
  and jreps :: "json list \<Rightarrow> u8 list \<Rightarrow> bool"
  and jmembers :: "(u8 list \<times> json) list \<Rightarrow> u8 list \<Rightarrow> bool" where
  rep_null: "length x = 12 \<Longrightarrow> jrep JNull (le32_bytes SXE_JITSON_TYPE_NULL @ x)"
| rep_bool: "length x = 4 \<Longrightarrow> length y = 7 \<Longrightarrow> jrep (JBool b) (le32_bytes SXE_JITSON_TYPE_BOOL @ x @ (if b then 1 else 0) # y)"
| rep_uint: "length x = 4 \<Longrightarrow> jrep (JUint v) (le32_bytes (SXE_JITSON_TYPE_NUMBER OR SXE_JITSON_TYPE_IS_UINT) @ x @ le64_bytes v)"
| rep_real: "length x = 4 \<Longrightarrow> jrep (JReal v) (le32_bytes SXE_JITSON_TYPE_NUMBER @ x @ le64_bytes v)"
| rep_string: "string_tokens SXE_JITSON_TYPE_STRING s blk \<Longrightarrow> jrep (JString s) blk"
| rep_array: "jreps vs blk \<Longrightarrow> jrep (JArray vs) (collection_header SXE_JITSON_TYPE_ARRAY (length vs) blk @ blk)"
| rep_object: "jmembers ms blk \<Longrightarrow> jrep (JObject ms) (collection_header SXE_JITSON_TYPE_OBJECT (length ms) blk @ blk)"
| reps_nil: "jreps [] []"
| reps_cons: "jrep v b \<Longrightarrow> jreps vs bs \<Longrightarrow> jreps (v # vs) (b @ bs)"
| members_nil: "jmembers [] []"
| members_cons: "string_tokens (SXE_JITSON_TYPE_STRING OR SXE_JITSON_TYPE_IS_KEY) k kb \<Longrightarrow> jrep v vb \<Longrightarrow> jmembers ms b \<Longrightarrow>
    jmembers ((k, v) # ms) (kb @ vb @ b)"

text \<open>What \<open>strtod\<close> does with the numbers of the grammar; \<^verbatim>\<open>-0x\<close> would start a hexadecimal number.\<close>

definition strtod_ok :: "jitson_env \<Rightarrow> (u8 list \<Rightarrow> u64) \<Rightarrow> bool" where
  "strtod_ok env dbl \<longleftrightarrow> (\<forall>s ds f e d r. num_sign s \<and> num_digits ds \<and> num_fraction f \<and> num_exponent e \<and> num_follow f e d
     \<and> \<not> (s = [] \<and> f = [] \<and> e = []) \<and> (ds = [0x30] \<and> f = [] \<and> e = [] \<longrightarrow> d \<noteq> 0x78 \<and> d \<noteq> 0x58) \<longrightarrow>
     env_strtod env ((s @ ds @ f @ e) @ d # r) = (dbl (s @ ds @ f @ e), length (s @ ds @ f @ e)))"

definition plain_text :: "u8 list \<Rightarrow> bool" where
  "plain_text t \<longleftrightarrow> small_escapes t \<and> (\<forall>a b x. t = a @ 0x2D # 0x30 # x # b \<longrightarrow> x \<noteq> 0x78 \<and> x \<noteq> 0x58)"

definition class_of :: "nat \<Rightarrow> nat" where
  "class_of n = (if n = 34 then 34 else if n = 39 \<or> n = 96 then 2 else if n = 40 then 40 else if n = 41 then 41 else if n = 45 then 45
     else if 48 \<le> n \<and> n \<le> 57 then 4 else if n = 91 then 91 else if n = 93 then 93 else if n = 123 then 123 else if n = 125 then 125
     else if 65 \<le> n \<and> n \<le> 90 \<or> n = 95 \<or> 97 \<le> n \<and> n \<le> 122 then 5 else if 33 \<le> n \<and> n \<le> 126 then 1 else 0)"

definition class_nats :: "nat list" where
  "class_nats = [0, 0, 0, 0, 0, 0, 0, 0, 0, 0, 0, 0, 0, 0, 0, 0, 0, 0, 0, 0, 0, 0, 0, 0, 0, 0, 0, 0, 0, 0, 0, 0,
     0, 1, 34, 1, 1, 1, 1, 2, 40, 41, 1, 1, 1, 45, 1, 1, 4, 4, 4, 4, 4, 4, 4, 4, 4, 4, 1, 1, 1, 1, 1, 1,
     1, 5, 5, 5, 5, 5, 5, 5, 5, 5, 5, 5, 5, 5, 5, 5, 5, 5, 5, 5, 5, 5, 5, 5, 5, 5, 5, 91, 1, 93, 1, 5,
     2, 5, 5, 5, 5, 5, 5, 5, 5, 5, 5, 5, 5, 5, 5, 5, 5, 5, 5, 5, 5, 5, 5, 5, 5, 5, 5, 123, 1, 125, 1, 0] @ replicate 128 0"

definition keyword :: "json \<Rightarrow> u8 list \<Rightarrow> bool" where
  "keyword v xs \<longleftrightarrow> v = JNull \<and> xs = lit ''null'' \<or> v = JBool True \<and> xs = lit ''true'' \<or> v = JBool False \<and> xs = lit ''false''"

definition string_type :: "bool \<Rightarrow> u32" where
  "string_type key = SXE_JITSON_TYPE_STRING OR (if key then SXE_JITSON_TYPE_IS_KEY else 0)"

definition load_dispatch ::
    "u32 \<Rightarrow> nat \<Rightarrow> jitson_env \<Rightarrow> sxe_jitson_stack \<Rightarrow> sxe_jitson_source \<Rightarrow> u8 list \<Rightarrow> u8 \<Rightarrow> bool" where
  "load_dispatch opened fuel env st src c ch \<longleftrightarrow>
    (\<exists>st1 tok index. stack_holds opened st1 (c @ tok) \<and> length tok = 16 \<and> jitson_at index = length c \<and>
      (ch = 0x22 \<longrightarrow> (\<exists>st2. stack_holds opened st2 c \<and>
        sxe_jitson_stack_load_json (Suc fuel) env st src = sxe_jitson_stack_load_string (env_malloc env) st2 (src_skip 1 src) False)) \<and>
      (ch = 0x7B \<longrightarrow> (\<exists>st2 y. length y = 8 \<and> stack_holds opened st2 (c @ le32_bytes SXE_JITSON_TYPE_OBJECT @ le32_bytes (of_nat 0) @ y) \<and>
        sxe_jitson_stack_load_json (Suc fuel) env st src = do {
          (c, src) \<leftarrow> sxe_jitson_source_get_nonspace (src_skip 1 src);
          if c = 0x7D then do { stack \<leftarrow> jitson_set_integer st2 index 1; Some (Inr (), stack, src) }
          else load_members fuel env st2 src index c })) \<and>
      (ch = 0x5B \<longrightarrow> (\<exists>st2 y. length y = 8 \<and> stack_holds opened st2 (c @ le32_bytes SXE_JITSON_TYPE_ARRAY @ le32_bytes (of_nat 0) @ y) \<and>
        sxe_jitson_stack_load_json (Suc fuel) env st src = do {
          (c, src) \<leftarrow> sxe_jitson_source_get_nonspace (src_skip 1 src);
          if c = 0x5D then do { stack \<leftarrow> jitson_set_integer st2 index 1; Some (Inr (), stack, src) }
          else do { src \<leftarrow> sxe_jitson_source_push_char src c; load_elements fuel env st2 src index } })) \<and>
      (ch = 0x2D \<or> isdigit ch \<longrightarrow> sxe_jitson_stack_load_json (Suc fuel) env st src = load_number env st1 src index) \<and>
      (jitson_class ! unat ch = ALP \<longrightarrow> sxe_jitson_stack_load_json (Suc fuel) env st src = load_identifier env st1 src index) \<and>
      (ch \<noteq> 0x22 \<and> ch \<noteq> 0x7B \<and> ch \<noteq> 0x5B \<and> ch \<noteq> 0x2D \<and> \<not> isdigit ch \<and> jitson_class ! unat ch \<noteq> ALP \<longrightarrow>
        (\<exists>st2. stack_holds opened st2 c \<and> sxe_jitson_stack_load_json (Suc fuel) env st src = Some (Inl EINVAL, st2, src_skip 1 src))))"

definition src_strict :: "sxe_jitson_source \<Rightarrow> bool" where
  "src_strict src \<longleftrightarrow> src_end src = None \<and> src_flags src = SXE_JITSON_FLAG_STRICT"

definition parser_env :: "jitson_env \<Rightarrow> (u8 list \<Rightarrow> u64) \<Rightarrow> bool" where
  "parser_env env dbl \<longleftrightarrow> malloc_ok (env_malloc env) \<and> (\<forall>n. env_malloc env n \<noteq> None) \<and> strtod_ok env dbl"

text \<open>What the parser does after the value of a member.\<close>

definition members_next ::
    "nat \<Rightarrow> jitson_env \<Rightarrow> sxe_jitson_stack \<Rightarrow> sxe_jitson_source \<Rightarrow> u32 \<Rightarrow> (jitson_result \<times> sxe_jitson_stack \<times> sxe_jitson_source) option" where
  "members_next fuel env stack src index = do {
     (c, src) \<leftarrow> sxe_jitson_source_get_nonspace src;
     (again, c, src) \<leftarrow> (if c = 0x2C then do { (c, src) \<leftarrow> sxe_jitson_source_get_nonspace src; Some (c \<noteq> 0, c, src) }
                        else Some (False, c, src));
     if again then load_members fuel env stack src index c
     else if c = 0x7D then do {
       stack \<leftarrow> jitson_set_integer stack index (ucast (stack_count stack - index));
       Some (Inr (), stack, src)
     } else let (r, stack) = stack_error EINVAL stack index in Some (r, stack, src)
   }"

definition value_loads :: "jitson_env \<Rightarrow> json \<Rightarrow> u8 list \<Rightarrow> bool" where
  "value_loads env v t \<longleftrightarrow> (\<forall>opened fuel st src c d r. 2 * length t \<le> fuel \<longrightarrow> src_strict src \<longrightarrow> src_rest src = t @ d # r \<longrightarrow>
     \<not> is_identifier_char d \<longrightarrow> stack_holds opened st c \<longrightarrow> length c + 16 * length t + 32 < 2 ^ 31 \<longrightarrow>
     (\<exists>st' blk. sxe_jitson_stack_load_json fuel env st src = Some (Inr (), st', src_skip (length t) src) \<and> stack_holds opened st' (c @ blk)
        \<and> jrep v blk \<and> length blk \<le> 16 * length t))"

definition elements_load :: "jitson_env \<Rightarrow> json list \<Rightarrow> u8 list \<Rightarrow> bool" where
  "elements_load env vs t \<longleftrightarrow> (\<forall>opened fuel st src c n y blk0 r index. 2 * length t + 1 \<le> fuel \<longrightarrow> src_strict src \<longrightarrow>
     src_rest src = t @ 0x5D # r \<longrightarrow> stack_holds opened st (c @ le32_bytes SXE_JITSON_TYPE_ARRAY @ le32_bytes (of_nat n) @ y @ blk0) \<longrightarrow>
     length y = 8 \<longrightarrow> jitson_at index = length c \<longrightarrow> length (c @ blk0) + 16 * length t + 48 < 2 ^ 31 \<longrightarrow>
     (\<exists>st' blk. load_elements fuel env st src index = Some (Inr (), st', src_skip (length t + 1) src)
        \<and> stack_holds opened st' (c @ collection_header SXE_JITSON_TYPE_ARRAY (n + length vs) (blk0 @ blk) @ blk0 @ blk)
        \<and> jreps vs blk \<and> length blk \<le> 16 * length t))"

definition member_loads :: "jitson_env \<Rightarrow> u8 list \<Rightarrow> json \<Rightarrow> u8 list \<Rightarrow> bool" where
  "member_loads env k v t \<longleftrightarrow> (\<forall>opened fuel st src c n y blk0 d r index. 2 * length t \<le> fuel \<longrightarrow> src_strict src \<longrightarrow>
     src_rest src = t @ d # r \<longrightarrow> \<not> is_identifier_char d \<longrightarrow>
     stack_holds opened st (c @ le32_bytes SXE_JITSON_TYPE_OBJECT @ le32_bytes (of_nat n) @ y @ blk0) \<longrightarrow>
     length y = 8 \<longrightarrow> jitson_at index = length c \<longrightarrow> length (c @ blk0) + 16 * length t + 48 < 2 ^ 31 \<longrightarrow>
     (\<exists>j st' kb vb. sxe_jitson_source_get_nonspace src = Some (0x22, src_skip j src)
        \<and> load_members (Suc fuel) env st (src_skip j src) index 0x22 = members_next fuel env st' (src_skip (length t) src) index
        \<and> stack_holds opened st' (c @ le32_bytes SXE_JITSON_TYPE_OBJECT @ le32_bytes (of_nat (Suc n)) @ y @ blk0 @ kb @ vb)
        \<and> string_tokens (string_type True) k kb \<and> jrep v vb \<and> length (kb @ vb) \<le> 16 * length t))"

definition members_load :: "jitson_env \<Rightarrow> (u8 list \<times> json) list \<Rightarrow> u8 list \<Rightarrow> bool" where
  "members_load env ms t \<longleftrightarrow> (\<forall>opened fuel st src c n y blk0 r index. 2 * length t + 1 \<le> fuel \<longrightarrow> src_strict src \<longrightarrow>
     src_rest src = t @ 0x7D # r \<longrightarrow> stack_holds opened st (c @ le32_bytes SXE_JITSON_TYPE_OBJECT @ le32_bytes (of_nat n) @ y @ blk0) \<longrightarrow>
     length y = 8 \<longrightarrow> jitson_at index = length c \<longrightarrow> length (c @ blk0) + 16 * length t + 48 < 2 ^ 31 \<longrightarrow>
     (\<exists>j st' blk. sxe_jitson_source_get_nonspace src = Some (0x22, src_skip j src)
        \<and> load_members fuel env st (src_skip j src) index 0x22 = Some (Inr (), st', src_skip (length t + 1) src)
        \<and> stack_holds opened st' (c @ collection_header SXE_JITSON_TYPE_OBJECT (n + length ms) (blk0 @ blk) @ blk0 @ blk)
        \<and> jmembers ms blk \<and> length blk \<le> 16 * length t))"

section \<open>RFC 8259 and what is accepted\<close>

lemma rfc_ws_accepted: "rfc_ws w \<Longrightarrow> ws w"
  by (auto simp: rfc_ws_def ws_def isspace_def subset_iff)

lemma rfc_int_digits: "rfc_int ds \<Longrightarrow> num_digits ds"
  by (simp add: rfc_int_def)

text \<open>A text of RFC 8259 without escapes from U+0080 on is accepted, with the same value.\<close>

lemma rfc_accepted:
  "rfc_text ascii_escape dbl v t \<Longrightarrow> accepted_text dbl v t"
  "rfc_elements ascii_escape dbl vs t \<Longrightarrow> accepted_elements dbl vs t"
  "rfc_member ascii_escape dbl k v t \<Longrightarrow> accepted_member dbl k v t"
  "rfc_members ascii_escape dbl ms t \<Longrightarrow> accepted_members dbl ms t"
  by (induction rule: rfc_text_rfc_elements_rfc_member_rfc_members.inducts)
    (blast intro: accepted_text_accepted_elements_accepted_member_accepted_members.intros rfc_ws_accepted rfc_int_digits rfc_string_accepted)+

text \<open>Not all that is accepted is of RFC 8259.\<close>

theorem sxe_jitson_accepts_more:
  "accepted_text dbl (JUint 7) (lit ''007'') \<and> \<not> rfc_text esc dbl v (lit ''007'')
   \<and> accepted_text dbl (JString [0x01]) [0x22, 0x01, 0x22] \<and> \<not> rfc_text esc dbl v [0x22, 0x01, 0x22]
   \<and> accepted_text dbl (JArray []) [0x5B, 0x0B, 0x5D] \<and> \<not> rfc_text esc dbl v [0x5B, 0x0B, 0x5D]"
proof (intro conjI)
  have "accepted_text dbl (JUint (of_nat (min (digits_value 10 (lit ''007'')) (2 ^ 64 - 1)))) (lit ''007'')"
    by (rule text_uint) (simp add: lit_def num_digits_def isdigit_def)
  then show "accepted_text dbl (JUint 7) (lit ''007'')" by (simp add: lit_def digits_value_def digit_value_def isdigit_def)
  have "accepted_string [0x01] [0x01]"
    using accepted_string.intros(2)[of "0x01" "[0x01]" "[]" "[]"] accepted_string.intros(1) by (simp add: accepted_char_def)
  from text_string[OF this] show "accepted_text dbl (JString [0x01]) [0x22, 0x01, 0x22]" by simp
  have "ws [0x0B]" by (simp add: ws_def isspace_def)
  from text_array_empty[OF this] show "accepted_text dbl (JArray []) [0x5B, 0x0B, 0x5D]" by simp
  show "\<not> rfc_text esc dbl v (lit ''007'')"
  proof
    assume "rfc_text esc dbl v (lit ''007'')"
    then show False
      by (rule rfc_text.cases) (auto simp: lit_def rfc_int_def num_sign_def num_fraction_def num_exponent_def append_eq_Cons_conv Cons_eq_append_conv)
  qed
  show "\<not> rfc_text esc dbl v [0x22, 0x01, 0x22]"
  proof
    assume "rfc_text esc dbl v [0x22, 0x01, 0x22]"
    then obtain s where "rfc_string esc s [0x01]"
      by (rule rfc_text.cases) (auto simp: lit_def rfc_int_def num_digits_def isdigit_def num_sign_def append_eq_Cons_conv Cons_eq_append_conv)
    then show False by (rule rfc_string.cases) (auto simp: rfc_char_def escape_text_def append_eq_Cons_conv Cons_eq_append_conv word_le_nat_alt)
  qed
  show "\<not> rfc_text esc dbl v [0x5B, 0x0B, 0x5D]"
  proof
    have "rfc_elements esc dbl vs [0x0B] \<Longrightarrow> False" for vs
    proof (erule rfc_elements.cases)
      fix w1 v t w2 assume "[0x0B] = w1 @ t @ w2" "rfc_text esc dbl v t"
      then have "rfc_text esc dbl v [] \<or> rfc_text esc dbl v [0x0B]" by (auto simp: append_eq_Cons_conv Cons_eq_append_conv)
      then show False
        by (auto elim!: rfc_text.cases simp: lit_def rfc_int_def num_digits_def isdigit_def num_sign_def append_eq_Cons_conv Cons_eq_append_conv)
    qed (auto simp: append_eq_Cons_conv Cons_eq_append_conv)
    moreover assume "rfc_text esc dbl v [0x5B, 0x0B, 0x5D]"
    ultimately show False
      by (auto elim!: rfc_text.cases[of _ _ _ "[0x5B, 0x0B, 0x5D]"] simp: lit_def rfc_int_def rfc_ws_def num_digits_def isdigit_def num_sign_def
        append_eq_Cons_conv Cons_eq_append_conv)
  qed
qed

section \<open>Texts and tokens of values\<close>

lemma plain_text_suffix: "plain_text (x @ y) \<Longrightarrow> plain_text y"
  unfolding plain_text_def using small_escapes_suffix by (metis append.assoc)

lemma plain_text_drop: "plain_text t \<Longrightarrow> plain_text (drop n t)"
  using plain_text_suffix[of "take n t" "drop n t"] by simp

section \<open>Scalars\<close>

lemma digit_value_10: "digit_value c < 10 \<longleftrightarrow> isdigit c"
  by (auto simp: digit_value_def isdigit_def word_le_nat_alt)

lemma strtoul_10:
  assumes "num_digits ds" and "\<not> isdigit d"
  shows "strtoul (ds @ d # r) 10 = (of_nat (min (digits_value 10 ds) (2 ^ 64 - 1)), length ds)"
proof -
  have "takeWhile isdigit (ds @ d # r) = ds" using assms by (simp add: num_digits_def takeWhile_append2)
  then show ?thesis by (simp add: strtoul_def digit_value_10)
qed

lemma token_parts:
  assumes "length tok = 16"
  shows "\<exists>a b c. tok = a @ b @ c \<and> length a = 4 \<and> length b = 4 \<and> length c = 8"
proof (intro exI conjI)
  show "tok = take 4 tok @ take 4 (drop 4 tok) @ drop 4 (drop 4 tok)" by (metis append_take_drop_id)
qed (use assms in simp_all)

lemma load_number_found:
  assumes "src_end src = None" and "src_flags src = SXE_JITSON_FLAG_STRICT" and "src_rest src = (s @ ds @ f @ e) @ d # r"
    and "num_sign s" and "num_digits ds" and "num_fraction f" and "num_exponent e" and "num_follow f e d"
    and "s = [0x2D] \<and> ds = [0x30] \<and> f = [] \<and> e = [] \<longrightarrow> d \<noteq> 0x78 \<and> d \<noteq> 0x58"
    and "strtod_ok env dbl" and "stack_holds opened st (pre @ tok)" and "length tok = 16" and "jitson_at index = length pre"
  shows "\<exists>st' blk v. load_number env st src index = Some (Inr (), st', src_skip (length (s @ ds @ f @ e)) src)
    \<and> stack_holds opened st' (pre @ blk) \<and> jrep v blk \<and> length blk = 16 \<and> accepted_text dbl v (s @ ds @ f @ e)
    \<and> (s = [] \<and> f = [] \<and> e = [] \<longrightarrow> v = JUint (of_nat (min (digits_value 10 ds) (2 ^ 64 - 1))))
    \<and> (\<not> (s = [] \<and> f = [] \<and> e = []) \<longrightarrow> v = JReal (dbl (s @ ds @ f @ e)))"
proof -
  let ?t = "s @ ds @ f @ e"
  have g: "sxe_jitson_source_get_number src = Some (Some (src_next src, length ?t, s = [] \<and> f = [] \<and> e = []), src_skip (length ?t) src)"
    by (rule get_number_rest[OF assms(1-8)])
  have rest: "drop (src_next src) (src_json src) = ?t @ d # r" using assms(3) by (simp add: src_rest_def)
  obtain a b c where tok: "tok = a @ b @ c" "length a = 4" "length b = 4" "length c = 8" using token_parts[OF assms(12)] by blast
  have set1: "\<exists>st1 st2. jitson_set_type st index ty = Some st1 \<and> jitson_set_integer st1 index v = Some st2
      \<and> stack_holds opened st2 (pre @ le32_bytes ty @ b @ le64_bytes v)" for ty v
  proof -
    obtain st1 where 1: "jitson_set_type st index ty = Some st1" "stack_holds opened st1 (pre @ le32_bytes ty @ b @ c)"
      using set_type_holds[of opened st pre a "b @ c" index ty] assms(11,13) tok by auto
    then show ?thesis
      using set_integer_holds[of opened st1 pre "le32_bytes ty @ b" c "[]" index v] assms(13) tok by auto
  qed
  show ?thesis
  proof (cases "s = [] \<and> f = [] \<and> e = []")
    case True
    have "strtoul (ds @ d # r) 10 = (of_nat (min (digits_value 10 ds) (2 ^ 64 - 1)), length ds)"
      by (rule strtoul_10) (use assms(5,8) in \<open>auto simp: num_follow_def\<close>)
    moreover obtain st1 st2 where "jitson_set_type st index (SXE_JITSON_TYPE_NUMBER OR SXE_JITSON_TYPE_IS_UINT) = Some st1"
        "jitson_set_integer st1 index (of_nat (min (digits_value 10 ds) (2 ^ 64 - 1))) = Some st2"
        "stack_holds opened st2 (pre @ le32_bytes (SXE_JITSON_TYPE_NUMBER OR SXE_JITSON_TYPE_IS_UINT) @ b @ le64_bytes (of_nat (min (digits_value 10 ds) (2 ^ 64 - 1))))"
      using set1 by blast
    ultimately show ?thesis using g rest True assms(2,5) tok rep_uint[OF tok(3)] text_uint[OF assms(5), of dbl]
      by (fastforce simp: load_number_def sxe_jitson_source_get_flags_def SXE_JITSON_FLAG_STRICT_def)
  next
    case False
    have "env_strtod env (?t @ d # r) = (dbl ?t, length ?t)"
      using assms(4-10) False unfolding strtod_ok_def num_sign_def by blast
    moreover obtain st1 st2 where "jitson_set_type st index SXE_JITSON_TYPE_NUMBER = Some st1"
        "jitson_set_integer st1 index (dbl ?t) = Some st2" "stack_holds opened st2 (pre @ le32_bytes SXE_JITSON_TYPE_NUMBER @ b @ le64_bytes (dbl ?t))"
      using set1 by blast
    ultimately show ?thesis using g rest False tok rep_real[OF tok(3)] text_real[OF assms(4-7) False, of dbl]
      by (intro exI[of _ st2] exI[of _ "le32_bytes SXE_JITSON_TYPE_NUMBER @ b @ le64_bytes (dbl ?t)"] exI[of _ "JReal (dbl ?t)"])
         (auto simp: load_number_def)
  qed
qed

lemma class_nats_table: "class_nats = map class_of [0..<256]"
  by code_simp

lemma jitson_class_nats: "jitson_class = map of_nat class_nats"
  by (simp add: jitson_class_def class_nats_def INV_def SYM_def QOT_def DIG_def ALP_def map_replicate)

lemma jitson_class_nth: "n < 256 \<Longrightarrow> jitson_class ! n = of_nat (class_of n)"
  unfolding jitson_class_nats class_nats_table by (simp del: upt_rec_numeral)

lemma class_u8: "jitson_class ! unat (c :: u8) = of_nat (class_of (unat c))"
  using jitson_class_nth unat_lt2p[of c] by simp

lemma of_nat_u8: "n < 256 \<Longrightarrow> (of_nat n :: u8) = of_nat m \<longleftrightarrow> n = m mod 256"
  by (simp add: word_of_nat_eq_iff take_bit_nat_def)

lemma class_of_small: "class_of n < 256"
  by (simp add: class_of_def)

lemma class_facts:
  fixes c :: u8
  shows "jitson_class ! unat c = 0x22 \<longleftrightarrow> c = 0x22" "jitson_class ! unat c = 0x7B \<longleftrightarrow> c = 0x7B"
    "jitson_class ! unat c = 0x5B \<longleftrightarrow> c = 0x5B" "jitson_class ! unat c = 0x2D \<longleftrightarrow> c = 0x2D"
    "jitson_class ! unat c = DIG \<longleftrightarrow> isdigit c"
proof -
  have n: "of_nat (class_of (unat c)) = (numeral k :: u8) \<longleftrightarrow> class_of (unat c) = numeral k mod 256" for k
    using of_nat_u8[OF class_of_small, of "unat c" "numeral k"] by simp
  show "jitson_class ! unat c = 0x22 \<longleftrightarrow> c = 0x22" "jitson_class ! unat c = 0x7B \<longleftrightarrow> c = 0x7B"
    "jitson_class ! unat c = 0x5B \<longleftrightarrow> c = 0x5B" "jitson_class ! unat c = 0x2D \<longleftrightarrow> c = 0x2D"
    "jitson_class ! unat c = DIG \<longleftrightarrow> isdigit c"
    unfolding class_u8 n DIG_def by (auto simp: class_of_def word_unat_eq_iff isdigit_def word_le_nat_alt)
qed
definition ident_nat :: "nat \<Rightarrow> bool" where
  "ident_nat n \<longleftrightarrow> n = 46 \<or> 48 \<le> n \<and> n \<le> 57 \<or> 65 \<le> n \<and> n \<le> 90 \<or> n = 95 \<or> 97 \<le> n \<and> n \<le> 122"

lemma identifier_table: "list_all (\<lambda>n. bit (identifier_chars ! (n div 64)) (n mod 64) = ident_nat n) [0..<256]"
  by code_simp

lemma is_identifier_char_eq: "is_identifier_char c \<longleftrightarrow> ident_nat (unat c)"
proof -
  have "c AND 0x3F = c mod 64" using take_bit_eq_mask[of 6 c] by (simp add: mask_eq_exp_minus_1 take_bit_eq_mod)
  then have "unat (c AND 0x3F) = unat c mod 64" by (simp only: unat_mod_distrib) simp
  moreover have "unat (drop_bit 6 c) = unat c div 64" by (simp add: drop_bit_eq_div unat_div)
  moreover have "unat c \<in> set [0..<256]" using unat_lt2p[of c] by simp
  ultimately show ?thesis using identifier_table unfolding is_identifier_char_def list_all_iff
    by (simp add: bit_iff_and_push_bit_not_eq_0)
qed

lemma identifier_facts:
  fixes c :: u8
  shows "jitson_class ! unat c = ALP \<Longrightarrow> is_identifier_char c" "isspace c \<Longrightarrow> \<not> is_identifier_char c" "isdigit c \<Longrightarrow> is_identifier_char c"
    "c = 0x45 \<or> c = 0x65 \<or> c = 0x2E \<or> c = 0x78 \<or> c = 0x58 \<Longrightarrow> is_identifier_char c"
    "c = 0 \<or> c = 0x22 \<or> c = 0x2C \<or> c = 0x3A \<or> c = 0x5B \<or> c = 0x5D \<or> c = 0x7B \<or> c = 0x7D \<Longrightarrow> \<not> is_identifier_char c"
proof -
  have n: "of_nat (class_of (unat c)) = (numeral k :: u8) \<longleftrightarrow> class_of (unat c) = numeral k mod 256" for k
    using of_nat_u8[OF class_of_small, of "unat c" "numeral k"] by simp
  show "jitson_class ! unat c = ALP \<Longrightarrow> is_identifier_char c"
    unfolding class_u8 n ALP_def is_identifier_char_eq by (auto simp: class_of_def ident_nat_def split: if_splits)
qed (auto simp: is_identifier_char_eq ident_nat_def isspace_def isdigit_def word_le_nat_alt)

lemma class_chars:
  "jitson_class ! 0x6E = ALP" "jitson_class ! 0x74 = ALP" "jitson_class ! 0x66 = ALP"
  by (simp_all add: jitson_class_nth class_of_def ALP_def)

lemma keyword_text: "keyword v xs \<Longrightarrow> accepted_text dbl v xs"
  by (auto simp: keyword_def intro: accepted_text_accepted_elements_accepted_member_accepted_members.intros)

lemma load_identifier_found:
  assumes "src_end src = None" and "src_flags src = SXE_JITSON_FLAG_STRICT" and "src_rest src = xs @ d # r" and "xs \<noteq> []"
    and "\<forall>c \<in> set xs. is_identifier_char c" and "\<not> is_identifier_char d"
    and "stack_holds opened st (pre @ tok)" and "length tok = 16" and "jitson_at index = length pre"
  shows "\<exists>res st'. load_identifier env st src index = Some (res, st', src_skip (length xs) src) \<and>
    (case res of Inl _ \<Rightarrow> stack_holds opened st' pre \<and> (\<forall>v. \<not> keyword v xs)
     | Inr _ \<Rightarrow> \<exists>v blk. keyword v xs \<and> stack_holds opened st' (pre @ blk) \<and> jrep v blk \<and> length blk = 16)"
proof -
  have g: "sxe_jitson_source_get_identifier src = Some (Some (src_next src), length xs, src_skip (length xs) src)"
    by (rule get_identifier_rest[OF assms(1,3,5,6,4)])
  have tk: "take (length xs) (drop (src_next src) (src_json src)) = xs" using assms(3) by (simp add: src_rest_def)
  obtain st' where e: "stack_error EINVAL st index = (Inl EINVAL, st')" "stack_holds opened st' pre"
    using stack_error_holds[OF assms(7,9)] by blast
  obtain a b c where tok: "tok = a @ b @ c" "length a = 4" "length b = 4" "length c = 8" using token_parts[OF assms(8)] by blast
  have ty: "\<exists>st1. jitson_set_type st index ty = Some st1 \<and> stack_holds opened st1 (pre @ le32_bytes ty @ b @ c)" for ty
    using set_type_holds[of opened st pre a "b @ c" index ty] assms(7,9) tok by auto
  have bool: "\<exists>st1 st2. jitson_set_type st index SXE_JITSON_TYPE_BOOL = Some st1 \<and> stack_write st1 (jitson_at index + 8) [if v then 1 else 0] = Some st2
      \<and> stack_holds opened st2 (pre @ le32_bytes SXE_JITSON_TYPE_BOOL @ b @ (if v then 1 else 0) # tl c)" for v
  proof -
    obtain st1 where 1: "jitson_set_type st index SXE_JITSON_TYPE_BOOL = Some st1"
      "stack_holds opened st1 (pre @ le32_bytes SXE_JITSON_TYPE_BOOL @ b @ c)" using ty by blast
    obtain c0 where "c = c0 # tl c" using tok(4) by (cases c) auto
    then have "stack_holds opened st1 ((pre @ le32_bytes SXE_JITSON_TYPE_BOOL @ b) @ [c0] @ tl c)" using 1(2) by simp
    from stack_holds_write[OF this, of "jitson_at index + 8" "[if v then 1 else 0]"] show ?thesis using 1(1) assms(9) tok by auto
  qed
  have ne: "lit ''null'' \<noteq> lit ''false''" "lit ''true'' \<noteq> lit ''false''" "lit ''true'' \<noteq> lit ''null''" by (simp_all add: lit_def)
  consider "keyword JNull xs" | v where "keyword (JBool v) xs" | "\<forall>v. \<not> keyword v xs"
    unfolding keyword_def by blast
  then show ?thesis
  proof cases
    case 1
    obtain st1 where st1: "jitson_set_type st index SXE_JITSON_TYPE_NULL = Some st1"
      "stack_holds opened st1 (pre @ le32_bytes SXE_JITSON_TYPE_NULL @ b @ c)" using ty by blast
    have rep: "jrep JNull (le32_bytes SXE_JITSON_TYPE_NULL @ b @ c)" by (rule rep_null) (simp add: tok)
    have "load_identifier env st src index = Some (Inr (), st1, src_skip (length xs) src)"
      using 1 g tk ne st1(1) by (auto simp: load_identifier_def keyword_def)
    moreover have "length (le32_bytes SXE_JITSON_TYPE_NULL @ b @ c) = 16" by (simp add: tok)
    ultimately show ?thesis using 1 rep st1(2) by fastforce
  next
    case (2 v)
    obtain st1 st2 where st2: "jitson_set_type st index SXE_JITSON_TYPE_BOOL = Some st1"
      "stack_write st1 (jitson_at index + 8) [if v then 1 else 0] = Some st2"
      "stack_holds opened st2 (pre @ le32_bytes SXE_JITSON_TYPE_BOOL @ b @ (if v then 1 else 0) # tl c)" using bool by blast
    have rep: "jrep (JBool v) (le32_bytes SXE_JITSON_TYPE_BOOL @ b @ (if v then 1 else 0) # tl c)"
      by (rule rep_bool) (simp_all add: tok)
    have "load_identifier env st src index = Some (Inr (), st2, src_skip (length xs) src)"
      using 2 g tk ne st2(1,2) by (cases v) (auto simp: load_identifier_def keyword_def)
    moreover have "length (le32_bytes SXE_JITSON_TYPE_BOOL @ b @ (if v then 1 else 0) # tl c) = 16" by (simp add: tok)
    ultimately show ?thesis using 2 rep st2(3) by fastforce
  next
    case 3
    then have "load_identifier env st src index = Some (Inl EINVAL, st', src_skip (length xs) src)"
      using g tk e assms(2)
      by (auto simp: load_identifier_def keyword_def sxe_jitson_source_get_flags_def SXE_JITSON_FLAG_STRICT_def split: option.splits)
    then show ?thesis using 3 e by auto
  qed
qed

text \<open>A new token, and a string in it.\<close>

lemma new_token:
  assumes "stack_holds opened st c" and "malloc_ok malloc" and "length c + 16 < 2 ^ 31"
  shows "(\<exists>n. malloc n = None) \<and> sxe_jitson_stack_expand malloc st 1 = Some (SXE_JITSON_STACK_ERROR, st) \<or>
    (\<exists>st1 tok. sxe_jitson_stack_expand malloc st 1 = Some (stack_count st, st1) \<and> stack_count st \<noteq> SXE_JITSON_STACK_ERROR
      \<and> stack_count st1 = stack_count st + 1 \<and> stack_holds opened st1 (c @ tok) \<and> length tok = 16 \<and> jitson_at (stack_count st) = length c)"
proof -
  have "unat (stack_count st) + unat (1 :: u32) < 2 ^ 31" using stack_holds_length[OF assms(1)] assms(3) by simp
  from stack_expand[OF assms(1,2) _ this] stack_holds_length[OF assms(1)] show ?thesis
    by (fastforce simp: jitson_at_def SXE_JITSON_TOKEN_SIZE_def)
qed

lemma token_header:
  assumes "stack_holds opened st (pre @ tok)" and "length tok = 16" and "jitson_at index = length pre"
  shows "\<exists>st1 st2 x. jitson_set_type st index ty = Some st1 \<and> jitson_set_len st1 index 0 = Some st2 \<and> length x = 8
    \<and> stack_holds opened st2 (pre @ le32_bytes ty @ le32_bytes (of_nat 0) @ x)"
proof -
  obtain a b c where tok: "tok = a @ b @ c" "length a = 4" "length b = 4" "length c = 8" using token_parts[OF assms(2)] by blast
  obtain st1 where 1: "jitson_set_type st index ty = Some st1" "stack_holds opened st1 (pre @ le32_bytes ty @ b @ c)"
    using set_type_holds[of opened st pre a "b @ c" index ty] assms tok by auto
  then show ?thesis using set_len_holds[of opened st1 pre "le32_bytes ty" b c index 0] assms(3) tok by auto
qed

lemma load_string_start:
  assumes "stack_holds opened st c" and "malloc_ok malloc" and "length c + 16 < 2 ^ 31"
  shows "(\<exists>n. malloc n = None) \<and> sxe_jitson_stack_load_string malloc st src key = Some (Inl ENOMEM, st, src) \<or>
    (\<exists>st1 blk index. sxe_jitson_stack_load_string malloc st src key = load_string_loop malloc st1 src index
      \<and> stack_holds opened st1 (c @ blk) \<and> string_partial (string_type key) [] blk \<and> length blk = 16 \<and> jitson_at index = length c)"
  using new_token[OF assms(1-3)]
proof (elim disjE)
  assume "(\<exists>n. malloc n = None) \<and> sxe_jitson_stack_expand malloc st 1 = Some (SXE_JITSON_STACK_ERROR, st)"
  then show ?thesis by (simp add: sxe_jitson_stack_load_string_def)
next
  assume "\<exists>st1 tok. sxe_jitson_stack_expand malloc st 1 = Some (stack_count st, st1) \<and> stack_count st \<noteq> SXE_JITSON_STACK_ERROR
      \<and> stack_count st1 = stack_count st + 1 \<and> stack_holds opened st1 (c @ tok) \<and> length tok = 16 \<and> jitson_at (stack_count st) = length c"
  then obtain st1 tok where e: "sxe_jitson_stack_expand malloc st 1 = Some (stack_count st, st1)" "stack_count st \<noteq> SXE_JITSON_STACK_ERROR"
    and h: "stack_holds opened st1 (c @ tok)" "length tok = 16" "jitson_at (stack_count st) = length c" by blast
  obtain st2 st3 x where s: "jitson_set_type st1 (stack_count st) (string_type key) = Some st2" "jitson_set_len st2 (stack_count st) 0 = Some st3" "length x = 8"
    and h3: "stack_holds opened st3 (c @ le32_bytes (string_type key) @ le32_bytes (of_nat 0) @ x)"
    using token_header[OF h] by blast
  obtain j junk where x: "x = j # junk" using s(3) by (cases x) auto
  have "string_partial (string_type key) [] (le32_bytes (string_type key) @ le32_bytes (of_nat 0) @ x)"
    unfolding string_partial_def using s(3) x by auto
  moreover have "sxe_jitson_stack_load_string malloc st src key = load_string_loop malloc st3 src (stack_count st)"
    using e s by (simp add: sxe_jitson_stack_load_string_def string_type_def)
  moreover have "length (le32_bytes (string_type key) @ le32_bytes (of_nat 0) @ x) = 16" by (simp add: s(3))
  ultimately show ?thesis using h3 h(3) by blast
qed

lemma load_string_complete:
  assumes "accepted_string s t" and "src_end src = None" and "src_rest src = t @ 0x22 # r" and "stack_holds opened st c"
    and "malloc_ok malloc" and "\<And>n. malloc n \<noteq> None" and "length c + 16 * length t + 32 < 2 ^ 31"
  shows "\<exists>st' blk. sxe_jitson_stack_load_string malloc st src key = Some (Inr (), st', src_skip (length t + 1) src) \<and> stack_holds opened st' (c @ blk)
    \<and> string_tokens (string_type key) s blk \<and> length blk \<le> 16 + 16 * length t"
proof -
  have "length c + 16 < 2 ^ 31" using assms(7) by simp
  from load_string_start[OF assms(4,5) this, of src key]
  obtain st1 blk index where l: "sxe_jitson_stack_load_string malloc st src key = load_string_loop malloc st1 src index"
      and h: "stack_holds opened st1 (c @ blk)" "string_partial (string_type key) [] blk" "length blk = 16" "jitson_at index = length c"
    using assms(6) by blast
  have "length (c @ blk) + 16 * length t + 16 < 2 ^ 31" using assms(7) h(3) by simp
  from load_string_loop_complete[OF assms(1-3) h(1,2,4) assms(5,6) this] show ?thesis using l h(3) by simp
qed

lemma load_string_sound:
  assumes "src_end src = None" and "src_rest src = t @ 0 # r" and "0 \<notin> set t" and "small_escapes t" and "stack_holds opened st c"
    and "malloc_ok malloc" and "length c + 16 * length t + 32 < 2 ^ 31"
  shows "\<exists>res st' src'. sxe_jitson_stack_load_string malloc st src key = Some (res, st', src') \<and>
    (case res of Inl _ \<Rightarrow> stack_holds opened st' c
     | Inr _ \<Rightarrow> \<exists>s u v blk. t = u @ 0x22 # v \<and> accepted_string s u \<and> src' = src_skip (length u + 1) src \<and> stack_holds opened st' (c @ blk)
         \<and> string_tokens (string_type key) s blk \<and> length blk \<le> 16 + 16 * length u)"
proof -
  have "length c + 16 < 2 ^ 31" using assms(7) by simp
  from load_string_start[OF assms(5,6) this, of src key] show ?thesis
  proof (elim disjE conjE exE)
    fix n assume "sxe_jitson_stack_load_string malloc st src key = Some (Inl ENOMEM, st, src)"
    then show ?thesis using assms(5) by simp
  next
    fix st1 blk index assume l: "sxe_jitson_stack_load_string malloc st src key = load_string_loop malloc st1 src index"
      and h: "stack_holds opened st1 (c @ blk)" "string_partial (string_type key) [] blk" "length blk = 16" "jitson_at index = length c"
    have "length (c @ blk) + 16 * length t + 16 < 2 ^ 31" using assms(7) h(3) by simp
    from load_string_loop_sound[OF assms(1-4) h(1,2,4) assms(6) this] show ?thesis unfolding l h(3) append_Nil .
  qed
qed

declare sxe_jitson_stack_load_json.simps [simp del] load_members.simps [simp del] load_elements.simps [simp del]

section \<open>Collections\<close>

lemma collection_bump:
  assumes "stack_holds opened st (pre @ le32_bytes ty @ le32_bytes (of_nat n) @ y)" and "jitson_at index = length pre"
  shows "\<exists>st'. jitson_get_len st index = Some (of_nat n) \<and> jitson_set_len st index (of_nat n + 1) = Some st' \<and>
    stack_holds opened st' (pre @ le32_bytes ty @ le32_bytes (of_nat (Suc n)) @ y)"
proof -
  have "jitson_get_len st index = Some (of_nat n)" by (rule get_len_holds[OF assms])
  moreover obtain st' where "jitson_set_len st index (of_nat n + 1) = Some st'"
    "stack_holds opened st' (pre @ le32_bytes ty @ le32_bytes (of_nat n + 1) @ y)"
    using set_len_holds[of opened st pre "le32_bytes ty" "le32_bytes (of_nat n)" y index "of_nat n + 1"] assms by auto
  ultimately show ?thesis by (simp add: add.commute)
qed

lemma collection_close:
  assumes "stack_holds opened st (pre @ le32_bytes ty @ le32_bytes (of_nat n) @ x @ blk)" and "jitson_at index = length pre"
    and "length x = 8" and "length (pre @ blk) + 16 < 2 ^ 31"
  shows "\<exists>st'. jitson_set_integer st index (ucast (stack_count st - index)) = Some st' \<and>
    stack_holds opened st' (pre @ collection_header ty n blk @ blk)"
proof -
  have cnt: "16 * unat (stack_count st) = length pre + 16 + length blk"
    using stack_holds_length[OF assms(1)] assms(3) by simp
  have idx: "16 * unat index = length pre" using assms(2) by (simp add: jitson_at_def SXE_JITSON_TOKEN_SIZE_def)
  have le: "index \<le> stack_count st" using cnt idx by (simp add: word_le_nat_alt)
  have d: "unat (stack_count st - index) = 1 + length blk div 16"
  proof -
    have "unat (stack_count st - index) = unat (stack_count st) - unat index" using le by (simp add: unat_sub word_le_nat_alt)
    moreover have "length blk = 16 * (unat (stack_count st) - unat index - 1)" using cnt idx by (simp add: algebra_simps)
    ultimately show ?thesis using cnt idx by simp
  qed
  have "ucast (stack_count st - index) = (of_nat (1 + length blk div 16) :: u64)"
    using d of_nat_unat[of "stack_count st - index", where ?'a = "64 word"] by simp
  then obtain st' where "jitson_set_integer st index (ucast (stack_count st - index)) = Some st'"
      "stack_holds opened st' (pre @ (le32_bytes ty @ le32_bytes (of_nat n)) @ le64_bytes (of_nat (1 + length blk div 16)) @ blk)"
    using set_integer_holds[of opened st pre "le32_bytes ty @ le32_bytes (of_nat n)" x blk index "ucast (stack_count st - index)"] assms by auto
  then show ?thesis by (simp add: collection_header_def)
qed

inductive_simps jreps_simps: "jreps [] a" "jreps (v # vs) a"
inductive_simps jmembers_simps: "jmembers [] a" "jmembers (m # ms) a"

lemma jreps_snoc: "jreps vs a \<Longrightarrow> jrep v b \<Longrightarrow> jreps (vs @ [v]) (a @ b)"
proof (induction vs arbitrary: a)
  case (Cons w vs)
  then obtain x xs where "a = x @ xs" "jrep w x" "jreps vs xs" by (auto simp: jreps_simps)
  then show ?case using Cons.IH[of xs] Cons.prems(2) by (auto simp: jreps_simps)
qed (simp add: jreps_simps)

lemma jmembers_snoc:
  "jmembers ms a \<Longrightarrow> string_tokens (string_type True) k kb \<Longrightarrow> jrep v b \<Longrightarrow> jmembers (ms @ [(k, v)]) (a @ kb @ b)"
proof (induction ms arbitrary: a)
  case Nil
  then show ?case using members_cons[OF _ Nil(3) members_nil, of k kb] by (auto simp: jmembers_simps string_type_def)
next
  case (Cons m ms)
  then obtain k1 v1 kb1 vb1 xs where "m = (k1, v1)" "a = kb1 @ vb1 @ xs" "string_tokens (string_type True) k1 kb1" "jrep v1 vb1" "jmembers ms xs"
    by (auto simp: jmembers_simps string_type_def)
  then show ?case using Cons.IH[of xs] Cons.prems(2,3) members_cons[of k1 kb1 v1 vb1 "ms @ [(k, v)]" "xs @ kb @ b"]
    by (simp add: string_type_def)
qed

section \<open>One call of the parser\<close>

lemma skip_while_skip:
  assumes "src_end src = None" and "src_rest src = w @ x" and "\<forall>c \<in> set w. p c"
  shows "skip_while p src = skip_while p (src_skip (length w) src)"
  using assms
proof (induction w arbitrary: src)
  case (Cons a w)
  have "skip_while p (src_skip 1 src) = skip_while p (src_skip (length w) (src_skip 1 src))"
    by (rule Cons.IH) (use Cons.prems in auto)
  moreover have "skip_while p src = skip_while p (src_skip 1 src)"
    using Cons.prems by (subst skip_while.simps) (simp add: peek_rest src_skip_def)
  ultimately show ?case by simp
qed simp

lemma get_nonspace_skip:
  "src_end src = None \<Longrightarrow> src_rest src = w @ x \<Longrightarrow> ws w \<Longrightarrow>
    sxe_jitson_source_get_nonspace src = sxe_jitson_source_get_nonspace (src_skip (length w) src)"
  unfolding sxe_jitson_source_get_nonspace_def by (subst skip_while_skip[of src w x]) (auto simp: ws_def)

lemma load_json_skip:
  "src_end src = None \<Longrightarrow> src_rest src = w @ x \<Longrightarrow> ws w \<Longrightarrow>
    sxe_jitson_stack_load_json fuel env st src = sxe_jitson_stack_load_json fuel env st (src_skip (length w) src)"
  by (cases fuel) (simp_all add: get_nonspace_skip sxe_jitson_stack_load_json.simps)

text \<open>
  Every text that starts with something else than white space gets a new token, unless there is no memory, and then is handed to the
  part of the parser for its first byte.
\<close>

lemma load_json_dispatch:
  assumes "src_end src = None" and "src_rest src = ch # x" and "\<not> isspace ch" and "ch \<noteq> 0"
    and "stack_holds opened st c" and "malloc_ok (env_malloc env)" and "length c + 16 < 2 ^ 31"
  shows "(\<exists>n. env_malloc env n = None) \<and> sxe_jitson_stack_load_json (Suc fuel) env st src = Some (Inl ENOMEM, st, src_skip 1 src) \<or>
    load_dispatch opened fuel env st src c ch"
proof -
  have g: "sxe_jitson_source_get_nonspace src = Some (ch, src_skip 1 src)"
    using get_nonspace_rest[of src "[]" ch x] assms by simp
  have p: "sxe_jitson_source_push_char (src_skip 1 src) ch = Some src" by (rule push_char_rest[OF assms(2)])
  from new_token[OF assms(5-7)] show ?thesis
  proof (elim disjE conjE exE)
    fix n assume "env_malloc env n = None" and "sxe_jitson_stack_expand (env_malloc env) st 1 = Some (SXE_JITSON_STACK_ERROR, st)"
    then show ?thesis using g assms(4) by (auto simp: sxe_jitson_stack_load_json.simps(2))
  next
    fix st1 tok
    assume e: "sxe_jitson_stack_expand (env_malloc env) st 1 = Some (stack_count st, st1)" "stack_count st \<noteq> SXE_JITSON_STACK_ERROR"
      and c1: "stack_count st1 = stack_count st + 1"
      and h: "stack_holds opened st1 (c @ tok)" "length tok = 16" "jitson_at (stack_count st) = length c"
    note cls = class_facts[of ch] class_facts(5)[of ch, unfolded DIG_def]
    have alp: "ALP \<noteq> 0x22" "ALP \<noteq> 0x7B" "ALP \<noteq> 0x5B" "ALP \<noteq> 0x2D" "ALP \<noteq> DIG" by (simp_all add: ALP_def DIG_def)
    have dig: "DIG \<noteq> 0x22" "DIG \<noteq> 0x7B" "DIG \<noteq> 0x5B" "DIG \<noteq> 0x2D" by (simp_all add: DIG_def)
    have back1: "stack_holds opened (st1\<lparr>stack_count := stack_count st1 - 1\<rparr>) c"
      using stack_holds_shrink[OF h(1,3)] c1 by simp
    have hdr: "\<exists>st2 st3 y. jitson_set_type st1 (stack_count st) ty = Some st2 \<and> jitson_set_len st2 (stack_count st) 0 = Some st3 \<and> length y = 8
        \<and> stack_holds opened st3 (c @ le32_bytes ty @ le32_bytes (of_nat 0) @ y)" for ty
      by (rule token_header[OF h])
    obtain st4 where err: "stack_error EINVAL st1 (stack_count st) = (Inl EINVAL, st4)" "stack_holds opened st4 c"
      using stack_error_holds[OF h(1,3)] by blast
    have body: "sxe_jitson_stack_load_json (Suc fuel) env st src =
      (let stack = st1; src = src_skip 1 src; index = stack_count st; cls = jitson_class ! unat ch in
         if cls = 0x22 then
           sxe_jitson_stack_load_string (env_malloc env) (stack\<lparr>stack_count := stack_count stack - 1\<rparr>) src False
         else if cls = 0x7B then do {
           stack \<leftarrow> jitson_set_type stack index SXE_JITSON_TYPE_OBJECT;
           stack \<leftarrow> jitson_set_len stack index 0;
           (c, src) \<leftarrow> sxe_jitson_source_get_nonspace src;
           if c = 0x7D then do { stack \<leftarrow> jitson_set_integer stack index 1; Some (Inr (), stack, src) }
           else load_members fuel env stack src index c
         }
         else if cls = 0x5B then do {
           stack \<leftarrow> jitson_set_type stack index SXE_JITSON_TYPE_ARRAY;
           stack \<leftarrow> jitson_set_len stack index 0;
           (c, src) \<leftarrow> sxe_jitson_source_get_nonspace src;
           if c = 0x5D then do { stack \<leftarrow> jitson_set_integer stack index 1; Some (Inr (), stack, src) }
           else do { src \<leftarrow> sxe_jitson_source_push_char src c; load_elements fuel env stack src index }
         }
         else if cls = 0x2D \<or> cls = DIG then do { src \<leftarrow> sxe_jitson_source_push_char src ch; load_number env stack src index }
         else if cls = ALP then do { src \<leftarrow> sxe_jitson_source_push_char src ch; load_identifier env stack src index }
         else let (r, stack) = stack_error EINVAL stack index in Some (r, stack, src))"
      using g e assms(4) by (simp add: sxe_jitson_stack_load_json.simps(2) Let_def)
    show ?thesis unfolding load_dispatch_def
    proof (rule disjI2, rule exI[of _ st1], rule exI[of _ tok], rule exI[of _ "stack_count st"], intro conjI impI)
      show "stack_holds opened st1 (c @ tok)" "length tok = 16" "jitson_at (stack_count st) = length c" by (rule h)+
    next
      assume "ch = 0x22"
      then show "\<exists>st2. stack_holds opened st2 c \<and>
        sxe_jitson_stack_load_json (Suc fuel) env st src = sxe_jitson_stack_load_string (env_malloc env) st2 (src_skip 1 src) False"
        using body back1 cls by (auto simp: Let_def)
    next
      assume ch: "ch = 0x7B"
      obtain st2 st3 y where "jitson_set_type st1 (stack_count st) SXE_JITSON_TYPE_OBJECT = Some st2" "jitson_set_len st2 (stack_count st) 0 = Some st3"
          "length y = 8" "stack_holds opened st3 (c @ le32_bytes SXE_JITSON_TYPE_OBJECT @ le32_bytes (of_nat 0) @ y)" using hdr by blast
      then show "\<exists>st2 y. length y = 8 \<and> stack_holds opened st2 (c @ le32_bytes SXE_JITSON_TYPE_OBJECT @ le32_bytes (of_nat 0) @ y) \<and>
        sxe_jitson_stack_load_json (Suc fuel) env st src = do {
          (c, src) \<leftarrow> sxe_jitson_source_get_nonspace (src_skip 1 src);
          if c = 0x7D then do { stack \<leftarrow> jitson_set_integer st2 (stack_count st) 1; Some (Inr (), stack, src) }
          else load_members fuel env st2 src (stack_count st) c }"
        using body cls ch by (intro exI[of _ st3] exI[of _ y]) (simp add: Let_def)
    next
      assume ch: "ch = 0x5B"
      obtain st2 st3 y where "jitson_set_type st1 (stack_count st) SXE_JITSON_TYPE_ARRAY = Some st2" "jitson_set_len st2 (stack_count st) 0 = Some st3"
          "length y = 8" "stack_holds opened st3 (c @ le32_bytes SXE_JITSON_TYPE_ARRAY @ le32_bytes (of_nat 0) @ y)" using hdr by blast
      then show "\<exists>st2 y. length y = 8 \<and> stack_holds opened st2 (c @ le32_bytes SXE_JITSON_TYPE_ARRAY @ le32_bytes (of_nat 0) @ y) \<and>
        sxe_jitson_stack_load_json (Suc fuel) env st src = do {
          (c, src) \<leftarrow> sxe_jitson_source_get_nonspace (src_skip 1 src);
          if c = 0x5D then do { stack \<leftarrow> jitson_set_integer st2 (stack_count st) 1; Some (Inr (), stack, src) }
          else do { src \<leftarrow> sxe_jitson_source_push_char src c; load_elements fuel env st2 src (stack_count st) } }"
        using body cls ch by (intro exI[of _ st3] exI[of _ y]) (simp add: Let_def)
    next
      assume "ch = 0x2D \<or> isdigit ch"
      then show "sxe_jitson_stack_load_json (Suc fuel) env st src = load_number env st1 src (stack_count st)"
        using body p cls dig by (auto simp: Let_def)
    next
      assume "jitson_class ! unat ch = ALP"
      then show "sxe_jitson_stack_load_json (Suc fuel) env st src = load_identifier env st1 src (stack_count st)"
        using body p alp by (simp add: Let_def)
    next
      assume "ch \<noteq> 0x22 \<and> ch \<noteq> 0x7B \<and> ch \<noteq> 0x5B \<and> ch \<noteq> 0x2D \<and> \<not> isdigit ch \<and> jitson_class ! unat ch \<noteq> ALP"
      then show "\<exists>st2. stack_holds opened st2 c \<and> sxe_jitson_stack_load_json (Suc fuel) env st src = Some (Inl EINVAL, st2, src_skip 1 src)"
        using body err cls by (auto simp: Let_def)
    qed
  qed
qed

section \<open>Completeness\<close>

lemma src_strict_skip [simp]: "src_strict (src_skip k src) = src_strict src"
  by (simp add: src_strict_def)

lemma not_space: "\<not> isspace 0x22" "\<not> isspace 0x2C" "\<not> isspace 0x3A" "\<not> isspace 0x5B" "\<not> isspace 0x5D" "\<not> isspace 0x7B" "\<not> isspace 0x7D" "\<not> isspace 0x2D"
  "isdigit c \<Longrightarrow> \<not> isspace c"
  by (auto simp: isspace_def isdigit_def word_le_nat_alt)

lemma ws_then: "ws w \<Longrightarrow> \<not> is_identifier_char d \<Longrightarrow> \<exists>e s. w @ d # r = e # s \<and> \<not> is_identifier_char e"
  by (cases w) (auto simp: ws_def identifier_facts(2))

lemma nonspace_at:
  "src_strict src \<Longrightarrow> src_rest src = w @ ch # x \<Longrightarrow> ws w \<Longrightarrow> \<not> isspace ch \<Longrightarrow>
    sxe_jitson_source_get_nonspace src = Some (ch, src_skip (length w + 1) src)"
  by (rule get_nonspace_rest[of src w ch x]) (auto simp: src_strict_def ws_def)

lemma parser_dispatch:
  assumes "src_strict src" and "src_rest src = ch # x" and "\<not> isspace ch" and "ch \<noteq> 0" and "stack_holds opened st c" and "parser_env env dbl"
    and "length c + 16 < 2 ^ 31"
  shows "load_dispatch opened fuel env st src c ch"
proof -
  have "src_end src = None" "malloc_ok (env_malloc env)" "\<nexists>n. env_malloc env n = None"
    using assms(1,6) by (simp_all add: src_strict_def parser_env_def)
  then show ?thesis using load_json_dispatch[OF _ assms(2-5) _ assms(7)] by blast
qed

lemma keyword_loads:
  assumes "parser_env env dbl" and "keyword v t"
  shows "value_loads env v t"
  unfolding value_loads_def
proof (intro allI impI)
  fix opened fuel st src c d r
  assume fuel: "2 * length t \<le> fuel" and s: "src_strict src" and rest: "src_rest src = t @ d # r" and d: "\<not> is_identifier_char d"
    and h: "stack_holds opened st c" and len: "length c + 16 * length t + 32 < 2 ^ 31"
  obtain ch x where t: "t = ch # x" and ch: "ch = 0x6E \<or> ch = 0x74 \<or> ch = 0x66" using assms(2) by (auto simp: keyword_def lit_def)
  have idt: "\<forall>c \<in> set t. is_identifier_char c"
    using assms(2) by (auto simp: keyword_def lit_def is_identifier_char_eq ident_nat_def)
  obtain f where f: "fuel = Suc f" using fuel t by (cases fuel) auto
  have cls: "jitson_class ! unat ch = ALP" using ch class_chars by auto
  obtain st1 tok index where 1: "stack_holds opened st1 (c @ tok)" "length tok = 16" "jitson_at index = length c"
      "sxe_jitson_stack_load_json fuel env st src = load_identifier env st1 src index"
    using parser_dispatch[of src ch "x @ d # r" opened st c env dbl f] s rest t ch cls h len assms(1) f
    unfolding load_dispatch_def by (auto simp: isspace_def)
  obtain res st' where 2: "load_identifier env st1 src index = Some (res, st', src_skip (length t) src)"
    and 3: "case res of Inl _ \<Rightarrow> stack_holds opened st' c \<and> (\<forall>v. \<not> keyword v t)
     | Inr _ \<Rightarrow> \<exists>v blk. keyword v t \<and> stack_holds opened st' (c @ blk) \<and> jrep v blk \<and> length blk = 16"
    using load_identifier_found[of src t d r opened st1 c tok index env] s rest idt d 1 t unfolding src_strict_def by auto
  have uniq: "v' = v" if "keyword v' t" for v' using that assms(2) by (auto simp: keyword_def lit_def)
  show "\<exists>st' blk. sxe_jitson_stack_load_json fuel env st src = Some (Inr (), st', src_skip (length t) src) \<and> stack_holds opened st' (c @ blk)
        \<and> jrep v blk \<and> length blk \<le> 16 * length t"
  proof (cases res)
    case (Inl e)
    then show ?thesis using 3 assms(2) by simp
  next
    case (Inr u)
    then obtain v' blk where "keyword v' t" "stack_holds opened st' (c @ blk)" "jrep v' blk" "length blk = 16" using 3 by auto
    then show ?thesis using uniq 1(4) 2 Inr t by (intro exI[of _ st'] exI[of _ blk]) auto
  qed
qed

lemma number_loads:
  assumes "parser_env env dbl" and "num_sign s" and "num_digits ds" and "num_fraction f" and "num_exponent e"
  shows "s = [] \<and> f = [] \<and> e = [] \<Longrightarrow> value_loads env (JUint (of_nat (min (digits_value 10 ds) (2 ^ 64 - 1)))) (s @ ds @ f @ e)"
    and "\<not> (s = [] \<and> f = [] \<and> e = []) \<Longrightarrow> value_loads env (JReal (dbl (s @ ds @ f @ e))) (s @ ds @ f @ e)"
proof -
  let ?t = "s @ ds @ f @ e"
  have main: "\<exists>v st' blk. sxe_jitson_stack_load_json fuel env st src = Some (Inr (), st', src_skip (length ?t) src) \<and> stack_holds opened st' (c @ blk)
        \<and> jrep v blk \<and> length blk \<le> 16 * length ?t \<and>
     (s = [] \<and> f = [] \<and> e = [] \<longrightarrow> v = JUint (of_nat (min (digits_value 10 ds) (2 ^ 64 - 1))))
     \<and> (\<not> (s = [] \<and> f = [] \<and> e = []) \<longrightarrow> v = JReal (dbl ?t))"
    if fuel: "2 * length ?t \<le> fuel" and st: "src_strict src" and rest: "src_rest src = ?t @ d # r" and d: "\<not> is_identifier_char d"
      and h: "stack_holds opened st c" and len: "length c + 16 * length ?t + 32 < 2 ^ 31" for opened fuel st src c d r
  proof -
    have nid: "\<not> isdigit d" "d \<noteq> 0x45" "d \<noteq> 0x65" "d \<noteq> 0x2E" "d \<noteq> 0x78" "d \<noteq> 0x58" using d identifier_facts(3,4)[of d] by auto
    have fol: "num_follow f e d" using nid by (simp add: num_follow_def)
    obtain c0 cs where c0: "ds = c0 # cs" "isdigit c0" using assms(3) by (auto simp: num_digits_cons)
    obtain ch x where t: "?t = ch # x" and ch: "ch = 0x2D \<or> isdigit ch" using assms(2) c0 by (auto simp: num_sign_def)
    obtain g where g: "fuel = Suc g" using fuel t by (cases fuel) auto
    have "\<not> isspace ch" "ch \<noteq> 0" using ch not_space digit_not_special[of ch] by auto
    then obtain st1 tok index where 1: "stack_holds opened st1 (c @ tok)" "length tok = 16" "jitson_at index = length c"
        "sxe_jitson_stack_load_json fuel env st src = load_number env st1 src index"
      using parser_dispatch[of src ch "x @ d # r" opened st c env dbl g] st rest t ch h len assms(1) g
      unfolding load_dispatch_def by auto
    have se: "src_end src = None" "src_flags src = SXE_JITSON_FLAG_STRICT" using st by (simp_all add: src_strict_def)
    have x: "s = [0x2D] \<and> ds = [0x30] \<and> f = [] \<and> e = [] \<longrightarrow> d \<noteq> 0x78 \<and> d \<noteq> 0x58" using nid by simp
    have so: "strtod_ok env dbl" using assms(1) by (simp add: parser_env_def)
    from load_number_found[OF se rest assms(2-5) fol x so 1(1-3)]
    obtain st' blk v where "load_number env st1 src index = Some (Inr (), st', src_skip (length ?t) src)" "stack_holds opened st' (c @ blk)"
        "jrep v blk" "length blk = 16" "s = [] \<and> f = [] \<and> e = [] \<longrightarrow> v = JUint (of_nat (min (digits_value 10 ds) (2 ^ 64 - 1)))"
        "\<not> (s = [] \<and> f = [] \<and> e = []) \<longrightarrow> v = JReal (dbl ?t)"
      by blast
    moreover have "16 \<le> 16 * length ?t" using t by simp
    ultimately show ?thesis using 1(4) by (intro exI[of _ v] exI[of _ st'] exI[of _ blk]) (simp del: length_append)
  qed
  show "s = [] \<and> f = [] \<and> e = [] \<Longrightarrow> value_loads env (JUint (of_nat (min (digits_value 10 ds) (2 ^ 64 - 1)))) ?t"
    unfolding value_loads_def using main by blast
  show "\<not> (s = [] \<and> f = [] \<and> e = []) \<Longrightarrow> value_loads env (JReal (dbl ?t)) ?t"
    unfolding value_loads_def using main by blast
qed

lemma string_loads:
  assumes "parser_env env dbl" and "accepted_string s t"
  shows "value_loads env (JString s) (0x22 # t @ [0x22])"
  unfolding value_loads_def
proof (intro allI impI)
  fix opened fuel st src c d r
  assume fuel: "2 * length (0x22 # t @ [0x22]) \<le> fuel" and s: "src_strict src" and rest: "src_rest src = (0x22 # t @ [0x22]) @ d # r"
    and h: "stack_holds opened st c" and len: "length c + 16 * length (0x22 # t @ [0x22]) + 32 < 2 ^ 31"
  obtain f where f: "fuel = Suc f" using fuel by (cases fuel) auto
  have "load_dispatch opened f env st src c 0x22"
    by (rule parser_dispatch[OF s _ _ _ h assms(1)]) (use rest len in \<open>auto simp: not_space\<close>)
  then obtain st2 where h2: "stack_holds opened st2 c"
    and go: "sxe_jitson_stack_load_json fuel env st src = sxe_jitson_stack_load_string (env_malloc env) st2 (src_skip 1 src) False"
    unfolding f load_dispatch_def by auto
  obtain st' blk where l: "sxe_jitson_stack_load_string (env_malloc env) st2 (src_skip 1 src) False = Some (Inr (), st', src_skip (length t + 1) (src_skip 1 src))"
      "stack_holds opened st' (c @ blk)" "string_tokens (string_type False) s blk" "length blk \<le> 16 + 16 * length t"
    using load_string_complete[OF assms(2), of "src_skip 1 src" "d # r" opened st2 c "env_malloc env" False] s rest h2 len assms(1)
    by (auto simp: src_strict_def parser_env_def)
  have "jrep (JString s) blk" by (rule rep_string) (use l(3) in \<open>simp add: string_type_def\<close>)
  then show "\<exists>st' blk. sxe_jitson_stack_load_json fuel env st src = Some (Inr (), st', src_skip (length (0x22 # t @ [0x22])) src) \<and> stack_holds opened st' (c @ blk)
        \<and> jrep (JString s) blk \<and> length blk \<le> 16 * length (0x22 # t @ [0x22])"
    using go l by (intro exI[of _ st'] exI[of _ blk]) auto
qed

lemma empty_collection:
  assumes "stack_holds opened st (c @ le32_bytes ty @ le32_bytes (of_nat 0) @ y)" and "length y = 8" and "jitson_at index = length c"
  shows "\<exists>st'. jitson_set_integer st index 1 = Some st' \<and> stack_holds opened st' (c @ collection_header ty 0 [])"
  using set_integer_holds[of opened st c "le32_bytes ty @ le32_bytes (of_nat 0)" y "[]" index 1] assms by (auto simp: collection_header_def)

lemma array_loads:
  assumes "parser_env env dbl" and "ws t \<and> vs = [] \<or> vs \<noteq> [] \<and> elements_load env vs t
      \<and> (\<exists>w ch x. t = w @ ch # x \<and> ws w \<and> \<not> isspace ch \<and> ch \<noteq> 0x5D)"
  shows "value_loads env (JArray vs) (0x5B # t @ [0x5D])"
  unfolding value_loads_def
proof (intro allI impI)
  fix opened fuel st src c d r
  assume fuel: "2 * length (0x5B # t @ [0x5D]) \<le> fuel" and s: "src_strict src" and rest: "src_rest src = (0x5B # t @ [0x5D]) @ d # r"
    and h: "stack_holds opened st c" and len: "length c + 16 * length (0x5B # t @ [0x5D]) + 32 < 2 ^ 31"
  obtain f where f: "fuel = Suc f" and f2: "2 * length t + 1 \<le> f" using fuel by (cases fuel) auto
  have "load_dispatch opened f env st src c 0x5B"
    by (rule parser_dispatch[OF s _ _ _ h assms(1)]) (use rest len in \<open>auto simp: not_space\<close>)
  then obtain index st2 y where idx: "jitson_at index = length c" and y: "length y = 8"
    and h2: "stack_holds opened st2 (c @ le32_bytes SXE_JITSON_TYPE_ARRAY @ le32_bytes (of_nat 0) @ y)"
    and go: "sxe_jitson_stack_load_json fuel env st src = do {
          (c, src) \<leftarrow> sxe_jitson_source_get_nonspace (src_skip 1 src);
          if c = 0x5D then do { stack \<leftarrow> jitson_set_integer st2 index 1; Some (Inr (), stack, src) }
          else do { src \<leftarrow> sxe_jitson_source_push_char src c; load_elements f env st2 src index } }"
    unfolding f load_dispatch_def by auto
  let ?s1 = "src_skip 1 src"
  have s1: "src_strict ?s1" "src_rest ?s1 = t @ 0x5D # d # r" using s rest by simp_all
  from assms(2) show "\<exists>st' blk. sxe_jitson_stack_load_json fuel env st src = Some (Inr (), st', src_skip (length (0x5B # t @ [0x5D])) src)
        \<and> stack_holds opened st' (c @ blk) \<and> jrep (JArray vs) blk \<and> length blk \<le> 16 * length (0x5B # t @ [0x5D])"
  proof (elim disjE conjE exE)
    assume w: "ws t" and vs: "vs = []"
    obtain st' where "jitson_set_integer st2 index 1 = Some st'" "stack_holds opened st' (c @ collection_header SXE_JITSON_TYPE_ARRAY 0 [])"
      using empty_collection[OF h2 y idx] by blast
    moreover have "sxe_jitson_source_get_nonspace ?s1 = Some (0x5D, src_skip (length t + 1) ?s1)"
      by (rule nonspace_at[OF s1 w not_space(5)])
    moreover have "jrep (JArray []) (collection_header SXE_JITSON_TYPE_ARRAY 0 [])" using rep_array[OF reps_nil] by simp
    moreover have "length (collection_header SXE_JITSON_TYPE_ARRAY 0 []) = 16" by (simp add: collection_header_def)
    ultimately show ?thesis using go vs by (intro exI[of _ st'] exI[of _ "collection_header SXE_JITSON_TYPE_ARRAY 0 []"]) auto
  next
    fix w ch x assume el: "elements_load env vs t" and t: "t = w @ ch # x" "ws w" "\<not> isspace ch" "ch \<noteq> 0x5D"
    have g: "sxe_jitson_source_get_nonspace ?s1 = Some (ch, src_skip 1 (src_skip (length w) ?s1))"
      using nonspace_at[of ?s1 w ch "x @ 0x5D # d # r"] s1 t by simp
    have p: "sxe_jitson_source_push_char (src_skip 1 (src_skip (length w) ?s1)) ch = Some (src_skip (length w) ?s1)"
      by (rule push_char_rest[where r = "x @ 0x5D # d # r"]) (use rest t in simp)
    have skip: "load_elements f env st2 (src_skip (length w) ?s1) index = load_elements f env st2 ?s1 index"
    proof (cases f)
      case (Suc f')
      then show ?thesis using load_json_skip[of ?s1 w "ch # x @ 0x5D # d # r" f' env st2] s1 t
        by (simp add: load_elements.simps src_strict_def)
    qed (simp add: load_elements.simps)
    have pre: "stack_holds opened st2 (c @ le32_bytes SXE_JITSON_TYPE_ARRAY @ le32_bytes (of_nat 0) @ y @ [])" using h2 by simp
    have "length (c @ []) + 16 * length t + 48 < 2 ^ 31" using len by simp
    then obtain st' blk where "load_elements f env st2 ?s1 index = Some (Inr (), st', src_skip (length t + 1) ?s1)"
        "stack_holds opened st' (c @ collection_header SXE_JITSON_TYPE_ARRAY (0 + length vs) ([] @ blk) @ [] @ blk)" "jreps vs blk" "length blk \<le> 16 * length t"
      using el[unfolded elements_load_def, rule_format, OF f2 s1(1) s1(2) pre y idx] by blast
    moreover have "jrep (JArray vs) (collection_header SXE_JITSON_TYPE_ARRAY (length vs) blk @ blk)" by (rule rep_array) fact
    ultimately show ?thesis using go g p skip t(4)
      by (intro exI[of _ st'] exI[of _ "collection_header SXE_JITSON_TYPE_ARRAY (length vs) blk @ blk"]) (auto simp: collection_header_def)
  qed
qed

lemma object_loads:
  assumes "parser_env env dbl" and "ws t \<and> ms = [] \<or> ms \<noteq> [] \<and> members_load env ms t"
  shows "value_loads env (JObject ms) (0x7B # t @ [0x7D])"
  unfolding value_loads_def
proof (intro allI impI)
  fix opened fuel st src c d r
  assume fuel: "2 * length (0x7B # t @ [0x7D]) \<le> fuel" and s: "src_strict src" and rest: "src_rest src = (0x7B # t @ [0x7D]) @ d # r"
    and h: "stack_holds opened st c" and len: "length c + 16 * length (0x7B # t @ [0x7D]) + 32 < 2 ^ 31"
  obtain f where f: "fuel = Suc f" and f2: "2 * length t + 1 \<le> f" using fuel by (cases fuel) auto
  have "load_dispatch opened f env st src c 0x7B"
    by (rule parser_dispatch[OF s _ _ _ h assms(1)]) (use rest len in \<open>auto simp: not_space\<close>)
  then obtain index st2 y where idx: "jitson_at index = length c" and y: "length y = 8"
    and h2: "stack_holds opened st2 (c @ le32_bytes SXE_JITSON_TYPE_OBJECT @ le32_bytes (of_nat 0) @ y)"
    and go: "sxe_jitson_stack_load_json fuel env st src = do {
          (c, src) \<leftarrow> sxe_jitson_source_get_nonspace (src_skip 1 src);
          if c = 0x7D then do { stack \<leftarrow> jitson_set_integer st2 index 1; Some (Inr (), stack, src) }
          else load_members f env st2 src index c }"
    unfolding f load_dispatch_def by auto
  let ?s1 = "src_skip 1 src"
  have s1: "src_strict ?s1" "src_rest ?s1 = t @ 0x7D # d # r" using s rest by simp_all
  from assms(2) show "\<exists>st' blk. sxe_jitson_stack_load_json fuel env st src = Some (Inr (), st', src_skip (length (0x7B # t @ [0x7D])) src)
        \<and> stack_holds opened st' (c @ blk) \<and> jrep (JObject ms) blk \<and> length blk \<le> 16 * length (0x7B # t @ [0x7D])"
  proof (elim disjE conjE)
    assume w: "ws t" and ms: "ms = []"
    obtain st' where "jitson_set_integer st2 index 1 = Some st'" "stack_holds opened st' (c @ collection_header SXE_JITSON_TYPE_OBJECT 0 [])"
      using empty_collection[OF h2 y idx] by blast
    moreover have "sxe_jitson_source_get_nonspace ?s1 = Some (0x7D, src_skip (length t + 1) ?s1)"
      by (rule nonspace_at[OF s1 w not_space(7)])
    moreover have "jrep (JObject []) (collection_header SXE_JITSON_TYPE_OBJECT 0 [])" using rep_object[OF members_nil] by simp
    moreover have "length (collection_header SXE_JITSON_TYPE_OBJECT 0 []) = 16" by (simp add: collection_header_def)
    ultimately show ?thesis using go ms by (intro exI[of _ st'] exI[of _ "collection_header SXE_JITSON_TYPE_OBJECT 0 []"]) auto
  next
    assume ml: "members_load env ms t"
    have pre: "stack_holds opened st2 (c @ le32_bytes SXE_JITSON_TYPE_OBJECT @ le32_bytes (of_nat 0) @ y @ [])" using h2 by simp
    have "length (c @ []) + 16 * length t + 48 < 2 ^ 31" using len by simp
    then obtain j st' blk where "sxe_jitson_source_get_nonspace ?s1 = Some (0x22, src_skip j ?s1)"
        "load_members f env st2 (src_skip j ?s1) index 0x22 = Some (Inr (), st', src_skip (length t + 1) ?s1)"
        "stack_holds opened st' (c @ collection_header SXE_JITSON_TYPE_OBJECT (0 + length ms) ([] @ blk) @ [] @ blk)" "jmembers ms blk" "length blk \<le> 16 * length t"
      using ml[unfolded members_load_def, rule_format, OF f2 s1(1) s1(2) pre y idx] by blast
    moreover have "jrep (JObject ms) (collection_header SXE_JITSON_TYPE_OBJECT (length ms) blk @ blk)" by (rule rep_object) fact
    ultimately show ?thesis using go
      by (intro exI[of _ st'] exI[of _ "collection_header SXE_JITSON_TYPE_OBJECT (length ms) blk @ blk"]) (auto simp: collection_header_def)
  qed
qed

lemma accepted_text_first:
  "accepted_text dbl v t \<Longrightarrow> \<exists>ch x. t = ch # x \<and> \<not> isspace ch \<and> ch \<noteq> 0x5D \<and> ch \<noteq> 0"
proof (induction rule: accepted_text.cases)
  case (text_uint ds)
  then show ?case using not_space digit_not_special by (auto simp: num_digits_cons isdigit_def)
next
  case (text_real s ds f e)
  obtain c cs where c: "ds = c # cs" "isdigit c" using text_real(4) by (auto simp: num_digits_cons)
  then show ?case using text_real(2,3) not_space digit_not_special[OF c(2)] by (auto simp: num_sign_def isdigit_def)
qed (auto simp: lit_def isspace_def)

lemma accepted_elements_first: "accepted_elements dbl vs t \<Longrightarrow> vs \<noteq> [] \<and> (\<exists>w ch x. t = w @ ch # x \<and> ws w \<and> \<not> isspace ch \<and> ch \<noteq> 0x5D)"
proof (induction rule: accepted_elements.cases)
  case (text_element w1 v t w2)
  from accepted_text_first[OF this(4)] show ?case using text_element by fastforce
next
  case (text_elements w1 v t w2 vs t2)
  from accepted_text_first[OF this(4)] show ?case using text_elements by fastforce
qed

lemma element_turn:
  assumes "value_loads env v t" and "ws w1" and "ws w2" and "\<not> is_identifier_char d" and "\<not> isspace d"
    and "2 * length t \<le> fuel" and "src_strict src" and "src_rest src = w1 @ t @ w2 @ d # r"
    and "stack_holds opened st (c @ le32_bytes SXE_JITSON_TYPE_ARRAY @ le32_bytes (of_nat n) @ y @ blk0)" and "length y = 8"
    and "jitson_at index = length c" and "length (c @ blk0) + 16 * length t + 48 < 2 ^ 31"
  shows "\<exists>st' blk. load_elements (Suc fuel) env st src index = (let src = src_skip (length (w1 @ t @ w2) + 1) src in
        if d = 0x2C then load_elements fuel env st' src index
        else if d = 0x5D then do { stack \<leftarrow> jitson_set_integer st' index (ucast (stack_count st' - index)); Some (Inr (), stack, src) }
        else let (r, stack) = stack_error EINVAL st' index in Some (r, stack, src))
    \<and> stack_holds opened st' (c @ le32_bytes SXE_JITSON_TYPE_ARRAY @ le32_bytes (of_nat (Suc n)) @ y @ blk0 @ blk)
    \<and> jrep v blk \<and> length blk \<le> 16 * length t"
proof -
  obtain e s where es: "w2 @ d # r = e # s" "\<not> is_identifier_char e" using ws_then[OF assms(3,4)] by blast
  let ?s1 = "src_skip (length w1) src"
  have len: "length (c @ le32_bytes SXE_JITSON_TYPE_ARRAY @ le32_bytes (of_nat n) @ y @ blk0) + 16 * length t + 32 < 2 ^ 31"
    using assms(10,12) by simp
  have "src_rest ?s1 = t @ e # s" using assms(8) es by simp
  from assms(1)[unfolded value_loads_def, rule_format, OF assms(6) _ this es(2) assms(9) len] assms(7)
  obtain st1 blk where l: "sxe_jitson_stack_load_json fuel env st ?s1 = Some (Inr (), st1, src_skip (length t) ?s1)"
      "stack_holds opened st1 ((c @ le32_bytes SXE_JITSON_TYPE_ARRAY @ le32_bytes (of_nat n) @ y @ blk0) @ blk)" "jrep v blk" "length blk \<le> 16 * length t"
    by auto
  have go: "sxe_jitson_stack_load_json fuel env st src = Some (Inr (), st1, src_skip (length t) ?s1)"
    using load_json_skip[of src w1 "t @ w2 @ d # r" fuel env st] assms(2,7,8) l(1) by (simp add: src_strict_def)
  obtain st2 where b: "jitson_get_len st1 index = Some (of_nat n)" "jitson_set_len st1 index (of_nat n + 1) = Some st2"
      "stack_holds opened st2 (c @ le32_bytes SXE_JITSON_TYPE_ARRAY @ le32_bytes (of_nat (Suc n)) @ (y @ blk0 @ blk))"
    using collection_bump[of opened st1 c SXE_JITSON_TYPE_ARRAY n "y @ blk0 @ blk" index] l(2) assms(11) by auto
  have g: "sxe_jitson_source_get_nonspace (src_skip (length t) ?s1) = Some (d, src_skip (length w2 + 1) (src_skip (length t) ?s1))"
    by (rule nonspace_at[OF _ _ assms(3,5)]) (use assms(7,8) in auto)
  show ?thesis using go b g l(3,4)
    by (intro exI[of _ st2] exI[of _ blk]) (simp add: load_elements.simps(2) Let_def add_ac)
qed

lemma not_ident: "\<not> is_identifier_char 0x22" "\<not> is_identifier_char 0x2C" "\<not> is_identifier_char 0x3A" "\<not> is_identifier_char 0x5D"
  "\<not> is_identifier_char 0x7D" "\<not> is_identifier_char 0"
  by (simp_all add: identifier_facts(5))

lemma one_element:
  assumes "value_loads env v t" and "ws w1" and "ws w2"
  shows "elements_load env [v] (w1 @ t @ w2)"
  unfolding elements_load_def
proof (intro allI impI)
  let ?t = "w1 @ t @ w2"
  fix opened fuel st src c n y blk0 r index
  assume fuel: "2 * length ?t + 1 \<le> fuel" and s: "src_strict src" and rest: "src_rest src = ?t @ 0x5D # r"
    and h: "stack_holds opened st (c @ le32_bytes SXE_JITSON_TYPE_ARRAY @ le32_bytes (of_nat n) @ y @ blk0)"
    and y: "length y = 8" and idx: "jitson_at index = length c" and len: "length (c @ blk0) + 16 * length ?t + 48 < 2 ^ 31"
  obtain f where f: "fuel = Suc f" "2 * length t \<le> f" using fuel by (cases fuel) auto
  obtain st1 blk where go: "load_elements fuel env st src index = do {
        stack \<leftarrow> jitson_set_integer st1 index (ucast (stack_count st1 - index)); Some (Inr (), stack, src_skip (length ?t + 1) src) }"
      and h1: "stack_holds opened st1 (c @ le32_bytes SXE_JITSON_TYPE_ARRAY @ le32_bytes (of_nat (Suc n)) @ y @ blk0 @ blk)"
      and b: "jrep v blk" "length blk \<le> 16 * length t"
    using element_turn[OF assms not_ident(4) not_space(5) f(2) s _ h y idx] rest len f(1) by (auto simp: Let_def)
  have "length (c @ blk0 @ blk) + 16 < 2 ^ 31" using len b(2) by simp
  from collection_close[OF h1 idx y this]
  obtain st2 where "jitson_set_integer st1 index (ucast (stack_count st1 - index)) = Some st2"
      "stack_holds opened st2 (c @ collection_header SXE_JITSON_TYPE_ARRAY (Suc n) (blk0 @ blk) @ blk0 @ blk)" by blast
  moreover have "jreps [v] blk" using reps_cons[OF b(1) reps_nil] by simp
  ultimately show "\<exists>st' blk. load_elements fuel env st src index = Some (Inr (), st', src_skip (length ?t + 1) src)
        \<and> stack_holds opened st' (c @ collection_header SXE_JITSON_TYPE_ARRAY (n + length [v]) (blk0 @ blk) @ blk0 @ blk)
        \<and> jreps [v] blk \<and> length blk \<le> 16 * length ?t"
    using go b(2) by (intro exI[of _ st2] exI[of _ blk]) auto
qed

lemma more_elements:
  assumes "value_loads env v t" and "ws w1" and "ws w2" and "elements_load env vs t2"
  shows "elements_load env (v # vs) (w1 @ t @ w2 @ 0x2C # t2)"
  unfolding elements_load_def
proof (intro allI impI)
  let ?t = "w1 @ t @ w2 @ 0x2C # t2"
  fix opened fuel st src c n y blk0 r index
  assume fuel: "2 * length ?t + 1 \<le> fuel" and s: "src_strict src" and rest: "src_rest src = ?t @ 0x5D # r"
    and h: "stack_holds opened st (c @ le32_bytes SXE_JITSON_TYPE_ARRAY @ le32_bytes (of_nat n) @ y @ blk0)"
    and y: "length y = 8" and idx: "jitson_at index = length c" and len: "length (c @ blk0) + 16 * length ?t + 48 < 2 ^ 31"
  obtain f where f: "fuel = Suc f" "2 * length t \<le> f" "2 * length t2 + 1 \<le> f" using fuel by (cases fuel) auto
  let ?s1 = "src_skip (length (w1 @ t @ w2) + 1) src"
  obtain st1 blk where go: "load_elements fuel env st src index = load_elements f env st1 ?s1 index"
      and h1: "stack_holds opened st1 (c @ le32_bytes SXE_JITSON_TYPE_ARRAY @ le32_bytes (of_nat (Suc n)) @ y @ blk0 @ blk)"
      and b: "jrep v blk" "length blk \<le> 16 * length t"
    using element_turn[OF assms(1-3) not_ident(2) not_space(2) f(2) s _ h y idx] rest len f(1) by (auto simp: Let_def)
  have s1: "src_strict ?s1" "src_rest ?s1 = t2 @ 0x5D # r" using s rest by simp_all
  have "length (c @ blk0 @ blk) + 16 * length t2 + 48 < 2 ^ 31" using len b(2) by simp
  from assms(4)[unfolded elements_load_def, rule_format, OF f(3) s1 h1 y idx this]
  obtain st2 blk2 where l: "load_elements f env st1 ?s1 index = Some (Inr (), st2, src_skip (length t2 + 1) ?s1)"
      "stack_holds opened st2 (c @ collection_header SXE_JITSON_TYPE_ARRAY (Suc n + length vs) ((blk0 @ blk) @ blk2) @ (blk0 @ blk) @ blk2)"
      "jreps vs blk2" "length blk2 \<le> 16 * length t2" by blast
  have "jreps (v # vs) (blk @ blk2)" by (rule reps_cons[OF b(1) l(3)])
  then show "\<exists>st' blk. load_elements fuel env st src index = Some (Inr (), st', src_skip (length ?t + 1) src)
        \<and> stack_holds opened st' (c @ collection_header SXE_JITSON_TYPE_ARRAY (n + length (v # vs)) (blk0 @ blk) @ blk0 @ blk)
        \<and> jreps (v # vs) blk \<and> length blk \<le> 16 * length ?t"
    using go l(1,2,4) b(2) by (intro exI[of _ st2] exI[of _ "blk @ blk2"]) (auto simp: add_ac)
qed

lemma a_member:
  assumes "parser_env env dbl" and "ws w1" and "accepted_string k kt" and "ws w2" and "ws w3" and "value_loads env v t" and "ws w4"
  shows "member_loads env k v (w1 @ 0x22 # kt @ 0x22 # w2 @ 0x3A # w3 @ t @ w4)"
  unfolding member_loads_def
proof (intro allI impI)
  let ?t = "w1 @ 0x22 # kt @ 0x22 # w2 @ 0x3A # w3 @ t @ w4"
  fix opened fuel st src c n y blk0 d r index
  assume fuel: "2 * length ?t \<le> fuel" and s: "src_strict src" and rest: "src_rest src = ?t @ d # r" and d: "\<not> is_identifier_char d"
    and h: "stack_holds opened st (c @ le32_bytes SXE_JITSON_TYPE_OBJECT @ le32_bytes (of_nat n) @ y @ blk0)"
    and y: "length y = 8" and idx: "jitson_at index = length c" and len: "length (c @ blk0) + 16 * length ?t + 48 < 2 ^ 31"
  let ?c = "c @ le32_bytes SXE_JITSON_TYPE_OBJECT @ le32_bytes (of_nat n) @ y @ blk0"
  let ?s1 = "src_skip (length w1 + 1) src"
  have g1: "sxe_jitson_source_get_nonspace src = Some (0x22, ?s1)"
    by (rule nonspace_at[OF s _ assms(2) not_space(1)]) (use rest in simp)
  have e: "src_end src = None" "malloc_ok (env_malloc env)" "\<And>n. env_malloc env n \<noteq> None" using s assms(1) by (simp_all add: src_strict_def parser_env_def)
  have e1: "src_end ?s1 = None" "src_rest ?s1 = kt @ 0x22 # (w2 @ 0x3A # w3 @ t @ w4 @ d # r)" using e(1) rest by simp_all
  have l1: "length ?c + 16 * length kt + 32 < 2 ^ 31" using len y by simp
  from load_string_complete[OF assms(3) e1 h e(2,3) l1, of True]
  obtain st1 kb where ls: "sxe_jitson_stack_load_string (env_malloc env) st ?s1 True = Some (Inr (), st1, src_skip (length kt + 1) ?s1)"
      "stack_holds opened st1 (?c @ kb)" "string_tokens (string_type True) k kb" "length kb \<le> 16 + 16 * length kt" by blast
  let ?s2 = "src_skip (length kt + 1) ?s1"
  have g2: "sxe_jitson_source_get_nonspace ?s2 = Some (0x3A, src_skip (length w2 + 1) ?s2)"
    by (rule nonspace_at[OF _ _ assms(4) not_space(3)]) (use s rest in auto)
  let ?s3 = "src_skip (length w2 + 1) ?s2"
  obtain e3 r3 where es: "w4 @ d # r = e3 # r3" "\<not> is_identifier_char e3" using ws_then[OF assms(7) d] by blast
  have r2: "src_rest ?s2 = w2 @ 0x3A # w3 @ t @ e3 # r3" using es(1) by (subst src_skip_simps(8)) (simp only: e1(2), simp)
  have r3: "src_rest ?s3 = w3 @ t @ e3 # r3" by (subst src_skip_simps(8)) (simp only: r2, simp)
  have skip3: "sxe_jitson_stack_load_json fuel env st1 ?s3 = sxe_jitson_stack_load_json fuel env st1 (src_skip (length w3) ?s3)"
    by (rule load_json_skip[OF _ r3 assms(5)]) (use e(1) in simp)
  have f4: "2 * length t \<le> fuel" and l4: "length (?c @ kb) + 16 * length t + 32 < 2 ^ 31" using fuel len ls(4) y by simp_all
  have s4: "src_strict (src_skip (length w3) ?s3)" using s by simp
  have r4: "src_rest (src_skip (length w3) ?s3) = t @ e3 # r3" by (subst src_skip_simps(8)) (simp only: r3, simp)
  from assms(6)[unfolded value_loads_def, rule_format, OF f4 s4 r4 es(2) ls(2) l4]
  obtain st2 vb where lv: "sxe_jitson_stack_load_json fuel env st1 (src_skip (length w3) ?s3) = Some (Inr (), st2, src_skip (length t) (src_skip (length w3) ?s3))"
      "stack_holds opened st2 ((?c @ kb) @ vb)" "jrep v vb" "length vb \<le> 16 * length t" by blast
  obtain st3 where b: "jitson_get_len st2 index = Some (of_nat n)" "jitson_set_len st2 index (of_nat n + 1) = Some st3"
      "stack_holds opened st3 (c @ le32_bytes SXE_JITSON_TYPE_OBJECT @ le32_bytes (of_nat (Suc n)) @ (y @ blk0 @ kb @ vb))"
    using collection_bump[of opened st2 c SXE_JITSON_TYPE_OBJECT n "y @ blk0 @ kb @ vb" index] lv(2) idx by auto
  let ?s5 = "src_skip (length t) (src_skip (length w3) ?s3)"
  have "src_rest ?s5 = w4 @ d # r" using es(1) by (subst src_skip_simps(8)) (simp only: r4, simp)
  then have "sxe_jitson_source_get_nonspace ?s5 = sxe_jitson_source_get_nonspace (src_skip (length w4) ?s5)"
    by (intro get_nonspace_skip[OF _ _ assms(7)]) (use e(1) in simp)
  moreover have "src_skip (length w4) ?s5 = src_skip (length ?t) src" by (simp add: add_ac)
  ultimately have g5: "sxe_jitson_source_get_nonspace ?s5 = sxe_jitson_source_get_nonspace (src_skip (length ?t) src)" by (simp only:)
  have "load_members (Suc fuel) env st ?s1 index 0x22 = members_next fuel env st3 (src_skip (length ?t) src) index"
    unfolding load_members.simps(2) members_next_def g5[symmetric]
    using ls(1) g2 skip3 lv(1) b by (simp add: Let_def)
  moreover have "length (kb @ vb) \<le> 16 * length ?t" using ls(4) lv(4) by simp
  ultimately show "\<exists>j st' kb vb. sxe_jitson_source_get_nonspace src = Some (0x22, src_skip j src)
        \<and> load_members (Suc fuel) env st (src_skip j src) index 0x22 = members_next fuel env st' (src_skip (length ?t) src) index
        \<and> stack_holds opened st' (c @ le32_bytes SXE_JITSON_TYPE_OBJECT @ le32_bytes (of_nat (Suc n)) @ y @ blk0 @ kb @ vb)
        \<and> string_tokens (string_type True) k kb \<and> jrep v vb \<and> length (kb @ vb) \<le> 16 * length ?t"
    using g1 b(3) ls(3) lv(3) by blast
qed

lemma one_member:
  assumes "member_loads env k v t"
  shows "members_load env [(k, v)] t"
  unfolding members_load_def
proof (intro allI impI)
  fix opened fuel st src c n y blk0 r index
  assume fuel: "2 * length t + 1 \<le> fuel" and s: "src_strict src" and rest: "src_rest src = t @ 0x7D # r"
    and h: "stack_holds opened st (c @ le32_bytes SXE_JITSON_TYPE_OBJECT @ le32_bytes (of_nat n) @ y @ blk0)"
    and y: "length y = 8" and idx: "jitson_at index = length c" and len: "length (c @ blk0) + 16 * length t + 48 < 2 ^ 31"
  obtain f where f: "fuel = Suc f" "2 * length t \<le> f" using fuel by (cases fuel) auto
  from assms[unfolded member_loads_def, rule_format, OF f(2) s rest not_ident(5) h y idx len]
  obtain j st1 kb vb where g: "sxe_jitson_source_get_nonspace src = Some (0x22, src_skip j src)"
      and go: "load_members fuel env st (src_skip j src) index 0x22 = members_next f env st1 (src_skip (length t) src) index"
      and h1: "stack_holds opened st1 (c @ le32_bytes SXE_JITSON_TYPE_OBJECT @ le32_bytes (of_nat (Suc n)) @ y @ blk0 @ kb @ vb)"
      and b: "string_tokens (string_type True) k kb" "jrep v vb" "length (kb @ vb) \<le> 16 * length t" unfolding f(1) by blast
  have g2: "sxe_jitson_source_get_nonspace (src_skip (length t) src) = Some (0x7D, src_skip (length ([] :: u8 list) + 1) (src_skip (length t) src))"
    by (rule nonspace_at[OF _ _ _ not_space(7)]) (use s rest in \<open>auto simp: ws_def\<close>)
  have "length (c @ blk0 @ kb @ vb) + 16 < 2 ^ 31" using len b(3) by simp
  from collection_close[OF h1 idx y this]
  obtain st2 where "jitson_set_integer st1 index (ucast (stack_count st1 - index)) = Some st2"
      "stack_holds opened st2 (c @ collection_header SXE_JITSON_TYPE_OBJECT (Suc n) (blk0 @ kb @ vb) @ blk0 @ kb @ vb)" by blast
  moreover have "jmembers [(k, v)] (kb @ vb)" using members_cons[OF _ b(2) members_nil, of k kb] b(1) by (simp add: string_type_def)
  ultimately show "\<exists>j st' blk. sxe_jitson_source_get_nonspace src = Some (0x22, src_skip j src)
        \<and> load_members fuel env st (src_skip j src) index 0x22 = Some (Inr (), st', src_skip (length t + 1) src)
        \<and> stack_holds opened st' (c @ collection_header SXE_JITSON_TYPE_OBJECT (n + length [(k, v)]) (blk0 @ blk) @ blk0 @ blk)
        \<and> jmembers [(k, v)] blk \<and> length blk \<le> 16 * length t"
    using g go g2 b(3) by (intro exI[of _ j] exI[of _ st2] exI[of _ "kb @ vb"]) (auto simp: members_next_def)
qed

lemma more_members:
  assumes "member_loads env k v t" and "members_load env ms t2"
  shows "members_load env ((k, v) # ms) (t @ 0x2C # t2)"
  unfolding members_load_def
proof (intro allI impI)
  let ?t = "t @ 0x2C # t2"
  fix opened fuel st src c n y blk0 r index
  assume fuel: "2 * length ?t + 1 \<le> fuel" and s: "src_strict src" and rest: "src_rest src = ?t @ 0x7D # r"
    and h: "stack_holds opened st (c @ le32_bytes SXE_JITSON_TYPE_OBJECT @ le32_bytes (of_nat n) @ y @ blk0)"
    and y: "length y = 8" and idx: "jitson_at index = length c" and len: "length (c @ blk0) + 16 * length ?t + 48 < 2 ^ 31"
  obtain f where f: "fuel = Suc f" "2 * length t \<le> f" "2 * length t2 + 1 \<le> f" using fuel by (cases fuel) auto
  have rest1: "src_rest src = t @ 0x2C # (t2 @ 0x7D # r)" and len1: "length (c @ blk0) + 16 * length t + 48 < 2 ^ 31" using rest len by simp_all
  from assms(1)[unfolded member_loads_def, rule_format, OF f(2) s rest1 not_ident(2) h y idx len1]
  obtain j st1 kb vb where g: "sxe_jitson_source_get_nonspace src = Some (0x22, src_skip j src)"
      and go: "load_members fuel env st (src_skip j src) index 0x22 = members_next f env st1 (src_skip (length t) src) index"
      and h1: "stack_holds opened st1 (c @ le32_bytes SXE_JITSON_TYPE_OBJECT @ le32_bytes (of_nat (Suc n)) @ y @ blk0 @ kb @ vb)"
      and b: "string_tokens (string_type True) k kb" "jrep v vb" "length (kb @ vb) \<le> 16 * length t" unfolding f(1) by blast
  let ?s1 = "src_skip (length t + 1) src"
  have g2: "sxe_jitson_source_get_nonspace (src_skip (length t) src) = Some (0x2C, src_skip (length ([] :: u8 list) + 1) (src_skip (length t) src))"
    by (rule nonspace_at[OF _ _ _ not_space(2)]) (use s rest in \<open>auto simp: ws_def\<close>)
  have s1: "src_strict ?s1" "src_rest ?s1 = t2 @ 0x7D # r" using s rest by simp_all
  have "length (c @ blk0 @ kb @ vb) + 16 * length t2 + 48 < 2 ^ 31" using len b(3) by simp
  from assms(2)[unfolded members_load_def, rule_format, OF f(3) s1 h1 y idx this]
  obtain j2 st2 blk2 where l: "sxe_jitson_source_get_nonspace ?s1 = Some (0x22, src_skip j2 ?s1)"
      "load_members f env st1 (src_skip j2 ?s1) index 0x22 = Some (Inr (), st2, src_skip (length t2 + 1) ?s1)"
      "stack_holds opened st2 (c @ collection_header SXE_JITSON_TYPE_OBJECT (Suc n + length ms) ((blk0 @ kb @ vb) @ blk2) @ (blk0 @ kb @ vb) @ blk2)"
      "jmembers ms blk2" "length blk2 \<le> 16 * length t2" by blast
  have "jmembers ((k, v) # ms) (kb @ vb @ blk2)" using members_cons[OF _ b(2) l(4), of k kb] b(1) by (simp add: string_type_def)
  moreover have "load_members fuel env st (src_skip j src) index 0x22 = Some (Inr (), st2, src_skip (length ?t + 1) src)"
  proof -
    have e: "src_skip (length t2 + 1) ?s1 = src_skip (length ?t + 1) src" by (simp add: add_ac)
    show ?thesis unfolding go members_next_def using g2 l(1) l(2)[unfolded e] by simp
  qed
  ultimately show "\<exists>j st' blk. sxe_jitson_source_get_nonspace src = Some (0x22, src_skip j src)
        \<and> load_members fuel env st (src_skip j src) index 0x22 = Some (Inr (), st', src_skip (length ?t + 1) src)
        \<and> stack_holds opened st' (c @ collection_header SXE_JITSON_TYPE_OBJECT (n + length ((k, v) # ms)) (blk0 @ blk) @ blk0 @ blk)
        \<and> jmembers ((k, v) # ms) blk \<and> length blk \<le> 16 * length ?t"
    using g l(3,5) b(3) by (intro exI[of _ j] exI[of _ st2] exI[of _ "kb @ vb @ blk2"]) auto
qed

lemma text_loads:
  assumes "parser_env env dbl"
  shows "accepted_text dbl v t \<Longrightarrow> value_loads env v t" and "accepted_elements dbl vs t' \<Longrightarrow> elements_load env vs t'"
    and "accepted_member dbl k mv t'' \<Longrightarrow> member_loads env k mv t''" and "accepted_members dbl ms t''' \<Longrightarrow> members_load env ms t'''"
proof (induction rule: accepted_text_accepted_elements_accepted_member_accepted_members.inducts)
  case (text_uint ds)
  then show ?case using number_loads(1)[OF assms, of "[]" ds "[]" "[]"] by (simp add: num_sign_def num_fraction_def num_exponent_def)
next
  case (text_real s ds f e)
  then show ?case using number_loads(2)[OF assms text_real(1-4)] by blast
next
  case (text_string s t)
  then show ?case by (rule string_loads[OF assms])
next
  case (text_array vs t)
  then show ?case using accepted_elements_first by (intro array_loads[OF assms]) blast
next
  case (text_object ms t)
  then show ?case by (intro object_loads[OF assms]) (auto elim: accepted_members.cases)
next
  case (text_array_empty w)
  then show ?case by (intro array_loads[OF assms]) simp
next
  case (text_object_empty w)
  then show ?case by (intro object_loads[OF assms]) simp
qed (auto simp: keyword_def intro: keyword_loads[OF assms] one_element more_elements a_member[OF assms] one_member more_members)

end
