(* ===== verification/SxeJitsonSound.thy ===== *)
theory SxeJitsonSound
  imports SxeJitsonParser
begin

text \<open>
  The parser of \<^verbatim>\<open>sxe-jitson-stack.c\<close> accepts nothing but the texts of \<^const>\<open>accepted_text\<close>, which are those of RFC 8259 and a few more, and
  survives everything else, as long as no \<^verbatim>\<open>\\u\<close> escape is of a code point from U+0080 on: by induction on the fuel, every call of
  \<open>sxe_jitson_stack_load_json\<close>, of the loop over elements and of the loop over members on a text that a NUL ends returns,
  with an error and the tokens there were before, or with the tokens of the text of that grammar that it used.
\<close>

unbundle bit_operations_syntax

section \<open>Definitions\<close>

definition nul_text :: "sxe_jitson_source \<Rightarrow> u8 list \<Rightarrow> bool" where
  "nul_text src t \<longleftrightarrow> src_strict src \<and> (\<exists>r. src_rest src = t @ 0 # r) \<and> 0 \<notin> set t \<and> plain_text t"

type_synonym parser_result = "(jitson_result \<times> sxe_jitson_stack \<times> sxe_jitson_source) option"

definition value_outcome ::
    "(u8 list \<Rightarrow> u64) \<Rightarrow> u32 \<Rightarrow> u8 list \<Rightarrow> sxe_jitson_source \<Rightarrow> u8 list \<Rightarrow> parser_result \<Rightarrow> bool" where
  "value_outcome dbl opened c src t out \<longleftrightarrow> (\<exists>res st' src'. out = Some (res, st', src') \<and>
     (case res of Inl _ \<Rightarrow> stack_holds opened st' c
      | Inr _ \<Rightarrow> \<exists>w x rest v blk. t = w @ x @ rest \<and> ws w \<and> accepted_text dbl v x \<and> src' = src_skip (length (w @ x)) src
          \<and> stack_holds opened st' (c @ blk) \<and> jrep v blk \<and> length blk \<le> 16 * length x))"

definition elements_outcome ::
    "(u8 list \<Rightarrow> u64) \<Rightarrow> u32 \<Rightarrow> u8 list \<Rightarrow> nat \<Rightarrow> u8 list \<Rightarrow> sxe_jitson_source \<Rightarrow> u8 list \<Rightarrow> parser_result \<Rightarrow> bool" where
  "elements_outcome dbl opened c n blk0 src t out \<longleftrightarrow> (\<exists>res st' src'. out = Some (res, st', src') \<and>
     (case res of Inl _ \<Rightarrow> stack_holds opened st' c
      | Inr _ \<Rightarrow> \<exists>u rest vs blk. t = u @ 0x5D # rest \<and> accepted_elements dbl vs u \<and> src' = src_skip (length u + 1) src
          \<and> stack_holds opened st' (c @ collection_header SXE_JITSON_TYPE_ARRAY (n + length vs) (blk0 @ blk) @ blk0 @ blk)
          \<and> jreps vs blk \<and> length blk \<le> 16 * length u))"

definition members_outcome ::
    "(u8 list \<Rightarrow> u64) \<Rightarrow> u32 \<Rightarrow> u8 list \<Rightarrow> nat \<Rightarrow> u8 list \<Rightarrow> sxe_jitson_source \<Rightarrow> u8 \<Rightarrow> u8 list \<Rightarrow> parser_result \<Rightarrow> bool" where
  "members_outcome dbl opened c n blk0 src ch t out \<longleftrightarrow> (\<exists>res st' src'. out = Some (res, st', src') \<and>
     (case res of Inl _ \<Rightarrow> stack_holds opened st' c
      | Inr _ \<Rightarrow> \<exists>u rest ms blk. t = u @ 0x7D # rest \<and> accepted_members dbl ms (ch # u) \<and> src' = src_skip (length u + 1) src
          \<and> stack_holds opened st' (c @ collection_header SXE_JITSON_TYPE_OBJECT (n + length ms) (blk0 @ blk) @ blk0 @ blk)
          \<and> jmembers ms blk \<and> length blk \<le> 16 + 16 * length u))"

definition value_ok :: "(u8 list \<Rightarrow> u64) \<Rightarrow> jitson_env \<Rightarrow> nat \<Rightarrow> bool" where
  "value_ok dbl env fuel \<longleftrightarrow> (\<forall>opened st src c t. 2 * length t + 1 \<le> fuel \<longrightarrow> nul_text src t \<longrightarrow> stack_holds opened st c \<longrightarrow>
     length c + 16 * length t + 32 < 2 ^ 31 \<longrightarrow> value_outcome dbl opened c src t (sxe_jitson_stack_load_json fuel env st src))"

definition elements_ok :: "(u8 list \<Rightarrow> u64) \<Rightarrow> jitson_env \<Rightarrow> nat \<Rightarrow> bool" where
  "elements_ok dbl env fuel \<longleftrightarrow> (\<forall>opened st src c t n y blk0 index. 2 * length t + 2 \<le> fuel \<longrightarrow> nul_text src t \<longrightarrow>
     stack_holds opened st (c @ le32_bytes SXE_JITSON_TYPE_ARRAY @ le32_bytes (of_nat n) @ y @ blk0) \<longrightarrow> length y = 8 \<longrightarrow>
     jitson_at index = length c \<longrightarrow> length (c @ blk0) + 16 * length t + 48 < 2 ^ 31 \<longrightarrow>
     elements_outcome dbl opened c n blk0 src t (load_elements fuel env st src index))"

definition members_ok :: "(u8 list \<Rightarrow> u64) \<Rightarrow> jitson_env \<Rightarrow> nat \<Rightarrow> bool" where
  "members_ok dbl env fuel \<longleftrightarrow> (\<forall>opened st src c t n y blk0 index ch. 2 * length t + 2 \<le> fuel \<longrightarrow> nul_text src t \<longrightarrow>
     stack_holds opened st (c @ le32_bytes SXE_JITSON_TYPE_OBJECT @ le32_bytes (of_nat n) @ y @ blk0) \<longrightarrow> length y = 8 \<longrightarrow>
     jitson_at index = length c \<longrightarrow> length (c @ blk0) + 16 * length t + 64 < 2 ^ 31 \<longrightarrow>
     members_outcome dbl opened c n blk0 src ch t (load_members fuel env st src index ch))"

definition members_tail :: "(u8 list \<Rightarrow> u64) \<Rightarrow> (u8 list \<times> json) list \<Rightarrow> u8 list \<Rightarrow> bool" where
  "members_tail dbl ms u \<longleftrightarrow> u = [] \<and> ms = [] \<or> (\<exists>u2. u = 0x2C # u2 \<and> accepted_members dbl ms u2)"

definition members_next_outcome ::
    "(u8 list \<Rightarrow> u64) \<Rightarrow> u32 \<Rightarrow> u8 list \<Rightarrow> nat \<Rightarrow> u8 list \<Rightarrow> sxe_jitson_source \<Rightarrow> u8 list \<Rightarrow> parser_result \<Rightarrow> bool" where
  "members_next_outcome dbl opened c n blk0 src t out \<longleftrightarrow> (\<exists>res st' src'. out = Some (res, st', src') \<and>
     (case res of Inl _ \<Rightarrow> stack_holds opened st' c
      | Inr _ \<Rightarrow> \<exists>w u rest ms blk. t = w @ u @ 0x7D # rest \<and> ws w \<and> members_tail dbl ms u \<and> src' = src_skip (length w + (length u + 1)) src
          \<and> stack_holds opened st' (c @ collection_header SXE_JITSON_TYPE_OBJECT (n + length ms) (blk0 @ blk) @ blk0 @ blk)
          \<and> jmembers ms blk \<and> length blk \<le> 16 * length u))"

definition sample_malloc :: "u64 \<Rightarrow> u8 list option" where
  "sample_malloc n = Some (replicate (unat n) 0)"

definition sample_strtod :: "u8 list \<Rightarrow> u64 \<times> nat" where
  "sample_strtod s = (case sxe_jitson_source_get_number (sxe_jitson_source_from_string s SXE_JITSON_FLAG_STRICT) of
     Some (Some (_, len, _), _) \<Rightarrow> (of_nat len, len) | _ \<Rightarrow> (0, 0))"

definition sample_env :: jitson_env where
  "sample_env = \<lparr>env_malloc = sample_malloc, env_strtod = sample_strtod, env_constants = None, env_clone = \<lambda>x. (True, x), env_push_ident = None\<rparr>"

section \<open>Soundness\<close>

lemma value_failed: "out = Some (Inl e, st', src') \<Longrightarrow> stack_holds opened st' c \<Longrightarrow> value_outcome dbl opened c src t out"
  by (auto simp: value_outcome_def)

lemma elements_failed: "out = Some (Inl e, st', src') \<Longrightarrow> stack_holds opened st' c \<Longrightarrow> elements_outcome dbl opened c n blk0 src t out"
  by (auto simp: elements_outcome_def)

lemma members_failed: "out = Some (Inl e, st', src') \<Longrightarrow> stack_holds opened st' c \<Longrightarrow> members_outcome dbl opened c n blk0 src ch t out"
  by (auto simp: members_outcome_def)

lemma value_found:
  assumes "out = Some (Inr u, st', src_skip (length w + length x) src)" and "t = w @ x @ rest" and "ws w" and "accepted_text dbl v x"
    and "stack_holds opened st' (c @ blk)" and "jrep v blk" and "length blk \<le> 16 * length x"
  shows "value_outcome dbl opened c src t out"
  unfolding value_outcome_def assms(1) using assms(2-)
  by (intro exI[of _ "Inr u"] exI[of _ st'] exI[of _ "src_skip (length w + length x) src"]) (simp, blast)

lemma elements_found:
  assumes "out = Some (Inr k, st', src_skip (length u + 1) src)" and "t = u @ 0x5D # rest" and "accepted_elements dbl vs u"
    and "stack_holds opened st' (c @ collection_header SXE_JITSON_TYPE_ARRAY (n + length vs) (blk0 @ blk) @ blk0 @ blk)"
    and "jreps vs blk" and "length blk \<le> 16 * length u"
  shows "elements_outcome dbl opened c n blk0 src t out"
  unfolding elements_outcome_def assms(1) using assms(2-)
  by (intro exI[of _ "Inr k"] exI[of _ st'] exI[of _ "src_skip (length u + 1) src"]) (simp, blast)

lemma members_found:
  assumes "out = Some (Inr k, st', src_skip (length u + 1) src)" and "t = u @ 0x7D # rest" and "accepted_members dbl ms (ch # u)"
    and "stack_holds opened st' (c @ collection_header SXE_JITSON_TYPE_OBJECT (n + length ms) (blk0 @ blk) @ blk0 @ blk)"
    and "jmembers ms blk" and "length blk \<le> 16 + 16 * length u"
  shows "members_outcome dbl opened c n blk0 src ch t out"
  unfolding members_outcome_def assms(1) using assms(2-)
  by (intro exI[of _ "Inr k"] exI[of _ st'] exI[of _ "src_skip (length u + 1) src"]) (simp, blast)

lemma nul_text_skip: "nul_text src (u @ v) \<Longrightarrow> nul_text (src_skip (length u) src) v"
  by (auto simp: nul_text_def plain_text_suffix)

lemma nonspace_total:
  assumes "nul_text src t"
  shows "(\<exists>w ch x. t = w @ ch # x \<and> ws w \<and> \<not> isspace ch \<and> ch \<noteq> 0 \<and> sxe_jitson_source_get_nonspace src = Some (ch, src_skip (length w + 1) src)
      \<and> nul_text (src_skip (length w + 1) src) x) \<or>
    (ws t \<and> sxe_jitson_source_get_nonspace src = Some (0, src_skip (length t + 1) src))"
proof -
  obtain r where r: "src_strict src" "src_rest src = t @ 0 # r" "0 \<notin> set t" using assms by (auto simp: nul_text_def)
  show ?thesis
  proof (cases "\<forall>c \<in> set t. isspace c")
    case True
    then show ?thesis using nonspace_at[OF r(1,2)] by (simp add: ws_def)
  next
    case False
    then obtain w ch x where t: "t = w @ ch # x" "ws w" "\<not> isspace ch"
      using split_list_first_prop[of t "\<lambda>c. \<not> isspace c"] by (auto simp: ws_def)
    have "nul_text (src_skip (length (w @ [ch])) src) x" by (rule nul_text_skip) (use assms t in simp)
    moreover have "sxe_jitson_source_get_nonspace src = Some (ch, src_skip (length w + 1) src)"
      by (rule nonspace_at[OF r(1) _ t(2,3)]) (use r(2) t in simp)
    ultimately show ?thesis using t r(3) by (intro disjI1 exI[of _ w] exI[of _ ch] exI[of _ x]) auto
  qed
qed

lemma append_nul_prefix:
  assumes "t @ (0 :: u8) # r = x @ y" and "0 \<notin> set x"
  shows "\<exists>rest. t = x @ rest \<and> rest @ 0 # r = y"
proof -
  have "length x \<le> length t"
  proof (rule ccontr)
    assume a: "\<not> length x \<le> length t"
    then have "x ! length t = (x @ y) ! length t" by (simp add: nth_append)
    also have "\<dots> = 0" unfolding assms(1)[symmetric] by simp
    finally show False using assms(2) a nth_mem[of "length t" x] by simp
  qed
  then have "take (length x) t = x" using arg_cong[OF assms(1), of "take (length x)"] by simp
  then have "t = x @ drop (length x) t" by (metis append_take_drop_id)
  then show ?thesis using assms(1) by (metis append.assoc same_append_eq)
qed

lemma number_ok:
  assumes "nul_text src t" and "strtod_ok env dbl" and "stack_holds opened st (c @ tok)" and "length tok = 16" and "jitson_at index = length c"
  shows "value_outcome dbl opened c src t (load_number env st src index)"
proof -
  obtain r where r: "src_end src = None" "src_flags src = SXE_JITSON_FLAG_STRICT" "src_rest src = t @ 0 # r" "0 \<notin> set t" "plain_text t"
    using assms(1) by (auto simp: nul_text_def src_strict_def)
  have "0 \<in> set (src_rest src)" using r(3) by simp
  from get_number_total[OF r(1,2) this] show ?thesis
  proof (elim disjE exE conjE)
    fix src' assume "sxe_jitson_source_get_number src = Some (None, src')"
    moreover obtain st' where "stack_error EINVAL st index = (Inl EINVAL, st')" "stack_holds opened st' c"
      using stack_error_holds[OF assms(3,5)] by blast
    ultimately have "load_number env st src index = Some (Inl EINVAL, st', src')" by (simp add: load_number_def)
    then show ?thesis using \<open>stack_holds opened st' c\<close> by (rule value_failed)
  next
    fix s ds f e d r2
    assume n: "src_rest src = (s @ ds @ f @ e) @ d # r2" "num_sign s" "num_digits ds" "num_fraction f" "num_exponent e" "num_follow f e d"
    let ?x = "s @ ds @ f @ e"
    have "\<not> isdigit 0" by (simp add: isdigit_def)
    then have dig: "num_digits x \<Longrightarrow> 0 \<notin> set x" for x by (auto simp: num_digits_def)
    have "0 \<notin> set s" using n(2) by (auto simp: num_sign_def)
    moreover have "0 \<notin> set f" using n(4) dig by (auto simp: num_fraction_def)
    moreover have "0 \<notin> set e" using n(5) dig by (auto simp: num_exponent_def)
    ultimately have no0: "0 \<notin> set ?x" using dig[OF n(3)] by simp
    have "\<exists>rest. t = ?x @ rest \<and> rest @ 0 # r = d # r2"
      by (rule append_nul_prefix[OF _ no0]) (use n(1) r(3) in simp)
    then obtain rest where rest: "t = ?x @ rest" "rest @ 0 # r = d # r2" by blast
    have hex: "s = [0x2D] \<and> ds = [0x30] \<and> f = [] \<and> e = [] \<longrightarrow> d \<noteq> 0x78 \<and> d \<noteq> 0x58"
    proof (intro impI)
      assume a: "s = [0x2D] \<and> ds = [0x30] \<and> f = [] \<and> e = []"
      show "d \<noteq> 0x78 \<and> d \<noteq> 0x58"
      proof (cases rest)
        case Nil then show ?thesis using rest(2) by auto
      next
        case (Cons z zs)
        then have "t = [] @ 0x2D # 0x30 # d # zs" using rest a by simp
        then show ?thesis using r(5) unfolding plain_text_def by blast
      qed
    qed
    from load_number_found[OF r(1,2) n(1-6) hex assms(2-5)]
    obtain st' blk v where l: "load_number env st src index = Some (Inr (), st', src_skip (length ?x) src)"
      and b: "stack_holds opened st' (c @ blk)" "jrep v blk" "length blk = 16" "accepted_text dbl v ?x" by blast
    have le: "length blk \<le> 16 * length ?x" using n(3) b(3) by (cases ds) (auto simp: num_digits_def)
    show ?thesis by (rule value_found[of _ "()" st' "[]" ?x src t rest dbl v, OF _ _ _ b(4,1,2) le]) (use l rest(1) in \<open>simp_all add: ws_def\<close>)
  qed
qed

lemma identifier_ok:
  assumes "nul_text src t" and "t = ch # x0" and "jitson_class ! unat ch = ALP"
    and "stack_holds opened st (c @ tok)" and "length tok = 16" and "jitson_at index = length c"
  shows "value_outcome dbl opened c src t (load_identifier env st src index)"
proof -
  obtain r where r: "src_end src = None" "src_flags src = SXE_JITSON_FLAG_STRICT" "src_rest src = t @ 0 # r" "0 \<notin> set t"
    using assms(1) by (auto simp: nul_text_def src_strict_def)
  define xs where "xs = takeWhile is_identifier_char t"
  define rest where "rest = dropWhile is_identifier_char t"
  have t: "t = xs @ rest" by (simp add: xs_def rest_def)
  have xs: "\<forall>c \<in> set xs. is_identifier_char c" "xs \<noteq> []"
    using identifier_facts(1)[OF assms(3)] assms(2) by (auto simp: xs_def dest: set_takeWhileD)
  have "\<exists>d r2. rest @ 0 # r = d # r2 \<and> \<not> is_identifier_char d"
  proof (cases rest)
    case Nil then show ?thesis using not_ident(6) by simp
  next
    case (Cons a list)
    then have "\<not> is_identifier_char a" using dropWhile_eq_Cons_conv[of is_identifier_char t a list] by (simp add: rest_def)
    then show ?thesis using Cons by simp
  qed
  then obtain d r2 where d: "rest @ 0 # r = d # r2" "\<not> is_identifier_char d" by blast
  have rr: "src_rest src = xs @ d # r2" using r(3) t d(1) by (metis append.assoc)
  from load_identifier_found[OF r(1,2) rr xs(2,1) d(2) assms(4-6), of env]
  obtain res st' where l: "load_identifier env st src index = Some (res, st', src_skip (length xs) src)"
    and b: "case res of Inl _ \<Rightarrow> stack_holds opened st' c \<and> (\<forall>v. \<not> keyword v xs)
     | Inr _ \<Rightarrow> \<exists>v blk. keyword v xs \<and> stack_holds opened st' (c @ blk) \<and> jrep v blk \<and> length blk = 16" by blast
  show ?thesis
  proof (cases res)
    case (Inl e) then show ?thesis using l b by (auto intro: value_failed)
  next
    case (Inr u)
    then obtain v blk where k: "keyword v xs" "stack_holds opened st' (c @ blk)" "jrep v blk" "length blk = 16" using b by auto
    have "length blk \<le> 16 * length xs" using xs(2) k(4) by (cases xs) auto
    then show ?thesis
      by (intro value_found[of _ u st' "[]" xs src t rest dbl v, OF _ _ _ keyword_text[OF k(1)] k(2,3)]) (use l Inr t in \<open>simp_all add: ws_def\<close>)
  qed
qed

lemma ws_simps: "ws []" "ws (a @ b) = (ws a \<and> ws b)"
  by (auto simp: ws_def)

lemma accepted_elements_ws: "accepted_elements dbl vs t \<Longrightarrow> ws w \<Longrightarrow> accepted_elements dbl vs (w @ t)"
proof (erule accepted_elements.cases)
  fix w1 v x w2 assume "vs = [v]" "t = w1 @ x @ w2" "ws w1" "accepted_text dbl v x" "ws w2" "ws w"
  then show ?thesis using text_element[of "w @ w1" dbl v x w2] by (auto simp: ws_simps)
next
  fix w1 v x w2 vs' t2 assume "vs = v # vs'" "t = w1 @ x @ w2 @ 0x2C # t2" "ws w1" "accepted_text dbl v x" "ws w2" "accepted_elements dbl vs' t2" "ws w"
  then show ?thesis using text_elements[of "w @ w1" dbl v x w2 vs' t2] by (auto simp: ws_simps)
qed

lemma accepted_member_ws: "accepted_member dbl k v t \<Longrightarrow> ws w \<Longrightarrow> accepted_member dbl k v (w @ t)"
proof (erule accepted_member.cases)
  fix w1 k' kt w2 w3 v' x w4
  assume "k = k'" "v = v'" "t = w1 @ 0x22 # kt @ 0x22 # w2 @ 0x3A # w3 @ x @ w4" "ws w1" "accepted_string k' kt" "ws w2" "ws w3"
    "accepted_text dbl v' x" "ws w4" "ws w"
  then show ?thesis using text_member[of "w @ w1" k kt w2 w3 dbl v x w4] by (auto simp: ws_simps)
qed

lemma accepted_members_ws: "accepted_members dbl ms t \<Longrightarrow> ws w \<Longrightarrow> accepted_members dbl ms (w @ t)"
proof (erule accepted_members.cases)
  fix k v t' assume "ms = [(k, v)]" "t = t'" "accepted_member dbl k v t'" "ws w"
  then show ?thesis using text_one_member[OF accepted_member_ws] by blast
next
  fix k v t1 ms' t2 assume "ms = (k, v) # ms'" "t = t1 @ 0x2C # t2" "accepted_member dbl k v t1" "accepted_members dbl ms' t2" "ws w"
  then show ?thesis using text_members[OF accepted_member_ws, of dbl k v t1 w ms' t2] by simp
qed

lemma value_shift: "value_outcome dbl opened c (src_skip (length w) src) t out \<Longrightarrow> ws w \<Longrightarrow> value_outcome dbl opened c src (w @ t) out"
  unfolding value_outcome_def
proof (elim exE conjE)
  fix res st' src' assume w: "ws w" and out: "out = Some (res, st', src')" and c: "case res of Inl _ \<Rightarrow> stack_holds opened st' c
      | Inr _ \<Rightarrow> \<exists>w' x rest v blk. t = w' @ x @ rest \<and> ws w' \<and> accepted_text dbl v x \<and> src' = src_skip (length (w' @ x)) (src_skip (length w) src)
          \<and> stack_holds opened st' (c @ blk) \<and> jrep v blk \<and> length blk \<le> 16 * length x"
  show "\<exists>res st' src'. out = Some (res, st', src') \<and> (case res of Inl _ \<Rightarrow> stack_holds opened st' c
      | Inr _ \<Rightarrow> \<exists>w' x rest v blk. w @ t = w' @ x @ rest \<and> ws w' \<and> accepted_text dbl v x \<and> src' = src_skip (length (w' @ x)) src
          \<and> stack_holds opened st' (c @ blk) \<and> jrep v blk \<and> length blk \<le> 16 * length x)"
  proof (cases res)
    case (Inl e) then show ?thesis using out c by simp
  next
    case (Inr u)
    then obtain w' x rest v blk where t: "t = w' @ x @ rest" "ws w'" "accepted_text dbl v x" "src' = src_skip (length (w' @ x)) (src_skip (length w) src)"
        "stack_holds opened st' (c @ blk)" "jrep v blk" "length blk \<le> 16 * length x" using c by auto
    have "value_outcome dbl opened c src (w @ t) out"
      by (rule value_found[of _ u st' "w @ w'" x src _ rest dbl v, OF _ _ _ t(3,5-7)]) (use t w out Inr in \<open>simp_all add: ws_simps add_ac\<close>)
    then show ?thesis unfolding value_outcome_def .
  qed
qed

lemma array_ok:
  assumes "elements_ok dbl env f" and "nul_text src x" and "2 * length x + 2 \<le> f" and "length y = 8" and "jitson_at index = length c"
    and "stack_holds opened st (c @ le32_bytes SXE_JITSON_TYPE_ARRAY @ le32_bytes (of_nat 0) @ y)" and "length c + 16 * length x + 48 < 2 ^ 31"
    and "src = src_skip 1 src0"
  shows "value_outcome dbl opened c src0 (0x5B # x) (do {
      (ch, src) \<leftarrow> sxe_jitson_source_get_nonspace src;
      if ch = 0x5D then do { stack \<leftarrow> jitson_set_integer st index 1; Some (Inr (), stack, src) }
      else do { src \<leftarrow> sxe_jitson_source_push_char src ch; load_elements f env st src index } })"
proof -
  obtain r where r: "src_strict src" "src_rest src = x @ 0 # r" using assms(2) by (auto simp: nul_text_def)
  have els: "value_outcome dbl opened c src0 (0x5B # w @ x1) (load_elements f env st (src_skip (length w) src) index)"
    if x: "x = w @ x1" and w: "ws w" for w x1
  proof -
    have "nul_text (src_skip (length w) src) x1" by (rule nul_text_skip) (use assms(2) x in simp)
    then have "elements_outcome dbl opened c 0 [] (src_skip (length w) src) x1 (load_elements f env st (src_skip (length w) src) index)"
      by (intro assms(1)[unfolded elements_ok_def, rule_format, OF _ _ _ assms(4,5)]) (use x assms(3,6,7) in auto)
    then obtain res st' src' where out: "load_elements f env st (src_skip (length w) src) index = Some (res, st', src')"
      and c: "case res of Inl _ \<Rightarrow> stack_holds opened st' c
      | Inr _ \<Rightarrow> \<exists>u rest vs blk. x1 = u @ 0x5D # rest \<and> accepted_elements dbl vs u \<and> src' = src_skip (length u + 1) (src_skip (length w) src)
          \<and> stack_holds opened st' (c @ collection_header SXE_JITSON_TYPE_ARRAY (0 + length vs) ([] @ blk) @ [] @ blk)
          \<and> jreps vs blk \<and> length blk \<le> 16 * length u" unfolding elements_outcome_def by blast
    show ?thesis
    proof (cases res)
      case (Inl e) then show ?thesis using out c by (auto intro: value_failed)
    next
      case (Inr k)
      then obtain u rest vs blk where u: "x1 = u @ 0x5D # rest" "accepted_elements dbl vs u" "src' = src_skip (length u + 1) (src_skip (length w) src)"
          "stack_holds opened st' (c @ collection_header SXE_JITSON_TYPE_ARRAY (length vs) blk @ blk)" "jreps vs blk" "length blk \<le> 16 * length u"
        using c by auto
      show ?thesis
        by (rule value_found[of _ k st' "[]" _ src0 _ rest, OF _ _ _ text_array[OF accepted_elements_ws[OF u(2) w]] u(4) rep_array[OF u(5)]])
           (use out Inr u assms(8) in \<open>simp_all add: ws_simps add_ac collection_header_def\<close>)
    qed
  qed
  from nonspace_total[OF assms(2)] show ?thesis
  proof (elim disjE exE conjE)
    fix w ch x1 assume x: "x = w @ ch # x1" "ws w" and g: "sxe_jitson_source_get_nonspace src = Some (ch, src_skip (length w + 1) src)"
    show ?thesis
    proof (cases "ch = 0x5D")
      case True
      obtain st' where st': "jitson_set_integer st index 1 = Some st'" "stack_holds opened st' (c @ collection_header SXE_JITSON_TYPE_ARRAY 0 [])"
        using empty_collection[OF assms(6,4,5)] by blast
      have "jrep (JArray []) (collection_header SXE_JITSON_TYPE_ARRAY 0 [])" using rep_array[OF reps_nil] by simp
      then show ?thesis
        by (intro value_found[of _ "()" st' "[]" "0x5B # w @ [0x5D]" src0 _ x1, OF _ _ _ text_array_empty[OF x(2)] st'(2)])
           (use g True st' x assms(8) in \<open>simp_all add: ws_simps collection_header_def add_ac\<close>)
    next
      case False
      have "src_rest (src_skip (length w) src) = ch # x1 @ 0 # r" using r(2) x by simp
      from push_char_rest[OF this] have "sxe_jitson_source_push_char (src_skip (length w + 1) src) ch = Some (src_skip (length w) src)"
        by (simp add: add_ac)
      then show ?thesis using els[OF x] g False x by simp
    qed
  next
    assume x: "ws x" and g: "sxe_jitson_source_get_nonspace src = Some (0, src_skip (length x + 1) src)"
    have "src_rest (src_skip (length x) src) = 0 # r" using r(2) by simp
    from push_char_rest[OF this] have "sxe_jitson_source_push_char (src_skip (length x + 1) src) 0 = Some (src_skip (length x) src)"
      by (simp add: add_ac)
    then show ?thesis using els[of x "[]"] g x by simp
  qed
qed

lemma members_not_quote:
  assumes "ch \<noteq> 0x22" and "stack_holds opened st (c @ x)" and "jitson_at index = length c"
  shows "\<exists>st'. load_members (Suc f) env st src index ch = Some (Inl EINVAL, st', src) \<and> stack_holds opened st' c"
  using stack_error_holds[OF assms(2,3), of EINVAL] assms(1) by (auto simp: load_members.simps(2))

lemma object_ok:
  assumes "members_ok dbl env f" and "nul_text src x" and "2 * length x + 2 \<le> f" and "length y = 8" and "jitson_at index = length c"
    and "stack_holds opened st (c @ le32_bytes SXE_JITSON_TYPE_OBJECT @ le32_bytes (of_nat 0) @ y)" and "length c + 16 * length x + 48 < 2 ^ 31"
    and "src = src_skip 1 src0"
  shows "value_outcome dbl opened c src0 (0x7B # x) (do {
      (ch, src) \<leftarrow> sxe_jitson_source_get_nonspace src;
      if ch = 0x7D then do { stack \<leftarrow> jitson_set_integer st index 1; Some (Inr (), stack, src) }
      else load_members f env st src index ch })"
proof -
  obtain g where f: "f = Suc g" using assms(3) by (cases f) auto
  from nonspace_total[OF assms(2)] show ?thesis
  proof (elim disjE exE conjE)
    fix w ch x1 assume x: "x = w @ ch # x1" "ws w" and g: "sxe_jitson_source_get_nonspace src = Some (ch, src_skip (length w + 1) src)"
      and nt: "nul_text (src_skip (length w + 1) src) x1"
    consider "ch = 0x7D" | "ch = 0x22" | "ch \<noteq> 0x7D" "ch \<noteq> 0x22" by blast
    then show ?thesis
    proof cases
      case 1
      obtain st' where st': "jitson_set_integer st index 1 = Some st'" "stack_holds opened st' (c @ collection_header SXE_JITSON_TYPE_OBJECT 0 [])"
        using empty_collection[OF assms(6,4,5)] by blast
      have "jrep (JObject []) (collection_header SXE_JITSON_TYPE_OBJECT 0 [])" using rep_object[OF members_nil] by simp
      then show ?thesis
        by (intro value_found[of _ "()" st' "[]" "0x7B # w @ [0x7D]" src0 _ x1, OF _ _ _ text_object_empty[OF x(2)] st'(2)])
           (use g 1 st' x assms(8) in \<open>simp_all add: ws_simps collection_header_def add_ac\<close>)
    next
      case 2
      have "members_outcome dbl opened c 0 [] (src_skip (length w + 1) src) ch x1 (load_members f env st (src_skip (length w + 1) src) index ch)"
        by (intro assms(1)[unfolded members_ok_def, rule_format, OF _ nt _ assms(4,5)]) (use x assms(3,6,7) in auto)
      then obtain res st' src' where out: "load_members f env st (src_skip (length w + 1) src) index ch = Some (res, st', src')"
        and c: "case res of Inl _ \<Rightarrow> stack_holds opened st' c
        | Inr _ \<Rightarrow> \<exists>u rest ms blk. x1 = u @ 0x7D # rest \<and> accepted_members dbl ms (ch # u) \<and> src' = src_skip (length u + 1) (src_skip (length w + 1) src)
            \<and> stack_holds opened st' (c @ collection_header SXE_JITSON_TYPE_OBJECT (0 + length ms) ([] @ blk) @ [] @ blk)
            \<and> jmembers ms blk \<and> length blk \<le> 16 + 16 * length u" unfolding members_outcome_def by blast
      show ?thesis
      proof (cases res)
        case (Inl e) then show ?thesis using out c g 2 by (auto intro: value_failed)
      next
        case (Inr k)
        then obtain u rest ms blk where u: "x1 = u @ 0x7D # rest" "accepted_members dbl ms (ch # u)"
            "src' = src_skip (length u + 1) (src_skip (length w + 1) src)"
            "stack_holds opened st' (c @ collection_header SXE_JITSON_TYPE_OBJECT (length ms) blk @ blk)" "jmembers ms blk"
            "length blk \<le> 16 + 16 * length u"
          using c by auto
        have s: "src' = src_skip (Suc (Suc (Suc (length w + length u)))) src0" using u(3) assms(8) by (simp add: add_ac)
        show ?thesis
          by (rule value_found[of _ k st' "[]" _ src0 _ rest, OF _ _ _ text_object[OF accepted_members_ws[OF u(2) x(2)]] u(4) rep_object[OF u(5)]])
             (use out Inr u(1,6) g 2 x in \<open>simp_all add: ws_simps s collection_header_def\<close>)
      qed
    next
      case 3
      then show ?thesis using members_not_quote[OF 3(2) assms(6,5), of g env] g f by (auto intro: value_failed)
    qed
  next
    assume "ws x" and "sxe_jitson_source_get_nonspace src = Some (0, src_skip (length x + 1) src)"
    then show ?thesis using members_not_quote[OF _ assms(6,5), of 0 g env "src_skip (length x + 1) src"] f by (auto intro: value_failed)
  qed
qed

lemma string_ok:
  assumes "malloc_ok (env_malloc env)" and "nul_text (src_skip 1 src) x" and "stack_holds opened st c" and "length c + 16 * length x + 32 < 2 ^ 31"
  shows "value_outcome dbl opened c src (0x22 # x) (sxe_jitson_stack_load_string (env_malloc env) st (src_skip 1 src) False)"
proof -
  obtain r where r: "src_end (src_skip 1 src) = None" "src_rest (src_skip 1 src) = x @ 0 # r" "0 \<notin> set x" "small_escapes x"
    using assms(2) by (auto simp: nul_text_def src_strict_def plain_text_def)
  from load_string_sound[OF r assms(3,1,4), of False]
  obtain res st' src' where out: "sxe_jitson_stack_load_string (env_malloc env) st (src_skip 1 src) False = Some (res, st', src')"
    and c: "case res of Inl _ \<Rightarrow> stack_holds opened st' c
     | Inr _ \<Rightarrow> \<exists>s u v blk. x = u @ 0x22 # v \<and> accepted_string s u \<and> src' = src_skip (length u + 1) (src_skip 1 src)
       \<and> stack_holds opened st' (c @ blk) \<and> string_tokens (string_type False) s blk \<and> length blk \<le> 16 + 16 * length u" by blast
  show ?thesis
  proof (cases res)
    case (Inl e) then show ?thesis using out c by (auto intro: value_failed)
  next
    case (Inr k)
    then obtain s u v blk where u: "x = u @ 0x22 # v" "accepted_string s u" "src' = src_skip (length u + 1) (src_skip 1 src)"
       "stack_holds opened st' (c @ blk)" "string_tokens (string_type False) s blk" "length blk \<le> 16 + 16 * length u" using c by auto
    have "jrep (JString s) blk" by (rule rep_string) (use u(5) in \<open>simp add: string_type_def\<close>)
    then show ?thesis
      by (intro value_found[of _ k st' "[]" _ src _ v, OF _ _ _ text_string[OF u(2)] u(4)])
         (use out Inr u in \<open>simp_all add: ws_simps add_ac\<close>)
  qed
qed

text \<open>What \<open>load_dispatch\<close> says of each kind of first byte is enough for the value.\<close>

lemma dispatch_ok:
  assumes "load_dispatch opened f env st src c ch" and "elements_ok dbl env f" and "members_ok dbl env f" and "malloc_ok (env_malloc env)"
    and "strtod_ok env dbl" and "2 * length x + 2 \<le> f" and nt: "nul_text src (ch # x)" and "length c + 16 * length x + 48 < 2 ^ 31"
  shows "value_outcome dbl opened c src (ch # x) (sxe_jitson_stack_load_json (Suc f) env st src)"
proof -
  let ?load = "sxe_jitson_stack_load_json (Suc f) env st src"
  have nt1: "nul_text (src_skip 1 src) x" using nul_text_skip[of src "[ch]" x] nt by simp
  obtain st1 tok index where 1: "stack_holds opened st1 (c @ tok)" "length tok = 16" "jitson_at index = length c"
    and str: "ch = 0x22 \<longrightarrow> (\<exists>st2. stack_holds opened st2 c \<and>
      ?load = sxe_jitson_stack_load_string (env_malloc env) st2 (src_skip 1 src) False)"
    and obj: "ch = 0x7B \<longrightarrow> (\<exists>st2 y. length y = 8 \<and> stack_holds opened st2 (c @ le32_bytes SXE_JITSON_TYPE_OBJECT @ le32_bytes (of_nat 0) @ y) \<and>
      ?load = do {
        (c, src) \<leftarrow> sxe_jitson_source_get_nonspace (src_skip 1 src);
        if c = 0x7D then do { stack \<leftarrow> jitson_set_integer st2 index 1; Some (Inr (), stack, src) }
        else load_members f env st2 src index c })"
    and arr: "ch = 0x5B \<longrightarrow> (\<exists>st2 y. length y = 8 \<and> stack_holds opened st2 (c @ le32_bytes SXE_JITSON_TYPE_ARRAY @ le32_bytes (of_nat 0) @ y) \<and>
      ?load = do {
        (c, src) \<leftarrow> sxe_jitson_source_get_nonspace (src_skip 1 src);
        if c = 0x5D then do { stack \<leftarrow> jitson_set_integer st2 index 1; Some (Inr (), stack, src) }
        else do { src \<leftarrow> sxe_jitson_source_push_char src c; load_elements f env st2 src index } })"
    and num: "ch = 0x2D \<or> isdigit ch \<longrightarrow> ?load = load_number env st1 src index"
    and alp: "jitson_class ! unat ch = ALP \<longrightarrow> ?load = load_identifier env st1 src index"
    and bad: "ch \<noteq> 0x22 \<and> ch \<noteq> 0x7B \<and> ch \<noteq> 0x5B \<and> ch \<noteq> 0x2D \<and> \<not> isdigit ch \<and> jitson_class ! unat ch \<noteq> ALP \<longrightarrow>
      (\<exists>st2. stack_holds opened st2 c \<and> ?load = Some (Inl EINVAL, st2, src_skip 1 src))"
    using assms(1) unfolding load_dispatch_def by blast
  consider "ch = 0x22" | "ch = 0x7B" | "ch = 0x5B" | "ch = 0x2D \<or> isdigit ch" | "jitson_class ! unat ch = ALP"
    | "ch \<noteq> 0x22 \<and> ch \<noteq> 0x7B \<and> ch \<noteq> 0x5B \<and> ch \<noteq> 0x2D \<and> \<not> isdigit ch \<and> jitson_class ! unat ch \<noteq> ALP" by blast
  then show ?thesis
  proof cases
    case 1
    then show ?thesis using str string_ok[OF assms(4) nt1, of opened _ c dbl] assms(8) by auto
  next
    case 2
    then show ?thesis using obj object_ok[OF assms(3) nt1 assms(6) _ \<open>jitson_at index = length c\<close> _ assms(8) refl] by auto
  next
    case 3
    then show ?thesis using arr array_ok[OF assms(2) nt1 assms(6) _ \<open>jitson_at index = length c\<close> _ assms(8) refl] by auto
  next
    case 4
    then show ?thesis using number_ok[OF nt assms(5) 1] num by simp
  next
    case 5
    then show ?thesis using identifier_ok[OF nt refl 5 1] alp by simp
  next
    case 6
    then show ?thesis using bad by (auto intro: value_failed)
  qed
qed

lemma value_step:
  assumes "elements_ok dbl env f" and "members_ok dbl env f" and "malloc_ok (env_malloc env)" and "strtod_ok env dbl"
  shows "value_ok dbl env (Suc f)"
  unfolding value_ok_def
proof (intro allI impI)
  fix opened st src c t
  assume fuel: "2 * length t + 1 \<le> Suc f" and nt: "nul_text src t" and h: "stack_holds opened st c" and len: "length c + 16 * length t + 32 < 2 ^ 31"
  from nonspace_total[OF nt] show "value_outcome dbl opened c src t (sxe_jitson_stack_load_json (Suc f) env st src)"
  proof (elim disjE exE conjE)
    fix w ch x assume t: "t = w @ ch # x" "ws w" "\<not> isspace ch" "ch \<noteq> 0"
    let ?src = "src_skip (length w) src"
    obtain r where r: "src_end src = None" "src_rest src = w @ (ch # x @ 0 # r)" using nt t by (auto simp: nul_text_def src_strict_def)
    have s: "src_end ?src = None" "src_rest ?src = ch # (x @ 0 # r)" using r by simp_all
    have nt1: "nul_text ?src (ch # x)" by (rule nul_text_skip) (use nt t in simp)
    have len1: "length c + 16 < 2 ^ 31" "length c + 16 * length x + 48 < 2 ^ 31" using len t(1) by simp_all
    have f: "2 * length x + 2 \<le> f" using fuel t(1) by simp
    from load_json_dispatch[OF s t(3,4) h assms(3) len1(1), of f]
    have "value_outcome dbl opened c ?src (ch # x) (sxe_jitson_stack_load_json (Suc f) env st ?src)"
    proof (elim disjE conjE)
      assume "sxe_jitson_stack_load_json (Suc f) env st ?src = Some (Inl ENOMEM, st, src_skip 1 ?src)"
      then show ?thesis using h by (rule value_failed)
    next
      assume "load_dispatch opened f env st ?src c ch"
      then show ?thesis by (rule dispatch_ok[OF _ assms f nt1 len1(2)])
    qed
    then show ?thesis unfolding t(1) load_json_skip[OF r t(2)] by (rule value_shift[OF _ t(2)])
  next
    assume "sxe_jitson_source_get_nonspace src = Some (0, src_skip (length t + 1) src)"
    then have "sxe_jitson_stack_load_json (Suc f) env st src = Some (Inl ENODATA, st, src_skip (length t + 1) src)"
      by (simp add: sxe_jitson_stack_load_json.simps(2))
    then show ?thesis using h by (rule value_failed)
  qed
qed

lemma elements_step:
  assumes "value_ok dbl env f" and "elements_ok dbl env f"
  shows "elements_ok dbl env (Suc f)"
  unfolding elements_ok_def
proof (intro allI impI)
  fix opened st src c t n y blk0 index
  assume fuel: "2 * length t + 2 \<le> Suc f" and nt: "nul_text src t"
    and h: "stack_holds opened st (c @ le32_bytes SXE_JITSON_TYPE_ARRAY @ le32_bytes (of_nat n) @ y @ blk0)"
    and y: "length y = 8" and idx: "jitson_at index = length c" and len: "length (c @ blk0) + 16 * length t + 48 < 2 ^ 31"
  let ?c = "c @ le32_bytes SXE_JITSON_TYPE_ARRAY @ le32_bytes (of_nat n) @ y @ blk0"
  have l0: "2 * length t + 1 \<le> f" "length ?c + 16 * length t + 32 < 2 ^ 31" using fuel len y by simp_all
  have "value_outcome dbl opened ?c src t (sxe_jitson_stack_load_json f env st src)"
    by (rule assms(1)[unfolded value_ok_def, rule_format, OF l0(1) nt h l0(2)])
  then obtain res st1 src1 where out: "sxe_jitson_stack_load_json f env st src = Some (res, st1, src1)"
    and v: "case res of Inl _ \<Rightarrow> stack_holds opened st1 ?c
      | Inr _ \<Rightarrow> \<exists>w x rest v blk. t = w @ x @ rest \<and> ws w \<and> accepted_text dbl v x \<and> src1 = src_skip (length (w @ x)) src
          \<and> stack_holds opened st1 (?c @ blk) \<and> jrep v blk \<and> length blk \<le> 16 * length x" unfolding value_outcome_def by blast
  show "elements_outcome dbl opened c n blk0 src t (load_elements (Suc f) env st src index)"
  proof (cases res)
    case (Inl e)
    then obtain st2 where "stack_error e st1 index = (Inl e, st2)" "stack_holds opened st2 c"
      using stack_error_holds[OF _ idx] v by fastforce
    then show ?thesis using out Inl by (intro elements_failed[of _ e st2 src1]) (simp_all add: load_elements.simps(2))
  next
    case (Inr k)
    then obtain w x rest v blk where t: "t = w @ x @ rest" "ws w" "accepted_text dbl v x" "src1 = src_skip (length (w @ x)) src"
      and h1: "stack_holds opened st1 (?c @ blk)" and b: "jrep v blk" "length blk \<le> 16 * length x" using v by auto
    obtain st2 where g: "jitson_get_len st1 index = Some (of_nat n)" "jitson_set_len st1 index (of_nat n + 1) = Some st2"
      and h2: "stack_holds opened st2 (c @ le32_bytes SXE_JITSON_TYPE_ARRAY @ le32_bytes (of_nat (Suc n)) @ y @ blk0 @ blk)"
      using collection_bump[of opened st1 c SXE_JITSON_TYPE_ARRAY n "y @ blk0 @ blk" index] h1 idx by auto
    have nt1: "nul_text src1 rest" unfolding t(4) by (rule nul_text_skip) (use nt t(1) in simp)
    have body: "load_elements (Suc f) env st src index = do {
        (ch, src) \<leftarrow> sxe_jitson_source_get_nonspace src1;
        if ch = 0x2C then load_elements f env st2 src index
        else if ch = 0x5D then do {
          stack \<leftarrow> jitson_set_integer st2 index (ucast (stack_count st2 - index));
          Some (Inr (), stack, src)
        } else let (r, stack) = stack_error EINVAL st2 index in Some (r, stack, src) }"
      using out Inr g by (simp add: load_elements.simps(2))
    obtain st3 where err: "stack_error EINVAL st2 index = (Inl EINVAL, st3)" "stack_holds opened st3 c"
      using stack_error_holds[OF h2 idx] by blast
    from nonspace_total[OF nt1] show ?thesis
    proof (elim disjE exE conjE)
      fix w2 ch x2 assume r: "rest = w2 @ ch # x2" "ws w2"
        and ns: "sxe_jitson_source_get_nonspace src1 = Some (ch, src_skip (length w2 + 1) src1)" and nt2: "nul_text (src_skip (length w2 + 1) src1) x2"
      consider "ch = 0x2C" | "ch = 0x5D" | "ch \<noteq> 0x2C" "ch \<noteq> 0x5D" by blast
      then show ?thesis
      proof cases
        case 1
        let ?src = "src_skip (length w2 + 1) src1"
        have "elements_outcome dbl opened c (Suc n) (blk0 @ blk) ?src x2 (load_elements f env st2 ?src index)"
          by (intro assms(2)[unfolded elements_ok_def, rule_format, OF _ nt2 h2 y idx]) (use fuel len t(1) r(1) b(2) in auto)
        then obtain res2 st' src' where out2: "load_elements f env st2 ?src index = Some (res2, st', src')"
          and e: "case res2 of Inl _ \<Rightarrow> stack_holds opened st' c
            | Inr _ \<Rightarrow> \<exists>u rest vs blk2. x2 = u @ 0x5D # rest \<and> accepted_elements dbl vs u \<and> src' = src_skip (length u + 1) ?src
              \<and> stack_holds opened st' (c @ collection_header SXE_JITSON_TYPE_ARRAY (Suc n + length vs) ((blk0 @ blk) @ blk2) @ (blk0 @ blk) @ blk2)
              \<and> jreps vs blk2 \<and> length blk2 \<le> 16 * length u" unfolding elements_outcome_def by blast
        have body1: "load_elements (Suc f) env st src index = Some (res2, st', src')" using body ns 1 out2 by simp
        show ?thesis
        proof (cases res2)
          case (Inl e2) then show ?thesis using body1 e by (auto intro: elements_failed)
        next
          case (Inr k2)
          then obtain u rest2 vs blk2 where u: "x2 = u @ 0x5D # rest2" "accepted_elements dbl vs u" "src' = src_skip (length u + 1) ?src"
            "stack_holds opened st' (c @ collection_header SXE_JITSON_TYPE_ARRAY (Suc n + length vs) ((blk0 @ blk) @ blk2) @ (blk0 @ blk) @ blk2)"
            "jreps vs blk2" "length blk2 \<le> 16 * length u" using e by auto
          have s: "src' = src_skip (Suc (length w + (length x + (Suc (length w2 + length u))))) src" using u(3) t(4) by (simp add: add_ac)
          show ?thesis
            by (rule elements_found[of _ k2 st' _ src t rest2 dbl "v # vs" opened c n blk0 "blk @ blk2",
                OF _ _ text_elements[OF t(2,3) r(2) u(2)] _ reps_cons[OF b(1) u(5)]])
               (use body1 Inr s t(1) r(1) u(1,4,6) 1 b(2) in simp_all)
        qed
      next
        case 2
        have "length (c @ blk0 @ blk) + 16 < 2 ^ 31" using len b(2) t(1) by simp
        from collection_close[OF h2 idx y this]
        obtain st4 where cl: "jitson_set_integer st2 index (ucast (stack_count st2 - index)) = Some st4"
          "stack_holds opened st4 (c @ collection_header SXE_JITSON_TYPE_ARRAY (Suc n) (blk0 @ blk) @ blk0 @ blk)" by blast
        have s: "src_skip (length w2 + 1) src1 = src_skip (Suc (length w + (length x + length w2))) src" using t(4) by (simp add: add_ac)
        have body1: "load_elements (Suc f) env st src index = Some (Inr (), st4, src_skip (length w2 + 1) src1)" using body ns 2 cl(1) by simp
        show ?thesis
          by (rule elements_found[of _ "()" st4 _ src t x2 dbl "[v]" opened c n blk0 "blk @ []",
                OF _ _ text_element[OF t(2,3) r(2)] _ reps_cons[OF b(1) reps_nil]])
             (use body1 s t(1) r(1) 2 b(2) cl(2) in simp_all)
      next
        case 3
        then show ?thesis using body ns err by (intro elements_failed[of _ EINVAL st3 "src_skip (length w2 + 1) src1"]) simp_all
      qed
    next
      assume "sxe_jitson_source_get_nonspace src1 = Some (0, src_skip (length rest + 1) src1)"
      then show ?thesis using body err by (intro elements_failed[of _ EINVAL st3 "src_skip (length rest + 1) src1"]) simp_all
    qed
  qed
qed

lemma members_next_failed: "out = Some (Inl e, st', src') \<Longrightarrow> stack_holds opened st' c \<Longrightarrow> members_next_outcome dbl opened c n blk0 src t out"
  by (auto simp: members_next_outcome_def)

lemma members_next_found:
  assumes "out = Some (Inr k, st', src_skip (length w + (length u + 1)) src)" and "t = w @ u @ 0x7D # rest" and "ws w" and "members_tail dbl ms u"
    and "stack_holds opened st' (c @ collection_header SXE_JITSON_TYPE_OBJECT (n + length ms) (blk0 @ blk) @ blk0 @ blk)"
    and "jmembers ms blk" and "length blk \<le> 16 * length u"
  shows "members_next_outcome dbl opened c n blk0 src t out"
  unfolding members_next_outcome_def assms(1) using assms(2-)
  by (intro exI[of _ "Inr k"] exI[of _ st'] exI[of _ "src_skip (length w + (length u + 1)) src"]) (simp, blast)

lemma members_next_ok:
  assumes "members_ok dbl env f" and "nul_text src t" and "2 * length t + 2 \<le> f" and "length y = 8" and "jitson_at index = length c"
    and h: "stack_holds opened st (c @ le32_bytes SXE_JITSON_TYPE_OBJECT @ le32_bytes (of_nat n) @ y @ blk0)"
    and len: "length (c @ blk0) + 16 * length t + 64 < 2 ^ 31"
  shows "members_next_outcome dbl opened c n blk0 src t (members_next f env st src index)"
proof -
  obtain g where f: "f = Suc g" using assms(3) by (cases f) auto
  obtain st3 where err: "stack_error EINVAL st index = (Inl EINVAL, st3)" "stack_holds opened st3 c"
    using stack_error_holds[OF h assms(5)] by blast
  from nonspace_total[OF assms(2)] show ?thesis
  proof (elim disjE exE conjE)
    fix w ch x assume t: "t = w @ ch # x" "ws w" and ns: "sxe_jitson_source_get_nonspace src = Some (ch, src_skip (length w + 1) src)"
      and nt: "nul_text (src_skip (length w + 1) src) x"
    let ?src = "src_skip (length w + 1) src"
    consider "ch = 0x2C" | "ch = 0x7D" | "ch \<noteq> 0x2C" "ch \<noteq> 0x7D" by blast
    then show ?thesis
    proof cases
      case 1
      from nonspace_total[OF nt] show ?thesis
      proof (elim disjE exE conjE)
        fix w2 ch2 x2 assume x: "x = w2 @ ch2 # x2" "ws w2" "ch2 \<noteq> 0"
          and ns2: "sxe_jitson_source_get_nonspace ?src = Some (ch2, src_skip (length w2 + 1) ?src)" and nt2: "nul_text (src_skip (length w2 + 1) ?src) x2"
        let ?src2 = "src_skip (length w2 + 1) ?src"
        have go: "members_next f env st src index = load_members f env st ?src2 index ch2"
          using ns 1 ns2 x(3) by (simp add: members_next_def)
        show ?thesis
        proof (cases "ch2 = 0x22")
          case False
          then show ?thesis using members_not_quote[OF False h assms(5), of g env ?src2] go f by (auto intro: members_next_failed)
        next
          case True
          have "members_outcome dbl opened c n blk0 ?src2 ch2 x2 (load_members f env st ?src2 index ch2)"
            by (intro assms(1)[unfolded members_ok_def, rule_format, OF _ nt2 h assms(4,5)]) (use t(1) x(1) assms(3) len in auto)
          then obtain res st' src' where out: "load_members f env st ?src2 index ch2 = Some (res, st', src')"
            and c: "case res of Inl _ \<Rightarrow> stack_holds opened st' c
              | Inr _ \<Rightarrow> \<exists>u rest ms blk. x2 = u @ 0x7D # rest \<and> accepted_members dbl ms (ch2 # u) \<and> src' = src_skip (length u + 1) ?src2
                \<and> stack_holds opened st' (c @ collection_header SXE_JITSON_TYPE_OBJECT (n + length ms) (blk0 @ blk) @ blk0 @ blk)
                \<and> jmembers ms blk \<and> length blk \<le> 16 + 16 * length u" unfolding members_outcome_def by blast
          show ?thesis
          proof (cases res)
            case (Inl e) then show ?thesis using out go c by (auto intro: members_next_failed)
          next
            case (Inr k)
            then obtain u rest ms blk where u: "x2 = u @ 0x7D # rest" "accepted_members dbl ms (ch2 # u)" "src' = src_skip (length u + 1) ?src2"
                "stack_holds opened st' (c @ collection_header SXE_JITSON_TYPE_OBJECT (n + length ms) (blk0 @ blk) @ blk0 @ blk)"
                "jmembers ms blk" "length blk \<le> 16 + 16 * length u" using c by auto
            have s: "src' = src_skip (length w + (Suc (length w2 + Suc (length u)) + 1)) src" using u(3) by (simp add: add_ac)
            have tail: "members_tail dbl ms (0x2C # w2 @ ch2 # u)"
              using accepted_members_ws[OF u(2) x(2)] by (simp add: members_tail_def)
            show ?thesis
              by (rule members_next_found[of _ k st' w "0x2C # w2 @ ch2 # u" src t rest dbl ms opened c n blk0 blk, OF _ _ t(2) tail u(4,5)])
                 (use go out Inr s t(1) x(1) u(1,6) 1 in simp_all)
          qed
        qed
      next
        assume "sxe_jitson_source_get_nonspace ?src = Some (0, src_skip (length x + 1) ?src)"
        then show ?thesis using ns 1 err
          by (intro members_next_failed[of _ EINVAL st3 "src_skip (length x + 1) ?src"]) (simp_all add: members_next_def)
      qed
    next
      case 2
      have "length (c @ blk0) + 16 < 2 ^ 31" using len by simp
      from collection_close[OF h assms(5,4) this]
      obtain st4 where cl: "jitson_set_integer st index (ucast (stack_count st - index)) = Some st4"
        "stack_holds opened st4 (c @ collection_header SXE_JITSON_TYPE_OBJECT n blk0 @ blk0)" by blast
      have tail: "members_tail dbl [] []" by (simp add: members_tail_def)
      show ?thesis
        by (rule members_next_found[of _ "()" st4 w "[]" src t x dbl "[]" opened c n blk0 "[]", OF _ _ t(2) tail _ members_nil])
           (use ns 2 cl t(1) in \<open>simp_all add: members_next_def\<close>)
    next
      case 3
      then show ?thesis using ns err by (intro members_next_failed[of _ EINVAL st3 ?src]) (simp_all add: members_next_def)
    qed
  next
    assume "sxe_jitson_source_get_nonspace src = Some (0, src_skip (length t + 1) src)"
    then show ?thesis using err by (intro members_next_failed[of _ EINVAL st3 "src_skip (length t + 1) src"]) (simp_all add: members_next_def)
  qed
qed

lemma members_tail_text:
  assumes "ws w1" and "accepted_string k kt" and "ws w2" and "ws w3" and "accepted_text dbl v x" and "ws w4" and "members_tail dbl ms u"
  shows "accepted_members dbl ((k, v) # ms) (w1 @ 0x22 # kt @ 0x22 # w2 @ 0x3A # w3 @ x @ w4 @ u)"
proof -
  note m = text_member[OF assms(1-6)]
  from assms(7) show ?thesis unfolding members_tail_def
  proof (elim disjE exE conjE)
    assume "u = []" "ms = []" then show ?thesis using text_one_member[OF m] by simp
  next
    fix u2 assume "u = 0x2C # u2" "accepted_members dbl ms u2" then show ?thesis using text_members[OF m, of ms u2] by simp
  qed
qed

text \<open>The value of a member, and what follows it; the name and the colon have been read.\<close>

lemma member_value_ok:
  assumes "value_ok dbl env f" and "members_ok dbl env f" and tx: "t = kt @ 0x22 # w2 @ 0x3A # t2" "accepted_string k kt" "ws w2"
    and src2: "src2 = src_skip (length kt + length w2 + 2) src" "nul_text src2 t2" and fuel: "2 * length t + 2 \<le> Suc f"
    and y: "length y = 8" and idx: "jitson_at index = length c"
    and h: "stack_holds opened st ((c @ le32_bytes SXE_JITSON_TYPE_OBJECT @ le32_bytes (of_nat n) @ y @ blk0) @ kb)"
    and kb: "string_tokens (string_type True) k kb" "length kb \<le> 16 + 16 * length kt" and len: "length (c @ blk0) + 16 * length t + 64 < 2 ^ 31"
  shows "members_outcome dbl opened c n blk0 src 0x22 t (do {
      (r, stack, src) \<leftarrow> sxe_jitson_stack_load_json f env st src2;
      case r of
        Inl e \<Rightarrow> let (r, stack) = stack_error e stack index in Some (r, stack, src)
      | Inr _ \<Rightarrow> do {
          len \<leftarrow> jitson_get_len stack index;
          stack \<leftarrow> jitson_set_len stack index (len + 1);
          members_next f env stack src index
        } })" (is "members_outcome _ _ _ _ _ _ _ _ ?out")
proof -
  let ?c = "(c @ le32_bytes SXE_JITSON_TYPE_OBJECT @ le32_bytes (of_nat n) @ y @ blk0) @ kb"
  have l2: "2 * length t2 + 1 \<le> f" "length ?c + 16 * length t2 + 32 < 2 ^ 31" using fuel len y tx(1) kb(2) by simp_all
  have "value_outcome dbl opened ?c src2 t2 (sxe_jitson_stack_load_json f env st src2)"
    by (rule assms(1)[unfolded value_ok_def, rule_format, OF l2(1) src2(2) h l2(2)])
  then obtain res3 st3 src3 where lj: "sxe_jitson_stack_load_json f env st src2 = Some (res3, st3, src3)"
    and c3: "case res3 of Inl _ \<Rightarrow> stack_holds opened st3 ?c
      | Inr _ \<Rightarrow> \<exists>w x rest v blk. t2 = w @ x @ rest \<and> ws w \<and> accepted_text dbl v x \<and> src3 = src_skip (length (w @ x)) src2
          \<and> stack_holds opened st3 (?c @ blk) \<and> jrep v blk \<and> length blk \<le> 16 * length x" unfolding value_outcome_def by blast
  show ?thesis
  proof (cases res3)
    case (Inl e)
    then obtain st4 where "stack_error e st3 index = (Inl e, st4)" "stack_holds opened st4 c"
      using stack_error_holds[OF _ idx, of opened st3 _ e] c3 by fastforce
    then show ?thesis using lj Inl by (intro members_failed[of _ e st4 src3]) simp_all
  next
    case (Inr u3)
    then obtain w3 x rest v vb where t2: "t2 = w3 @ x @ rest" "ws w3" "accepted_text dbl v x" "src3 = src_skip (length (w3 @ x)) src2"
      and h3: "stack_holds opened st3 (?c @ vb)" and vb: "jrep v vb" "length vb \<le> 16 * length x" using c3 by auto
    obtain st4 where g: "jitson_get_len st3 index = Some (of_nat n)" "jitson_set_len st3 index (of_nat n + 1) = Some st4"
      and h4: "stack_holds opened st4 (c @ le32_bytes SXE_JITSON_TYPE_OBJECT @ le32_bytes (of_nat (Suc n)) @ y @ (blk0 @ kb @ vb))"
      using collection_bump[of opened st3 c SXE_JITSON_TYPE_OBJECT n "y @ blk0 @ kb @ vb" index] h3 idx by auto
    have nt3: "nul_text src3 rest" unfolding t2(4) by (rule nul_text_skip) (use src2(2) t2(1) in simp)
    have go: "?out = members_next f env st4 src3 index" using lj Inr g by simp
    have "members_next_outcome dbl opened c (Suc n) (blk0 @ kb @ vb) src3 rest (members_next f env st4 src3 index)"
      by (rule members_next_ok[OF assms(2) nt3 _ y idx h4]) (use fuel len tx(1) t2(1) kb(2) vb(2) in simp_all)
    then obtain res5 st5 src5 where mn: "members_next f env st4 src3 index = Some (res5, st5, src5)"
      and c5: "case res5 of Inl _ \<Rightarrow> stack_holds opened st5 c
        | Inr _ \<Rightarrow> \<exists>w u rest2 ms blk. rest = w @ u @ 0x7D # rest2 \<and> ws w \<and> members_tail dbl ms u \<and> src5 = src_skip (length w + (length u + 1)) src3
          \<and> stack_holds opened st5 (c @ collection_header SXE_JITSON_TYPE_OBJECT (Suc n + length ms) ((blk0 @ kb @ vb) @ blk) @ (blk0 @ kb @ vb) @ blk)
          \<and> jmembers ms blk \<and> length blk \<le> 16 * length u" unfolding members_next_outcome_def by blast
    show ?thesis
    proof (cases res5)
      case (Inl e) then show ?thesis using go mn c5 by (auto intro: members_failed)
    next
      case (Inr u5)
      then obtain w4 u rest2 ms blk where u: "rest = w4 @ u @ 0x7D # rest2" "ws w4" "members_tail dbl ms u"
          "src5 = src_skip (length w4 + (length u + 1)) src3"
          "stack_holds opened st5 (c @ collection_header SXE_JITSON_TYPE_OBJECT (Suc n + length ms) ((blk0 @ kb @ vb) @ blk) @ (blk0 @ kb @ vb) @ blk)"
          "jmembers ms blk" "length blk \<le> 16 * length u" using c5 by auto
      let ?u = "kt @ 0x22 # w2 @ 0x3A # w3 @ x @ w4 @ u"
      have mt: "accepted_members dbl ((k, v) # ms) (0x22 # ?u)"
        by (rule members_tail_text[of "[]", unfolded append_Nil, OF _ tx(2,3) t2(2,3) u(2,3)]) (simp add: ws_simps)
      have rep: "jmembers ((k, v) # ms) (kb @ vb @ blk)"
        by (rule members_cons[OF _ vb(1) u(6)]) (use kb(1) in \<open>simp add: string_type_def\<close>)
      have s: "src5 = src_skip (length ?u + 1) src" using u(4) t2(4) src2(1) by (simp add: add_ac)
      show ?thesis
        by (rule members_found[of _ u5 st5 ?u src t rest2 dbl "(k, v) # ms" "0x22" opened c n blk0 "kb @ vb @ blk", OF _ _ mt _ rep])
           (use go mn Inr s tx(1) t2(1) u(1,5,7) kb(2) vb(2) in simp_all)
    qed
  qed
qed

lemma members_step:
  assumes "value_ok dbl env f" and "members_ok dbl env f" and "malloc_ok (env_malloc env)"
  shows "members_ok dbl env (Suc f)"
  unfolding members_ok_def
proof (intro allI impI)
  fix opened st src c t n y blk0 index ch
  assume fuel: "2 * length t + 2 \<le> Suc f" and nt: "nul_text src t"
    and h: "stack_holds opened st (c @ le32_bytes SXE_JITSON_TYPE_OBJECT @ le32_bytes (of_nat n) @ y @ blk0)"
    and y: "length y = 8" and idx: "jitson_at index = length c" and len: "length (c @ blk0) + 16 * length t + 64 < 2 ^ 31"
  let ?c = "c @ le32_bytes SXE_JITSON_TYPE_OBJECT @ le32_bytes (of_nat n) @ y @ blk0"
  let ?out = "load_members (Suc f) env st src index ch"
  have err: "\<exists>st2. stack_error e st1 index = (Inl e, st2) \<and> stack_holds opened st2 c" if "stack_holds opened st1 (?c @ b)" for e st1 b
    using stack_error_holds[OF _ idx, of opened st1 _ e] that by fastforce
  show "members_outcome dbl opened c n blk0 src ch t ?out"
  proof (cases "ch = 0x22")
    case False
    then show ?thesis using members_not_quote[OF False h idx, of f env src] by (auto intro: members_failed)
  next
    case True
    obtain r where r: "src_end src = None" "src_rest src = t @ 0 # r" "0 \<notin> set t" "small_escapes t"
      using nt by (auto simp: nul_text_def src_strict_def plain_text_def)
    have l1: "length ?c + 16 * length t + 32 < 2 ^ 31" using len y by simp
    from load_string_sound[OF r h assms(3) l1, of True]
    obtain res st1 src1 where ls: "sxe_jitson_stack_load_string (env_malloc env) st src True = Some (res, st1, src1)"
      and c1: "case res of Inl _ \<Rightarrow> stack_holds opened st1 ?c
       | Inr _ \<Rightarrow> \<exists>s u v blk. t = u @ 0x22 # v \<and> accepted_string s u \<and> src1 = src_skip (length u + 1) src \<and> stack_holds opened st1 (?c @ blk)
         \<and> string_tokens (string_type True) s blk \<and> length blk \<le> 16 + 16 * length u" by blast
    show ?thesis
    proof (cases res)
      case (Inl e)
      obtain st2 where "stack_error e st1 index = (Inl e, st2)" "stack_holds opened st2 c" using err[of st1 "[]" e] c1 Inl by auto
      then show ?thesis using ls Inl True by (intro members_failed[of _ e st2 src1]) (simp_all add: load_members.simps(2))
    next
      case (Inr u0)
      then obtain k kt t1 kb where t: "t = kt @ 0x22 # t1" "accepted_string k kt" "src1 = src_skip (length (kt @ [0x22])) src"
        and h1: "stack_holds opened st1 (?c @ kb)" and kb: "string_tokens (string_type True) k kb" "length kb \<le> 16 + 16 * length kt" using c1 by auto
      have nt1: "nul_text src1 t1" unfolding t(3) by (rule nul_text_skip) (use nt t(1) in simp)
      have body: "?out = do {
          (ch, src) \<leftarrow> sxe_jitson_source_get_nonspace src1;
          if ch \<noteq> 0x3A then let (r, stack) = stack_error EINVAL st1 index in Some (r, stack, src)
          else do {
            (r, stack, src) \<leftarrow> sxe_jitson_stack_load_json f env st1 src;
            case r of
              Inl e \<Rightarrow> let (r, stack) = stack_error e stack index in Some (r, stack, src)
            | Inr _ \<Rightarrow> do {
                len \<leftarrow> jitson_get_len stack index;
                stack \<leftarrow> jitson_set_len stack index (len + 1);
                members_next f env stack src index
              }
          } }"
        unfolding load_members.simps(2) members_next_def using ls Inr True by simp
      obtain st2 where e1: "stack_error EINVAL st1 index = (Inl EINVAL, st2)" "stack_holds opened st2 c" using err[OF h1] by blast
      from nonspace_total[OF nt1] show ?thesis
      proof (elim disjE exE conjE)
        assume "sxe_jitson_source_get_nonspace src1 = Some (0, src_skip (length t1 + 1) src1)"
        then show ?thesis using body e1 by (intro members_failed[of _ EINVAL st2 "src_skip (length t1 + 1) src1"]) simp_all
      next
        fix w2 ch2 t2 assume t1: "t1 = w2 @ ch2 # t2" "ws w2"
          and ns: "sxe_jitson_source_get_nonspace src1 = Some (ch2, src_skip (length w2 + 1) src1)" and nt2: "nul_text (src_skip (length w2 + 1) src1) t2"
        show ?thesis
        proof (cases "ch2 = 0x3A")
          case False
          then show ?thesis using body e1 ns by (intro members_failed[of _ EINVAL st2 "src_skip (length w2 + 1) src1"]) simp_all
        next
          case colon: True
          have tt: "t = kt @ 0x22 # w2 @ 0x3A # t2" using t(1) t1(1) colon by simp
          have s2: "src_skip (length w2 + 1) src1 = src_skip (length kt + length w2 + 2) src" using t(3) by (simp add: add_ac)
          show ?thesis unfolding body
            using member_value_ok[OF assms(1,2) tt t(2) t1(2) s2 nt2 fuel y idx h1 kb len] ns colon True by simp
        qed
      qed
    qed
  qed
qed

lemma parser_sound:
  assumes "malloc_ok (env_malloc env)" and "strtod_ok env dbl"
  shows "value_ok dbl env fuel \<and> elements_ok dbl env fuel \<and> members_ok dbl env fuel"
proof (induction fuel)
  case 0
  show ?case by (simp add: value_ok_def elements_ok_def members_ok_def)
next
  case (Suc f)
  then show ?case using value_step[OF _ _ assms] elements_step members_step[OF _ _ assms(1)] by blast
qed

lemma sample_malloc: "malloc_ok sample_malloc" "sample_malloc n \<noteq> None"
  by (simp_all add: malloc_ok_def sample_malloc_def)

lemma sample_strtod: "strtod_ok sample_env (\<lambda>t. of_nat (length t))"
  unfolding strtod_ok_def
proof (intro allI impI, elim conjE)
  fix s ds f e d r
  assume n: "num_sign s" "num_digits ds" "num_fraction f" "num_exponent e" "num_follow f e d"
    and x: "ds = [0x30] \<and> f = [] \<and> e = [] \<longrightarrow> d \<noteq> 0x78 \<and> d \<noteq> 0x58"
  let ?src = "sxe_jitson_source_from_string ((s @ ds @ f @ e) @ d # r) SXE_JITSON_FLAG_STRICT"
  have "src_end ?src = None" "src_flags ?src = SXE_JITSON_FLAG_STRICT" "src_rest ?src = (s @ ds @ f @ e) @ d # r"
    by (simp_all add: sxe_jitson_source_from_string_def src_rest_def)
  from get_number_rest[OF this n]
  show "env_strtod sample_env ((s @ ds @ f @ e) @ d # r) = (of_nat (length (s @ ds @ f @ e)), length (s @ ds @ f @ e))"
    by (simp add: sample_env_def sample_strtod_def)
qed

lemma sample_parser_env: "parser_env sample_env (\<lambda>t. of_nat (length t))"
  using sample_malloc sample_strtod by (simp add: parser_env_def sample_env_def)

lemma made_stack_holds: "0 < n \<Longrightarrow> stack_holds 0 (snd (sxe_jitson_stack_make sample_malloc n)) []"
  by (simp add: stack_holds_def sxe_jitson_stack_make_def sample_malloc_def unat_bytes)

lemma sample_text: "accepted_text dbl (JArray [JUint 1, JBool True]) (lit ''[1,true]'')"
proof -
  have "accepted_text dbl (JUint (of_nat (min (digits_value 10 [0x31]) (2 ^ 64 - 1)))) [0x31]"
    by (rule text_uint) (simp add: num_digits_def isdigit_def)
  then have "accepted_text dbl (JUint 1) [0x31]" by (simp add: digits_value_def digit_value_def isdigit_def)
  from text_elements[of "[]", OF _ this, of "[]", OF _ _ text_element[of "[]", OF _ text_true, of "[]"]]
  have "accepted_elements dbl [JUint 1, JBool True] (0x31 # 0x2C # lit ''true'')" by (simp add: ws_simps)
  from text_array[OF this] show ?thesis by (simp add: lit_def)
qed

lemma parse_json_complete:
  assumes "parser_env env dbl" and "accepted_text dbl v t" and "ws w" and "\<not> is_identifier_char d" and "stack_holds opened st c"
    and "length c + 16 * length t + 32 < 2 ^ 31"
  shows "\<exists>st' blk. sxe_jitson_stack_parse_json env SXE_JITSON_FLAG_STRICT st (w @ t @ d # r) = Some (Some (length w + length t), st')
    \<and> stack_holds opened st' (c @ blk) \<and> jrep v blk \<and> length blk \<le> 16 * length t"
proof -
  let ?src = "sxe_jitson_source_from_string (w @ t @ d # r) SXE_JITSON_FLAG_STRICT"
  let ?f = "2 * length (w @ t @ d # r) + 1"
  have s: "src_end ?src = None" "src_rest ?src = w @ (t @ d # r)" "src_strict (src_skip (length w) ?src)"
    "src_rest (src_skip (length w) ?src) = t @ d # r"
    by (simp_all add: sxe_jitson_source_from_string_def src_rest_def src_strict_def)
  have "2 * length t \<le> ?f" by simp
  from text_loads(1)[OF assms(1,2), unfolded value_loads_def, rule_format, OF this s(3,4) assms(4,5,6)]
  obtain st' blk where l: "sxe_jitson_stack_load_json ?f env st (src_skip (length w) ?src) = Some (Inr (), st', src_skip (length t) (src_skip (length w) ?src))"
    and b: "stack_holds opened st' (c @ blk)" "jrep v blk" "length blk \<le> 16 * length t" by blast
  have "sxe_jitson_stack_parse_json env SXE_JITSON_FLAG_STRICT st (w @ t @ d # r) = Some (Some (length w + length t), st')"
    unfolding sxe_jitson_stack_parse_json_def Let_def load_json_skip[OF s(1,2) assms(3)] l
    by (simp add: sxe_jitson_source_get_consumed_def src_skip_def sxe_jitson_source_from_string_def)
  then show ?thesis using b by blast
qed

text \<open>
  C31: with memory, parsing a text of the accepted grammar, after white space and before a byte that cannot go on an identifier, succeeds and
  uses exactly the text, and what it pushes onto the stack are tokens that represent the value of the text. By \<open>rfc_accepted\<close> these texts are
  all those of RFC 8259 in which no code point from U+0080 on is written as a \<^verbatim>\<open>\\u\<close> escape (as bytes of UTF-8 they are covered). The
  others are left out because the parser miscounts their bytes.
\<close>

lemma sxe_jitson_stack_parse_json_complete:
  assumes "parser_env env dbl" and "accepted_text dbl v t" and "ws w" and "\<not> is_identifier_char d" and "stack_holds opened st c"
    and "length c + 16 * length t + 32 < 2 ^ 31"
  shows "\<exists>st' blk. sxe_jitson_stack_parse_json env SXE_JITSON_FLAG_STRICT st (w @ t @ d # r) = Some (Some (length w + length t), st')
    \<and> stack_holds opened st' (c @ blk) \<and> jrep v blk \<and> length blk \<le> 16 * length t"
  by (rule parse_json_complete[OF assms])

lemma sxe_jitson_stack_parse_json_complete_witness:
  "\<exists>st' blk. sxe_jitson_stack_parse_json sample_env SXE_JITSON_FLAG_STRICT (snd (sxe_jitson_stack_make sample_malloc 1))
      (lit '' '' @ lit ''[1,true]'' @ 0 # []) = Some (Some (length (lit '' '') + length (lit ''[1,true]'')), st')
    \<and> stack_holds 0 st' ([] @ blk) \<and> jrep (JArray [JUint 1, JBool True]) blk \<and> length blk \<le> 16 * length (lit ''[1,true]'')"
  by (rule sxe_jitson_stack_parse_json_complete[OF sample_parser_env sample_text _ not_ident(6) made_stack_holds])
     (simp_all add: ws_def isspace_def lit_def)

lemma parse_json_sound:
  assumes "malloc_ok (env_malloc env)" and "strtod_ok env dbl" and "0 \<notin> set t" and "plain_text t" and "stack_holds opened st c"
    and "length c + 16 * length t + 32 < 2 ^ 31"
  shows "\<exists>used st'. sxe_jitson_stack_parse_json env SXE_JITSON_FLAG_STRICT st (t @ 0 # r) = Some (used, st') \<and>
    (case used of
       None \<Rightarrow> stack_holds opened st' c
     | Some n \<Rightarrow> \<exists>w x rest v blk. t = w @ x @ rest \<and> n = length (w @ x) \<and> ws w \<and> accepted_text dbl v x
         \<and> stack_holds opened st' (c @ blk) \<and> jrep v blk)"
proof -
  let ?src = "sxe_jitson_source_from_string (t @ 0 # r) SXE_JITSON_FLAG_STRICT"
  let ?f = "2 * length (t @ 0 # r) + 1"
  have nt: "nul_text ?src t" using assms(3,4)
    by (simp add: nul_text_def src_strict_def sxe_jitson_source_from_string_def src_rest_def)
  have "value_ok dbl env ?f" using parser_sound[OF assms(1,2)] by blast
  then have "value_outcome dbl opened c ?src t (sxe_jitson_stack_load_json ?f env st ?src)"
    unfolding value_ok_def by (elim allE impE) (use nt assms(5,6) in auto)
  then obtain res st' src' where l: "sxe_jitson_stack_load_json ?f env st ?src = Some (res, st', src')"
    and c: "case res of Inl _ \<Rightarrow> stack_holds opened st' c
      | Inr _ \<Rightarrow> \<exists>w x rest v blk. t = w @ x @ rest \<and> ws w \<and> accepted_text dbl v x \<and> src' = src_skip (length (w @ x)) ?src
          \<and> stack_holds opened st' (c @ blk) \<and> jrep v blk \<and> length blk \<le> 16 * length x" unfolding value_outcome_def by blast
  show ?thesis
  proof (cases res)
    case (Inl e)
    then have "sxe_jitson_stack_parse_json env SXE_JITSON_FLAG_STRICT st (t @ 0 # r) = Some (None, st')"
      using l by (simp add: sxe_jitson_stack_parse_json_def)
    then show ?thesis using c Inl by simp
  next
    case (Inr k)
    then obtain w x rest v blk where x: "t = w @ x @ rest" "ws w" "accepted_text dbl v x" "src' = src_skip (length (w @ x)) ?src"
        "stack_holds opened st' (c @ blk)" "jrep v blk" using c by auto
    have "sxe_jitson_stack_parse_json env SXE_JITSON_FLAG_STRICT st (t @ 0 # r) = Some (Some (length (w @ x)), st')"
      unfolding sxe_jitson_stack_parse_json_def Let_def l using Inr x(4)
      by (simp add: sxe_jitson_source_get_consumed_def src_skip_def sxe_jitson_source_from_string_def)
    then show ?thesis using x(1,2,3,5,6) by (intro exI[of _ "Some (length (w @ x))"] exI[of _ st']) (simp only: option.case, blast)
  qed
qed

text \<open>
  C32: on a text that a NUL ends, with no \<^verbatim>\<open>\\u\<close> escape of a code point from U+0080 on and no \<^verbatim>\<open>-0x\<close> anywhere in it
  (\<^const>\<open>plain_text\<close>), the parser returns and never writes outside its tokens. Either it reports an error and the stack has
  the tokens it had before, or what it used is white space and a text of the accepted grammar, and the tokens that it added are
  well typed: they represent the value of that text. The accepted grammar is RFC 8259 with three extensions: zeros before a number, vertical
  tab and form feed as white space, and control characters in strings. The \<^verbatim>\<open>\\u\<close> escapes that are left out can make the parser write past its tokens.
\<close>

lemma sxe_jitson_stack_parse_json_sound:
  assumes "malloc_ok (env_malloc env)" and "strtod_ok env dbl" and "0 \<notin> set t" and "plain_text t" and "stack_holds opened st c"
    and "length c + 16 * length t + 32 < 2 ^ 31"
  shows "\<exists>used st'. sxe_jitson_stack_parse_json env SXE_JITSON_FLAG_STRICT st (t @ 0 # r) = Some (used, st') \<and>
    (case used of
       None \<Rightarrow> stack_holds opened st' c
     | Some n \<Rightarrow> \<exists>w x rest v blk. t = w @ x @ rest \<and> n = length (w @ x) \<and> ws w \<and> accepted_text dbl v x
         \<and> stack_holds opened st' (c @ blk) \<and> jrep v blk)"
  by (rule parse_json_sound[OF assms])

text \<open>An error after an opening brace, and \<^verbatim>\<open>007\<close> after a blank.\<close>

lemma sxe_jitson_stack_parse_json_sound_witness:
  "(\<exists>used st'. sxe_jitson_stack_parse_json sample_env SXE_JITSON_FLAG_STRICT (snd (sxe_jitson_stack_make sample_malloc 1))
      (lit ''{ 1'' @ 0 # []) = Some (used, st') \<and>
    (case used of
       None \<Rightarrow> stack_holds 0 st' []
     | Some n \<Rightarrow> \<exists>w x rest v blk. lit ''{ 1'' = w @ x @ rest \<and> n = length (w @ x) \<and> ws w \<and> accepted_text (\<lambda>t. of_nat (length t)) v x
         \<and> stack_holds 0 st' ([] @ blk) \<and> jrep v blk))
   \<and> (\<exists>used st'. sxe_jitson_stack_parse_json sample_env SXE_JITSON_FLAG_STRICT (snd (sxe_jitson_stack_make sample_malloc 1))
      (lit '' 007'' @ 0 # []) = Some (used, st') \<and>
    (case used of
       None \<Rightarrow> stack_holds 0 st' []
     | Some n \<Rightarrow> \<exists>w x rest v blk. lit '' 007'' = w @ x @ rest \<and> n = length (w @ x) \<and> ws w \<and> accepted_text (\<lambda>t. of_nat (length t)) v x
         \<and> stack_holds 0 st' ([] @ blk) \<and> jrep v blk))"
  by (intro conjI sxe_jitson_stack_parse_json_sound[OF _ sample_strtod _ _ made_stack_holds])
     (auto simp: sample_env_def sample_malloc plain_text_def small_escapes_def lit_def append_eq_Cons_conv Cons_eq_append_conv)

end
