(* ===== verification/SxeJitsonBuild.thy ===== *)
theory SxeJitsonBuild
  imports SxeJitsonSound
begin

text \<open>
  The operations of \<^verbatim>\<open>sxe-jitson-stack.c\<close> that build tokens by hand, with the constructors of tokens of \<^verbatim>\<open>sxe-jitson.c\<close>. A
  collection under construction keeps in its token whether it has a name without a value, and the collection around it. The
  lemmas show that the calls that build a value leave tokens that represent it, as the parser does.
\<close>

unbundle bit_operations_syntax

section \<open>Tokens\<close>

definition jitson_get_no_value :: "sxe_jitson_stack \<Rightarrow> u32 \<Rightarrow> u8 option" where
  "jitson_get_no_value stack index = map_option hd (stack_read stack (jitson_at index + 8) 1)"

definition jitson_set_no_value :: "sxe_jitson_stack \<Rightarrow> u32 \<Rightarrow> u8 \<Rightarrow> sxe_jitson_stack option" where
  "jitson_set_no_value stack index v = stack_write stack (jitson_at index + 8) [v]"

definition jitson_get_nested :: "sxe_jitson_stack \<Rightarrow> u32 \<Rightarrow> u8 option" where
  "jitson_get_nested stack index = map_option hd (stack_read stack (jitson_at index + 9) 1)"

definition jitson_set_nested :: "sxe_jitson_stack \<Rightarrow> u32 \<Rightarrow> u8 \<Rightarrow> sxe_jitson_stack option" where
  "jitson_set_nested stack index v = stack_write stack (jitson_at index + 9) [v]"

definition jitson_get_collection :: "sxe_jitson_stack \<Rightarrow> u32 \<Rightarrow> u32 option" where
  "jitson_get_collection stack index = map_option le32 (stack_read stack (jitson_at index + 12) 4)"

definition jitson_set_collection :: "sxe_jitson_stack \<Rightarrow> u32 \<Rightarrow> u32 \<Rightarrow> sxe_jitson_stack option" where
  "jitson_set_collection stack index v = stack_write stack (jitson_at index + 12) (le32_bytes v)"

definition sxe_jitson_make_null :: "sxe_jitson_stack \<Rightarrow> u32 \<Rightarrow> sxe_jitson_stack option" where
  "sxe_jitson_make_null stack index = jitson_set_type stack index SXE_JITSON_TYPE_NULL"

definition sxe_jitson_make_bool :: "sxe_jitson_stack \<Rightarrow> u32 \<Rightarrow> bool \<Rightarrow> sxe_jitson_stack option" where
  "sxe_jitson_make_bool stack index boolean = do {
     stack \<leftarrow> jitson_set_type stack index SXE_JITSON_TYPE_BOOL;
     stack_write stack (jitson_at index + 8) [if boolean then 1 else 0]
   }"

definition sxe_jitson_make_number :: "sxe_jitson_stack \<Rightarrow> u32 \<Rightarrow> u64 \<Rightarrow> sxe_jitson_stack option" where
  "sxe_jitson_make_number stack index number = do {
     stack \<leftarrow> jitson_set_type stack index SXE_JITSON_TYPE_NUMBER;
     jitson_set_integer stack index number
   }"

definition sxe_jitson_make_uint :: "sxe_jitson_stack \<Rightarrow> u32 \<Rightarrow> u64 \<Rightarrow> sxe_jitson_stack option" where
  "sxe_jitson_make_uint stack index v = do {
     stack \<leftarrow> jitson_set_type stack index (SXE_JITSON_TYPE_NUMBER OR SXE_JITSON_TYPE_IS_UINT);
     jitson_set_integer stack index v
   }"

text \<open>A reference to the token \<open>token\<close> at the address \<open>to\<close>; a reference to a reference refers to what that one does.\<close>

definition sxe_jitson_make_reference :: "sxe_jitson_stack \<Rightarrow> u32 \<Rightarrow> u64 \<Rightarrow> u8 list \<Rightarrow> sxe_jitson_stack option" where
  "sxe_jitson_make_reference stack index to token = do {
     stack \<leftarrow> jitson_set_type stack index SXE_JITSON_TYPE_REFERENCE;
     if le32 (take 4 token) AND SXE_JITSON_TYPE_MASK = SXE_JITSON_TYPE_REFERENCE
     then stack_write stack (jitson_at index + 8) (take 8 (drop 8 token))
     else jitson_set_integer stack index to
   }"

section \<open>Building collections\<close>

definition sxe_jitson_stack_add_value ::
    "(u64 \<Rightarrow> u8 list option) \<Rightarrow> sxe_jitson_stack \<Rightarrow> u32 \<Rightarrow> (u32 \<times> sxe_jitson_stack) option" where
  "sxe_jitson_stack_add_value malloc stack size1 = do {
     let collection = stack_open stack - 1;
     SXEA1 (stack_open stack \<noteq> 0);
     type \<leftarrow> jitson_get_type stack collection;
     no_value \<leftarrow> jitson_get_no_value stack collection;
     SXEA1 (type = SXE_JITSON_TYPE_ARRAY \<or> no_value \<noteq> 0);
     SXEA1 (type = SXE_JITSON_TYPE_OBJECT \<or> type = SXE_JITSON_TYPE_ARRAY);
     (index, stack) \<leftarrow> sxe_jitson_stack_expand malloc stack size1;
     if index = SXE_JITSON_STACK_ERROR then Some (SXE_JITSON_STACK_ERROR, stack)
     else do {
       len \<leftarrow> jitson_get_len stack collection;
       stack \<leftarrow> jitson_set_len stack collection (len + 1);
       stack \<leftarrow> jitson_set_no_value stack collection 0;
       Some (index, stack)
     }
   }"

definition sxe_jitson_stack_open_collection ::
    "(u64 \<Rightarrow> u8 list option) \<Rightarrow> sxe_jitson_stack \<Rightarrow> u32 \<Rightarrow> (bool \<times> sxe_jitson_stack) option" where
  "sxe_jitson_stack_open_collection malloc stack type = do {
     SXEA6 (type = SXE_JITSON_TYPE_ARRAY \<or> type = SXE_JITSON_TYPE_OBJECT);
     (index, stack) \<leftarrow> (if stack_open stack \<noteq> 0 then sxe_jitson_stack_add_value malloc stack 1 else sxe_jitson_stack_expand malloc stack 1);
     if index = SXE_JITSON_STACK_ERROR then Some (False, stack)
     else do {
       stack \<leftarrow> jitson_set_type stack index type;
       stack \<leftarrow> jitson_set_len stack index 0;
       stack \<leftarrow> jitson_set_no_value stack index 0;
       stack \<leftarrow> jitson_set_nested stack index 0;
       stack \<leftarrow> jitson_set_collection stack index (stack_open stack);
       Some (True, stack\<lparr>stack_open := index + 1\<rparr>)
     }
   }"

text \<open>The tokens after the first one of a copied string; \<open>string\<close> is what is left of it, without its NUL.\<close>

function push_string_loop :: "(u64 \<Rightarrow> u8 list option) \<Rightarrow> sxe_jitson_stack \<Rightarrow> u8 list \<Rightarrow> (bool \<times> sxe_jitson_stack) option" where
  "push_string_loop malloc stack string = do {
     (index, stack) \<leftarrow> sxe_jitson_stack_expand malloc stack 1;
     if index = SXE_JITSON_STACK_ERROR then Some (False, stack)
     else if length string < SXE_JITSON_TOKEN_SIZE then do {
       stack \<leftarrow> stack_write stack (jitson_at index) (string @ [0]);
       Some (True, stack)
     } else do {
       stack \<leftarrow> stack_write stack (jitson_at index) (take SXE_JITSON_TOKEN_SIZE string);
       push_string_loop malloc stack (drop SXE_JITSON_TOKEN_SIZE string)
     }
   }"
  by pat_completeness auto
termination by (relation "measure (\<lambda>(malloc, stack, string). length string)") (auto simp: SXE_JITSON_TOKEN_SIZE_def)

text \<open>\<open>string\<close> is what is in memory at \<open>address\<close>; what is copied of it ends before the first NUL.\<close>

definition sxe_jitson_stack_push_string ::
    "(u64 \<Rightarrow> u8 list option) \<Rightarrow> sxe_jitson_stack \<Rightarrow> u64 \<Rightarrow> u8 list \<Rightarrow> u32 \<Rightarrow> (bool \<times> sxe_jitson_stack) option" where
  "sxe_jitson_stack_push_string malloc stack address string type = do {
     (index, stack) \<leftarrow> sxe_jitson_stack_expand malloc stack 1;
     if index = SXE_JITSON_STACK_ERROR then Some (False, stack)
     else do {
       let type = (if type AND SXE_JITSON_TYPE_IS_OWN \<noteq> 0 then SXE_JITSON_TYPE_IS_REF OR type else type);
       stack \<leftarrow> jitson_set_type stack index (SXE_JITSON_TYPE_STRING OR type);
       if type AND SXE_JITSON_TYPE_IS_REF \<noteq> 0 then do {
         stack \<leftarrow> jitson_set_integer stack index address;
         stack \<leftarrow> jitson_set_len stack index 0;
         Some (True, stack)
       } else
         let string = takeWhile (\<lambda>c. c \<noteq> 0) string; len = length string in
         if 2 ^ 32 \<le> len then Some (False, stack)
         else do {
           stack \<leftarrow> jitson_set_len stack index (of_nat len);
           if len < SXE_JITSON_STRING_SIZE then do {
             stack \<leftarrow> stack_write stack (jitson_at index + 8) (string @ [0]);
             Some (True, stack)
           } else do {
             stack \<leftarrow> stack_write stack (jitson_at index + 8) (take SXE_JITSON_STRING_SIZE string);
             push_string_loop malloc stack (drop SXE_JITSON_STRING_SIZE string)
           }
         }
     }
   }"

definition sxe_jitson_stack_add_member_name ::
    "(u64 \<Rightarrow> u8 list option) \<Rightarrow> sxe_jitson_stack \<Rightarrow> u64 \<Rightarrow> u8 list \<Rightarrow> u32 \<Rightarrow> (bool \<times> sxe_jitson_stack) option" where
  "sxe_jitson_stack_add_member_name malloc stack address name type = do {
     SXEA1 (stack_open stack \<noteq> 0);
     let object = stack_open stack - 1;
     t \<leftarrow> jitson_get_type stack object;
     SXEA1 (t = SXE_JITSON_TYPE_OBJECT);
     no_value \<leftarrow> jitson_get_no_value stack object;
     SXEA1 (no_value = 0);
     SXEA1 (type AND NOT (SXE_JITSON_TYPE_IS_REF OR SXE_JITSON_TYPE_IS_OWN) = 0);
     stack \<leftarrow> jitson_set_no_value stack object 1;
     sxe_jitson_stack_push_string malloc stack address name (type OR SXE_JITSON_TYPE_IS_KEY)
   }"

definition sxe_jitson_stack_add_string ::
    "(u64 \<Rightarrow> u8 list option) \<Rightarrow> sxe_jitson_stack \<Rightarrow> u64 \<Rightarrow> u8 list \<Rightarrow> u32 \<Rightarrow> (bool \<times> sxe_jitson_stack) option" where
  "sxe_jitson_stack_add_string malloc stack address name type = do {
     let collection = stack_open stack - 1;
     SXEA1 (stack_open stack \<noteq> 0);
     t \<leftarrow> jitson_get_type stack collection;
     no_value \<leftarrow> jitson_get_no_value stack collection;
     SXEA1 (t = SXE_JITSON_TYPE_ARRAY \<or> no_value \<noteq> 0);
     SXEA1 (t = SXE_JITSON_TYPE_OBJECT \<or> t = SXE_JITSON_TYPE_ARRAY);
     SXEA1 (type AND NOT (SXE_JITSON_TYPE_IS_REF OR SXE_JITSON_TYPE_IS_OWN) = 0);
     stack \<leftarrow> jitson_set_no_value stack collection 0;
     (ret, stack) \<leftarrow> sxe_jitson_stack_push_string malloc stack address name type;
     if ret then do {
       len \<leftarrow> jitson_get_len stack collection;
       stack \<leftarrow> jitson_set_len stack collection (len + 1);
       Some (ret, stack)
     } else Some (ret, stack)
   }"

text \<open>A value of one token, made by \<open>fill\<close>.\<close>

definition add_token ::
    "(u64 \<Rightarrow> u8 list option) \<Rightarrow> sxe_jitson_stack \<Rightarrow> (sxe_jitson_stack \<Rightarrow> u32 \<Rightarrow> sxe_jitson_stack option) \<Rightarrow> (bool \<times> sxe_jitson_stack) option" where
  "add_token malloc stack fill = do {
     (index, stack) \<leftarrow> sxe_jitson_stack_add_value malloc stack 1;
     if index = SXE_JITSON_STACK_ERROR then Some (False, stack)
     else do { stack \<leftarrow> fill stack index; Some (True, stack) }
   }"

definition sxe_jitson_stack_add_null :: "(u64 \<Rightarrow> u8 list option) \<Rightarrow> sxe_jitson_stack \<Rightarrow> (bool \<times> sxe_jitson_stack) option" where
  "sxe_jitson_stack_add_null malloc stack = add_token malloc stack sxe_jitson_make_null"

definition sxe_jitson_stack_add_bool :: "(u64 \<Rightarrow> u8 list option) \<Rightarrow> sxe_jitson_stack \<Rightarrow> bool \<Rightarrow> (bool \<times> sxe_jitson_stack) option" where
  "sxe_jitson_stack_add_bool malloc stack boolean = add_token malloc stack (\<lambda>stack index. sxe_jitson_make_bool stack index boolean)"

definition sxe_jitson_stack_add_number :: "(u64 \<Rightarrow> u8 list option) \<Rightarrow> sxe_jitson_stack \<Rightarrow> u64 \<Rightarrow> (bool \<times> sxe_jitson_stack) option" where
  "sxe_jitson_stack_add_number malloc stack number = add_token malloc stack (\<lambda>stack index. sxe_jitson_make_number stack index number)"

definition sxe_jitson_stack_add_uint :: "(u64 \<Rightarrow> u8 list option) \<Rightarrow> sxe_jitson_stack \<Rightarrow> u64 \<Rightarrow> (bool \<times> sxe_jitson_stack) option" where
  "sxe_jitson_stack_add_uint malloc stack v = add_token malloc stack (\<lambda>stack index. sxe_jitson_make_uint stack index v)"

definition sxe_jitson_stack_add_reference ::
    "(u64 \<Rightarrow> u8 list option) \<Rightarrow> sxe_jitson_stack \<Rightarrow> u64 \<Rightarrow> u8 list \<Rightarrow> (bool \<times> sxe_jitson_stack) option" where
  "sxe_jitson_stack_add_reference malloc stack to token =
    add_token malloc stack (\<lambda>stack index. sxe_jitson_make_reference stack index to token)"

definition sxe_jitson_stack_add_dup :: "jitson_env \<Rightarrow> sxe_jitson_stack \<Rightarrow> u8 list \<Rightarrow> (bool \<times> sxe_jitson_stack) option" where
  "sxe_jitson_stack_add_dup env stack value1 = do {
     (index, stack) \<leftarrow> sxe_jitson_stack_add_value (env_malloc env) stack (of_nat (length value1 div SXE_JITSON_TOKEN_SIZE));
     if index = SXE_JITSON_STACK_ERROR then Some (False, stack)
     else sxe_jitson_stack_dup_at_index env stack index value1
   }"

text \<open>
  The tokens of an object, or those it refers to (\<open>deref\<close> has the tokens at an address); \<open>clone_members\<close> is
  \<open>sxe_jitson_object_clone_members\<close> on the copied tokens.
\<close>

definition sxe_jitson_stack_add_dup_members ::
    "(u64 \<Rightarrow> u8 list option) \<Rightarrow> (u64 \<Rightarrow> u8 list) \<Rightarrow> (u8 list \<Rightarrow> bool \<times> u8 list) \<Rightarrow> sxe_jitson_stack \<Rightarrow> u8 list
     \<Rightarrow> (bool \<times> sxe_jitson_stack) option" where
  "sxe_jitson_stack_add_dup_members malloc deref clone_members stack jitson = do {
     let object = stack_open stack - 1;
     SXEA1 (stack_open stack \<noteq> 0);
     type \<leftarrow> jitson_get_type stack object;
     SXEA1 (type = SXE_JITSON_TYPE_OBJECT);
     no_value \<leftarrow> jitson_get_no_value stack object;
     SXEA1 (no_value = 0);
     let jitson = (if le32 (take 4 jitson) AND SXE_JITSON_TYPE_MASK = SXE_JITSON_TYPE_REFERENCE
                   then deref (ucast (le32 (take 4 (drop 8 jitson))) OR push_bit 32 (ucast (le32 (take 4 (drop 12 jitson))))) else jitson);
     SXEA1 (le32 (take 4 jitson) AND SXE_JITSON_TYPE_MASK = SXE_JITSON_TYPE_OBJECT);
     let len = le32 (take 4 (drop 4 jitson));
     if len = 0 then Some (True, stack)
     else do {
       let size1 = length jitson div SXE_JITSON_TOKEN_SIZE - 1;
       (index, stack) \<leftarrow> sxe_jitson_stack_expand malloc stack (of_nat size1);
       if index = SXE_JITSON_STACK_ERROR then Some (False, stack)
       else do {
         let (cloned, tokens) = clone_members (drop SXE_JITSON_TOKEN_SIZE jitson);
         stack \<leftarrow> stack_write stack (jitson_at index) tokens;
         if \<not> cloned then Some (False, stack)
         else do {
           old \<leftarrow> jitson_get_len stack object;
           stack \<leftarrow> jitson_set_len stack object (old + len);
           Some (True, stack)
         }
       }
     }
   }"

definition sxe_jitson_stack_close_collection :: "sxe_jitson_stack \<Rightarrow> (bool \<times> sxe_jitson_stack) option" where
  "sxe_jitson_stack_close_collection stack = do {
     SXEA1 (stack_open stack \<noteq> 0);
     let index = stack_open stack - 1;
     no_value \<leftarrow> jitson_get_no_value stack index;
     SXEA1 (no_value = 0);
     nested \<leftarrow> jitson_get_nested stack index;
     SXEA1 (nested = 0);
     collection \<leftarrow> jitson_get_collection stack index;
     let stack = stack\<lparr>stack_open := collection\<rparr>;
     stack \<leftarrow> jitson_set_integer stack index (ucast (stack_count stack - index));
     Some (True, stack)
   }"

section \<open>Values from calls\<close>

datatype build_call =
  OpenCollection u32 | CloseCollection | MemberName "u8 list" | AddString "u8 list" | AddNull | AddBool bool | AddNumber u64 | AddUint u64

fun run_call :: "(u64 \<Rightarrow> u8 list option) \<Rightarrow> sxe_jitson_stack \<Rightarrow> build_call \<Rightarrow> (bool \<times> sxe_jitson_stack) option" where
  "run_call malloc st (OpenCollection t) = sxe_jitson_stack_open_collection malloc st t"
| "run_call malloc st CloseCollection = sxe_jitson_stack_close_collection st"
| "run_call malloc st (MemberName s) = sxe_jitson_stack_add_member_name malloc st 0 s SXE_JITSON_TYPE_IS_COPY"
| "run_call malloc st (AddString s) = sxe_jitson_stack_add_string malloc st 0 s SXE_JITSON_TYPE_IS_COPY"
| "run_call malloc st AddNull = sxe_jitson_stack_add_null malloc st"
| "run_call malloc st (AddBool b) = sxe_jitson_stack_add_bool malloc st b"
| "run_call malloc st (AddNumber v) = sxe_jitson_stack_add_number malloc st v"
| "run_call malloc st (AddUint v) = sxe_jitson_stack_add_uint malloc st v"

fun run_calls :: "(u64 \<Rightarrow> u8 list option) \<Rightarrow> sxe_jitson_stack \<Rightarrow> build_call list \<Rightarrow> (bool \<times> sxe_jitson_stack) option" where
  "run_calls malloc st [] = Some (True, st)"
| "run_calls malloc st (c # cs) = do {
     (ret, st) \<leftarrow> run_call malloc st c;
     if ret then run_calls malloc st cs else Some (False, st)
   }"

text \<open>The calls that build a value, how much space its tokens take at most, and whether its strings are C strings.\<close>

fun calls_of :: "json \<Rightarrow> build_call list" and calls_elements :: "json list \<Rightarrow> build_call list"
    and calls_members :: "(u8 list \<times> json) list \<Rightarrow> build_call list" where
  "calls_of JNull = [AddNull]"
| "calls_of (JBool b) = [AddBool b]"
| "calls_of (JUint v) = [AddUint v]"
| "calls_of (JReal v) = [AddNumber v]"
| "calls_of (JString s) = [AddString s]"
| "calls_of (JArray vs) = OpenCollection SXE_JITSON_TYPE_ARRAY # calls_elements vs @ [CloseCollection]"
| "calls_of (JObject ms) = OpenCollection SXE_JITSON_TYPE_OBJECT # calls_members ms @ [CloseCollection]"
| "calls_elements [] = []"
| "calls_elements (v # vs) = calls_of v @ calls_elements vs"
| "calls_members [] = []"
| "calls_members ((k, v) # ms) = MemberName k # calls_of v @ calls_members ms"

fun value_space :: "json \<Rightarrow> nat" and elements_space :: "json list \<Rightarrow> nat" and members_space :: "(u8 list \<times> json) list \<Rightarrow> nat" where
  "value_space (JString s) = 32 + length s"
| "value_space (JArray vs) = 16 + elements_space vs"
| "value_space (JObject ms) = 16 + members_space ms"
| "value_space _ = 16"
| "elements_space [] = 0"
| "elements_space (v # vs) = value_space v + elements_space vs"
| "members_space [] = 0"
| "members_space ((k, v) # ms) = 32 + length k + value_space v + members_space ms"

fun c_strings :: "json \<Rightarrow> bool" and c_strings_elements :: "json list \<Rightarrow> bool" and c_strings_members :: "(u8 list \<times> json) list \<Rightarrow> bool" where
  "c_strings (JString s) = (0 \<notin> set s)"
| "c_strings (JArray vs) = c_strings_elements vs"
| "c_strings (JObject ms) = c_strings_members ms"
| "c_strings _ = True"
| "c_strings_elements [] = True"
| "c_strings_elements (v # vs) = (c_strings v \<and> c_strings_elements vs)"
| "c_strings_members [] = True"
| "c_strings_members ((k, v) # ms) = (0 \<notin> set k \<and> c_strings v \<and> c_strings_members ms)"

text \<open>The token of a collection under construction, and a stack whose innermost open collection is at the end of \<open>pre\<close>.\<close>

definition open_header :: "u32 \<Rightarrow> nat \<Rightarrow> u8 \<Rightarrow> u8 list \<Rightarrow> u32 \<Rightarrow> u8 list" where
  "open_header ty n nv j coll = le32_bytes ty @ le32_bytes (of_nat n) @ nv # 0 # j @ le32_bytes coll"

definition open_at :: "u32 \<Rightarrow> sxe_jitson_stack \<Rightarrow> u8 list \<Rightarrow> u32 \<Rightarrow> nat \<Rightarrow> u8 \<Rightarrow> u32 \<Rightarrow> u8 list \<Rightarrow> bool" where
  "open_at opened st pre ty n nv coll body \<longleftrightarrow> opened \<noteq> 0 \<and> jitson_at (opened - 1) = length pre \<and>
    (\<exists>j. length j = 2 \<and> stack_holds opened st (pre @ open_header ty n nv j coll @ body))"

definition fills :: "json \<Rightarrow> (sxe_jitson_stack \<Rightarrow> u32 \<Rightarrow> sxe_jitson_stack option) \<Rightarrow> bool" where
  "fills v fill \<longleftrightarrow> (\<forall>opened st c tok index. stack_holds opened st (c @ tok) \<longrightarrow> length tok = 16 \<longrightarrow> jitson_at index = length c \<longrightarrow>
     (\<exists>st' blk. fill st index = Some st' \<and> stack_holds opened st' (c @ blk) \<and> jrep v blk \<and> length blk = 16))"

definition adds :: "(u64 \<Rightarrow> u8 list option) \<Rightarrow> json \<Rightarrow> build_call list \<Rightarrow> nat \<Rightarrow> bool" where
  "adds malloc v calls k \<longleftrightarrow> (\<forall>opened st pre ty n nv coll body. open_at opened st pre ty n nv coll body \<longrightarrow>
     ty = SXE_JITSON_TYPE_ARRAY \<or> ty = SXE_JITSON_TYPE_OBJECT \<and> nv \<noteq> 0 \<longrightarrow> length (pre @ body) + k + 48 < 2 ^ 31 \<longrightarrow>
     (\<exists>st' blk. run_calls malloc st calls = Some (True, st') \<and> open_at opened st' pre ty (Suc n) 0 coll (body @ blk) \<and> jrep v blk \<and> length blk \<le> k))"

definition adds_all :: "(u64 \<Rightarrow> u8 list option) \<Rightarrow> json list \<Rightarrow> bool" where
  "adds_all malloc vs \<longleftrightarrow> (\<forall>opened st pre n coll body. open_at opened st pre SXE_JITSON_TYPE_ARRAY n 0 coll body \<longrightarrow>
     length (pre @ body) + elements_space vs + 48 < 2 ^ 31 \<longrightarrow>
     (\<exists>st' blk. run_calls malloc st (calls_elements vs) = Some (True, st')
       \<and> open_at opened st' pre SXE_JITSON_TYPE_ARRAY (n + length vs) 0 coll (body @ blk) \<and> jreps vs blk \<and> length blk \<le> elements_space vs))"

definition adds_members :: "(u64 \<Rightarrow> u8 list option) \<Rightarrow> (u8 list \<times> json) list \<Rightarrow> bool" where
  "adds_members malloc ms \<longleftrightarrow> (\<forall>opened st pre n coll body. open_at opened st pre SXE_JITSON_TYPE_OBJECT n 0 coll body \<longrightarrow>
     length (pre @ body) + members_space ms + 48 < 2 ^ 31 \<longrightarrow>
     (\<exists>st' blk. run_calls malloc st (calls_members ms) = Some (True, st')
       \<and> open_at opened st' pre SXE_JITSON_TYPE_OBJECT (n + length ms) 0 coll (body @ blk) \<and> jmembers ms blk \<and> length blk \<le> members_space ms))"

text \<open>A collection, given what its contents do: at the root and in another collection.\<close>

definition contents_ok :: "(u64 \<Rightarrow> u8 list option) \<Rightarrow> u32 \<Rightarrow> build_call list \<Rightarrow> nat \<Rightarrow> nat \<Rightarrow> (u8 list \<Rightarrow> bool) \<Rightarrow> bool" where
  "contents_ok malloc t cs m k rep \<longleftrightarrow> (t = SXE_JITSON_TYPE_ARRAY \<or> t = SXE_JITSON_TYPE_OBJECT) \<and>
    (\<forall>opened st pre coll. open_at opened st pre t 0 0 coll [] \<longrightarrow> length pre + k + 48 < 2 ^ 31 \<longrightarrow>
      (\<exists>st' blk. run_calls malloc st cs = Some (True, st') \<and> open_at opened st' pre t m 0 coll blk \<and> rep blk \<and> length blk \<le> k))"

section \<open>Fields\<close>

lemma get_type_holds:
  "stack_holds opened st (pre @ le32_bytes ty @ y) \<Longrightarrow> jitson_at index = length pre \<Longrightarrow> jitson_get_type st index = Some ty"
  using stack_holds_read[of opened st pre "le32_bytes ty" y] by (simp add: jitson_get_type_def le32_le32_bytes)

lemma no_value_holds:
  assumes "stack_holds opened st (pre @ le32_bytes ty @ le32_bytes m @ nv # y)" and "jitson_at index = length pre"
  shows "jitson_get_no_value st index = Some nv"
    and "\<exists>st'. jitson_set_no_value st index w = Some st' \<and> stack_holds opened st' (pre @ le32_bytes ty @ le32_bytes m @ w # y)
      \<and> stack_count st' = stack_count st"
  using stack_holds_read[of opened st "pre @ le32_bytes ty @ le32_bytes m" "[nv]" y] assms
    stack_holds_write[of opened st "pre @ le32_bytes ty @ le32_bytes m" "[nv]" y "jitson_at index + 8" "[w]"]
  by (simp_all add: jitson_get_no_value_def jitson_set_no_value_def)

lemma nested_holds:
  assumes "stack_holds opened st (pre @ le32_bytes ty @ le32_bytes m @ nv # ns # y)" and "jitson_at index = length pre"
  shows "jitson_get_nested st index = Some ns"
    and "\<exists>st'. jitson_set_nested st index w = Some st' \<and> stack_holds opened st' (pre @ le32_bytes ty @ le32_bytes m @ nv # w # y)
      \<and> stack_count st' = stack_count st"
  using stack_holds_read[of opened st "pre @ le32_bytes ty @ le32_bytes m @ [nv]" "[ns]" y] assms
    stack_holds_write[of opened st "pre @ le32_bytes ty @ le32_bytes m @ [nv]" "[ns]" y "jitson_at index + 9" "[w]"]
  by (simp_all add: jitson_get_nested_def jitson_set_nested_def)

lemma collection_holds:
  assumes "stack_holds opened st (pre @ x @ cb @ y)" and "jitson_at index = length pre" and "length x = 12" and "length cb = 4"
  shows "cb = le32_bytes coll \<Longrightarrow> jitson_get_collection st index = Some coll"
    and "\<exists>st'. jitson_set_collection st index w = Some st' \<and> stack_holds opened st' (pre @ x @ le32_bytes w @ y)
      \<and> stack_count st' = stack_count st"
  using stack_holds_read[of opened st "pre @ x" cb y "jitson_at index + 12" 4] assms
    stack_holds_write[of opened st "pre @ x" cb y "jitson_at index + 12" "le32_bytes w"]
  by (auto simp: jitson_get_collection_def jitson_set_collection_def le32_le32_bytes)

section \<open>Adding values\<close>

lemma new_token_found:
  assumes "stack_holds opened st c" and "malloc_ok malloc" and "\<forall>n. malloc n \<noteq> None" and "length c + 16 < 2 ^ 31"
  obtains st1 tok where "sxe_jitson_stack_expand malloc st 1 = Some (stack_count st, st1)" "stack_count st \<noteq> SXE_JITSON_STACK_ERROR"
    "stack_holds opened st1 (c @ tok)" "length tok = 16" "jitson_at (stack_count st) = length c"
  using new_token[OF assms(1,2,4)] assms(3) by blast

lemma add_value_ok:
  assumes "open_at opened st pre ty n nv coll body" and "malloc_ok malloc" and "\<forall>n. malloc n \<noteq> None"
    and "ty = SXE_JITSON_TYPE_ARRAY \<or> ty = SXE_JITSON_TYPE_OBJECT \<and> nv \<noteq> 0" and "length (pre @ body) + 48 < 2 ^ 31"
  shows "\<exists>st' index j tok. sxe_jitson_stack_add_value malloc st 1 = Some (index, st') \<and> index \<noteq> SXE_JITSON_STACK_ERROR \<and> length j = 2
    \<and> stack_holds opened st' ((pre @ open_header ty (Suc n) 0 j coll @ body) @ tok) \<and> length tok = 16
    \<and> jitson_at index = length (pre @ open_header ty (Suc n) 0 j coll @ body)"
proof -
  obtain j where o: "opened \<noteq> 0" "jitson_at (opened - 1) = length pre" "length j = 2"
      and h: "stack_holds opened st (pre @ open_header ty n nv j coll @ body)" using assms(1) unfolding open_at_def by blast
  have op: "stack_open st = opened" using h by (simp add: stack_holds_def)
  have len: "length (open_header ty n nv j coll) = 16" by (simp add: open_header_def o(3))
  have "length (pre @ open_header ty n nv j coll @ body) + 16 < 2 ^ 31" using assms(5) len by simp
  from new_token_found[OF h assms(2,3) this]
  obtain st1 tok where e: "sxe_jitson_stack_expand malloc st 1 = Some (stack_count st, st1)" "stack_count st \<noteq> SXE_JITSON_STACK_ERROR"
    and h1: "stack_holds opened st1 ((pre @ open_header ty n nv j coll @ body) @ tok)" "length tok = 16"
      "jitson_at (stack_count st) = length (pre @ open_header ty n nv j coll @ body)" by blast
  have ty: "jitson_get_type st (opened - 1) = Some ty"
    by (rule get_type_holds[of opened st pre ty _ "opened - 1", OF _ o(2)]) (use h in \<open>simp add: open_header_def\<close>)
  have nv: "jitson_get_no_value st (opened - 1) = Some nv"
    by (rule no_value_holds(1)[of opened st pre ty "of_nat n" nv _ "opened - 1", OF _ o(2)]) (use h in \<open>simp add: open_header_def\<close>)
  have "stack_holds opened st1 (pre @ le32_bytes ty @ le32_bytes (of_nat n) @ (nv # 0 # j @ le32_bytes coll @ body @ tok))"
    using h1(1) by (simp add: open_header_def)
  from collection_bump[OF this o(2)]
  obtain st2 where b: "jitson_get_len st1 (opened - 1) = Some (of_nat n)" "jitson_set_len st1 (opened - 1) (of_nat n + 1) = Some st2"
    and h2: "stack_holds opened st2 (pre @ le32_bytes ty @ le32_bytes (of_nat (Suc n)) @ nv # 0 # j @ le32_bytes coll @ body @ tok)" by blast
  from no_value_holds(2)[OF h2 o(2), of 0]
  obtain st3 where v: "jitson_set_no_value st2 (opened - 1) 0 = Some st3"
    and h3: "stack_holds opened st3 (pre @ le32_bytes ty @ le32_bytes (of_nat (Suc n)) @ 0 # 0 # j @ le32_bytes coll @ body @ tok)" by blast
  have "sxe_jitson_stack_add_value malloc st 1 = Some (stack_count st, st3)"
    using e ty nv b v op o(1) assms(4) by (auto simp: sxe_jitson_stack_add_value_def Let_def)
  moreover have "stack_holds opened st3 ((pre @ open_header ty (Suc n) 0 j coll @ body) @ tok)"
    using h3 by (simp add: open_header_def)
  ultimately show ?thesis using e(2) h1(2,3) o(3) len by (intro exI[of _ st3] exI[of _ "stack_count st"] exI[of _ j] exI[of _ tok])
    (simp add: open_header_def)
qed

lemma add_token_ok:
  assumes "fills v fill" and "malloc_ok malloc" and "\<forall>n. malloc n \<noteq> None"
    and "\<And>st. run_call malloc st c = add_token malloc st fill"
  shows "adds malloc v [c] 16"
  unfolding adds_def
proof (intro allI impI)
  fix opened st pre ty n nv coll body
  assume o: "open_at opened st pre ty n nv coll body" and ty: "ty = SXE_JITSON_TYPE_ARRAY \<or> ty = SXE_JITSON_TYPE_OBJECT \<and> nv \<noteq> 0"
    and len: "length (pre @ body) + 16 + 48 < 2 ^ 31"
  have "length (pre @ body) + 48 < 2 ^ 31" using len by simp
  from add_value_ok[OF o assms(2,3) ty this]
  obtain st1 index j tok where a: "sxe_jitson_stack_add_value malloc st 1 = Some (index, st1)" "index \<noteq> SXE_JITSON_STACK_ERROR" "length j = 2"
    and h: "stack_holds opened st1 ((pre @ open_header ty (Suc n) 0 j coll @ body) @ tok)" "length tok = 16"
      "jitson_at index = length (pre @ open_header ty (Suc n) 0 j coll @ body)" by blast
  obtain st2 blk where f: "fill st1 index = Some st2" "stack_holds opened st2 ((pre @ open_header ty (Suc n) 0 j coll @ body) @ blk)"
      "jrep v blk" "length blk = 16"
    using assms(1)[unfolded fills_def, rule_format, OF h] by blast
  have "run_calls malloc st [c] = Some (True, st2)" using a f(1) by (simp add: assms(4) add_token_def)
  moreover have "open_at opened st2 pre ty (Suc n) 0 coll (body @ blk)"
    using o a(3) f(2) unfolding open_at_def by (intro conjI exI[of _ j]) auto
  ultimately show "\<exists>st' blk. run_calls malloc st [c] = Some (True, st') \<and> open_at opened st' pre ty (Suc n) 0 coll (body @ blk) \<and> jrep v blk \<and> length blk \<le> 16"
    using f(3,4) by (intro exI[of _ st2] exI[of _ blk]) simp
qed

lemma set_type_token:
  assumes "stack_holds opened st (c @ tok)" and "length tok = 16" and "jitson_at index = length c"
  shows "\<exists>st' b x. jitson_set_type st index ty = Some st' \<and> stack_holds opened st' (c @ le32_bytes ty @ b @ x) \<and> length b = 4 \<and> length x = 8"
proof -
  obtain a b x where tok: "tok = a @ b @ x" "length a = 4" "length b = 4" "length x = 8" using token_parts[OF assms(2)] by blast
  then show ?thesis using set_type_holds[of opened st c a "b @ x" index ty] assms by auto
qed

lemma null_fills: "fills JNull sxe_jitson_make_null"
  unfolding fills_def
proof (intro allI impI)
  fix opened st c tok index assume "stack_holds opened st (c @ tok)" "length tok = 16" "jitson_at index = length c"
  from set_type_token[OF this, of SXE_JITSON_TYPE_NULL]
  obtain st' b x where s: "jitson_set_type st index SXE_JITSON_TYPE_NULL = Some st'" "stack_holds opened st' (c @ le32_bytes SXE_JITSON_TYPE_NULL @ b @ x)"
      "length b = 4" "length x = 8" by blast
  have "jrep JNull (le32_bytes SXE_JITSON_TYPE_NULL @ b @ x)" by (rule rep_null) (simp add: s)
  then show "\<exists>st' blk. sxe_jitson_make_null st index = Some st' \<and> stack_holds opened st' (c @ blk) \<and> jrep JNull blk \<and> length blk = 16"
    using s by (intro exI[of _ st'] exI[of _ "le32_bytes SXE_JITSON_TYPE_NULL @ b @ x"]) (simp add: sxe_jitson_make_null_def)
qed

lemma integer_fills:
  assumes "\<And>b. length b = 4 \<Longrightarrow> jrep v (le32_bytes ty @ b @ le64_bytes i)"
    and "\<And>st index. fill st index = do { stack \<leftarrow> jitson_set_type st index ty; jitson_set_integer stack index i }"
  shows "fills v fill"
  unfolding fills_def
proof (intro allI impI)
  fix opened st c tok index assume h: "stack_holds opened st (c @ tok)" "length tok = 16" "jitson_at index = length c"
  from set_type_token[OF h, of ty]
  obtain st1 b x where s: "jitson_set_type st index ty = Some st1" "stack_holds opened st1 (c @ le32_bytes ty @ b @ x)"
      "length b = 4" "length x = 8" by blast
  obtain st2 where "jitson_set_integer st1 index i = Some st2" "stack_holds opened st2 (c @ le32_bytes ty @ b @ le64_bytes i)"
    using set_integer_holds[of opened st1 c "le32_bytes ty @ b" x "[]" index i] s h(3) by auto
  then show "\<exists>st' blk. fill st index = Some st' \<and> stack_holds opened st' (c @ blk) \<and> jrep v blk \<and> length blk = 16"
    using assms(1)[OF s(3)] s(1,3) by (intro exI[of _ st2] exI[of _ "le32_bytes ty @ b @ le64_bytes i"]) (simp add: assms(2))
qed

lemma bool_fills: "fills (JBool v) (\<lambda>st index. sxe_jitson_make_bool st index v)"
  unfolding fills_def
proof (intro allI impI)
  fix opened st c tok index assume h: "stack_holds opened st (c @ tok)" "length tok = 16" "jitson_at index = length c"
  from set_type_token[OF h, of SXE_JITSON_TYPE_BOOL]
  obtain st1 b x where s: "jitson_set_type st index SXE_JITSON_TYPE_BOOL = Some st1" "stack_holds opened st1 (c @ le32_bytes SXE_JITSON_TYPE_BOOL @ b @ x)"
      "length b = 4" "length x = 8" by blast
  obtain x0 x1 where x: "x = x0 # x1" "length x1 = 7" using s(4) by (cases x) auto
  have "stack_holds opened st1 ((c @ le32_bytes SXE_JITSON_TYPE_BOOL @ b) @ [x0] @ x1)" using s(2) x by simp
  from stack_holds_write[OF this, of "jitson_at index + 8" "[if v then 1 else 0]"]
  obtain st2 where w: "stack_write st1 (jitson_at index + 8) [if v then 1 else 0] = Some st2"
    "stack_holds opened st2 (c @ le32_bytes SXE_JITSON_TYPE_BOOL @ b @ (if v then 1 else 0) # x1)" using s(3) h(3) by auto
  have "jrep (JBool v) (le32_bytes SXE_JITSON_TYPE_BOOL @ b @ (if v then 1 else 0) # x1)" by (rule rep_bool[OF s(3) x(2)])
  then show "\<exists>st' blk. sxe_jitson_make_bool st index v = Some st' \<and> stack_holds opened st' (c @ blk) \<and> jrep (JBool v) blk \<and> length blk = 16"
    using s(1,3) w x(2) by (intro exI[of _ st2] exI[of _ "le32_bytes SXE_JITSON_TYPE_BOOL @ b @ (if v then 1 else 0) # x1"])
      (simp add: sxe_jitson_make_bool_def)
qed

section \<open>Strings\<close>

declare push_string_loop.simps [simp del]

lemma push_string_loop_ok:
  assumes "malloc_ok malloc" and "\<forall>n. malloc n \<noteq> None"
  shows "stack_holds opened st c \<Longrightarrow> length c + length s + 32 < 2 ^ 31 \<Longrightarrow>
    \<exists>st' junk. push_string_loop malloc st s = Some (True, st') \<and> stack_holds opened st' (c @ s @ 0 # junk) \<and> length junk < 16"
proof (induction s arbitrary: st c rule: length_induct)
  case (1 s)
  have "length c + 16 < 2 ^ 31" using 1(3) by simp
  from new_token_found[OF 1(2) assms this]
  obtain st1 tok where e: "sxe_jitson_stack_expand malloc st 1 = Some (stack_count st, st1)" "stack_count st \<noteq> SXE_JITSON_STACK_ERROR"
    and h: "stack_holds opened st1 (c @ tok)" "length tok = 16" "jitson_at (stack_count st) = length c" by blast
  show ?case
  proof (cases "length s < 16")
    case True
    have "stack_holds opened st1 (c @ take (Suc (length s)) tok @ drop (Suc (length s)) tok)" using h(1) by simp
    from stack_holds_write[OF this, of "jitson_at (stack_count st)" "s @ [0]"]
    obtain st2 where "stack_write st1 (jitson_at (stack_count st)) (s @ [0]) = Some st2"
      "stack_holds opened st2 (c @ (s @ [0]) @ drop (Suc (length s)) tok)" using h(2,3) True by auto
    moreover have "length (drop (Suc (length s)) tok) < 16" using h(2) by simp
    ultimately show ?thesis using e True
      by (intro exI[of _ st2] exI[of _ "drop (Suc (length s)) tok"]) (simp add: push_string_loop.simps SXE_JITSON_TOKEN_SIZE_def)
  next
    case False
    have "stack_holds opened st1 (c @ tok @ [])" using h(1) by simp
    moreover have "length tok = length (take 16 s)" "take 16 s \<noteq> []" using h(2) False by auto
    ultimately obtain st2 where w: "stack_write st1 (jitson_at (stack_count st)) (take 16 s) = Some st2"
      "stack_holds opened st2 (c @ take 16 s @ [])"
      using stack_holds_write[of opened st1 c tok "[]" "jitson_at (stack_count st)" "take 16 s"] h(3) by auto
    have "length (drop 16 s) < length s" "length (c @ take 16 s) + length (drop 16 s) + 32 < 2 ^ 31" using False 1(3) by auto
    then obtain st3 junk where "push_string_loop malloc st2 (drop 16 s) = Some (True, st3)"
        "stack_holds opened st3 ((c @ take 16 s) @ drop 16 s @ 0 # junk)" "length junk < 16"
      using 1(1)[rule_format, of "drop 16 s" st2 "c @ take 16 s"] w(2) by auto
    moreover have "take 16 s @ drop 16 s @ 0 # junk = s @ 0 # junk" by (simp flip: append.assoc)
    ultimately show ?thesis using e False w(1)
      by (intro exI[of _ st3] exI[of _ junk]) (simp add: push_string_loop.simps[of malloc st s] SXE_JITSON_TOKEN_SIZE_def)
  qed
qed

lemma push_string_ok:
  assumes "malloc_ok malloc" and "\<forall>n. malloc n \<noteq> None" and "stack_holds opened st c" and "length c + length s + 64 < 2 ^ 31"
    and "type = (if key then SXE_JITSON_TYPE_IS_KEY else 0)" and "0 \<notin> set s"
  shows "\<exists>st' blk. sxe_jitson_stack_push_string malloc st address s type = Some (True, st') \<and> stack_holds opened st' (c @ blk)
    \<and> string_tokens (string_type key) s blk \<and> length blk \<le> 32 + length s"
proof -
  have "length c + 16 < 2 ^ 31" using assms(4) by simp
  from new_token_found[OF assms(3,1,2) this]
  obtain st1 tok where e: "sxe_jitson_stack_expand malloc st 1 = Some (stack_count st, st1)" "stack_count st \<noteq> SXE_JITSON_STACK_ERROR"
    and h: "stack_holds opened st1 (c @ tok)" "length tok = 16" "jitson_at (stack_count st) = length c" by blast
  have ty: "type AND SXE_JITSON_TYPE_IS_OWN = 0" "type AND SXE_JITSON_TYPE_IS_REF = 0" "SXE_JITSON_TYPE_STRING OR type = string_type key"
    using assms(5) by (simp_all add: SXE_JITSON_TYPE_IS_OWN_def SXE_JITSON_TYPE_IS_REF_def SXE_JITSON_TYPE_IS_KEY_def string_type_def)
  from set_type_token[OF h, of "string_type key"]
  obtain st2 b x where s2: "jitson_set_type st1 (stack_count st) (string_type key) = Some st2"
      "stack_holds opened st2 (c @ le32_bytes (string_type key) @ b @ x)" "length b = 4" "length x = 8" by blast
  obtain st3 where s3: "jitson_set_len st2 (stack_count st) (of_nat (length s)) = Some st3"
      "stack_holds opened st3 (c @ le32_bytes (string_type key) @ le32_bytes (of_nat (length s)) @ x)"
    using set_len_holds[of opened st2 c "le32_bytes (string_type key)" b x "stack_count st" "of_nat (length s)"] s2 h(3) by auto
  let ?h = "le32_bytes (string_type key) @ le32_bytes (of_nat (length s))"
  have tw: "takeWhile (\<lambda>c. c \<noteq> 0) s = s" using assms(6) by (auto simp: takeWhile_eq_all_conv)
  have start: "sxe_jitson_stack_push_string malloc st address s type =
    (if length s < 8 then do { stack \<leftarrow> stack_write st3 (jitson_at (stack_count st) + 8) (s @ [0]); Some (True, stack) }
     else do { stack \<leftarrow> stack_write st3 (jitson_at (stack_count st) + 8) (take 8 s); push_string_loop malloc stack (drop 8 s) })"
    using e ty s2(1) s3(1) assms(4) by (simp add: sxe_jitson_stack_push_string_def Let_def SXE_JITSON_STRING_SIZE_def tw)
  have tokens: "\<exists>st' junk. sxe_jitson_stack_push_string malloc st address s type = Some (True, st') \<and> stack_holds opened st' (c @ ?h @ s @ 0 # junk) \<and> length junk < 16"
  proof (cases "length s < 8")
    case True
    have "stack_holds opened st3 ((c @ ?h) @ take (Suc (length s)) x @ drop (Suc (length s)) x)" using s3(2) by simp
    from stack_holds_write[OF this, of "jitson_at (stack_count st) + 8" "s @ [0]"]
    obtain st4 where "stack_write st3 (jitson_at (stack_count st) + 8) (s @ [0]) = Some st4"
      "stack_holds opened st4 ((c @ ?h) @ (s @ [0]) @ drop (Suc (length s)) x)" using h(3) True s2(4) by auto
    then show ?thesis unfolding start using True s2(4) by (intro exI[of _ st4] exI[of _ "drop (Suc (length s)) x"]) simp
  next
    case False
    have "stack_holds opened st3 ((c @ ?h) @ x @ [])" using s3(2) by simp
    moreover have "length x = length (take 8 s)" "take 8 s \<noteq> []" using s2(4) False by auto
    ultimately obtain st4 where w: "stack_write st3 (jitson_at (stack_count st) + 8) (take 8 s) = Some st4"
      "stack_holds opened st4 ((c @ ?h) @ take 8 s @ [])"
      using stack_holds_write[of opened st3 "c @ ?h" x "[]" "jitson_at (stack_count st) + 8" "take 8 s"] h(3) by auto
    have "stack_holds opened st4 ((c @ ?h) @ take 8 s)" "length ((c @ ?h) @ take 8 s) + length (drop 8 s) + 32 < 2 ^ 31"
      using w(2) assms(4) False by auto
    from push_string_loop_ok[OF assms(1,2) this]
    obtain st5 junk where "push_string_loop malloc st4 (drop 8 s) = Some (True, st5)"
        "stack_holds opened st5 (((c @ ?h) @ take 8 s) @ drop 8 s @ 0 # junk)" "length junk < 16" by blast
    moreover have "take 8 s @ drop 8 s @ 0 # junk = s @ 0 # junk" by (simp flip: append.assoc)
    ultimately show ?thesis unfolding start using False w(1) by (intro exI[of _ st5] exI[of _ junk]) simp
  qed
  then obtain st' junk where t: "sxe_jitson_stack_push_string malloc st address s type = Some (True, st')"
    "stack_holds opened st' (c @ ?h @ s @ 0 # junk)" "length junk < 16" by blast
  have "16 dvd length c" "16 dvd length (c @ ?h @ s @ 0 # junk)" using stack_holds_length assms(3) t(2) by (metis dvd_triv_left)+
  then have "16 dvd length (?h @ s @ 0 # junk)" by (metis dvd_add_right_iff length_append)
  then have "string_tokens (string_type key) s (?h @ s @ 0 # junk)" unfolding string_tokens_def using t(3) by (intro exI[of _ junk]) simp
  moreover have "length (?h @ s @ 0 # junk) \<le> 32 + length s" using t(3) by simp
  ultimately show ?thesis using t(1,2) by (intro exI[of _ st'] exI[of _ "?h @ s @ 0 # junk"]) simp
qed

lemma open_at_fields:
  assumes "open_at opened st pre ty n nv coll body"
  shows "stack_open st = opened" "opened \<noteq> 0" "jitson_get_type st (opened - 1) = Some ty" "jitson_get_no_value st (opened - 1) = Some nv"
    "jitson_get_nested st (opened - 1) = Some 0" "jitson_get_collection st (opened - 1) = Some coll"
    "\<exists>st'. jitson_set_no_value st (opened - 1) w = Some st' \<and> open_at opened st' pre ty n w coll body"
    "\<exists>st'. jitson_get_len st (opened - 1) = Some (of_nat n) \<and> jitson_set_len st (opened - 1) (of_nat n + 1) = Some st'
      \<and> open_at opened st' pre ty (Suc n) nv coll body"
proof -
  obtain j where o: "opened \<noteq> 0" "jitson_at (opened - 1) = length pre" "length j = 2"
      and h: "stack_holds opened st (pre @ open_header ty n nv j coll @ body)" using assms unfolding open_at_def by blast
  show "stack_open st = opened" "opened \<noteq> 0" using h o(1) by (simp_all add: stack_holds_def)
  have h1: "stack_holds opened st (pre @ le32_bytes ty @ le32_bytes (of_nat n) @ nv # 0 # j @ le32_bytes coll @ body)"
    using h by (simp add: open_header_def)
  show "jitson_get_type st (opened - 1) = Some ty" by (rule get_type_holds[OF h1 o(2)])
  show "jitson_get_no_value st (opened - 1) = Some nv" by (rule no_value_holds(1)[OF h1 o(2)])
  show "jitson_get_nested st (opened - 1) = Some 0" by (rule nested_holds(1)[OF h1 o(2)])
  show "jitson_get_collection st (opened - 1) = Some coll"
    by (rule collection_holds(1)[of opened st pre "le32_bytes ty @ le32_bytes (of_nat n) @ nv # 0 # j" "le32_bytes coll" body, OF _ o(2) _ _ refl])
       (use h1 o(3) in simp_all)
  obtain st' where "jitson_set_no_value st (opened - 1) w = Some st'"
    "stack_holds opened st' (pre @ le32_bytes ty @ le32_bytes (of_nat n) @ w # 0 # j @ le32_bytes coll @ body)"
    using no_value_holds(2)[OF h1 o(2), of w] by blast
  then show "\<exists>st'. jitson_set_no_value st (opened - 1) w = Some st' \<and> open_at opened st' pre ty n w coll body"
    using o unfolding open_at_def open_header_def by (intro exI[of _ st'] conjI exI[of _ j]) simp_all
  obtain st2 where "jitson_get_len st (opened - 1) = Some (of_nat n)" "jitson_set_len st (opened - 1) (of_nat n + 1) = Some st2"
    "stack_holds opened st2 (pre @ le32_bytes ty @ le32_bytes (of_nat (Suc n)) @ nv # 0 # j @ le32_bytes coll @ body)"
    using collection_bump[OF h1 o(2)] by blast
  then show "\<exists>st'. jitson_get_len st (opened - 1) = Some (of_nat n) \<and> jitson_set_len st (opened - 1) (of_nat n + 1) = Some st'
      \<and> open_at opened st' pre ty (Suc n) nv coll body"
    using o unfolding open_at_def open_header_def by (intro exI[of _ st2] conjI exI[of _ j]) simp_all
qed

lemma open_at_push:
  assumes "open_at opened st pre ty n nv coll body" and "malloc_ok malloc" and "\<forall>n. malloc n \<noteq> None"
    and "length (pre @ body) + length s + 80 < 2 ^ 31" and "type = (if key then SXE_JITSON_TYPE_IS_KEY else 0)" and "0 \<notin> set s"
  shows "\<exists>st' blk. sxe_jitson_stack_push_string malloc st address s type = Some (True, st') \<and> open_at opened st' pre ty n nv coll (body @ blk)
    \<and> string_tokens (string_type key) s blk \<and> length blk \<le> 32 + length s"
proof -
  obtain j where o: "opened \<noteq> 0" "jitson_at (opened - 1) = length pre" "length j = 2"
      and h: "stack_holds opened st (pre @ open_header ty n nv j coll @ body)" using assms(1) unfolding open_at_def by blast
  have "length (pre @ open_header ty n nv j coll @ body) + length s + 64 < 2 ^ 31" using assms(4) o(3) by (simp add: open_header_def)
  from push_string_ok[OF assms(2,3) h this assms(5,6)]
  obtain st' blk where p: "sxe_jitson_stack_push_string malloc st address s type = Some (True, st')"
    "stack_holds opened st' ((pre @ open_header ty n nv j coll @ body) @ blk)" "string_tokens (string_type key) s blk" "length blk \<le> 32 + length s" by blast
  have "open_at opened st' pre ty n nv coll (body @ blk)" using o p(2) unfolding open_at_def by (intro conjI exI[of _ j]) simp_all
  then show ?thesis using p(1,3,4) by blast
qed

lemma add_string_ok:
  assumes "malloc_ok malloc" and "\<forall>n. malloc n \<noteq> None" and "0 \<notin> set s"
  shows "adds malloc (JString s) [AddString s] (32 + length s)"
  unfolding adds_def
proof (intro allI impI)
  fix opened st pre ty n nv coll body
  assume o: "open_at opened st pre ty n nv coll body" and ty: "ty = SXE_JITSON_TYPE_ARRAY \<or> ty = SXE_JITSON_TYPE_OBJECT \<and> nv \<noteq> 0"
    and len: "length (pre @ body) + (32 + length s) + 48 < 2 ^ 31"
  obtain st1 where v: "jitson_set_no_value st (opened - 1) 0 = Some st1" and o1: "open_at opened st1 pre ty n 0 coll body"
    using open_at_fields(7)[OF o] by blast
  have "length (pre @ body) + length s + 80 < 2 ^ 31" using len by simp
  from open_at_push[OF o1 assms(1,2) this _ assms(3), of 0 False 0]
  obtain st2 blk where p: "sxe_jitson_stack_push_string malloc st1 0 s 0 = Some (True, st2)" "open_at opened st2 pre ty n 0 coll (body @ blk)"
    "string_tokens (string_type False) s blk" "length blk \<le> 32 + length s" by auto
  obtain st3 where b: "jitson_get_len st2 (opened - 1) = Some (of_nat n)" "jitson_set_len st2 (opened - 1) (of_nat n + 1) = Some st3"
    "open_at opened st3 pre ty (Suc n) 0 coll (body @ blk)" using open_at_fields(8)[OF p(2)] by blast
  have "jrep (JString s) blk" by (rule rep_string) (use p(3) in \<open>simp add: string_type_def\<close>)
  moreover have "run_calls malloc st [AddString s] = Some (True, st3)"
    using open_at_fields(1-4)[OF o] ty v p(1) b(1,2) by (auto simp: sxe_jitson_stack_add_string_def Let_def SXE_JITSON_TYPE_IS_COPY_def)
  ultimately show "\<exists>st' blk. run_calls malloc st [AddString s] = Some (True, st') \<and> open_at opened st' pre ty (Suc n) 0 coll (body @ blk)
      \<and> jrep (JString s) blk \<and> length blk \<le> 32 + length s"
    using b(3) p(4) by blast
qed

lemma member_name_ok:
  assumes "malloc_ok malloc" and "\<forall>n. malloc n \<noteq> None" and o: "open_at opened st pre SXE_JITSON_TYPE_OBJECT n 0 coll body"
    and len: "length (pre @ body) + length s + 80 < 2 ^ 31" and "0 \<notin> set s"
  shows "\<exists>st' blk. run_call malloc st (MemberName s) = Some (True, st') \<and> open_at opened st' pre SXE_JITSON_TYPE_OBJECT n 1 coll (body @ blk)
    \<and> string_tokens (string_type True) s blk \<and> length blk \<le> 32 + length s"
proof -
  obtain st1 where v: "jitson_set_no_value st (opened - 1) 1 = Some st1" and o1: "open_at opened st1 pre SXE_JITSON_TYPE_OBJECT n 1 coll body"
    using open_at_fields(7)[OF o] by blast
  from open_at_push[OF o1 assms(1,2) len _ assms(5), of SXE_JITSON_TYPE_IS_KEY True 0]
  obtain st2 blk where p: "sxe_jitson_stack_push_string malloc st1 0 s SXE_JITSON_TYPE_IS_KEY = Some (True, st2)"
    "open_at opened st2 pre SXE_JITSON_TYPE_OBJECT n 1 coll (body @ blk)" "string_tokens (string_type True) s blk" "length blk \<le> 32 + length s" by auto
  have "run_call malloc st (MemberName s) = Some (True, st2)"
    using open_at_fields(1-4)[OF o] v p(1) by (simp add: sxe_jitson_stack_add_member_name_def Let_def SXE_JITSON_TYPE_IS_COPY_def)
  then show ?thesis using p(2-4) by blast
qed

section \<open>Opening and closing collections\<close>

lemma stack_holds_open: "stack_holds opened st c \<Longrightarrow> stack_holds o2 (st\<lparr>stack_open := o2\<rparr>) c"
  by (cases "stack_jitsons st") (simp_all add: stack_holds_def)

lemma init_collection:
  assumes "stack_holds opened st (c @ tok)" and "length tok = 16" and "jitson_at index = length c" and "index \<noteq> SXE_JITSON_STACK_ERROR"
  shows "\<exists>st1 st2 st3 st4 st5. jitson_set_type st index t = Some st1 \<and> jitson_set_len st1 index 0 = Some st2
    \<and> jitson_set_no_value st2 index 0 = Some st3 \<and> jitson_set_nested st3 index 0 = Some st4 \<and> stack_open st4 = opened
    \<and> jitson_set_collection st4 index opened = Some st5 \<and> open_at (index + 1) (st5\<lparr>stack_open := index + 1\<rparr>) c t 0 0 opened []"
proof -
  from token_header[OF assms(1-3), of t]
  obtain st1 st2 x where s: "jitson_set_type st index t = Some st1" "jitson_set_len st1 index 0 = Some st2" "length x = 8"
    and h2: "stack_holds opened st2 (c @ le32_bytes t @ le32_bytes (of_nat 0) @ x)" by blast
  obtain x0 x1 j cb where x: "x = x0 # x1 # j @ cb" "length j = 2" "length cb = 4"
  proof -
    have "x = (x ! 0) # (x ! 1) # take 2 (drop 2 x) @ drop 4 x" using s(3)
      by (intro nth_equalityI) (auto simp: nth_Cons' nth_append less_Suc_eq numeral_eq_Suc)
    then show ?thesis using that s(3) by auto
  qed
  obtain st3 where 3: "jitson_set_no_value st2 index 0 = Some st3" "stack_holds opened st3 (c @ le32_bytes t @ le32_bytes (of_nat 0) @ 0 # x1 # j @ cb)"
    using no_value_holds(2)[of opened st2 c t "of_nat 0" x0 "x1 # j @ cb" index 0] h2 x(1) assms(3) by auto
  obtain st4 where 4: "jitson_set_nested st3 index 0 = Some st4" "stack_holds opened st4 (c @ le32_bytes t @ le32_bytes (of_nat 0) @ 0 # 0 # j @ cb)"
    using nested_holds(2)[OF 3(2) assms(3), of 0] by blast
  have "stack_holds opened st4 (c @ (le32_bytes t @ le32_bytes (of_nat 0) @ 0 # 0 # j) @ cb @ [])" using 4(2) by simp
  from collection_holds(2)[OF this assms(3), of opened] x(2,3)
  obtain st5 where 5: "jitson_set_collection st4 index opened = Some st5"
    "stack_holds opened st5 (c @ (le32_bytes t @ le32_bytes (of_nat 0) @ 0 # 0 # j) @ le32_bytes opened @ [])" by auto
  have ne: "index + 1 \<noteq> 0" using assms(4) by (simp add: SXE_JITSON_STACK_ERROR_def eq_neg_iff_add_eq_0)
  have "open_at (index + 1) (st5\<lparr>stack_open := index + 1\<rparr>) c t 0 0 opened []"
    unfolding open_at_def using ne assms(3) x(2) stack_holds_open[OF 5(2), of "index + 1"]
    by (intro conjI exI[of _ j]) (simp_all add: open_header_def)
  then show ?thesis using s 3(1) 4 5(1) by (auto simp: stack_holds_def)
qed

lemma open_nested:
  assumes "open_at opened st pre ty n nv coll body" and "malloc_ok malloc" and "\<forall>n. malloc n \<noteq> None"
    and "ty = SXE_JITSON_TYPE_ARRAY \<or> ty = SXE_JITSON_TYPE_OBJECT \<and> nv \<noteq> 0" and "length (pre @ body) + 48 < 2 ^ 31"
    and "t = SXE_JITSON_TYPE_ARRAY \<or> t = SXE_JITSON_TYPE_OBJECT"
  shows "\<exists>st' j o2. run_call malloc st (OpenCollection t) = Some (True, st') \<and> length j = 2
    \<and> open_at o2 st' (pre @ open_header ty (Suc n) 0 j coll @ body) t 0 0 opened []"
proof -
  from add_value_ok[OF assms(1-5)]
  obtain st1 index j tok where a: "sxe_jitson_stack_add_value malloc st 1 = Some (index, st1)" "index \<noteq> SXE_JITSON_STACK_ERROR" "length j = 2"
    and h: "stack_holds opened st1 ((pre @ open_header ty (Suc n) 0 j coll @ body) @ tok)" "length tok = 16"
      "jitson_at index = length (pre @ open_header ty (Suc n) 0 j coll @ body)" by blast
  from init_collection[OF h a(2), of t] show ?thesis
    using a open_at_fields(1,2)[OF assms(1)] assms(6) by (fastforce simp: sxe_jitson_stack_open_collection_def)
qed

lemma open_root:
  assumes "stack_holds 0 st c" and "malloc_ok malloc" and "\<forall>n. malloc n \<noteq> None" and "length c + 16 < 2 ^ 31"
    and "t = SXE_JITSON_TYPE_ARRAY \<or> t = SXE_JITSON_TYPE_OBJECT"
  shows "\<exists>st' o2. run_call malloc st (OpenCollection t) = Some (True, st') \<and> open_at o2 st' c t 0 0 0 []"
proof -
  from new_token_found[OF assms(1-4)]
  obtain st1 tok where e: "sxe_jitson_stack_expand malloc st 1 = Some (stack_count st, st1)" "stack_count st \<noteq> SXE_JITSON_STACK_ERROR"
    and h: "stack_holds 0 st1 (c @ tok)" "length tok = 16" "jitson_at (stack_count st) = length c" by blast
  have "stack_open st = 0" using assms(1) by (simp add: stack_holds_def)
  from init_collection[OF h e(2), of t]
  obtain s1 s2 s3 s4 s5 where "jitson_set_type st1 (stack_count st) t = Some s1" "jitson_set_len s1 (stack_count st) 0 = Some s2"
    "jitson_set_no_value s2 (stack_count st) 0 = Some s3" "jitson_set_nested s3 (stack_count st) 0 = Some s4" "stack_open s4 = 0"
    "jitson_set_collection s4 (stack_count st) 0 = Some s5"
    "open_at (stack_count st + 1) (s5\<lparr>stack_open := stack_count st + 1\<rparr>) c t 0 0 0 []" by blast
  then show ?thesis using \<open>stack_open st = 0\<close> e assms(5)
    by (intro exI[of _ "s5\<lparr>stack_open := stack_count st + 1\<rparr>"] exI[of _ "stack_count st + 1"])
       (auto simp: sxe_jitson_stack_open_collection_def)
qed

lemma close_ok:
  assumes "open_at opened st pre t n 0 coll body" and "length (pre @ body) + 16 < 2 ^ 31"
  shows "\<exists>st'. run_call malloc st CloseCollection = Some (True, st') \<and> stack_holds coll st' (pre @ collection_header t n body @ body)"
proof -
  obtain j where o: "opened \<noteq> 0" "jitson_at (opened - 1) = length pre" "length j = 2"
      and h: "stack_holds opened st (pre @ open_header t n 0 j coll @ body)" using assms(1) unfolding open_at_def by blast
  let ?st = "st\<lparr>stack_open := coll\<rparr>"
  have h1: "stack_holds coll ?st (pre @ le32_bytes t @ le32_bytes (of_nat n) @ (0 # 0 # j @ le32_bytes coll) @ body)"
    using stack_holds_open[OF h, of coll] by (simp add: open_header_def)
  have "length (0 # 0 # j @ le32_bytes coll) = 8" using o(3) by simp
  from collection_close[OF h1 o(2) this assms(2)]
  obtain st' where "jitson_set_integer ?st (opened - 1) (ucast (stack_count ?st - (opened - 1))) = Some st'"
    "stack_holds coll st' (pre @ collection_header t n body @ body)" by blast
  then show ?thesis using open_at_fields(1-6)[OF assms(1)]
    by (intro exI[of _ st']) (simp add: sxe_jitson_stack_close_collection_def Let_def)
qed

section \<open>Values\<close>

lemma run_calls_append:
  "run_calls malloc st cs = Some (True, st') \<Longrightarrow> run_calls malloc st (cs @ ds) = run_calls malloc st' ds"
  by (induction cs arbitrary: st) (auto split: Option.bind_splits if_splits)

lemma adds_all_Cons:
  assumes "adds malloc v (calls_of v) (value_space v)" and "adds_all malloc vs"
  shows "adds_all malloc (v # vs)"
  unfolding adds_all_def
proof (intro allI impI)
  fix opened st pre n coll body
  assume o: "open_at opened st pre SXE_JITSON_TYPE_ARRAY n 0 coll body" and len: "length (pre @ body) + elements_space (v # vs) + 48 < 2 ^ 31"
  have "length (pre @ body) + value_space v + 48 < 2 ^ 31" using len by simp
  from assms(1)[unfolded adds_def, rule_format, OF o disjI1[OF refl] this]
  obtain st1 b1 where 1: "run_calls malloc st (calls_of v) = Some (True, st1)" "open_at opened st1 pre SXE_JITSON_TYPE_ARRAY (Suc n) 0 coll (body @ b1)"
    "jrep v b1" "length b1 \<le> value_space v" by blast
  have "length (pre @ body @ b1) + elements_space vs + 48 < 2 ^ 31" using len 1(4) by simp
  from assms(2)[unfolded adds_all_def, rule_format, OF 1(2) this]
  obtain st2 b2 where 2: "run_calls malloc st1 (calls_elements vs) = Some (True, st2)"
    "open_at opened st2 pre SXE_JITSON_TYPE_ARRAY (Suc n + length vs) 0 coll ((body @ b1) @ b2)" "jreps vs b2" "length b2 \<le> elements_space vs" by blast
  have "jreps (v # vs) (b1 @ b2)" by (rule reps_cons[OF 1(3) 2(3)])
  then show "\<exists>st' blk. run_calls malloc st (calls_elements (v # vs)) = Some (True, st')
       \<and> open_at opened st' pre SXE_JITSON_TYPE_ARRAY (n + length (v # vs)) 0 coll (body @ blk) \<and> jreps (v # vs) blk \<and> length blk \<le> elements_space (v # vs)"
    using run_calls_append[OF 1(1)] 2 1(4) by (intro exI[of _ st2] exI[of _ "b1 @ b2"]) simp
qed

lemma adds_members_Cons:
  assumes "malloc_ok malloc" and "\<forall>n. malloc n \<noteq> None" and "adds malloc v (calls_of v) (value_space v)" and "adds_members malloc ms"
    and "0 \<notin> set k"
  shows "adds_members malloc ((k, v) # ms)"
  unfolding adds_members_def
proof (intro allI impI)
  fix opened st pre n coll body
  assume o: "open_at opened st pre SXE_JITSON_TYPE_OBJECT n 0 coll body" and len: "length (pre @ body) + members_space ((k, v) # ms) + 48 < 2 ^ 31"
  have "length (pre @ body) + length k + 80 < 2 ^ 31" using len by simp
  from member_name_ok[OF assms(1,2) o this assms(5)]
  obtain st0 kb where 0: "run_call malloc st (MemberName k) = Some (True, st0)" "open_at opened st0 pre SXE_JITSON_TYPE_OBJECT n 1 coll (body @ kb)"
    "string_tokens (string_type True) k kb" "length kb \<le> 32 + length k" by blast
  have "length (pre @ body @ kb) + value_space v + 48 < 2 ^ 31" using len 0(4) by simp
  from assms(3)[unfolded adds_def, rule_format, OF 0(2) _ this]
  obtain st1 b1 where 1: "run_calls malloc st0 (calls_of v) = Some (True, st1)"
    "open_at opened st1 pre SXE_JITSON_TYPE_OBJECT (Suc n) 0 coll ((body @ kb) @ b1)" "jrep v b1" "length b1 \<le> value_space v" by auto
  have "length (pre @ (body @ kb) @ b1) + members_space ms + 48 < 2 ^ 31" using len 1(4) 0(4) by simp
  from assms(4)[unfolded adds_members_def, rule_format, OF 1(2) this]
  obtain st2 b2 where 2: "run_calls malloc st1 (calls_members ms) = Some (True, st2)"
    "open_at opened st2 pre SXE_JITSON_TYPE_OBJECT (Suc n + length ms) 0 coll (((body @ kb) @ b1) @ b2)" "jmembers ms b2" "length b2 \<le> members_space ms" by blast
  have "jmembers ((k, v) # ms) (kb @ b1 @ b2)" by (rule members_cons[OF _ 1(3) 2(3)]) (use 0(3) in \<open>simp add: string_type_def\<close>)
  then show "\<exists>st' blk. run_calls malloc st (calls_members ((k, v) # ms)) = Some (True, st')
       \<and> open_at opened st' pre SXE_JITSON_TYPE_OBJECT (n + length ((k, v) # ms)) 0 coll (body @ blk) \<and> jmembers ((k, v) # ms) blk
       \<and> length blk \<le> members_space ((k, v) # ms)"
    using 0(1,4) run_calls_append[OF 1(1)] 2 1(4) by (intro exI[of _ st2] exI[of _ "kb @ b1 @ b2"]) simp
qed

lemma collection_body:
  assumes "contents_ok malloc t cs m k rep" and "open_at opened st pre t 0 0 coll []" and "length pre + k + 48 < 2 ^ 31"
  shows "\<exists>st' blk. run_calls malloc st (cs @ [CloseCollection]) = Some (True, st') \<and> rep blk \<and> length blk \<le> k
    \<and> stack_holds coll st' (pre @ collection_header t m blk @ blk)"
proof -
  from assms(1)[unfolded contents_ok_def, THEN conjunct2, rule_format, OF assms(2,3)]
  obtain st1 blk where 1: "run_calls malloc st cs = Some (True, st1)" "open_at opened st1 pre t m 0 coll blk" "rep blk" "length blk \<le> k" by blast
  have "length (pre @ blk) + 16 < 2 ^ 31" using 1(4) assms(3) by simp
  from close_ok[OF 1(2) this] obtain st2 where "run_call malloc st1 CloseCollection = Some (True, st2)"
    "stack_holds coll st2 (pre @ collection_header t m blk @ blk)" by blast
  then show ?thesis using run_calls_append[OF 1(1), of "[CloseCollection]"] 1(3,4) by (intro exI[of _ st2] exI[of _ blk]) simp
qed

lemma collection_adds:
  assumes "malloc_ok malloc" and "\<forall>n. malloc n \<noteq> None" and c: "contents_ok malloc t cs m k rep"
    and rep: "\<And>blk. rep blk \<Longrightarrow> jrep v (collection_header t m blk @ blk)"
  shows "adds malloc v (OpenCollection t # cs @ [CloseCollection]) (16 + k)"
  unfolding adds_def
proof (intro allI impI)
  fix opened st pre ty n nv coll body
  assume o: "open_at opened st pre ty n nv coll body" and ty: "ty = SXE_JITSON_TYPE_ARRAY \<or> ty = SXE_JITSON_TYPE_OBJECT \<and> nv \<noteq> 0"
    and len: "length (pre @ body) + (16 + k) + 48 < 2 ^ 31"
  have l1: "length (pre @ body) + 48 < 2 ^ 31" and t: "t = SXE_JITSON_TYPE_ARRAY \<or> t = SXE_JITSON_TYPE_OBJECT"
    using len c by (simp_all add: contents_ok_def)
  from open_nested[OF o assms(1,2) ty l1 t]
  obtain st1 j o2 where 1: "run_call malloc st (OpenCollection t) = Some (True, st1)" "length j = 2"
    "open_at o2 st1 (pre @ open_header ty (Suc n) 0 j coll @ body) t 0 0 opened []" by blast
  have "length (pre @ open_header ty (Suc n) 0 j coll @ body) + k + 48 < 2 ^ 31" using len 1(2) by (simp add: open_header_def)
  from collection_body[OF c 1(3) this]
  obtain st2 blk where 2: "run_calls malloc st1 (cs @ [CloseCollection]) = Some (True, st2)" "rep blk" "length blk \<le> k"
    "stack_holds opened st2 ((pre @ open_header ty (Suc n) 0 j coll @ body) @ collection_header t m blk @ blk)" by blast
  have "open_at opened st2 pre ty (Suc n) 0 coll (body @ collection_header t m blk @ blk)"
    using o 1(2) 2(4) unfolding open_at_def by (intro conjI exI[of _ j]) auto
  then show "\<exists>st' blk. run_calls malloc st (OpenCollection t # cs @ [CloseCollection]) = Some (True, st')
      \<and> open_at opened st' pre ty (Suc n) 0 coll (body @ blk) \<and> jrep v blk \<and> length blk \<le> 16 + k"
    using 1(1) 2(1,3) rep[OF 2(2)] by (intro exI[of _ st2] exI[of _ "collection_header t m blk @ blk"]) (simp add: collection_header_def)
qed

lemma elements_contents:
  assumes "adds_all malloc vs"
  shows "contents_ok malloc SXE_JITSON_TYPE_ARRAY (calls_elements vs) (length vs) (elements_space vs) (jreps vs)"
  unfolding contents_ok_def
proof (intro conjI allI impI)
  fix opened st pre coll
  assume o: "open_at opened st pre SXE_JITSON_TYPE_ARRAY 0 0 coll []" and "length pre + elements_space vs + 48 < 2 ^ 31"
  then have "length (pre @ []) + elements_space vs + 48 < 2 ^ 31" by simp
  from assms[unfolded adds_all_def, rule_format, OF o this]
  show "\<exists>st' blk. run_calls malloc st (calls_elements vs) = Some (True, st') \<and> open_at opened st' pre SXE_JITSON_TYPE_ARRAY (length vs) 0 coll blk
      \<and> jreps vs blk \<and> length blk \<le> elements_space vs" by simp
qed simp

lemma members_contents:
  assumes "adds_members malloc ms"
  shows "contents_ok malloc SXE_JITSON_TYPE_OBJECT (calls_members ms) (length ms) (members_space ms) (jmembers ms)"
  unfolding contents_ok_def
proof (intro conjI allI impI)
  fix opened st pre coll
  assume o: "open_at opened st pre SXE_JITSON_TYPE_OBJECT 0 0 coll []" and "length pre + members_space ms + 48 < 2 ^ 31"
  then have "length (pre @ []) + members_space ms + 48 < 2 ^ 31" by simp
  from assms[unfolded adds_members_def, rule_format, OF o this]
  show "\<exists>st' blk. run_calls malloc st (calls_members ms) = Some (True, st') \<and> open_at opened st' pre SXE_JITSON_TYPE_OBJECT (length ms) 0 coll blk
      \<and> jmembers ms blk \<and> length blk \<le> members_space ms" by simp
qed simp

lemma values_added:
  assumes "malloc_ok malloc" and "\<forall>n. malloc n \<noteq> None"
  shows "c_strings v \<Longrightarrow> adds malloc v (calls_of v) (value_space v)" and "c_strings_elements vs \<Longrightarrow> adds_all malloc vs"
    and "c_strings_members ms \<Longrightarrow> adds_members malloc ms"
proof (induction v and vs and ms rule: calls_of_calls_elements_calls_members.induct)
  case (6 vs)
  then show ?case using collection_adds[OF assms elements_contents rep_array] by simp
next
  case (7 ms)
  then show ?case using collection_adds[OF assms members_contents rep_object] by simp
next
  case 8
  then show ?case unfolding adds_all_def using reps_nil by fastforce
next
  case 10
  then show ?case unfolding adds_members_def using members_nil by fastforce
next
  case 1
  then show ?case using add_token_ok[OF null_fills assms] by (simp add: sxe_jitson_stack_add_null_def)
next
  case (2 b)
  then show ?case using add_token_ok[OF bool_fills assms] by (simp add: sxe_jitson_stack_add_bool_def)
next
  case (3 v)
  have "fills (JUint v) (\<lambda>st index. sxe_jitson_make_uint st index v)"
    by (rule integer_fills[OF rep_uint]) (simp_all add: sxe_jitson_make_uint_def)
  then show ?case using add_token_ok[OF _ assms] by (simp add: sxe_jitson_stack_add_uint_def)
next
  case (4 v)
  have "fills (JReal v) (\<lambda>st index. sxe_jitson_make_number st index v)"
    by (rule integer_fills[OF rep_real]) (simp_all add: sxe_jitson_make_number_def)
  then show ?case using add_token_ok[OF _ assms] by (simp add: sxe_jitson_stack_add_number_def)
next
  case (5 s)
  then show ?case using add_string_ok[OF assms] by simp
next
  case (9 v vs)
  then show ?case by (intro adds_all_Cons) simp_all
next
  case (11 k v ms)
  then show ?case by (intro adds_members_Cons[OF assms]) simp_all
qed

text \<open>
  C33: the calls that build an array or an object by hand, with everything in it, succeed, whatever is on the stack already, and push
  tokens that represent the value, as the parser does for a text of it.
\<close>

lemma sxe_jitson_stack_build_represents:
  assumes "malloc_ok malloc" and "\<forall>n. malloc n \<noteq> None" and "stack_holds 0 st c" and "v = JArray vs \<or> v = JObject ms" and "c_strings v"
    and "length c + value_space v + 64 < 2 ^ 31"
  shows "\<exists>st' blk. run_calls malloc st (calls_of v) = Some (True, st') \<and> stack_holds 0 st' (c @ blk) \<and> jrep v blk \<and> length blk \<le> value_space v"
proof -
  have main: "\<exists>st' blk. run_calls malloc st (OpenCollection t # cs @ [CloseCollection]) = Some (True, st') \<and> stack_holds 0 st' (c @ blk) \<and> jrep v blk
      \<and> length blk \<le> 16 + k"
    if t: "contents_ok malloc t cs m k rep" and rep: "\<And>blk. rep blk \<Longrightarrow> jrep v (collection_header t m blk @ blk)" and len: "length c + k + 48 < 2 ^ 31"
    for t cs m k rep
  proof -
    have "length c + 16 < 2 ^ 31" using len by simp
    have "t = SXE_JITSON_TYPE_ARRAY \<or> t = SXE_JITSON_TYPE_OBJECT" using t by (simp only: contents_ok_def)
    from open_root[OF assms(3,1,2) \<open>length c + 16 < 2 ^ 31\<close> this]
    obtain st1 o2 where 1: "run_call malloc st (OpenCollection t) = Some (True, st1)" "open_at o2 st1 c t 0 0 0 []" by blast
    from collection_body[OF t 1(2) len]
    obtain st2 blk where 2: "run_calls malloc st1 (cs @ [CloseCollection]) = Some (True, st2)" "rep blk" "length blk \<le> k"
      "stack_holds 0 st2 (c @ collection_header t m blk @ blk)" by blast
    then show ?thesis using 1(1) rep[OF 2(2)]
      by (intro exI[of _ st2] exI[of _ "collection_header t m blk @ blk"]) (simp add: collection_header_def)
  qed
  from assms(4) show ?thesis
  proof
    assume v: "v = JArray vs"
    have "adds_all malloc vs" using values_added(2)[OF assms(1,2)] assms(5) v by simp
    from main[OF elements_contents[OF this]] show ?thesis using v assms(6) rep_array by simp
  next
    assume v: "v = JObject ms"
    have "adds_members malloc ms" using values_added(3)[OF assms(1,2)] assms(5) v by simp
    from main[OF members_contents[OF this]] show ?thesis using v assms(6) rep_object by simp
  qed
qed

lemma sxe_jitson_stack_build_represents_witness:
  "\<exists>st' blk. run_calls sample_malloc (snd (sxe_jitson_stack_make sample_malloc 1)) (calls_of (JObject [(lit ''a'', JArray [JNull, JUint 7])])) = Some (True, st')
    \<and> stack_holds 0 st' ([] @ blk) \<and> jrep (JObject [(lit ''a'', JArray [JNull, JUint 7])]) blk
    \<and> length blk \<le> value_space (JObject [(lit ''a'', JArray [JNull, JUint 7])])"
  by (rule sxe_jitson_stack_build_represents[OF _ _ made_stack_holds]) (simp_all add: sample_malloc_def malloc_ok_def lit_def)

end
