(* ===== verification/SxeJitsonNew.thy ===== *)
theory SxeJitsonNew
  imports SxeJitsonSound
begin

text \<open>
  \<^verbatim>\<open>sxe_jitson_new\<close> of \<^verbatim>\<open>lib-sxe-jitson/sxe-jitson.c\<close>: a text is parsed onto the stack of the thread and its tokens are taken off it. The lemmas compose
  what the parser does with the life of that stack.
\<close>

unbundle bit_operations_syntax

section \<open>The stack of a thread\<close>

text \<open>The stack is kept even when its tokens cannot be allocated; \<open>allocated\<close> says whether there is memory for the stack itself.\<close>

definition sxe_jitson_stack_get_thread ::
    "(u64 \<Rightarrow> u8 list option) \<Rightarrow> bool \<Rightarrow> u32 \<Rightarrow> sxe_jitson_stack option \<Rightarrow> bool \<times> sxe_jitson_stack option" where
  "sxe_jitson_stack_get_thread malloc allocated init_size jitson_stack =
    (case jitson_stack of
       Some stack \<Rightarrow> (True, Some stack)
     | None \<Rightarrow>
         if \<not> allocated then (False, None)
         else let (made, stack) = sxe_jitson_stack_make malloc init_size in (made, Some stack))"

text \<open>\<open>sxe_jitson_new\<close>: the tokens of a text, an inner \<^const>\<open>None\<close> for NULL, and the stack of the thread.\<close>

definition sxe_jitson_new ::
    "jitson_env \<Rightarrow> u32 \<Rightarrow> bool \<Rightarrow> u32 \<Rightarrow> sxe_jitson_stack option \<Rightarrow> u8 list \<Rightarrow> (u8 list option \<times> sxe_jitson_stack option) option" where
  "sxe_jitson_new env flags allocated init_size jitson_stack json =
    (case sxe_jitson_stack_get_thread (env_malloc env) allocated init_size jitson_stack of
       (True, Some stack) \<Rightarrow> do {
         (parsed, stack) \<leftarrow> sxe_jitson_stack_parse_json env flags stack json;
         case parsed of
           None \<Rightarrow> Some (None, Some (sxe_jitson_stack_clear stack))
         | Some _ \<Rightarrow> do {
             (jitson, stack) \<leftarrow> sxe_jitson_stack_get_jitson (env_malloc env) stack;
             Some (Some jitson, Some stack)
           }
       }
     | (_, jitson_stack) \<Rightarrow> Some (None, jitson_stack))"

text \<open>The tokens of a value that have been taken off a stack, with what \<open>realloc\<close> could not give back behind them.\<close>

definition taken_tokens :: "json \<Rightarrow> u8 list \<Rightarrow> bool" where
  "taken_tokens v tokens \<longleftrightarrow> (\<exists>blk junk. jrep v blk \<and>
     tokens = le32_bytes (le32 (take 4 blk) OR SXE_JITSON_TYPE_ALLOCED) @ drop 4 blk @ junk)"

text \<open>A text of a value at the start of \<open>t\<close>, after white space; and one that something ends that cannot go on an identifier, the NUL after \<open>t\<close> included.\<close>

definition accepted_at_start :: "(u8 list \<Rightarrow> u64) \<Rightarrow> json \<Rightarrow> u8 list \<Rightarrow> bool" where
  "accepted_at_start dbl v t \<longleftrightarrow> (\<exists>w x rest. t = w @ x @ rest \<and> ws w \<and> accepted_text dbl v x)"

definition accepted_ended :: "(u8 list \<Rightarrow> u64) \<Rightarrow> json \<Rightarrow> u8 list \<Rightarrow> bool" where
  "accepted_ended dbl v t \<longleftrightarrow> (\<exists>w x d rest. t @ [0] = w @ x @ d # rest \<and> ws w \<and> accepted_text dbl v x \<and> \<not> is_identifier_char d)"

text \<open>The stack of the thread is not there yet, or has nothing on it.\<close>

definition thread_ready :: "u32 \<Rightarrow> sxe_jitson_stack option \<Rightarrow> bool" where
  "thread_ready init_size ts \<longleftrightarrow> (case ts of None \<Rightarrow> 0 < init_size | Some stack \<Rightarrow> stack_holds 0 stack [])"

lemma jrep_length: "jrep v blk \<Longrightarrow> 16 \<le> length blk"
  by (cases rule: jrep.cases) (auto simp: string_tokens_def collection_header_def dvd_def)

lemma get_jitson_ok:
  assumes "malloc_ok malloc" and "stack_holds 0 st blk" and "jrep v blk"
  shows "\<exists>tokens st'. sxe_jitson_stack_get_jitson malloc st = Some (tokens, st') \<and> taken_tokens v tokens \<and> stack_holds 0 st' []"
proof -
  have l: "16 \<le> length blk" by (rule jrep_length[OF assms(3)])
  obtain m where m: "stack_jitsons st = Some m" "length m = 16 * unat (stack_maximum st)" "blk = take (16 * unat (stack_count st)) m"
    using assms(2) l by (auto simp: stack_holds_def split: option.splits)
  have c: "stack_open st = 0" "0 < stack_maximum st" "stack_count st \<le> stack_maximum st" "length blk = 16 * unat (stack_count st)"
    using assms(2) stack_holds_length[OF assms(2)] by (simp_all add: stack_holds_def)
  let ?ret = "if stack_count st < stack_maximum st
    then (case sxe_realloc malloc (Some m) (ucast (stack_count st) * 16) of Some new \<Rightarrow> new | None \<Rightarrow> m) else m"
  have "\<exists>junk. ?ret = blk @ junk"
  proof (cases "stack_count st < stack_maximum st \<and> malloc (ucast (stack_count st) * 16) \<noteq> None")
    case True
    then show ?thesis using m(3) by (auto simp: sxe_realloc_def unat_bytes)
  next
    case False
    have "\<exists>junk. m = blk @ junk" using m(3) by (metis append_take_drop_id)
    then show ?thesis using False by (auto simp: sxe_realloc_def)
  qed
  then obtain junk where ret: "?ret = blk @ junk" by blast
  let ?tokens = "le32_bytes (le32 (take 4 blk) OR SXE_JITSON_TYPE_ALLOCED) @ drop 4 blk @ junk"
  have "write_at 0 (le32_bytes (le32 (take 4 (blk @ junk)) OR SXE_JITSON_TYPE_ALLOCED)) (blk @ junk) = Some ?tokens"
    using l by (simp add: write_at_def)
  then have "sxe_jitson_stack_get_jitson malloc st = Some (?tokens, st\<lparr>stack_jitsons := None, stack_count := 0\<rparr>)"
    unfolding sxe_jitson_stack_get_jitson_def m(1) Let_def using c(1) m(1) ret by simp
  moreover have "taken_tokens v ?tokens" unfolding taken_tokens_def using assms(3) by blast
  moreover have "stack_holds 0 (st\<lparr>stack_jitsons := None, stack_count := 0\<rparr>) []" using c by (simp add: stack_holds_def)
  ultimately show ?thesis by blast
qed

lemma get_thread_ok:
  assumes "malloc_ok malloc" and "thread_ready init_size ts"
  shows "(\<exists>ts'. sxe_jitson_stack_get_thread malloc allocated init_size ts = (False, ts') \<and> thread_ready init_size ts' \<and>
      (\<not> allocated \<or> (\<exists>n. malloc n = None))) \<or>
    (\<exists>st. sxe_jitson_stack_get_thread malloc allocated init_size ts = (True, Some st) \<and> stack_holds 0 st [])"
proof (cases ts)
  case (Some st)
  then show ?thesis using assms(2) by (simp add: sxe_jitson_stack_get_thread_def thread_ready_def)
next
  case None
  then have i: "0 < init_size" using assms(2) by (simp add: thread_ready_def)
  show ?thesis
  proof (cases "malloc (ucast init_size * 16)")
    case m: None
    then show ?thesis using None i
      by (auto simp: sxe_jitson_stack_get_thread_def sxe_jitson_stack_make_def thread_ready_def stack_holds_def)
  next
    case (Some b)
    then have "length b = 16 * unat init_size" using assms(1) by (simp add: malloc_ok_def unat_bytes)
    then show ?thesis using None i Some
      by (auto simp: sxe_jitson_stack_get_thread_def sxe_jitson_stack_make_def thread_ready_def stack_holds_def)
  qed
qed

lemma new_value:
  assumes "malloc_ok (env_malloc env)" and "strtod_ok env dbl" and "0 \<notin> set t" and "plain_text t" and "16 * length t + 32 < 2 ^ 31"
    and "thread_ready init_size ts"
  shows "\<exists>res ts'. sxe_jitson_new env SXE_JITSON_FLAG_STRICT allocated init_size ts (t @ 0 # r) = Some (res, ts') \<and> thread_ready init_size ts'
    \<and> (\<forall>tokens. res = Some tokens \<longrightarrow> (\<exists>v. accepted_at_start dbl v t \<and> taken_tokens v tokens))
    \<and> (\<forall>v. allocated \<and> (\<forall>n. env_malloc env n \<noteq> None) \<and> accepted_ended dbl v t \<longrightarrow> (\<exists>tokens. res = Some tokens \<and> taken_tokens v tokens))"
proof -
  from get_thread_ok[OF assms(1,6), of allocated] show ?thesis
  proof (elim disjE exE conjE)
    fix ts' assume "sxe_jitson_stack_get_thread (env_malloc env) allocated init_size ts = (False, ts')" "thread_ready init_size ts'" "\<not> allocated"
    then show ?thesis by (simp add: sxe_jitson_new_def)
  next
    fix ts' n assume "sxe_jitson_stack_get_thread (env_malloc env) allocated init_size ts = (False, ts')" "thread_ready init_size ts'" "env_malloc env n = None"
    then show ?thesis by (auto simp: sxe_jitson_new_def)
  next
    fix st assume th: "sxe_jitson_stack_get_thread (env_malloc env) allocated init_size ts = (True, Some st)" and h: "stack_holds 0 st []"
    let ?t = "t @ 0 # r"
    have len: "length [] + 16 * length t + 32 < 2 ^ 31" using assms(5) by simp
    obtain used st' where p: "sxe_jitson_stack_parse_json env SXE_JITSON_FLAG_STRICT st ?t = Some (used, st')"
      and c: "case used of None \<Rightarrow> stack_holds 0 st' []
       | Some n \<Rightarrow> \<exists>w x rest v blk. t = w @ x @ rest \<and> n = length (w @ x) \<and> ws w \<and> accepted_text dbl v x
           \<and> stack_holds 0 st' ([] @ blk) \<and> jrep v blk"
      using parse_json_sound[OF assms(1-4) h len] by blast
    have full: "\<exists>blk. used \<noteq> None \<and> stack_holds 0 st' blk \<and> jrep v blk" if m: "\<forall>n. env_malloc env n \<noteq> None" and "accepted_ended dbl v t" for v
    proof -
      obtain w x d rest where x: "t @ [0] = w @ x @ d # rest" "ws w" "accepted_text dbl v x" "\<not> is_identifier_char d"
        using \<open>accepted_ended dbl v t\<close> unfolding accepted_ended_def by blast
      have e: "parser_env env dbl" using m assms(1,2) by (simp add: parser_env_def)
      have "?t = (t @ [0]) @ r" by simp
      also have "\<dots> = w @ x @ d # (rest @ r)" using x(1) by simp
      finally have eq: "?t = w @ x @ d # (rest @ r)" .
      have "length (t @ [0]) = length (w @ x @ d # rest)" by (rule arg_cong[OF x(1)])
      then have "length x \<le> length t" by simp
      then have "length [] + 16 * length x + 32 < 2 ^ 31" using assms(5) by simp
      from parse_json_complete[OF e x(3,2,4) h this, of "rest @ r"] show ?thesis using p unfolding eq by auto
    qed
    show ?thesis
    proof (cases used)
      case None
      have "thread_ready init_size (Some (sxe_jitson_stack_clear st'))"
        using c None by (auto simp: thread_ready_def sxe_jitson_stack_clear_def stack_holds_def split: option.splits)
      moreover have "sxe_jitson_new env SXE_JITSON_FLAG_STRICT allocated init_size ts ?t = Some (None, Some (sxe_jitson_stack_clear st'))"
        using th p None by (simp add: sxe_jitson_new_def)
      moreover have "\<not> ((\<forall>n. env_malloc env n \<noteq> None) \<and> accepted_ended dbl v t)" for v using full[of v] None by auto
      ultimately show ?thesis by (intro exI[of _ None] exI[of _ "Some (sxe_jitson_stack_clear st')"]) (auto simp del: not_None_eq)
    next
      case (Some n)
      then obtain w x rest v blk where x: "t = w @ x @ rest" "ws w" "accepted_text dbl v x" "stack_holds 0 st' blk" "jrep v blk" using c by auto
      from get_jitson_ok[OF assms(1) x(4,5)]
      obtain tokens st2 where g: "sxe_jitson_stack_get_jitson (env_malloc env) st' = Some (tokens, st2)" "taken_tokens v tokens" "stack_holds 0 st2 []" by blast
      have new: "sxe_jitson_new env SXE_JITSON_FLAG_STRICT allocated init_size ts ?t = Some (Some tokens, Some st2)"
        using th p Some g(1) by (simp add: sxe_jitson_new_def)
      have every: "taken_tokens v' tokens" if m: "\<forall>n. env_malloc env n \<noteq> None" and j: "accepted_ended dbl v' t" for v'
      proof -
        obtain blk' where b: "stack_holds 0 st' blk'" "jrep v' blk'" using full[OF m j] by blast
        from get_jitson_ok[OF assms(1) b] show ?thesis using g(1) by auto
      qed
      have "accepted_at_start dbl v t" unfolding accepted_at_start_def using x(1-3) by blast
      moreover have "thread_ready init_size (Some st2)" using g(3) by (simp add: thread_ready_def)
      ultimately show ?thesis using new g(2) every
        by (intro exI[of _ "Some tokens"] exI[of _ "Some st2"]) (auto simp del: not_None_eq)
    qed
  qed
qed

text \<open>
  C34: a new value from a text. On a text with no \<^verbatim>\<open>\\u\<close> escape of a code point from U+0080 on and no \<^verbatim>\<open>-0x\<close> anywhere in it
  (\<^const>\<open>plain_text\<close>), the call returns and the stack of the thread is ready for the next call, whether or not the text is JSON and whether or not there
  is memory. A value that is returned is the one of a text of the accepted grammar (RFC 8259, leading zeros, vertical tab and form feed, control
  characters in strings) at the start of the text, after white space. If there is memory
  and the text starts with white space and a text of that grammar that a byte ends that cannot go on an identifier, the tokens of
  its value are returned. With the \<^verbatim>\<open>\\u\<close> escapes that are left out the parser may write past its tokens, and nothing is claimed.
\<close>

lemma sxe_jitson_new_value:
  assumes "malloc_ok (env_malloc env)" and "strtod_ok env dbl" and "0 \<notin> set t" and "plain_text t" and "16 * length t + 32 < 2 ^ 31"
    and "thread_ready init_size ts"
  shows "\<exists>res ts'. sxe_jitson_new env SXE_JITSON_FLAG_STRICT allocated init_size ts (t @ 0 # r) = Some (res, ts') \<and> thread_ready init_size ts'
    \<and> (\<forall>tokens. res = Some tokens \<longrightarrow> (\<exists>v. accepted_at_start dbl v t \<and> taken_tokens v tokens))
    \<and> (\<forall>v. allocated \<and> (\<forall>n. env_malloc env n \<noteq> None) \<and> accepted_ended dbl v t \<longrightarrow> (\<exists>tokens. res = Some tokens \<and> taken_tokens v tokens))"
  by (rule new_value[OF assms])

lemma sxe_jitson_new_value_witness:
  "\<exists>res ts'. sxe_jitson_new sample_env SXE_JITSON_FLAG_STRICT True 1 None (lit ''[1,true]'' @ 0 # []) = Some (res, ts') \<and> thread_ready 1 ts'
    \<and> (\<forall>tokens. res = Some tokens \<longrightarrow> (\<exists>v. accepted_at_start (\<lambda>t. of_nat (length t)) v (lit ''[1,true]'') \<and> taken_tokens v tokens))
    \<and> (\<forall>v. True \<and> (\<forall>n. env_malloc sample_env n \<noteq> None) \<and> accepted_ended (\<lambda>t. of_nat (length t)) v (lit ''[1,true]'')
        \<longrightarrow> (\<exists>tokens. res = Some tokens \<and> taken_tokens v tokens))"
  by (rule sxe_jitson_new_value[OF _ sample_strtod])
     (auto simp: sample_env_def sample_malloc plain_text_def small_escapes_def lit_def thread_ready_def append_eq_Cons_conv Cons_eq_append_conv)

end
