(* ===== verification/SxeJitsonValue.thy ===== *)
theory SxeJitsonValue
  imports SxeJitsonSound
begin

text \<open>
  The accessors of \<^verbatim>\<open>lib-sxe-jitson\<close> (\<^verbatim>\<open>sxe-jitson.c\<close>, \<^verbatim>\<open>sxe-jitson-type.c\<close>). A value is read where it is in memory, since its first use as an
  array or object stores an index of it: the offsets of its elements, or buckets of its member names that are linked through
  their tokens. Memory is a map from addresses to bytes; \<^const>\<open>None\<close> is an abort or an access to memory that is not there. The hash
  function and the address that \<open>calloc\<close> returns are parameters, and one thread is modelled.
\<close>

unbundle bit_operations_syntax

section \<open>Memory\<close>

type_synonym jmem = "addr \<Rightarrow> u8 option"

fun mem_read :: "jmem \<Rightarrow> addr \<Rightarrow> nat \<Rightarrow> u8 list option" where
  "mem_read m a 0 = Some []"
| "mem_read m a (Suc n) = do { c \<leftarrow> m a; cs \<leftarrow> mem_read m (a + 1) n; Some (c # cs) }"

fun mem_write :: "jmem \<Rightarrow> addr \<Rightarrow> u8 list \<Rightarrow> jmem option" where
  "mem_write m a [] = Some m"
| "mem_write m a (c # cs) = do { _ \<leftarrow> m a; mem_write (m(a \<mapsto> c)) (a + 1) cs }"

definition le64 :: "u8 list \<Rightarrow> u64" where
  "le64 b = ucast (le32 (take 4 b)) OR push_bit 32 (ucast (le32 (drop 4 b)))"

definition mem_u32 :: "jmem \<Rightarrow> addr \<Rightarrow> u32 option" where
  "mem_u32 m a = map_option le32 (mem_read m a 4)"

definition mem_u64 :: "jmem \<Rightarrow> addr \<Rightarrow> u64 option" where
  "mem_u64 m a = map_option le64 (mem_read m a 8)"

partial_function (option) mem_strlen :: "jmem \<Rightarrow> addr \<Rightarrow> nat option" where
  "mem_strlen m a = do {
     c \<leftarrow> m a;
     if c = 0 then Some 0 else do { n \<leftarrow> mem_strlen m (a + 1); Some (Suc n) }
   }"

section \<open>Tokens\<close>

definition SXE_JITSON_TYPE_INDEXED :: u32 where "SXE_JITSON_TYPE_INDEXED = 0x40000000"

text \<open>The fields of the token at \<open>j\<close>, and the token at the offset \<open>i\<close> from it.\<close>

definition jit_type :: "jmem \<Rightarrow> addr \<Rightarrow> u32 option" where "jit_type m j = mem_u32 m j"
definition jit_len :: "jmem \<Rightarrow> addr \<Rightarrow> u32 option" where "jit_len m j = mem_u32 m (j + 4)"
definition jit_link :: "jmem \<Rightarrow> addr \<Rightarrow> u32 option" where "jit_link m j = mem_u32 m (j + 4)"
definition jit_integer :: "jmem \<Rightarrow> addr \<Rightarrow> u64 option" where "jit_integer m j = mem_u64 m (j + 8)"
definition jit_number :: "jmem \<Rightarrow> addr \<Rightarrow> u64 option" where "jit_number m j = mem_u64 m (j + 8)"
definition jit_boolean :: "jmem \<Rightarrow> addr \<Rightarrow> bool option" where "jit_boolean m j = map_option (\<lambda>c. c \<noteq> 0) (m (j + 8))"
definition jit_index :: "jmem \<Rightarrow> addr \<Rightarrow> addr option" where "jit_index m j = map_option uint (mem_u64 m (j + 8))"
definition jit_reference :: "jmem \<Rightarrow> addr \<Rightarrow> addr option" where "jit_reference m j = map_option uint (mem_u64 m (j + 8))"
definition jit_jitref :: "jmem \<Rightarrow> addr \<Rightarrow> addr option" where "jit_jitref m j = map_option uint (mem_u64 m (j + 8))"
definition jit_string :: "addr \<Rightarrow> addr" where "jit_string j = j + 8"
definition jit_nth :: "addr \<Rightarrow> u32 \<Rightarrow> addr" where "jit_nth j i = j + 16 * uint i"

definition sxe_jitson_is_reference :: "jmem \<Rightarrow> addr \<Rightarrow> bool option" where
  "sxe_jitson_is_reference m j = do { type \<leftarrow> jit_type m j; Some (type AND SXE_JITSON_TYPE_MASK = SXE_JITSON_TYPE_REFERENCE) }"

partial_function (option) sxe_jitson_get_type :: "jmem \<Rightarrow> addr \<Rightarrow> u32 option" where
  "sxe_jitson_get_type m j = do {
     r \<leftarrow> sxe_jitson_is_reference m j;
     if r then do { to \<leftarrow> jit_jitref m j; sxe_jitson_get_type m to }
     else do { type \<leftarrow> jit_type m j; Some (type AND SXE_JITSON_TYPE_MASK) }
   }"

text \<open>\<^verbatim>\<open>sxe_jitson_is_reference(jitson) ? jitson->jitref : jitson\<close>\<close>

definition jit_deref :: "jmem \<Rightarrow> addr \<Rightarrow> addr option" where
  "jit_deref m j = do { r \<leftarrow> sxe_jitson_is_reference m j; if r then jit_jitref m j else Some j }"

section \<open>Sizes and lengths\<close>

text \<open>The length of the string a reference refers to is cached in its token.\<close>

definition sxe_jitson_string_len :: "jmem \<Rightarrow> addr \<Rightarrow> (u64 \<times> jmem) option" where
  "sxe_jitson_string_len m j = do {
     type \<leftarrow> jit_type m j;
     if type AND SXE_JITSON_TYPE_IS_KEY \<noteq> 0 then do {
       string \<leftarrow> (if type AND SXE_JITSON_TYPE_IS_REF \<noteq> 0 then jit_reference m j else Some (jit_string j));
       n \<leftarrow> mem_strlen m string;
       Some (of_nat n, m)
     } else do {
       len \<leftarrow> jit_len m j;
       if len = 0 \<and> type AND SXE_JITSON_TYPE_IS_REF \<noteq> 0 then do {
         string \<leftarrow> jit_reference m j;
         n \<leftarrow> mem_strlen m string;
         m \<leftarrow> (if n < 2 ^ 32 then mem_write m (j + 4) (le32_bytes (of_nat n)) else Some m);
         Some (of_nat n, m)
       } else Some (ucast len, m)
     }
   }"

definition sxe_jitson_size_1 :: "u32 option" where "sxe_jitson_size_1 = Some 1"

definition sxe_jitson_string_size :: "jmem \<Rightarrow> addr \<Rightarrow> u32 option" where
  "sxe_jitson_string_size m j = do {
     type \<leftarrow> jit_type m j;
     if type AND SXE_JITSON_TYPE_IS_REF \<noteq> 0 then Some 1
     else do {
       (len, _) \<leftarrow> sxe_jitson_string_len m j;
       Some (ucast (1 + (len + of_nat SXE_JITSON_TOKEN_SIZE - of_nat SXE_JITSON_STRING_SIZE) div of_nat SXE_JITSON_TOKEN_SIZE))
     }
   }"

definition sxe_jitson_size_indexed :: "jmem \<Rightarrow> addr \<Rightarrow> u32 option" where
  "sxe_jitson_size_indexed m j = do {
     type \<leftarrow> jit_type m j;
     if type AND SXE_JITSON_TYPE_INDEXED \<noteq> 0 then do {
       index \<leftarrow> jit_index m j;
       len \<leftarrow> jit_len m j;
       mem_u32 m (index + 4 * uint len)
     } else do { integer \<leftarrow> jit_integer m j; Some (ucast integer) }
   }"

definition sxe_jitson_type_len :: "jmem \<Rightarrow> addr \<Rightarrow> u64 option" where
  "sxe_jitson_type_len m j = do { len \<leftarrow> jit_len m j; Some (ucast len) }"

text \<open>The functions of the types that \<open>sxe_jitson_type_init\<close> registers; \<^const>\<open>None\<close> is a call through a null pointer.\<close>

definition sxe_jitson_size :: "jmem \<Rightarrow> addr \<Rightarrow> u32 option" where
  "sxe_jitson_size m j = do {
     type \<leftarrow> jit_type m j;
     let t = type AND SXE_JITSON_TYPE_MASK;
     if t = SXE_JITSON_TYPE_NULL \<or> t = SXE_JITSON_TYPE_BOOL \<or> t = SXE_JITSON_TYPE_NUMBER \<or> t = SXE_JITSON_TYPE_REFERENCE then sxe_jitson_size_1
     else if t = SXE_JITSON_TYPE_STRING then sxe_jitson_string_size m j
     else if t = SXE_JITSON_TYPE_ARRAY \<or> t = SXE_JITSON_TYPE_OBJECT then sxe_jitson_size_indexed m j
     else None
   }"

definition type_len :: "jmem \<Rightarrow> u32 \<Rightarrow> addr \<Rightarrow> (u64 \<times> jmem) option" where
  "type_len m t j =
    (if t = SXE_JITSON_TYPE_STRING then sxe_jitson_string_len m j
     else if t = SXE_JITSON_TYPE_ARRAY \<or> t = SXE_JITSON_TYPE_OBJECT then do { n \<leftarrow> sxe_jitson_type_len m j; Some (n, m) }
     else None)"

definition sxe_jitson_reference_len :: "jmem \<Rightarrow> addr \<Rightarrow> (u64 \<times> jmem) option" where
  "sxe_jitson_reference_len m j = do {
     to \<leftarrow> jit_jitref m j;
     t \<leftarrow> sxe_jitson_get_type m to;
     type_len m t to
   }"

definition sxe_jitson_supports_len :: "jmem \<Rightarrow> addr \<Rightarrow> bool option" where
  "sxe_jitson_supports_len m j = do {
     type \<leftarrow> jit_type m j;
     let t = type AND SXE_JITSON_TYPE_MASK;
     Some (t = SXE_JITSON_TYPE_STRING \<or> t = SXE_JITSON_TYPE_ARRAY \<or> t = SXE_JITSON_TYPE_OBJECT \<or> t = SXE_JITSON_TYPE_REFERENCE)
   }"

definition sxe_jitson_len :: "jmem \<Rightarrow> addr \<Rightarrow> (u64 \<times> jmem) option" where
  "sxe_jitson_len m j = do {
     supported \<leftarrow> sxe_jitson_supports_len m j;
     SXEA1 supported;
     type \<leftarrow> jit_type m j;
     let t = type AND SXE_JITSON_TYPE_MASK;
     if t = SXE_JITSON_TYPE_REFERENCE then sxe_jitson_reference_len m j else type_len m t j
   }"

section \<open>Scalars\<close>

text \<open>
  Conversions between doubles and integers: \<open>fp_to_uint\<close> and \<open>fp_of_uint\<close> are the casts of C, \<open>fp_eq\<close> is its comparison, \<open>fp_nan\<close> is NAN. An
  inner \<^const>\<open>None\<close> is EOVERFLOW.
\<close>

record fp_env =
  fp_to_uint :: "u64 \<Rightarrow> u64"
  fp_of_uint :: "u64 \<Rightarrow> u64"
  fp_eq :: "u64 \<Rightarrow> u64 \<Rightarrow> bool"
  fp_nan :: u64

definition sxe_jitson_get_uint :: "fp_env \<Rightarrow> jmem \<Rightarrow> addr \<Rightarrow> (bool \<times> u64) option" where
  "sxe_jitson_get_uint fp m j = do {
     j \<leftarrow> jit_deref m j;
     t \<leftarrow> sxe_jitson_get_type m j;
     SXEA6 (t = SXE_JITSON_TYPE_NUMBER);
     type \<leftarrow> jit_type m j;
     if type AND SXE_JITSON_TYPE_IS_UINT = 0 then do {
       number \<leftarrow> jit_number m j;
       let v = fp_to_uint fp number;
       if \<not> fp_eq fp (fp_of_uint fp v) number then Some (False, - 1) else Some (True, v)
     } else do { integer \<leftarrow> jit_integer m j; Some (True, integer) }
   }"

definition sxe_jitson_get_number :: "fp_env \<Rightarrow> jmem \<Rightarrow> addr \<Rightarrow> (bool \<times> u64) option" where
  "sxe_jitson_get_number fp m j = do {
     j \<leftarrow> jit_deref m j;
     t \<leftarrow> sxe_jitson_get_type m j;
     SXEA6 (t = SXE_JITSON_TYPE_NUMBER);
     type \<leftarrow> jit_type m j;
     if type AND SXE_JITSON_TYPE_IS_UINT \<noteq> 0 then do {
       integer \<leftarrow> jit_integer m j;
       let number = fp_of_uint fp integer;
       if fp_to_uint fp number \<noteq> integer then Some (False, fp_nan fp) else Some (True, number)
     } else do { number \<leftarrow> jit_number m j; Some (True, number) }
   }"

definition sxe_jitson_get_bool :: "jmem \<Rightarrow> addr \<Rightarrow> bool option" where
  "sxe_jitson_get_bool m j = do {
     j \<leftarrow> jit_deref m j;
     t \<leftarrow> sxe_jitson_get_type m j;
     SXEA6 (t = SXE_JITSON_TYPE_BOOL);
     jit_boolean m j
   }"

text \<open>Where the string is, and its length when \<open>want_len\<close> asks for it.\<close>

definition sxe_jitson_get_string :: "jmem \<Rightarrow> addr \<Rightarrow> bool \<Rightarrow> (addr \<times> u64 \<times> jmem) option" where
  "sxe_jitson_get_string m j want_len = do {
     j \<leftarrow> jit_deref m j;
     t \<leftarrow> sxe_jitson_get_type m j;
     SXEA6 (t = SXE_JITSON_TYPE_STRING);
     (len, m) \<leftarrow> (if want_len then sxe_jitson_len m j else Some (0, m));
     type \<leftarrow> jit_type m j;
     string \<leftarrow> (if type AND SXE_JITSON_TYPE_IS_REF \<noteq> 0 then jit_reference m j else Some (jit_string j));
     Some (string, len, m)
   }"

section \<open>Members\<close>

text \<open>The zeroed memory that \<open>calloc\<close> returns.\<close>

definition mem_calloc :: "jmem \<Rightarrow> addr \<Rightarrow> nat \<Rightarrow> jmem" where
  "mem_calloc m p n = (\<lambda>x. if p \<le> x \<and> x < p + int n then Some 0 else m x)"

text \<open>The loop that puts the names of \<open>n\<close> members from \<open>member\<close> on into the buckets.\<close>

fun index_members :: "(u8 list \<Rightarrow> u32) \<Rightarrow> jmem \<Rightarrow> addr \<Rightarrow> addr \<Rightarrow> u32 \<Rightarrow> addr \<Rightarrow> nat \<Rightarrow> jmem option" where
  "index_members hash m j index len member 0 = Some m"
| "index_members hash m j index len member (Suc n) = do {
     type \<leftarrow> jit_type m member;
     memlen \<leftarrow> (if type AND SXE_JITSON_TYPE_IS_REF \<noteq> 0 then do { s \<leftarrow> jit_reference m member; mem_strlen m s }
                else map_option unat (jit_len m member));
     (string, _, m) \<leftarrow> sxe_jitson_get_string m member False;
     key \<leftarrow> mem_read m string memlen;
     let bucket = index + 4 * uint (hash key mod len);
     old \<leftarrow> mem_u32 m bucket;
     m \<leftarrow> mem_write m (member + 4) (le32_bytes old);
     m \<leftarrow> mem_write m bucket (le32_bytes (of_int ((member - j) div 16)));
     size1 \<leftarrow> sxe_jitson_size m member;
     let member = jit_nth member size1;
     size1 \<leftarrow> sxe_jitson_size m member;
     let member = jit_nth member size1;
     index_members hash m j index len member n
   }"

partial_function (option) find_member :: "jmem \<Rightarrow> addr \<Rightarrow> u8 list \<Rightarrow> u32 \<Rightarrow> (addr option \<times> jmem) option" where
  "find_member m j name i =
    (if i = 0 then Some (None, m)
     else do {
       let member = jit_nth j i;
       t \<leftarrow> sxe_jitson_get_type m member;
       SXEA6 (t = SXE_JITSON_TYPE_STRING);
       (memname, memlen, m) \<leftarrow> sxe_jitson_get_string m member True;
       SXEA6 (memname \<noteq> 0);
       same \<leftarrow> (if unat memlen = length name then do { key \<leftarrow> mem_read m memname (length name); Some (key = name) } else Some False);
       if same then do { size1 \<leftarrow> sxe_jitson_size m member; Some (Some (jit_nth member size1), m) }
       else do { link \<leftarrow> jit_link m member; find_member m j name link }
     })"

text \<open>
  The member of an object called \<open>name\<close>, an inner \<^const>\<open>None\<close> for NULL. \<open>index\<close> is what \<open>calloc\<close> returns if it is called.
\<close>

definition object_index :: "(u8 list \<Rightarrow> u32) \<Rightarrow> u64 option \<Rightarrow> jmem \<Rightarrow> addr \<Rightarrow> (bool \<times> jmem) option" where
  "object_index hash index m j = do {
     type \<leftarrow> jit_type m j;
     if type AND SXE_JITSON_TYPE_INDEXED \<noteq> 0 then Some (True, m)
     else
       (case index of
          None \<Rightarrow> Some (False, m)
        | Some index \<Rightarrow> do {
            len \<leftarrow> jit_len m j;
            let m = mem_calloc m (uint index) (4 * unat (len + 1));
            integer \<leftarrow> jit_integer m j;
            m \<leftarrow> mem_write m (uint index + 4 * uint len) (le32_bytes (ucast integer));
            m \<leftarrow> mem_write m j (le32_bytes (type OR SXE_JITSON_TYPE_INDEXED));
            m \<leftarrow> mem_write m (j + 8) (le64_bytes index);
            m \<leftarrow> index_members hash m j (uint index) len (jit_nth j 1) (unat len);
            Some (True, m)
          })
   }"

definition sxe_jitson_object_get_member ::
    "(u8 list \<Rightarrow> u32) \<Rightarrow> u64 option \<Rightarrow> jmem \<Rightarrow> addr \<Rightarrow> u8 list \<Rightarrow> u32 \<Rightarrow> (addr option \<times> jmem) option" where
  "sxe_jitson_object_get_member hash index m j name len = do {
     j \<leftarrow> jit_deref m j;
     t \<leftarrow> sxe_jitson_get_type m j;
     SXEA1 (t = SXE_JITSON_TYPE_OBJECT);
     let len = (if len = 0 then of_nat (strlen name) else len);
     if length name < unat len then None
     else do {
       let name = take (unat len) name;
       jlen \<leftarrow> jit_len m j;
       if jlen = 0 then Some (None, m)
       else do {
         (indexed, m) \<leftarrow> object_index hash index m j;
         if \<not> indexed then Some (None, m)
         else do {
           buckets \<leftarrow> jit_index m j;
           i \<leftarrow> mem_u32 m (buckets + 4 * uint (hash name mod jlen));
           find_member m j name i
         }
       }
     }
   }"

section \<open>Elements\<close>

fun index_elements :: "jmem \<Rightarrow> addr \<Rightarrow> addr \<Rightarrow> addr \<Rightarrow> nat \<Rightarrow> jmem option" where
  "index_elements m j index element 0 = Some m"
| "index_elements m j index element (Suc n) = do {
     m \<leftarrow> mem_write m index (le32_bytes (of_int ((element - j) div 16)));
     size1 \<leftarrow> sxe_jitson_size m element;
     index_elements m j (index + 4) (jit_nth element size1) n
   }"

text \<open>The memory that \<open>malloc\<close> returns has the bytes \<open>content\<close> in it.\<close>

definition array_index :: "u64 option \<Rightarrow> (nat \<Rightarrow> u8 list) \<Rightarrow> jmem \<Rightarrow> addr \<Rightarrow> (bool \<times> jmem) option" where
  "array_index index content m j = do {
     type \<leftarrow> jit_type m j;
     if type AND SXE_JITSON_TYPE_INDEXED \<noteq> 0 then Some (True, m)
     else
       (case index of
          None \<Rightarrow> Some (False, m)
        | Some index \<Rightarrow> do {
            len \<leftarrow> jit_len m j;
            let m = mem_calloc m (uint index) (4 * unat (len + 1));
            m \<leftarrow> mem_write m (uint index) (content (4 * unat (len + 1)));
            integer \<leftarrow> jit_integer m j;
            m \<leftarrow> mem_write m (uint index + 4 * uint len) (le32_bytes (ucast integer));
            m \<leftarrow> mem_write m j (le32_bytes (type OR SXE_JITSON_TYPE_INDEXED));
            m \<leftarrow> mem_write m (j + 8) (le64_bytes index);
            m \<leftarrow> index_elements m j (uint index) (jit_nth j 1) (unat len);
            Some (True, m)
          })
   }"

definition sxe_jitson_array_get_element ::
    "u64 option \<Rightarrow> (nat \<Rightarrow> u8 list) \<Rightarrow> jmem \<Rightarrow> addr \<Rightarrow> u32 \<Rightarrow> (addr option \<times> jmem) option" where
  "sxe_jitson_array_get_element index content m j idx = do {
     j \<leftarrow> jit_deref m j;
     t \<leftarrow> sxe_jitson_get_type m j;
     SXEA1 (t = SXE_JITSON_TYPE_ARRAY);
     len \<leftarrow> jit_len m j;
     if len \<le> idx then Some (None, m)
     else do {
       (indexed, m) \<leftarrow> array_index index content m j;
       if \<not> indexed then Some (None, m)
       else do {
         offsets \<leftarrow> jit_index m j;
         i \<leftarrow> mem_u32 m (offsets + 4 * uint idx);
         Some (Some (jit_nth j i), m)
       }
     }
   }"

section \<open>Values in memory\<close>

definition region :: "addr \<Rightarrow> nat \<Rightarrow> addr set" where
  "region a n = {a..<a + int n}"

definition holds :: "jmem \<Rightarrow> addr \<Rightarrow> u8 list \<Rightarrow> bool" where
  "holds m a bs \<longleftrightarrow> (\<forall>i < length bs. m (a + int i) = Some (bs ! i))"

definition mem_upd :: "jmem \<Rightarrow> addr \<Rightarrow> u8 list \<Rightarrow> jmem" where
  "mem_upd m a bs = (\<lambda>x. if x \<in> region a (length bs) then Some (bs ! nat (x - a)) else m x)"

text \<open>
  A value \<open>v\<close> at \<open>a\<close> takes \<open>n\<close> tokens and the addresses \<open>F\<close>, which are those of its tokens and of the indexes in it. \<open>os\<close> are the offsets of
  elements and member names from the collection at \<open>a\<close>, \<open>e\<close> is the offset after the last.
\<close>

definition tok_type :: "u32 \<Rightarrow> u32 \<Rightarrow> bool" where
  "tok_type ty t \<longleftrightarrow> ty AND SXE_JITSON_TYPE_MASK = t \<and> ty AND SXE_JITSON_TYPE_IS_REF = 0 \<and> ty AND SXE_JITSON_TYPE_IS_KEY = 0"

definition string_size :: "u8 list \<Rightarrow> nat" where
  "string_size s = 1 + (length s + 8) div 16"

text \<open>The token \<open>p\<close> of a member name; its \<open>len\<close> or \<open>link\<close> is not part of it.\<close>

definition krep :: "jmem \<Rightarrow> addr \<Rightarrow> u8 list \<Rightarrow> nat \<Rightarrow> bool" where
  "krep m p k n \<longleftrightarrow> 0 \<notin> set k \<and> length k < 2 ^ 31 \<and> n = string_size k \<and> region p (16 * n) \<subseteq> dom m
     \<and> holds m p (le32_bytes (string_type True)) \<and> holds m (p + 8) (k @ [0])"

fun chain :: "jmem \<Rightarrow> addr \<Rightarrow> u32 \<Rightarrow> nat list \<Rightarrow> bool" where
  "chain m a h [] \<longleftrightarrow> h = 0"
| "chain m a h (i # is') \<longleftrightarrow> h = of_nat i \<and> (\<exists>h'. holds m (a + 16 * int i + 4) (le32_bytes h') \<and> chain m a h' is')"

definition bucket_of :: "(u8 list \<Rightarrow> u32) \<Rightarrow> nat \<Rightarrow> u8 list \<Rightarrow> nat" where
  "bucket_of hash len k = unat (hash k mod of_nat len)"

definition bucket_offsets :: "(u8 list \<Rightarrow> u32) \<Rightarrow> nat \<Rightarrow> nat list \<Rightarrow> u8 list list \<Rightarrow> nat \<Rightarrow> nat list" where
  "bucket_offsets hash len os ks b = map fst (filter (\<lambda>(i, k). bucket_of hash len k = b) (zip os ks))"

definition lens_hold :: "jmem \<Rightarrow> addr \<Rightarrow> nat list \<Rightarrow> u8 list list \<Rightarrow> bool" where
  "lens_hold m a os ks \<longleftrightarrow> list_all2 (\<lambda>i k. holds m (a + 16 * int i + 4) (le32_bytes (of_nat (length k)))) os ks"

definition buckets_hold :: "(u8 list \<Rightarrow> u32) \<Rightarrow> jmem \<Rightarrow> addr \<Rightarrow> addr \<Rightarrow> nat \<Rightarrow> nat list \<Rightarrow> u8 list list \<Rightarrow> bool" where
  "buckets_hold hash m a p len os ks \<longleftrightarrow> (\<forall>b < len. \<exists>h. holds m (p + 4 * int b) (le32_bytes h) \<and> chain m a h (rev (bucket_offsets hash len os ks b)))"

definition offsets_hold :: "jmem \<Rightarrow> addr \<Rightarrow> nat list \<Rightarrow> bool" where
  "offsets_hold m p os \<longleftrightarrow> (\<forall>i < length os. holds m (p + 4 * int i) (le32_bytes (of_nat (os ! i))))"

text \<open>What a collection has in its union: its size, or the address of its index, which ends with its size.\<close>

definition coll_index :: "jmem \<Rightarrow> addr \<Rightarrow> u32 \<Rightarrow> nat \<Rightarrow> nat \<Rightarrow> bool \<Rightarrow> (addr \<Rightarrow> bool) \<Rightarrow> addr set \<Rightarrow> bool" where
  "coll_index m a ty len n plain index G \<longleftrightarrow>
     (if ty AND SXE_JITSON_TYPE_INDEXED = 0 then holds m (a + 8) (le64_bytes (of_nat n)) \<and> plain \<and> G = {}
      else \<exists>p. holds m (a + 8) (le64_bytes p) \<and> index (uint p) \<and> holds m (uint p + 4 * int len) (le32_bytes (of_nat n))
        \<and> G = region (uint p) (4 * (len + 1)) \<and> G \<subseteq> dom m)"

definition coll_rep :: "jmem \<Rightarrow> addr \<Rightarrow> u32 \<Rightarrow> nat \<Rightarrow> nat \<Rightarrow> bool \<Rightarrow> (addr \<Rightarrow> bool) \<Rightarrow> addr set \<Rightarrow> addr set \<Rightarrow> bool" where
  "coll_rep m a t len n plain index F0 F \<longleftrightarrow> len < 2 ^ 27 \<and> n < 2 ^ 27 \<and> region a 16 \<subseteq> dom m \<and> region a 16 \<inter> F0 = {} \<and>
     (\<exists>ty G. holds m a (le32_bytes ty) \<and> tok_type ty t \<and> holds m (a + 4) (le32_bytes (of_nat len)) \<and> coll_index m a ty len n plain index G
       \<and> G \<inter> (region a 16 \<union> F0) = {} \<and> F = region a 16 \<union> F0 \<union> G)"

fun vrep :: "(u8 list \<Rightarrow> u32) \<Rightarrow> jmem \<Rightarrow> addr \<Rightarrow> json \<Rightarrow> nat \<Rightarrow> addr set \<Rightarrow> bool"
  and vreps :: "(u8 list \<Rightarrow> u32) \<Rightarrow> jmem \<Rightarrow> addr \<Rightarrow> nat \<Rightarrow> json list \<Rightarrow> nat list \<Rightarrow> nat \<Rightarrow> addr set \<Rightarrow> bool"
  and mreps :: "(u8 list \<Rightarrow> u32) \<Rightarrow> jmem \<Rightarrow> addr \<Rightarrow> nat \<Rightarrow> (u8 list \<times> json) list \<Rightarrow> nat list \<Rightarrow> nat \<Rightarrow> addr set \<Rightarrow> bool" where
  "vrep hash m a JNull n F \<longleftrightarrow> n = 1 \<and> F = region a 16 \<and> F \<subseteq> dom m \<and> (\<exists>ty. holds m a (le32_bytes ty) \<and> tok_type ty SXE_JITSON_TYPE_NULL)"
| "vrep hash m a (JBool b) n F \<longleftrightarrow> n = 1 \<and> F = region a 16 \<and> F \<subseteq> dom m
     \<and> (\<exists>ty. holds m a (le32_bytes ty) \<and> tok_type ty SXE_JITSON_TYPE_BOOL) \<and> m (a + 8) = Some (if b then 1 else 0)"
| "vrep hash m a (JUint v) n F \<longleftrightarrow> n = 1 \<and> F = region a 16 \<and> F \<subseteq> dom m
     \<and> (\<exists>ty. holds m a (le32_bytes ty) \<and> tok_type ty SXE_JITSON_TYPE_NUMBER \<and> ty AND SXE_JITSON_TYPE_IS_UINT \<noteq> 0) \<and> holds m (a + 8) (le64_bytes v)"
| "vrep hash m a (JReal v) n F \<longleftrightarrow> n = 1 \<and> F = region a 16 \<and> F \<subseteq> dom m
     \<and> (\<exists>ty. holds m a (le32_bytes ty) \<and> tok_type ty SXE_JITSON_TYPE_NUMBER \<and> ty AND SXE_JITSON_TYPE_IS_UINT = 0) \<and> holds m (a + 8) (le64_bytes v)"
| "vrep hash m a (JString s) n F \<longleftrightarrow> n = string_size s \<and> F = region a (16 * n) \<and> F \<subseteq> dom m \<and> length s < 2 ^ 31
     \<and> (\<exists>ty. holds m a (le32_bytes ty) \<and> tok_type ty SXE_JITSON_TYPE_STRING) \<and> holds m (a + 4) (le32_bytes (of_nat (length s))) \<and> holds m (a + 8) (s @ [0])"
| "vrep hash m a (JArray vs) n F \<longleftrightarrow> (\<exists>os F0. vreps hash m a 1 vs os n F0
     \<and> coll_rep m a SXE_JITSON_TYPE_ARRAY (length vs) n True (\<lambda>p. offsets_hold m p os) F0 F)"
| "vrep hash m a (JObject ms) n F \<longleftrightarrow> (\<exists>os F0. mreps hash m a 1 ms os n F0
     \<and> coll_rep m a SXE_JITSON_TYPE_OBJECT (length ms) n (lens_hold m a os (map fst ms)) (\<lambda>p. buckets_hold hash m a p (length ms) os (map fst ms)) F0 F)"
| "vreps hash m a i [] os e F \<longleftrightarrow> os = [] \<and> e = i \<and> F = {}"
| "vreps hash m a i (v # vs) os e F \<longleftrightarrow> (\<exists>n os' F1 F2. os = i # os' \<and> vrep hash m (a + 16 * int i) v n F1 \<and> vreps hash m a (i + n) vs os' e F2
     \<and> F1 \<inter> F2 = {} \<and> F = F1 \<union> F2)"
| "mreps hash m a i [] os e F \<longleftrightarrow> os = [] \<and> e = i \<and> F = {}"
| "mreps hash m a i ((k, v) # ms) os e F \<longleftrightarrow> (\<exists>nk n os' F1 F2. os = i # os' \<and> krep m (a + 16 * int i) k nk
     \<and> vrep hash m (a + 16 * int (i + nk)) v n F1 \<and> mreps hash m a (i + nk + n) ms os' e F2
     \<and> region (a + 16 * int i) (16 * nk) \<inter> (F1 \<union> F2) = {} \<and> F1 \<inter> F2 = {} \<and> F = region (a + 16 * int i) (16 * nk) \<union> F1 \<union> F2)"

definition links :: "addr \<Rightarrow> nat list \<Rightarrow> addr set" where
  "links a os = (\<Union>i \<in> set os. region (a + 16 * int i + 4) 4)"

lemma region_0 [simp]: "region a 0 = {}"
  by (simp add: region_def)

lemma region_split: "region a (n + k) = region a n \<union> region (a + int n) k"
  by (auto simp: region_def)

lemma region_sub: "a \<le> b \<Longrightarrow> b + int k \<le> a + int n \<Longrightarrow> region b k \<subseteq> region a n"
  by (auto simp: region_def)

lemma holds_Nil [simp]: "holds m a []"
  by (simp add: holds_def)

lemma holds_Cons: "holds m a (c # cs) \<longleftrightarrow> m a = Some c \<and> holds m (a + 1) cs"
proof
  assume h: "holds m a (c # cs)"
  have "m (a + 1 + int i) = Some (cs ! i)" if "i < length cs" for i
    using h[unfolded holds_def, rule_format, of "Suc i"] that by (simp add: add.assoc)
  moreover have "m a = Some c" using h[unfolded holds_def, rule_format, of 0] by simp
  ultimately show "m a = Some c \<and> holds m (a + 1) cs" by (simp add: holds_def)
next
  assume h: "m a = Some c \<and> holds m (a + 1) cs"
  show "holds m a (c # cs)" unfolding holds_def
  proof (intro allI impI)
    fix i assume "i < length (c # cs)"
    then show "m (a + int i) = Some ((c # cs) ! i)"
      using h unfolding holds_def by (cases i) (auto simp: add.assoc)
  qed
qed

lemma holds_append: "holds m a (xs @ ys) \<longleftrightarrow> holds m a xs \<and> holds m (a + int (length xs)) ys"
  by (induction xs arbitrary: a) (auto simp: holds_Cons add.assoc)

lemma holds_frame: "holds m a bs \<Longrightarrow> (\<And>x. x \<in> region a (length bs) \<Longrightarrow> m' x = m x) \<Longrightarrow> holds m' a bs"
  by (simp add: holds_def region_def)

lemma holds_region: "holds m a bs \<Longrightarrow> region a (length bs) \<subseteq> dom m"
proof
  fix x assume h: "holds m a bs" and "x \<in> region a (length bs)"
  then have "x = a + int (nat (x - a))" "nat (x - a) < length bs" by (auto simp: region_def)
  then show "x \<in> dom m" using h unfolding holds_def by (metis domI)
qed

lemma holds_unique: "holds m a xs \<Longrightarrow> holds m a ys \<Longrightarrow> length xs = length ys \<Longrightarrow> xs = ys"
  unfolding holds_def by (intro nth_equalityI) auto

lemma mem_read_holds: "holds m a bs \<Longrightarrow> length bs = n \<Longrightarrow> mem_read m a n = Some bs"
  by (induction bs arbitrary: a n) (auto simp: holds_Cons)

lemma mem_upd_holds: "holds (mem_upd m a bs) a bs"
  by (simp add: holds_def mem_upd_def region_def)

lemma mem_upd_other: "x \<notin> region a (length bs) \<Longrightarrow> mem_upd m a bs x = m x"
  by (simp add: mem_upd_def)

lemma mem_upd_dom: "region a (length bs) \<subseteq> dom m \<Longrightarrow> dom (mem_upd m a bs) = dom m"
  by (auto simp: mem_upd_def dom_def)

lemma mem_upd_frame: "holds m b xs \<Longrightarrow> region b (length xs) \<inter> region a (length bs) = {} \<Longrightarrow> holds (mem_upd m a bs) b xs"
  by (erule holds_frame, rule mem_upd_other) blast

lemma mem_write_upd: "region a (length bs) \<subseteq> dom m \<Longrightarrow> mem_write m a bs = Some (mem_upd m a bs)"
proof (induction bs arbitrary: m a)
  case Nil
  then show ?case by (simp add: mem_upd_def)
next
  case (Cons c cs)
  have r: "region a (length (c # cs)) = insert a (region (a + 1) (length cs))" by (auto simp: region_def)
  have "mem_write (m(a \<mapsto> c)) (a + 1) cs = Some (mem_upd (m(a \<mapsto> c)) (a + 1) cs)"
    by (rule Cons.IH) (use Cons.prems r in auto)
  moreover have "mem_upd (m(a \<mapsto> c)) (a + 1) cs = mem_upd m a (c # cs)"
  proof
    fix x
    show "mem_upd (m(a \<mapsto> c)) (a + 1) cs x = mem_upd m a (c # cs) x"
    proof (cases "x \<in> region (a + 1) (length cs)")
      case True
      then have "nat (x - a) = Suc (nat (x - (a + 1)))" by (auto simp: region_def)
      then show ?thesis using True r by (simp add: mem_upd_def)
    next
      case False
      then show ?thesis using r by (auto simp: mem_upd_def)
    qed
  qed
  moreover obtain c0 where "m a = Some c0" using Cons.prems r by auto
  ultimately show ?case by simp
qed

lemma le32_bytes_le32: "length b = 4 \<Longrightarrow> le32_bytes (le32 b) = b"
proof -
  assume "length b = 4"
  then obtain b0 b1 b2 b3 where b: "b = [b0, b1, b2, b3]" by (auto simp: numeral_eq_Suc length_Suc_conv)
  have hi: "\<not> bit c (8 + n)" "\<not> bit c (16 + n)" "\<not> bit c (24 + n)" for c :: u8 and n
    using bit_imp_le_length[of c "8 + n"] bit_imp_le_length[of c "16 + n"] bit_imp_le_length[of c "24 + n"] by auto
  show ?thesis unfolding b by (simp add: le32_bytes_def le32_def) (auto intro!: bit_word_eqI simp: bit_simps hi)
qed

lemma le64_le64_bytes: "le64 (le64_bytes v) = v"
proof -
  have "take 4 (le64_bytes v) = le32_bytes (ucast v)" "drop 4 (le64_bytes v) = le32_bytes (ucast (drop_bit 32 v))"
    by (simp_all add: le64_bytes_def)
  then have "le64 (le64_bytes v) = ucast (ucast v :: u32) OR push_bit 32 (ucast (ucast (drop_bit 32 v) :: u32))"
    by (simp add: le64_def le32_le32_bytes)
  also have "\<dots> = v" by (rule bit_word_eqI) (auto simp: bit_simps)
  finally show ?thesis .
qed

lemma mem_u32_holds: "holds m a (le32_bytes v) \<Longrightarrow> mem_u32 m a = Some v"
  by (simp add: mem_u32_def mem_read_holds le32_le32_bytes)

lemma mem_u64_holds: "holds m a (le64_bytes v) \<Longrightarrow> mem_u64 m a = Some v"
  by (simp add: mem_u64_def mem_read_holds le64_le64_bytes)

lemma mem_strlen_holds: "holds m a (s @ [0]) \<Longrightarrow> 0 \<notin> set s \<Longrightarrow> mem_strlen m a = Some (length s)"
proof (induction s arbitrary: a)
  case Nil
  then show ?case by (subst mem_strlen.simps) (simp add: holds_Cons)
next
  case (Cons c s)
  then have "mem_strlen m (a + 1) = Some (length s)" by (simp add: holds_Cons)
  then show ?case using Cons.prems by (subst mem_strlen.simps) (simp add: holds_Cons)
qed

lemma region_pos: "0 < n \<Longrightarrow> a \<in> region a n"
  by (simp add: region_def)

lemma region_mono: "k \<le> n \<Longrightarrow> region p k \<subseteq> region p n"
  by (rule region_sub) auto

lemma string_size_bound: "length s + 9 \<le> 16 * string_size s"
proof -
  have "x + 1 \<le> 16 * (1 + x div 16)" for x :: nat by presburger
  from this[of "length s + 8"] show ?thesis by (simp add: string_size_def)
qed

lemma string_size_pos: "0 < string_size s"
  by (simp add: string_size_def)

lemma string_region: "region (p + 8) (Suc (length s)) \<subseteq> region p (16 * string_size s)"
  by (rule region_sub) (use string_size_bound[of s] in linarith)+

lemma krep_frame:
  assumes "krep m p k n" and same: "\<And>x. x \<in> region p (16 * n) - region (p + 4) 4 \<Longrightarrow> m' x = m x" and "region p (16 * n) \<subseteq> dom m'"
  shows "krep m' p k n"
proof -
  have k: "0 \<notin> set k" "length k < 2 ^ 31" "n = string_size k" "holds m p (le32_bytes (string_type True))" "holds m (p + 8) (k @ [0])"
    using assms(1) by (simp_all add: krep_def)
  have n: "16 \<le> 16 * n" using string_size_pos[of k] k(3) by linarith
  have "holds m' p (le32_bytes (string_type True))"
    by (rule holds_frame[OF k(4)]) (rule same, use n in \<open>auto simp: region_def\<close>)
  moreover have "holds m' (p + 8) (k @ [0])"
    by (rule holds_frame[OF k(5)]) (rule same, use string_region[of p k] k(3) in \<open>auto simp: region_def\<close>)
  ultimately show ?thesis using k assms(3) by (simp add: krep_def)
qed

lemma links_simps [simp]: "links a [] = {}" "links a (i # os) = region (a + 16 * int i + 4) 4 \<union> links a os"
    "links a (os @ os') = links a os \<union> links a os'"
  by (auto simp: links_def)

lemma lens_hold_frame: "lens_hold m a os ks \<Longrightarrow> (\<And>x. x \<in> links a os \<Longrightarrow> m' x = m x) \<Longrightarrow> lens_hold m' a os ks"
  unfolding lens_hold_def
proof (induction os ks rule: list_all2_induct)
  case (Cons i os k ks)
  have "holds m' (a + 16 * int i + 4) (le32_bytes (of_nat (length k)))" by (rule holds_frame[OF Cons.hyps(1)]) (rule Cons.prems, simp)
  then show ?case using Cons.IH Cons.prems by simp
qed simp

lemma chain_frame: "chain m a h js \<Longrightarrow> (\<And>x. x \<in> links a js \<Longrightarrow> m' x = m x) \<Longrightarrow> chain m' a h js"
proof (induction js arbitrary: h)
  case (Cons i js)
  then obtain h' where c: "h = of_nat i" "holds m (a + 16 * int i + 4) (le32_bytes h')" "chain m a h' js" by auto
  have "holds m' (a + 16 * int i + 4) (le32_bytes h')" by (rule holds_frame[OF c(2)]) (rule Cons.prems, simp)
  moreover have "chain m' a h' js" by (rule Cons.IH[OF c(3)]) (rule Cons.prems(2), simp)
  ultimately show ?case using c(1) by auto
qed simp

lemma links_mono: "set is' \<subseteq> set os \<Longrightarrow> links a is' \<subseteq> links a os"
  by (auto simp: links_def)

lemma bucket_offsets_set: "set (bucket_offsets hash len os ks b) \<subseteq> set os"
  by (auto simp: bucket_offsets_def dest: set_zip_leftD)

lemma bucket_region: "b < len \<Longrightarrow> region (p + 4 * int b) 4 \<subseteq> region p (4 * len)"
  by (rule region_sub) auto

lemma buckets_hold_frame:
  assumes "buckets_hold hash m a p len os ks" "\<And>x. x \<in> region p (4 * len) \<union> links a os \<Longrightarrow> m' x = m x"
  shows "buckets_hold hash m' a p len os ks"
  unfolding buckets_hold_def
proof (intro allI impI)
  fix b assume b: "b < len"
  then obtain h where h: "holds m (p + 4 * int b) (le32_bytes h)" "chain m a h (rev (bucket_offsets hash len os ks b))"
    using assms(1) unfolding buckets_hold_def by blast
  have "holds m' (p + 4 * int b) (le32_bytes h)"
    by (rule holds_frame[OF h(1)]) (rule assms(2), use bucket_region[OF b] in auto)
  moreover have "chain m' a h (rev (bucket_offsets hash len os ks b))"
    by (rule chain_frame[OF h(2)], rule assms(2))
      (use links_mono[of "rev (bucket_offsets hash len os ks b)" os] bucket_offsets_set[of hash len os ks b] in auto)
  ultimately show "\<exists>h. holds m' (p + 4 * int b) (le32_bytes h) \<and> chain m' a h (rev (bucket_offsets hash len os ks b))" by blast
qed

lemma offsets_hold_frame:
  assumes "offsets_hold m p os" "\<And>x. x \<in> region p (4 * length os) \<Longrightarrow> m' x = m x"
  shows "offsets_hold m' p os"
  unfolding offsets_hold_def
proof (intro allI impI)
  fix i assume i: "i < length os"
  show "holds m' (p + 4 * int i) (le32_bytes (of_nat (os ! i)))"
    by (rule holds_frame[of m]) (use assms(1) i bucket_region[OF i] in \<open>auto simp: offsets_hold_def intro!: assms(2)\<close>)
qed

lemma coll_rep_frame:
  assumes c: "coll_rep m a t len n plain index F0 F" and same: "\<And>x. x \<in> F - F0 \<Longrightarrow> m' x = m x"
    and plain: "plain \<Longrightarrow> plain'" and index: "\<And>p. region p (4 * (len + 1)) \<subseteq> F - F0 \<Longrightarrow> index p \<Longrightarrow> index' p"
  shows "coll_rep m' a t len n plain' index' F0 F"
proof -
  obtain ty G where g: "holds m a (le32_bytes ty)" "tok_type ty t" "holds m (a + 4) (le32_bytes (of_nat len))" "coll_index m a ty len n plain index G"
      "G \<inter> (region a 16 \<union> F0) = {}" "F = region a 16 \<union> F0 \<union> G" and r: "len < 2 ^ 27" "n < 2 ^ 27" "region a 16 \<subseteq> dom m" "region a 16 \<inter> F0 = {}"
    using c unfolding coll_rep_def by auto
  have F: "region a 16 \<subseteq> F - F0" "G \<subseteq> F - F0" using g(5,6) r(4) by auto
  have sub: "region a 4 \<subseteq> region a 16" "region (a + 4) 4 \<subseteq> region a 16" "region (a + 8) 8 \<subseteq> region a 16" by (auto simp: region_def)
  have same_a: "m' x = m x" if "x \<in> region a 16" for x using that same F(1) by blast
  have "coll_index m' a ty len n plain' index' G"
  proof (cases "ty AND SXE_JITSON_TYPE_INDEXED = 0")
    case True
    then have "holds m (a + 8) (le64_bytes (of_nat n))" "plain" "G = {}" using g(4) by (simp_all add: coll_index_def)
    moreover from this(1) have "holds m' (a + 8) (le64_bytes (of_nat n))" by (rule holds_frame) (rule same_a, use sub in auto)
    ultimately show ?thesis using True plain by (simp add: coll_index_def)
  next
    case False
    then obtain p where p: "holds m (a + 8) (le64_bytes p)" "index (uint p)" "holds m (uint p + 4 * int len) (le32_bytes (of_nat n))"
        "G = region (uint p) (4 * (len + 1))" "G \<subseteq> dom m" using g(4) unfolding coll_index_def by auto
    have "holds m' (a + 8) (le64_bytes p)" by (rule holds_frame[OF p(1)]) (rule same_a, use sub in auto)
    moreover have "index' (uint p)" by (rule index[OF _ p(2)]) (use p(4) F in auto)
    moreover have "holds m' (uint p + 4 * int len) (le32_bytes (of_nat n))"
      by (rule holds_frame[OF p(3)]) (rule same, use p(4) F in \<open>auto simp: region_def\<close>)
    moreover have "G \<subseteq> dom m'" using p(5) F same by (fastforce simp: dom_def)
    ultimately show ?thesis using False p(4) unfolding coll_index_def by auto
  qed
  moreover have "holds m' a (le32_bytes ty)" by (rule holds_frame[OF g(1)]) (rule same_a, use sub in auto)
  moreover have "holds m' (a + 4) (le32_bytes (of_nat len))" by (rule holds_frame[OF g(3)]) (rule same_a, use sub in auto)
  moreover have "region a 16 \<subseteq> dom m'" using r(3) same_a by (fastforce simp: dom_def)
  ultimately show ?thesis unfolding coll_rep_def using g(2,5,6) r by blast
qed

lemma coll_rep_sub: "coll_rep m a t len n plain index F0 F \<Longrightarrow> F0 \<subseteq> F \<and> region a 16 \<subseteq> F \<and> region a 16 \<inter> F0 = {} \<and> (F0 \<subseteq> dom m \<longrightarrow> F \<subseteq> dom m)"
  unfolding coll_rep_def coll_index_def by (auto split: if_splits)

lemma vrep_dom:
  "vrep hash m a v n F \<Longrightarrow> F \<subseteq> dom m"
  "vreps hash m a i vs os e F \<Longrightarrow> F \<subseteq> dom m"
  "mreps hash m a i ms os e F \<Longrightarrow> F \<subseteq> dom m \<and> links a os \<subseteq> F"
proof (induction hash m a v n F and hash m a i vs os e F and hash m a i ms os e F rule: vrep_vreps_mreps.induct)
  case (6 hash m a vs n F)
  then obtain os F0 where "vreps hash m a 1 vs os n F0" and c: "coll_rep m a SXE_JITSON_TYPE_ARRAY (length vs) n True (\<lambda>p. offsets_hold m p os) F0 F" by auto
  then have "F0 \<subseteq> dom m" using 6 by blast
  then show ?case using coll_rep_sub[OF c] by blast
next
  case (7 hash m a ms n F)
  then obtain os F0 where "mreps hash m a 1 ms os n F0" and c: "coll_rep m a SXE_JITSON_TYPE_OBJECT (length ms) n
      (lens_hold m a os (map fst ms)) (\<lambda>p. buckets_hold hash m a p (length ms) os (map fst ms)) F0 F" by auto
  then have "F0 \<subseteq> dom m" using 7 by blast
  then show ?case using coll_rep_sub[OF c] by blast
next
  case (9 hash m a i v vs os e F)
  then obtain n os' F1 F2 where s: "vrep hash m (a + 16 * int i) v n F1" "vreps hash m a (i + n) vs os' e F2" "F = F1 \<union> F2" by auto
  have "F1 \<subseteq> dom m" "F2 \<subseteq> dom m" using 9(1)[OF s(1)] 9(2)[OF s(2)] by simp_all
  then show ?case using s(3) by simp
next
  case (11 hash m a i k v ms os e F)
  then obtain nk n os' F1 F2 where s: "os = i # os'" "krep m (a + 16 * int i) k nk"
     "vrep hash m (a + 16 * int (i + nk)) v n F1" "mreps hash m a (i + nk + n) ms os' e F2"
     "F = region (a + 16 * int i) (16 * nk) \<union> F1 \<union> F2" by auto
  have "F1 \<subseteq> dom m" "F2 \<subseteq> dom m \<and> links a os' \<subseteq> F2" using 11(1,2) s(3,4) by blast+
  moreover have "region (a + 16 * int i) (16 * nk) \<subseteq> dom m" "nk = string_size k" using s(2) by (auto simp: krep_def)
  moreover from this(2) have "region (a + 16 * int i + 4) 4 \<subseteq> region (a + 16 * int i) (16 * nk)"
    using string_size_pos[of k] by (intro region_sub) auto
  ultimately show ?case using s(1,5) by auto
qed auto

lemma vreps_length: "vreps hash m a i vs os e F \<Longrightarrow> length os = length vs"
  by (induction vs arbitrary: i os F) auto

lemma mreps_length: "mreps hash m a i ms os e F \<Longrightarrow> length os = length ms"
proof (induction ms arbitrary: i os F)
  case (Cons kv ms)
  then show ?case by (cases kv) auto
qed simp

lemma frame_dom: "F \<subseteq> dom m \<Longrightarrow> (\<And>x. x \<in> F \<Longrightarrow> m' x = m x) \<Longrightarrow> F \<subseteq> dom m'"
  by (fastforce simp: dom_def)

lemma scalar_frame:
  assumes "F = region a 16" "F \<subseteq> dom m" "holds m a (le32_bytes ty)" "\<And>x. x \<in> F \<Longrightarrow> m' x = m x"
  shows "F \<subseteq> dom m'" "holds m' a (le32_bytes ty)" "m' (a + 8) = m (a + 8)" "holds m (a + 8) (le64_bytes v) \<Longrightarrow> holds m' (a + 8) (le64_bytes v)"
proof -
  show "F \<subseteq> dom m'" by (rule frame_dom[OF assms(2,4)])
  show "holds m' a (le32_bytes ty)" by (rule holds_frame[OF assms(3)]) (rule assms(4), simp add: assms(1) region_def)
  show "m' (a + 8) = m (a + 8)" by (rule assms(4)) (simp add: assms(1) region_def)
  show "holds m' (a + 8) (le64_bytes v)" if "holds m (a + 8) (le64_bytes v)"
    by (rule holds_frame[OF that]) (rule assms(4), simp add: assms(1) region_def)
qed

text \<open>A value is where it was in every memory that has the same bytes at its addresses; a member name need not have the same link.\<close>

lemma vrep_frames:
  "vrep hash m a v n F \<Longrightarrow> (\<And>x. x \<in> F \<Longrightarrow> m' x = m x) \<Longrightarrow> vrep hash m' a v n F"
  "vreps hash m a i vs os e F \<Longrightarrow> (\<And>x. x \<in> F \<Longrightarrow> m' x = m x) \<Longrightarrow> vreps hash m' a i vs os e F"
  "mreps hash m a i ms os e F \<Longrightarrow> (\<And>x. x \<in> F - links a os \<Longrightarrow> m' x = m x) \<Longrightarrow> F \<subseteq> dom m' \<Longrightarrow> mreps hash m' a i ms os e F"
proof (induction hash m a v n F and hash m a i vs os e F and hash m a i ms os e F rule: vrep_vreps_mreps.induct)
  case (1 hash m a n F)
  then obtain ty where t: "n = 1" "F = region a 16" "F \<subseteq> dom m" "holds m a (le32_bytes ty)" "tok_type ty SXE_JITSON_TYPE_NULL"  by auto
  from scalar_frame[OF t(2-4) 1(2)] show ?case unfolding vrep.simps using t by (intro conjI exI[of _ ty]) (assumption | simp only:)+
next
  case (2 hash m a b n F)
  then obtain ty where t: "n = 1" "F = region a 16" "F \<subseteq> dom m" "holds m a (le32_bytes ty)" "tok_type ty SXE_JITSON_TYPE_BOOL" "m (a + 8) = Some (if b then 1 else 0)" by auto
  from scalar_frame[OF t(2-4) 2(2)] show ?case unfolding vrep.simps using t by (intro conjI exI[of _ ty]) (assumption | simp only:)+
next
  case (3 hash m a v n F)
  then obtain ty where t: "n = 1" "F = region a 16" "F \<subseteq> dom m" "holds m a (le32_bytes ty)" "tok_type ty SXE_JITSON_TYPE_NUMBER" "ty AND SXE_JITSON_TYPE_IS_UINT \<noteq> 0" "holds m (a + 8) (le64_bytes v)" by auto
  from scalar_frame[OF t(2-4) 3(2)] show ?case unfolding vrep.simps using t by (intro conjI exI[of _ ty]) (assumption | simp only:)+
next
  case (4 hash m a v n F)
  then obtain ty where t: "n = 1" "F = region a 16" "F \<subseteq> dom m" "holds m a (le32_bytes ty)" "tok_type ty SXE_JITSON_TYPE_NUMBER" "ty AND SXE_JITSON_TYPE_IS_UINT = 0" "holds m (a + 8) (le64_bytes v)" by auto
  from scalar_frame[OF t(2-4) 4(2)] show ?case unfolding vrep.simps using t by (intro conjI exI[of _ ty]) (assumption | simp only:)+
next
  case (5 hash m a s n F)
  then obtain ty where s: "n = string_size s" "F = region a (16 * n)" "F \<subseteq> dom m" "length s < 2 ^ 31" "holds m a (le32_bytes ty)"
      "tok_type ty SXE_JITSON_TYPE_STRING" "holds m (a + 4) (le32_bytes (of_nat (length s)))" "holds m (a + 8) (s @ [0])" by auto
  have n: "16 \<le> 16 * n" using string_size_pos[of s] s(1) by linarith
  have "holds m' a (le32_bytes ty)" by (rule holds_frame[OF s(5)]) (rule 5(2), use n s(2) in \<open>auto simp: region_def\<close>)
  moreover have "holds m' (a + 4) (le32_bytes (of_nat (length s)))" by (rule holds_frame[OF s(7)]) (rule 5(2), use n s(2) in \<open>auto simp: region_def\<close>)
  moreover have "holds m' (a + 8) (s @ [0])" by (rule holds_frame[OF s(8)]) (rule 5(2), use string_region[of a s] s(1,2) in auto)
  moreover have "F \<subseteq> dom m'" by (rule frame_dom[OF s(3) 5(2)])
  ultimately show ?case using s(1,2,4,6) by auto
next
  case (6 hash m a vs n F)
  then obtain os F0 where v: "vreps hash m a 1 vs os n F0" and c: "coll_rep m a SXE_JITSON_TYPE_ARRAY (length vs) n True (\<lambda>p. offsets_hold m p os) F0 F" by auto
  have F0: "F0 \<subseteq> F" using coll_rep_sub[OF c] by blast
  have "coll_rep m' a SXE_JITSON_TYPE_ARRAY (length vs) n True (\<lambda>p. offsets_hold m' p os) F0 F"
  proof (rule coll_rep_frame[OF c])
    fix p assume p: "region p (4 * (length vs + 1)) \<subseteq> F - F0" "offsets_hold m p os"
    show "offsets_hold m' p os"
      by (rule offsets_hold_frame[OF p(2)]) (rule 6(3), use p(1) vreps_length[OF v] region_mono[of "4 * length vs" "4 * (length vs + 1)" p] in auto)
  qed (simp_all add: 6(3))
  moreover have "vreps hash m' a 1 vs os n F0" by (rule 6(1)[OF v _]) (rule 6(3), use F0 in auto)
  ultimately show ?case by auto
next
  case (7 hash m a ms n F)
  then obtain os F0 where v: "mreps hash m a 1 ms os n F0" and c: "coll_rep m a SXE_JITSON_TYPE_OBJECT (length ms) n
      (lens_hold m a os (map fst ms)) (\<lambda>p. buckets_hold hash m a p (length ms) os (map fst ms)) F0 F" by auto
  have F0: "F0 \<subseteq> F" using coll_rep_sub[OF c] by blast
  have l: "links a os \<subseteq> F" "F0 \<subseteq> dom m" using vrep_dom(3)[OF v] F0 by auto
  have same: "m' x = m x" if "x \<in> links a os" for x using 7(3) l(1) that by blast
  have "coll_rep m' a SXE_JITSON_TYPE_OBJECT (length ms) n
      (lens_hold m' a os (map fst ms)) (\<lambda>p. buckets_hold hash m' a p (length ms) os (map fst ms)) F0 F"
  proof (rule coll_rep_frame[OF c])
    show "lens_hold m a os (map fst ms) \<Longrightarrow> lens_hold m' a os (map fst ms)" by (erule lens_hold_frame) (rule same)
    fix p assume p: "region p (4 * (length ms + 1)) \<subseteq> F - F0" "buckets_hold hash m a p (length ms) os (map fst ms)"
    have "region p (4 * length ms) \<subseteq> region p (4 * (length ms + 1))" by (rule region_mono) simp
    then show "buckets_hold hash m' a p (length ms) os (map fst ms)"
      by (intro buckets_hold_frame[OF p(2)]) (use p(1) same 7(3) in blast)
  qed (simp_all add: 7(3))
  moreover have "mreps hash m' a 1 ms os n F0"
  proof (rule 7(1)[OF v])
    show "F0 \<subseteq> dom m'" by (rule frame_dom[OF l(2)]) (use F0 7(3) in blast)
  qed (use F0 7(3) in blast)
  ultimately show ?case by auto
next
  case (9 hash m a i v vs os e F)
  then obtain n os' F1 F2 where s: "os = i # os'" "vrep hash m (a + 16 * int i) v n F1" "vreps hash m a (i + n) vs os' e F2"
     "F1 \<inter> F2 = {}" "F = F1 \<union> F2" by auto
  have "vrep hash m' (a + 16 * int i) v n F1" by (rule 9(1)[OF s(2)]) (rule 9(4), use s(5) in auto)
  moreover have "vreps hash m' a (i + n) vs os' e F2" by (rule 9(2)[OF s(3)]) (rule 9(4), use s(5) in auto)
  ultimately show ?case using s(1,4,5) by auto
next
  case (11 hash m a i k v ms os e F)
  then obtain nk n os' F1 F2 where s: "os = i # os'" "krep m (a + 16 * int i) k nk"
     "vrep hash m (a + 16 * int (i + nk)) v n F1" "mreps hash m a (i + nk + n) ms os' e F2" "region (a + 16 * int i) (16 * nk) \<inter> (F1 \<union> F2) = {}"
     "F1 \<inter> F2 = {}" "F = region (a + 16 * int i) (16 * nk) \<union> F1 \<union> F2" by auto
  have l: "links a os' \<subseteq> F2" using vrep_dom(3)[OF s(4)] by blast
  have nk: "0 < nk" using s(2) string_size_pos[of k] by (simp add: krep_def)
  then have l1: "region (a + 16 * int i + 4) 4 \<subseteq> region (a + 16 * int i) (16 * nk)" by (intro region_sub) auto
  have "krep m' (a + 16 * int i) k nk"
    by (rule krep_frame[OF s(2)]) (use 11(4,5) s(1,5,7) l in \<open>auto simp del: not_None_eq\<close>)
  moreover have "vrep hash m' (a + 16 * int (i + nk)) v n F1" by (rule 11(1)[OF s(3)]) (rule 11(4), use s(1,5,6,7) l l1 in auto)
  moreover have "mreps hash m' a (i + nk + n) ms os' e F2"
  proof (rule 11(2)[OF s(4)])
    fix x assume x: "x \<in> F2 - links a os'"
    then have "x \<notin> region (a + 16 * int i + 4) 4" using s(5) l1 by blast
    then show "m' x = m x" using x s(1,7) by (intro 11(4)) auto
  qed (use 11(5) s(7) in blast)
  ultimately show ?case unfolding vrep.simps vreps.simps mreps.simps using s(1,5,6,7) by blast
qed auto

section \<open>Sizes\<close>

lemma unat_of_nat_32: "n < 2 ^ 31 \<Longrightarrow> unat (of_nat n :: u32) = n"
  by (simp add: unat_of_nat take_bit_nat_eq_self)

lemma uint_of_nat_32: "n < 2 ^ 31 \<Longrightarrow> uint (of_nat n :: u32) = int n"
  using unat_of_nat_32[of n] by (metis uint_nat)

lemma ucast_32_of_nat: "(ucast (of_nat n :: u64) :: u32) = of_nat n"
  by (simp add: unsigned_of_nat word_of_nat_eq_iff take_bit_take_bit)

lemma ucast_64_of_nat: "n < 2 ^ 31 \<Longrightarrow> (ucast (of_nat n :: u32) :: u64) = of_nat n"
  by (simp add: unsigned_of_nat take_bit_nat_eq_self)

lemma word_nat_cast: "unat (w :: u64) = n \<Longrightarrow> w = of_nat n"
  by auto

lemma word_string_size:
  assumes "length s < 2 ^ 31"
  shows "ucast (1 + (of_nat (length s) + of_nat SXE_JITSON_TOKEN_SIZE - of_nat SXE_JITSON_STRING_SIZE) div of_nat SXE_JITSON_TOKEN_SIZE :: u64)
    = (of_nat (string_size s) :: u32)"
proof -
  have e: "(of_nat (length s) + of_nat SXE_JITSON_TOKEN_SIZE - of_nat SXE_JITSON_STRING_SIZE :: u64) = of_nat (length s + 8)"
    by (simp add: SXE_JITSON_TOKEN_SIZE_def SXE_JITSON_STRING_SIZE_def)
  have u: "unat (of_nat (length s + 8) :: u64) = length s + 8"
    unfolding unat_of_nat using assms by (intro mod_less) simp
  have "unat ((of_nat (length s) + of_nat SXE_JITSON_TOKEN_SIZE - of_nat SXE_JITSON_STRING_SIZE) div of_nat SXE_JITSON_TOKEN_SIZE :: u64)
      = (length s + 8) div 16"
    unfolding e unat_div u by (simp add: SXE_JITSON_TOKEN_SIZE_def)
  then have "(of_nat (length s) + of_nat SXE_JITSON_TOKEN_SIZE - of_nat SXE_JITSON_STRING_SIZE) div of_nat SXE_JITSON_TOKEN_SIZE
      = (of_nat ((length s + 8) div 16) :: u64)" using word_nat_cast by metis
  then have "(1 + (of_nat (length s) + of_nat SXE_JITSON_TOKEN_SIZE - of_nat SXE_JITSON_STRING_SIZE) div of_nat SXE_JITSON_TOKEN_SIZE :: u64)
      = of_nat (string_size s)" by (simp add: string_size_def)
  then show ?thesis by (simp only: ucast_32_of_nat)
qed

lemma string_size_less: "length s < 2 ^ 31 \<Longrightarrow> string_size s < 2 ^ 28"
  unfolding string_size_def by simp

lemma tok_mask: "tok_type ty t \<Longrightarrow> ty AND SXE_JITSON_TYPE_MASK = t" "tok_type ty t \<Longrightarrow> ty AND SXE_JITSON_TYPE_IS_REF = 0"
    "tok_type ty t \<Longrightarrow> ty AND SXE_JITSON_TYPE_IS_KEY = 0"
  by (simp_all add: tok_type_def)

lemmas type_values = SXE_JITSON_TYPE_NULL_def SXE_JITSON_TYPE_BOOL_def SXE_JITSON_TYPE_NUMBER_def SXE_JITSON_TYPE_STRING_def
  SXE_JITSON_TYPE_ARRAY_def SXE_JITSON_TYPE_OBJECT_def SXE_JITSON_TYPE_REFERENCE_def

lemma key_type: "string_type True AND SXE_JITSON_TYPE_MASK = SXE_JITSON_TYPE_STRING" "string_type True AND SXE_JITSON_TYPE_IS_REF = 0"
    "string_type True AND SXE_JITSON_TYPE_IS_KEY \<noteq> 0"
  by (simp_all add: string_type_def SXE_JITSON_TYPE_STRING_def SXE_JITSON_TYPE_IS_KEY_def SXE_JITSON_TYPE_MASK_def SXE_JITSON_TYPE_IS_REF_def)

lemma string_token_size:
  assumes "holds m a (le32_bytes ty)" "ty AND SXE_JITSON_TYPE_MASK = SXE_JITSON_TYPE_STRING" "ty AND SXE_JITSON_TYPE_IS_REF = 0"
    "sxe_jitson_string_len m a = Some (of_nat (length s), m)" "length s < 2 ^ 31"
  shows "sxe_jitson_size m a = Some (of_nat (string_size s))"
proof -
  have "sxe_jitson_string_size m a = Some (of_nat (string_size s))"
    unfolding sxe_jitson_string_size_def jit_type_def mem_u32_holds[OF assms(1)] using assms(3,4) word_string_size[OF assms(5)] by simp
  then show ?thesis unfolding sxe_jitson_size_def jit_type_def mem_u32_holds[OF assms(1)] Let_def using assms(2) by (simp add: type_values)
qed

lemma krep_string_len: "krep m p k n \<Longrightarrow> sxe_jitson_string_len m p = Some (of_nat (length k), m)"
  unfolding krep_def sxe_jitson_string_len_def jit_type_def
  by (auto simp: mem_u32_holds key_type jit_string_def mem_strlen_holds)

lemma krep_size: "krep m p k n \<Longrightarrow> sxe_jitson_size m p = Some (of_nat n) \<and> 0 < n \<and> n < 2 ^ 28"
proof -
  assume k: "krep m p k n"
  then have "sxe_jitson_size m p = Some (of_nat (string_size k))"
    by (intro string_token_size[OF _ key_type(1,2) krep_string_len[OF k]]) (simp_all add: krep_def)
  then show ?thesis using k string_size_less[of k] string_size_pos[of k] by (simp add: krep_def)
qed

lemma coll_rep_size:
  assumes "coll_rep m a t len n plain index F0 F"
  shows "sxe_jitson_size_indexed m a = Some (of_nat n)"
proof -
  obtain ty G where g: "holds m a (le32_bytes ty)" "holds m (a + 4) (le32_bytes (of_nat len))" "coll_index m a ty len n plain index G" "len < 2 ^ 27"
    using assms unfolding coll_rep_def by auto
  show ?thesis
  proof (cases "ty AND SXE_JITSON_TYPE_INDEXED = 0")
    case True
    then show ?thesis using g mem_u64_holds[of m "a + 8" "of_nat n"]
      by (simp add: sxe_jitson_size_indexed_def jit_type_def mem_u32_holds jit_integer_def coll_index_def ucast_32_of_nat)
  next
    case False
    then obtain p where "holds m (a + 8) (le64_bytes p)" "holds m (uint p + 4 * int len) (le32_bytes (of_nat n))"
      using g(3) unfolding coll_index_def by auto
    then show ?thesis using False g
      by (simp add: sxe_jitson_size_indexed_def jit_type_def jit_len_def mem_u32_holds jit_index_def mem_u64_holds uint_of_nat_32)
  qed
qed

lemma coll_rep_type: "coll_rep m a t len n plain index F0 F \<Longrightarrow> \<exists>ty. holds m a (le32_bytes ty) \<and> tok_type ty t \<and> len < 2 ^ 27 \<and> n < 2 ^ 27"
  unfolding coll_rep_def by auto

lemma size_by_type:
  assumes "holds m a (le32_bytes ty)" "tok_type ty t"
  shows "t \<in> {SXE_JITSON_TYPE_NULL, SXE_JITSON_TYPE_BOOL, SXE_JITSON_TYPE_NUMBER} \<Longrightarrow> sxe_jitson_size m a = Some 1"
    "t \<in> {SXE_JITSON_TYPE_ARRAY, SXE_JITSON_TYPE_OBJECT} \<Longrightarrow> sxe_jitson_size m a = sxe_jitson_size_indexed m a"
  unfolding sxe_jitson_size_def jit_type_def mem_u32_holds[OF assms(1)] Let_def
  using tok_mask(1)[OF assms(2)] by (auto simp: type_values sxe_jitson_size_1_def)

lemma vreps_end: "vreps hash m a i vs os e F \<Longrightarrow> i \<le> e" "vreps hash m a i vs os e F \<Longrightarrow> o' \<in> set os \<Longrightarrow> i \<le> o' \<and> o' \<le> e"
  by (induction vs arbitrary: i os F) (fastforce)+

lemma vrep_size: "vrep hash m a v n F \<Longrightarrow> sxe_jitson_size m a = Some (of_nat n) \<and> n < 2 ^ 28"
proof (cases v)
  case (JString s)
  assume "vrep hash m a v n F"
  then obtain ty where s: "n = string_size s" "length s < 2 ^ 31" "holds m a (le32_bytes ty)"
      "tok_type ty SXE_JITSON_TYPE_STRING" "holds m (a + 4) (le32_bytes (of_nat (length s)))" using JString by auto
  have "sxe_jitson_string_len m a = Some (of_nat (length s), m)"
    using mem_u32_holds[OF s(3)] mem_u32_holds[OF s(5)] tok_mask(2,3)[OF s(4)] s(2)
    by (simp add: sxe_jitson_string_len_def jit_type_def jit_len_def ucast_64_of_nat)
  then show ?thesis using string_token_size[OF s(3) _ _ _ s(2)] tok_mask[OF s(4)] s(1) string_size_less[OF s(2)] by simp
next
  case (JArray vs)
  assume "vrep hash m a v n F"
  then obtain os F0 where c: "coll_rep m a SXE_JITSON_TYPE_ARRAY (length vs) n True (\<lambda>p. offsets_hold m p os) F0 F" using JArray by auto
  then show ?thesis using coll_rep_type[OF c] coll_rep_size[OF c] size_by_type(2) by fastforce
next
  case (JObject ms)
  assume "vrep hash m a v n F"
  then obtain os F0 where c: "coll_rep m a SXE_JITSON_TYPE_OBJECT (length ms) n
      (lens_hold m a os (map fst ms)) (\<lambda>p. buckets_hold hash m a p (length ms) os (map fst ms)) F0 F" using JObject by auto
  then show ?thesis using coll_rep_type[OF c] coll_rep_size[OF c] size_by_type(2) by fastforce
qed (auto simp: size_by_type)

end
