(* ===== verification/SxeJitsonAccess.thy ===== *)
theory SxeJitsonAccess
  imports SxeJitsonNew SxeJitsonValue
begin

text \<open>
  The values in memory under the accessors of \<^verbatim>\<open>sxe-jitson.c\<close>: the first access to an element or member indexes its array or
  object, which stays the value it was; the elements and members are found; and the tokens that the parser makes are values.
\<close>

unbundle bit_operations_syntax

definition indexed :: "jmem \<Rightarrow> addr \<Rightarrow> bool" where
  "indexed m a \<longleftrightarrow> (\<exists>ty. holds m a (le32_bytes ty) \<and> ty AND SXE_JITSON_TYPE_INDEXED \<noteq> 0)"

text \<open>
  The first access to an object or array indexes it; \<open>made\<close> says what that leaves: the collection with its index in the memory
  that was allocated, and the other memory as it was.
\<close>

definition made :: "jmem \<Rightarrow> addr \<Rightarrow> addr set \<Rightarrow> addr set \<Rightarrow> jmem \<Rightarrow> bool" where
  "made m a F G m' \<longleftrightarrow> indexed m' a \<and> (\<forall>x. x \<notin> F \<union> G \<longrightarrow> m' x = m x) \<and> G \<inter> F = {}"

text \<open>The memory that the index of a collection of \<open>len\<close> is allocated in.\<close>

definition index_memory :: "u64 option \<Rightarrow> nat \<Rightarrow> addr set" where
  "index_memory index len = (case index of None \<Rightarrow> {} | Some ix \<Rightarrow> region (uint ix) (4 * (len + 1)))"

text \<open>\<open>name\<close> and \<open>len\<close> say that the name is \<open>k\<close>: \<open>len\<close> is its length, or is 0 and a NUL follows it.\<close>

definition member_name :: "u8 list \<Rightarrow> u32 \<Rightarrow> u8 list \<Rightarrow> bool" where
  "member_name name len k \<longleftrightarrow> length k < 2 ^ 32 \<and>
     (if len = 0 then 0 \<notin> set k \<and> (\<exists>r. name = k @ 0 # r) else unat len = length k \<and> (\<exists>r. name = k @ r))"

text \<open>A member name with a NUL in it is not the string that a C function reads.\<close>

fun plain_names :: "json \<Rightarrow> bool" where
  "plain_names (JArray vs) = (\<forall>v \<in> set vs. plain_names v)"
| "plain_names (JObject ms) = (\<forall>(k, v) \<in> set ms. 0 \<notin> set k \<and> plain_names v)"
| "plain_names _ = True"

text \<open>The tokens \<open>b\<close> of a value at \<open>a\<close>, whose first may have been marked as allocated.\<close>

definition tokens_at :: "jmem \<Rightarrow> addr \<Rightarrow> u8 list \<Rightarrow> bool" where
  "tokens_at m a b \<longleftrightarrow> (\<exists>x \<in> {0, SXE_JITSON_TYPE_ALLOCED}. holds m a (le32_bytes (le32 (take 4 b) OR x))) \<and> holds m (a + 4) (drop 4 b)"

text \<open>The type of a value.\<close>

fun json_type :: "json \<Rightarrow> u32" where
  "json_type JNull = SXE_JITSON_TYPE_NULL"
| "json_type (JBool b) = SXE_JITSON_TYPE_BOOL"
| "json_type (JUint v) = SXE_JITSON_TYPE_NUMBER"
| "json_type (JReal v) = SXE_JITSON_TYPE_NUMBER"
| "json_type (JString s) = SXE_JITSON_TYPE_STRING"
| "json_type (JArray vs) = SXE_JITSON_TYPE_ARRAY"
| "json_type (JObject ms) = SXE_JITSON_TYPE_OBJECT"

text \<open>What the functions that read a value return, for the value itself or a reference \<open>j\<close> to it.\<close>

definition value_read :: "fp_env \<Rightarrow> jmem \<Rightarrow> addr \<Rightarrow> addr \<Rightarrow> json \<Rightarrow> bool" where
  "value_read fp m j a v \<longleftrightarrow> (case v of
     JNull \<Rightarrow> True
   | JBool b \<Rightarrow> sxe_jitson_get_bool m j = Some b
   | JUint u \<Rightarrow> sxe_jitson_get_uint fp m j = Some (True, u)
       \<and> sxe_jitson_get_number fp m j = Some (if fp_to_uint fp (fp_of_uint fp u) = u then (True, fp_of_uint fp u) else (False, fp_nan fp))
   | JReal d \<Rightarrow> sxe_jitson_get_number fp m j = Some (True, d)
       \<and> sxe_jitson_get_uint fp m j = Some (if fp_eq fp (fp_of_uint fp (fp_to_uint fp d)) d then (True, fp_to_uint fp d) else (False, - 1))
   | JString s \<Rightarrow> sxe_jitson_get_string m j True = Some (a + 8, of_nat (length s), m) \<and> mem_read m (a + 8) (length s + 1) = Some (s @ [0])
       \<and> sxe_jitson_len m j = Some (of_nat (length s), m)
   | JArray vs \<Rightarrow> sxe_jitson_len m j = Some (of_nat (length vs), m)
   | JObject ms \<Rightarrow> sxe_jitson_len m j = Some (of_nat (length ms), m))"

text \<open>An object with a name that occurs twice and an array, and their tokens at address 16.\<close>

definition sample_members :: "(u8 list \<times> json) list" where
  "sample_members = [([0x61], JNull), ([0x61], JBool True)]"

definition sample_null :: "u8 list" where
  "sample_null = le32_bytes SXE_JITSON_TYPE_NULL @ replicate 12 0"

definition sample_true :: "u8 list" where
  "sample_true = le32_bytes SXE_JITSON_TYPE_BOOL @ replicate 4 0 @ (if True then 1 else 0) # replicate 7 0"

definition sample_name :: "u8 list" where
  "sample_name = le32_bytes (string_type True) @ le32_bytes (of_nat (length [0x61 :: u8])) @ [0x61] @ 0 # replicate 6 0"

definition sample_object :: "u8 list" where
  "sample_object = collection_header SXE_JITSON_TYPE_OBJECT (length sample_members) (sample_name @ sample_null @ sample_name @ sample_true)
     @ sample_name @ sample_null @ sample_name @ sample_true"

definition sample_array :: "u8 list" where
  "sample_array = collection_header SXE_JITSON_TYPE_ARRAY (length [JNull, JBool True]) (sample_null @ sample_true) @ sample_null @ sample_true"

definition sample_fp :: fp_env where
  "sample_fp = \<lparr>fp_to_uint = (\<lambda>x. x), fp_of_uint = (\<lambda>x. x), fp_eq = (=), fp_nan = 0\<rparr>"

definition sample_memory :: "u8 list \<Rightarrow> jmem" where
  "sample_memory bs = mem_upd (\<lambda>x. None) 16 bs"

text \<open>The same with a reference to it at address 800.\<close>

definition sample_referred :: "u8 list \<Rightarrow> jmem" where
  "sample_referred bs = mem_upd (sample_memory bs) 800 (le32_bytes SXE_JITSON_TYPE_REFERENCE @ le32_bytes 0 @ le64_bytes 16)"

lemma jit_nth_offset: "n < 2 ^ 31 \<Longrightarrow> jit_nth (a + 16 * int i) (of_nat n) = a + 16 * int (i + n)"
  unfolding jit_nth_def by (subst uint_of_nat_32) (simp_all add: algebra_simps)

lemma offset_of: "of_int ((a + 16 * int i - a) div 16) = of_nat i"
  by simp

lemma vrep_frame: "vrep hash m a v n F \<Longrightarrow> \<forall>x \<in> F. m' x = m x \<Longrightarrow> vrep hash m' a v n F"
  by (rule vrep_frames(1)) auto

lemma vreps_frame: "vreps hash m a i vs os e F \<Longrightarrow> \<forall>x \<in> F. m' x = m x \<Longrightarrow> vreps hash m' a i vs os e F"
  by (rule vrep_frames(2)) auto

lemma mreps_frame: "mreps hash m a i ms os e F \<Longrightarrow> \<forall>x \<in> F - links a os. m' x = m x \<Longrightarrow> F \<subseteq> dom m' \<Longrightarrow> mreps hash m' a i ms os e F"
  by (rule vrep_frames(3)) auto

lemma offsets_hold_Cons: "holds m p (le32_bytes (of_nat i)) \<Longrightarrow> offsets_hold m (p + 4) os \<Longrightarrow> offsets_hold m p (i # os)"
  unfolding offsets_hold_def
proof (intro allI impI)
  fix j assume h: "holds m p (le32_bytes (of_nat i))" "\<forall>j < length os. holds m (p + 4 + 4 * int j) (le32_bytes (of_nat (os ! j)))"
    and j: "j < length (i # os)"
  show "holds m (p + 4 * int j) (le32_bytes (of_nat ((i # os) ! j)))"
  proof (cases j)
    case (Suc j')
    have "p + 4 * int j = p + 4 + 4 * int j'" using Suc by simp
    then show ?thesis using h(2)[rule_format, of j'] j Suc by (simp add: add.assoc)
  qed (use h(1) in simp)
qed

lemma index_elements_holds:
  assumes "vreps hash m a i vs os e F" "region p (4 * length vs) \<inter> F = {}" "region p (4 * length vs) \<subseteq> dom m"
  shows "\<exists>m'. index_elements m a p (a + 16 * int i) (length vs) = Some m' \<and> offsets_hold m' p os
    \<and> (\<forall>x. x \<notin> region p (4 * length vs) \<longrightarrow> m' x = m x) \<and> dom m' = dom m"
  using assms
proof (induction vs arbitrary: m i p os F)
  case Nil
  then show ?case by (auto simp: offsets_hold_def)
next
  case (Cons v vs)
  from Cons.prems(1) obtain n os' F1 F2 where s: "os = i # os'" "vrep hash m (a + 16 * int i) v n F1" "vreps hash m a (i + n) vs os' e F2"
     "F1 \<inter> F2 = {}" "F = F1 \<union> F2" by auto
  have r: "region p (4 * length (v # vs)) = region p 4 \<union> region (p + 4) (4 * length vs)"
    using region_split[of p 4 "4 * length vs"] by simp
  let ?m = "mem_upd m p (le32_bytes (of_nat i))"
  have w: "mem_write m p (le32_bytes (of_nat i)) = Some ?m" by (rule mem_write_upd) (use Cons.prems(3) r in auto)
  have same: "?m x = m x" if "x \<notin> region p 4" for x using that by (intro mem_upd_other) simp
  have d: "dom ?m = dom m" by (rule mem_upd_dom) (use Cons.prems(3) r in auto)
  have "vrep hash ?m (a + 16 * int i) v n F1" by (rule vrep_frame[OF s(2)]) (use same Cons.prems(2) r s(5) in blast)
  then have size: "sxe_jitson_size ?m (a + 16 * int i) = Some (of_nat n)" "n < 2 ^ 31" using vrep_size by force+
  have v: "vreps hash ?m a (i + n) vs os' e F2" by (rule vreps_frame[OF s(3)]) (use same Cons.prems(2) r s(5) in blast)
  have apart: "region (p + 4) (4 * length vs) \<inter> F2 = {}" "region (p + 4) (4 * length vs) \<subseteq> dom ?m"
    using Cons.prems(2,3) r s(5) d by auto
  obtain m' where m': "index_elements ?m a (p + 4) (a + 16 * int (i + n)) (length vs) = Some m'" "offsets_hold m' (p + 4) os'"
      "\<forall>x. x \<notin> region (p + 4) (4 * length vs) \<longrightarrow> m' x = ?m x" "dom m' = dom ?m"
    using Cons.IH[OF v apart] by blast
  have "index_elements m a p (a + 16 * int i) (length (v # vs)) = Some m'"
    using w size m'(1) jit_nth_offset[OF size(2), of a i] offset_of[of a i] by (simp del: of_nat_add)
  moreover have "holds m' p (le32_bytes (of_nat i))"
    by (rule holds_frame[OF mem_upd_holds]) (rule m'(3)[rule_format], simp add: region_def)
  then have "offsets_hold m' p os" unfolding s(1) using m'(2) by (rule offsets_hold_Cons)
  moreover have "\<forall>x. x \<notin> region p (4 * length (v # vs)) \<longrightarrow> m' x = m x" using m'(3) same unfolding r by auto
  ultimately show ?case using m'(4) d by auto
qed

text \<open>A pair of a loop and what it has done: the names of the members before the offset are in their buckets.\<close>

lemma bucket_offsets_snoc:
  "length os = length ks \<Longrightarrow> bucket_offsets hash len (os @ [i]) (ks @ [k]) b = bucket_offsets hash len os ks b @ (if bucket_of hash len k = b then [i] else [])"
  by (simp add: bucket_offsets_def)

lemma bucket_of_less: "0 < len \<Longrightarrow> len < 2 ^ 31 \<Longrightarrow> bucket_of hash len k < len"
  unfolding bucket_of_def unat_mod unat_of_nat_32 by simp

lemma bucket_address: "uint (hash k mod of_nat len :: u32) = int (bucket_of hash len k)"
  by (simp add: bucket_of_def)

lemma buckets_hold_get:
  "buckets_hold hash m a p len os ks \<Longrightarrow> b < len \<Longrightarrow>
   \<exists>h. mem_u32 m (p + 4 * int b) = Some h \<and> chain m a h (rev (bucket_offsets hash len os ks b))"
  unfolding buckets_hold_def using mem_u32_holds by blast

lemma buckets_hold_insert:
  assumes b: "buckets_hold hash m a p len os ks" "length os = length ks" "0 < len" "len < 2 ^ 31"
    and old: "mem_u32 m (p + 4 * int (bucket_of hash len k)) = Some old"
    and link: "holds m' (a + 16 * int i + 4) (le32_bytes old)" "holds m' (p + 4 * int (bucket_of hash len k)) (le32_bytes (of_nat i))"
    and same: "\<And>x. x \<notin> region (a + 16 * int i + 4) 4 \<Longrightarrow> x \<notin> region (p + 4 * int (bucket_of hash len k)) 4 \<Longrightarrow> m' x = m x"
    and apart: "region p (4 * len) \<inter> links a os = {}" "region (a + 16 * int i + 4) 4 \<inter> (region p (4 * len) \<union> links a os) = {}"
  shows "buckets_hold hash m' a p len (os @ [i]) (ks @ [k])"
  unfolding buckets_hold_def
proof (intro allI impI)
  fix c assume c: "c < len"
  let ?b = "bucket_of hash len k"
  have bl: "?b < len" using b(3,4) by (rule bucket_of_less)
  from b(1) c obtain h where h: "holds m (p + 4 * int c) (le32_bytes h)" "chain m a h (rev (bucket_offsets hash len os ks c))"
    unfolding buckets_hold_def by blast
  have "links a (rev (bucket_offsets hash len os ks c)) \<subseteq> links a os"
    by (rule links_mono) (use bucket_offsets_set[of hash len os ks c] in simp)
  then have ch: "chain m' a h (rev (bucket_offsets hash len os ks c))"
    by (intro chain_frame[OF h(2)] same) (use apart bucket_region[OF bl, of p] in blast)+
  show "\<exists>h. holds m' (p + 4 * int c) (le32_bytes h) \<and> chain m' a h (rev (bucket_offsets hash len (os @ [i]) (ks @ [k]) c))"
  proof (cases "?b = c")
    case True
    have "h = old" using old mem_u32_holds[OF h(1)] True by simp
    then show ?thesis using link ch True unfolding bucket_offsets_snoc[OF b(2)] by auto
  next
    case False
    have "region (p + 4 * int c) 4 \<inter> region (p + 4 * int ?b) 4 = {}" using False by (auto simp: region_def)
    then have "holds m' (p + 4 * int c) (le32_bytes h)"
      by (intro holds_frame[OF h(1)] same) (use apart bucket_region[OF c, of p] in auto)
    then show ?thesis using False ch unfolding bucket_offsets_snoc[OF b(2)] by auto
  qed
qed

lemma token_of_type:
  assumes "holds m a (le32_bytes ty)" "ty AND SXE_JITSON_TYPE_MASK = t" "t \<noteq> SXE_JITSON_TYPE_REFERENCE"
  shows "sxe_jitson_get_type m a = Some t" "jit_deref m a = Some a" "jit_type m a = Some ty"
proof -
  show ty: "jit_type m a = Some ty" using assms(1) by (simp add: jit_type_def mem_u32_holds)
  show "sxe_jitson_get_type m a = Some t" "jit_deref m a = Some a"
    using ty assms(2,3) by (subst sxe_jitson_get_type.simps | simp add: jit_deref_def sxe_jitson_is_reference_def)+
qed

lemma krep_get_string:
  assumes "krep m p k n"
  shows "sxe_jitson_get_string m p False = Some (p + 8, 0, m)" "sxe_jitson_get_string m p True = Some (p + 8, of_nat (length k), m)"
    "mem_read m (p + 8) (length k) = Some k" "sxe_jitson_get_type m p = Some SXE_JITSON_TYPE_STRING" "jit_type m p = Some (string_type True)"
proof -
  have k: "holds m p (le32_bytes (string_type True))" "holds m (p + 8) (k @ [0])" using assms by (simp_all add: krep_def)
  note t = token_of_type[OF k(1) key_type(1)]
  have ne: "SXE_JITSON_TYPE_STRING \<noteq> SXE_JITSON_TYPE_REFERENCE" by (simp add: type_values)
  have l: "sxe_jitson_len m p = Some (of_nat (length k), m)"
    using t(3)[OF ne] krep_string_len[OF assms] key_type(1)
    by (simp add: sxe_jitson_len_def sxe_jitson_supports_len_def type_len_def SXEA1_def type_values)
  show "sxe_jitson_get_string m p False = Some (p + 8, 0, m)" "sxe_jitson_get_string m p True = Some (p + 8, of_nat (length k), m)"
    using t[OF ne] l key_type(2) by (simp_all add: sxe_jitson_get_string_def SXEA6_def jit_string_def)
  show "mem_read m (p + 8) (length k) = Some k" using k(2) by (simp add: holds_append mem_read_holds)
  show "sxe_jitson_get_type m p = Some SXE_JITSON_TYPE_STRING" "jit_type m p = Some (string_type True)" using t[OF ne] by simp_all
qed

lemma index_members_holds:
  assumes "mreps hash m a i ms os e F" "lens_hold m a os (map fst ms)" "buckets_hold hash m a p len os0 ks0" "length os0 = length ks0"
    "0 < len" "len < 2 ^ 31" "region p (4 * len) \<subseteq> dom m" "region p (4 * len) \<inter> (F \<union> links a os0) = {}" "links a os0 \<inter> F = {}"
  shows "\<exists>m'. index_members hash m a p (of_nat len) (a + 16 * int i) (length ms) = Some m' \<and> buckets_hold hash m' a p len (os0 @ os) (ks0 @ map fst ms)
    \<and> (\<forall>x. x \<notin> region p (4 * len) \<union> links a os \<longrightarrow> m' x = m x) \<and> dom m' = dom m"
  using assms(1-4,7-9)
proof (induction ms arbitrary: m i os F os0 ks0)
  case Nil
  then show ?case by auto
next
  case (Cons kv ms)
  obtain k v where kv: "kv = (k, v)" by fastforce
  from Cons.prems(1) obtain nk n os' F1 F2 where s: "os = i # os'" "krep m (a + 16 * int i) k nk"
     "vrep hash m (a + 16 * int (i + nk)) v n F1" "mreps hash m a (i + nk + n) ms os' e F2" "region (a + 16 * int i) (16 * nk) \<inter> (F1 \<union> F2) = {}"
     "F1 \<inter> F2 = {}" "F = region (a + 16 * int i) (16 * nk) \<union> F1 \<union> F2" unfolding kv by auto
  let ?k = "a + 16 * int i" and ?b = "bucket_of hash len k"
  note nk = krep_size[OF s(2)] and g = krep_get_string[OF s(2)]
  have nk31: "nk < 2 ^ 31" using nk by simp
  have l: "links a os' \<subseteq> F2" using vrep_dom(3)[OF s(4)] by blast
  have li: "region (?k + 4) 4 \<subseteq> region ?k (16 * nk)" using nk by (intro region_sub) auto
  have lens: "jit_len m ?k = Some (of_nat (length k))" "lens_hold m a os' (map fst ms)"
    using Cons.prems(2) s(1) by (simp_all add: lens_hold_def kv jit_len_def mem_u32_holds)
  have "length k < 2 ^ 31" using s(2) by (simp add: krep_def)
  then have lk: "unat (of_nat (length k) :: u32) = length k" by (rule unat_of_nat_32)
  have bl: "?b < len" using assms(5,6) by (rule bucket_of_less)
  note br = bucket_region[OF bl, of p]
  obtain old where old: "mem_u32 m (p + 4 * int ?b) = Some old" using buckets_hold_get[OF Cons.prems(3) bl] by blast
  let ?m1 = "mem_upd m (?k + 4) (le32_bytes old)"
  let ?m2 = "mem_upd ?m1 (p + 4 * int ?b) (le32_bytes (of_nat i))"
  have kd: "region ?k (16 * nk) \<subseteq> dom m" using s(2) unfolding krep_def by blast
  have w1: "mem_write m (?k + 4) (le32_bytes old) = Some ?m1" and d1: "dom ?m1 = dom m"
    using kd li by (auto intro!: mem_write_upd mem_upd_dom simp del: not_None_eq)
  have w2: "mem_write ?m1 (p + 4 * int ?b) (le32_bytes (of_nat i)) = Some ?m2" and d2: "dom ?m2 = dom m"
    using Cons.prems(5) br d1 mem_write_upd[of "p + 4 * int ?b" "le32_bytes (of_nat i)" ?m1] mem_upd_dom[of "p + 4 * int ?b" "le32_bytes (of_nat i)" ?m1]
    by auto
  have same: "?m2 x = m x" if "x \<notin> region (?k + 4) 4" "x \<notin> region (p + 4 * int ?b) 4" for x using that by (simp add: mem_upd_other)
  have pF: "region p (4 * len) \<inter> F = {}" "region p (4 * len) \<inter> links a os0 = {}" using Cons.prems(6) by auto
  have same2: "?m2 x = m x" if "x \<in> F1 \<union> F2" for x
    using that s(5,7) li pF(1) br by (intro same) blast+
  have key: "krep ?m2 ?k k nk"
    by (rule krep_frame[OF s(2)]) (use same kd d2 s(7) pF(1) br in \<open>blast\<close>)+
  have "vrep hash ?m2 (a + 16 * int (i + nk)) v n F1" by (rule vrep_frame[OF s(3)]) (use same2 in blast)
  then have size: "sxe_jitson_size ?m2 (a + 16 * int (i + nk)) = Some (of_nat n)" "n < 2 ^ 31" using vrep_size by force+
  have tail: "mreps hash ?m2 a (i + nk + n) ms os' e F2"
    by (rule mreps_frame[OF s(4)]) (use same2 vrep_dom(3)[OF s(4)] d2 in auto)
  have tail_lens: "lens_hold ?m2 a os' (map fst ms)"
    by (rule lens_hold_frame[OF lens(2)]) (use same2 l in blast)
  have bs: "buckets_hold hash ?m2 a p len (os0 @ [i]) (ks0 @ [k])"
  proof (rule buckets_hold_insert[OF Cons.prems(3,4) assms(5,6) old])
    have "region (?k + 4) (length (le32_bytes old)) \<inter> region (p + 4 * int ?b) 4 = {}" using li s(7) pF(1) br by auto
    then show "holds ?m2 (?k + 4) (le32_bytes old)" by (intro mem_upd_frame[OF mem_upd_holds]) simp
    show "holds ?m2 (p + 4 * int ?b) (le32_bytes (of_nat i))" by (rule mem_upd_holds)
    show "region (?k + 4) 4 \<inter> (region p (4 * len) \<union> links a os0) = {}" using li s(7) pF(1) Cons.prems(7) by blast
  qed (use same pF(2) in blast)+
  have apart: "region p (4 * len) \<subseteq> dom ?m2" "region p (4 * len) \<inter> (F2 \<union> links a (os0 @ [i])) = {}" "links a (os0 @ [i]) \<inter> F2 = {}"
    using Cons.prems(5,7) d2 pF s(5,7) li by auto
  obtain m' where m': "index_members hash ?m2 a p (of_nat len) (a + 16 * int (i + nk + n)) (length ms) = Some m'"
      "buckets_hold hash m' a p len ((os0 @ [i]) @ os') ((ks0 @ [k]) @ map fst ms)"
      "\<forall>x. x \<notin> region p (4 * len) \<union> links a os' \<longrightarrow> m' x = ?m2 x" "dom m' = dom ?m2"
    using Cons.IH[OF tail tail_lens bs _ apart] Cons.prems(4) by auto
  have "index_members hash m a p (of_nat len) ?k (length (kv # ms)) = Some m'"
    using g lens(1) lk old w1 w2 krep_size[OF key] size m'(1) jit_nth_offset[OF nk31, of a i] jit_nth_offset[OF size(2), of a "i + nk"] key_type(2)
      bucket_address[of hash k len] offset_of[of a i]
    by (simp del: of_nat_add)
  moreover have "\<forall>x. x \<notin> region p (4 * len) \<union> links a os \<longrightarrow> m' x = m x"
    using m'(3) same br unfolding s(1) by auto
  ultimately show ?case using m'(2,4) d2 s(1) kv by auto
qed

section \<open>The index of a collection\<close>

lemma tok_type_indexed: "tok_type ty t \<Longrightarrow> tok_type (ty OR SXE_JITSON_TYPE_INDEXED) t" "(ty OR SXE_JITSON_TYPE_INDEXED) AND SXE_JITSON_TYPE_INDEXED \<noteq> 0"
proof -
  have z: "SXE_JITSON_TYPE_INDEXED AND SXE_JITSON_TYPE_MASK = 0" "SXE_JITSON_TYPE_INDEXED AND SXE_JITSON_TYPE_IS_REF = 0"
      "SXE_JITSON_TYPE_INDEXED AND SXE_JITSON_TYPE_IS_KEY = 0" "SXE_JITSON_TYPE_INDEXED \<noteq> 0"
    by (simp_all add: SXE_JITSON_TYPE_INDEXED_def SXE_JITSON_TYPE_MASK_def SXE_JITSON_TYPE_IS_REF_def SXE_JITSON_TYPE_IS_KEY_def)
  show "tok_type ty t \<Longrightarrow> tok_type (ty OR SXE_JITSON_TYPE_INDEXED) t"
    unfolding tok_type_def by (simp only: word_ao_dist z or.right_neutral)
  show "(ty OR SXE_JITSON_TYPE_INDEXED) AND SXE_JITSON_TYPE_INDEXED \<noteq> 0"
    using z(4) by (metis and.idem or_eq_0_iff word_ao_dist)
qed

lemma holds_le32_unique: "holds m a (le32_bytes x) \<Longrightarrow> holds m a (le32_bytes y) \<Longrightarrow> x = y"
  using mem_u32_holds[of m a x] mem_u32_holds[of m a y] by simp

lemma mem_write_dom: "region a (length bs) \<subseteq> dom m \<Longrightarrow> mem_write m a bs = Some (mem_upd m a bs) \<and> dom (mem_upd m a bs) = dom m"
  using mem_write_upd mem_upd_dom by blast

text \<open>What the first access has written before it fills the index at \<open>ix\<close> in.\<close>

lemma index_header:
  assumes c: "coll_rep m a t len n plain index F0 F" and ty: "holds m a (le32_bytes ty)" "ty AND SXE_JITSON_TYPE_INDEXED = 0"
    and fresh: "region (uint ix) (4 * (len + 1)) \<inter> F = {}" "region (uint ix) (4 * (len + 1)) \<subseteq> dom m1"
    and same: "\<And>x. x \<notin> region (uint ix) (4 * (len + 1)) \<Longrightarrow> m1 x = m x"
  shows "\<exists>m2 m3 m4. jit_len m a = Some (of_nat len) \<and> jit_integer m1 a = Some (of_nat n) \<and> len < 2 ^ 27 \<and> plain \<and> F = region a 16 \<union> F0
    \<and> mem_write m1 (uint ix + 4 * int len) (le32_bytes (of_nat n)) = Some m2 \<and> mem_write m2 a (le32_bytes (ty OR SXE_JITSON_TYPE_INDEXED)) = Some m3
    \<and> mem_write m3 (a + 8) (le64_bytes ix) = Some m4 \<and> dom m4 = dom m1
    \<and> (\<forall>x. x \<notin> region a 4 \<union> region (a + 8) 8 \<union> region (uint ix + 4 * int len) 4 \<longrightarrow> m4 x = m1 x)
    \<and> holds m4 a (le32_bytes (ty OR SXE_JITSON_TYPE_INDEXED)) \<and> holds m4 (a + 4) (le32_bytes (of_nat len)) \<and> holds m4 (a + 8) (le64_bytes ix)
    \<and> holds m4 (uint ix + 4 * int len) (le32_bytes (of_nat n))"
proof -
  let ?G = "region (uint ix) (4 * (len + 1))" and ?e = "uint ix + 4 * int len"
  obtain ty' G where g: "holds m a (le32_bytes ty')" "holds m (a + 4) (le32_bytes (of_nat len))" "coll_index m a ty' len n plain index G"
      "F = region a 16 \<union> F0 \<union> G" and r: "len < 2 ^ 27" "region a 16 \<subseteq> dom m"
    using c unfolding coll_rep_def by auto
  have "ty' = ty" using g(1) ty(1) by (rule holds_le32_unique)
  then have i: "holds m (a + 8) (le64_bytes (of_nat n))" "plain" "G = {}" using g(3) ty(2) by (simp_all add: coll_index_def)
  have aG: "region a 16 \<inter> ?G = {}" using fresh(1) g(4) by blast
  have sub: "region a 4 \<subseteq> region a 16" "region (a + 4) 4 \<subseteq> region a 16" "region (a + 8) 8 \<subseteq> region a 16" by (auto simp: region_def)
  have e: "region ?e 4 \<subseteq> ?G" by (auto simp: region_def)
  have a1: "region a 16 \<subseteq> dom m1" by (rule frame_dom[OF r(2) same]) (use aG in blast)
  let ?m2 = "mem_upd m1 ?e (le32_bytes (of_nat n))"
  let ?m3 = "mem_upd ?m2 a (le32_bytes (ty OR SXE_JITSON_TYPE_INDEXED))"
  let ?m4 = "mem_upd ?m3 (a + 8) (le64_bytes ix)"
  have w2: "mem_write m1 ?e (le32_bytes (of_nat n)) = Some ?m2 \<and> dom ?m2 = dom m1"
    by (rule mem_write_dom) (use e fresh(2) in simp)
  then have d3: "region a (length (le32_bytes (ty OR SXE_JITSON_TYPE_INDEXED))) \<subseteq> dom ?m2" using a1 sub by simp
  note w3 = mem_write_dom[OF d3]
  then have "region (a + 8) (length (le64_bytes ix)) \<subseteq> dom ?m3" using a1 sub w2 by simp
  note w4 = mem_write_dom[OF this]
  have m4: "?m4 x = m1 x" if "x \<notin> region a 4 \<union> region (a + 8) 8 \<union> region ?e 4" for x using that by (simp add: mem_upd_other)
  have "holds m1 (a + 8) (le64_bytes (of_nat n))" by (rule holds_frame[OF i(1)]) (rule same, use aG sub in auto)
  then have int: "jit_integer m1 a = Some (of_nat n)" by (simp add: jit_integer_def mem_u64_holds)
  have "holds m1 (a + 4) (le32_bytes (of_nat len))" by (rule holds_frame[OF g(2)]) (rule same, use aG sub in auto)
  then have h1: "holds ?m4 (a + 4) (le32_bytes (of_nat len))"
    by (rule holds_frame) (rule m4, use aG sub e in \<open>auto simp: region_def\<close>)
  have h2: "holds ?m4 a (le32_bytes (ty OR SXE_JITSON_TYPE_INDEXED))"
    by (rule mem_upd_frame[OF mem_upd_holds]) (auto simp: region_def)
  have h3: "holds ?m4 (a + 8) (le64_bytes ix)" by (rule mem_upd_holds)
  have h4: "holds ?m4 ?e (le32_bytes (of_nat n))"
    by (intro mem_upd_frame mem_upd_holds) (use aG sub e in auto)
  show ?thesis
    using g(2,4) int r(1) i(2,3) w2 w3 w4 m4 h1 h2 h3 h4
    by (intro exI[of _ ?m2] exI[of _ ?m3] exI[of _ ?m4]) (simp add: jit_len_def mem_u32_holds)
qed

lemma coll_rep_indexed:
  assumes c: "coll_rep m a t len n plain index F0 F" and ty: "holds m a (le32_bytes ty)" and F: "F = region a 16 \<union> F0"
    and fresh: "region (uint ix) (4 * (len + 1)) \<inter> F = {}" "region (uint ix) (4 * (len + 1)) \<subseteq> dom m'" "region a 16 \<subseteq> dom m'"
    and h: "holds m' a (le32_bytes (ty OR SXE_JITSON_TYPE_INDEXED))" "holds m' (a + 4) (le32_bytes (of_nat len))" "holds m' (a + 8) (le64_bytes ix)"
      "holds m' (uint ix + 4 * int len) (le32_bytes (of_nat n))" "index' (uint ix)"
  shows "coll_rep m' a t len n plain' index' F0 (F \<union> region (uint ix) (4 * (len + 1)))"
proof -
  obtain ty' where g: "holds m a (le32_bytes ty')" "tok_type ty' t" and r: "len < 2 ^ 27" "n < 2 ^ 27" "region a 16 \<inter> F0 = {}"
    using c unfolding coll_rep_def by auto
  have "ty' = ty" using g(1) ty by (rule holds_le32_unique)
  then have "tok_type (ty OR SXE_JITSON_TYPE_INDEXED) t" using g(2) tok_type_indexed(1) by simp
  moreover have "coll_index m' a (ty OR SXE_JITSON_TYPE_INDEXED) len n plain' index' (region (uint ix) (4 * (len + 1)))"
    unfolding coll_index_def using tok_type_indexed(2) h(3-5) fresh(2) by auto
  ultimately show ?thesis unfolding coll_rep_def using r h(1,2) fresh F by blast
qed

lemma mem_calloc_other: "x \<notin> region p n \<Longrightarrow> mem_calloc m p n x = m x"
  by (auto simp: mem_calloc_def region_def)

lemma mem_calloc_in: "x \<in> region p n \<Longrightarrow> mem_calloc m p n x = Some 0"
  by (auto simp: mem_calloc_def region_def)

lemma mem_calloc_dom: "region p n \<subseteq> dom (mem_calloc m p n)"
  using mem_calloc_in[of _ p n m] by (auto simp: dom_def)

lemma word_len: "len < 2 ^ 27 \<Longrightarrow> unat (of_nat len + 1 :: u32) = len + 1"
  using unat_of_nat_32[of "len + 1"] by (simp add: add.commute)

lemma buckets_hold_zero:
  assumes "\<And>x. x \<in> region p (4 * len) \<Longrightarrow> m x = Some 0"
  shows "buckets_hold hash m a p len [] []"
  unfolding buckets_hold_def
proof (intro allI impI)
  fix b assume "b < len"
  then have "m x = Some 0" if "x \<in> region (p + 4 * int b) 4" for x using that assms bucket_region[of b len p] by blast
  moreover have "le32_bytes 0 ! i = 0" if "i < 4" for i using that by (auto simp: le32_bytes_def less_Suc_eq numeral_eq_Suc)
  ultimately have "holds m (p + 4 * int b) (le32_bytes 0)" by (simp add: holds_def region_def)
  moreover have "chain m a 0 (rev (bucket_offsets hash len [] [] b))" by (simp add: bucket_offsets_def)
  ultimately show "\<exists>h. holds m (p + 4 * int b) (le32_bytes h) \<and> chain m a h (rev (bucket_offsets hash len [] [] b))" by blast
qed

lemma array_index_holds:
  assumes v: "vrep hash m a (JArray vs) n F" and ty: "holds m a (le32_bytes ty)" "ty AND SXE_JITSON_TYPE_INDEXED = 0"
    and fresh: "region (uint ix) (4 * (length vs + 1)) \<inter> F = {}" and content: "\<And>k. length (content k) = k"
  shows "\<exists>m'. array_index (Some ix) content m a = Some (True, m') \<and> vrep hash m' a (JArray vs) n (F \<union> region (uint ix) (4 * (length vs + 1)))
    \<and> made m a F (region (uint ix) (4 * (length vs + 1))) m'"
proof -
  let ?G = "region (uint ix) (4 * (length vs + 1))" and ?len = "length vs"
  from v obtain os F0 where vs: "vreps hash m a 1 vs os n F0" and c: "coll_rep m a SXE_JITSON_TYPE_ARRAY ?len n True (\<lambda>p. offsets_hold m p os) F0 F" by auto
  let ?c = "content (4 * (?len + 1))" and ?m0 = "mem_calloc m (uint ix) (4 * (?len + 1))"
  let ?m1 = "mem_upd ?m0 (uint ix) ?c"
  have G0: "region (uint ix) (length ?c) \<subseteq> dom ?m0" unfolding content by (rule mem_calloc_dom)
  note w1 = mem_write_dom[OF G0]
  have d1: "?G \<subseteq> dom ?m1" using w1 G0 unfolding content by simp
  have same: "?m1 x = m x" if "x \<notin> ?G" for x using that by (simp add: mem_upd_other content mem_calloc_other)
  from index_header[OF c ty fresh d1 same] obtain m2 m3 m4 where h: "jit_len m a = Some (of_nat ?len)" "jit_integer ?m1 a = Some (of_nat n)" "?len < 2 ^ 27"
      "F = region a 16 \<union> F0" "mem_write ?m1 (uint ix + 4 * int ?len) (le32_bytes (of_nat n)) = Some m2"
      "mem_write m2 a (le32_bytes (ty OR SXE_JITSON_TYPE_INDEXED)) = Some m3" "mem_write m3 (a + 8) (le64_bytes ix) = Some m4" "dom m4 = dom ?m1"
      and m4: "\<forall>x. x \<notin> region a 4 \<union> region (a + 8) 8 \<union> region (uint ix + 4 * int ?len) 4 \<longrightarrow> m4 x = ?m1 x"
      and t: "holds m4 a (le32_bytes (ty OR SXE_JITSON_TYPE_INDEXED))" "holds m4 (a + 4) (le32_bytes (of_nat ?len))" "holds m4 (a + 8) (le64_bytes ix)"
        "holds m4 (uint ix + 4 * int ?len) (le32_bytes (of_nat n))" by blast
  have sub: "region a 4 \<subseteq> region a 16" "region (a + 4) 4 \<subseteq> region a 16" "region (a + 8) 8 \<subseteq> region a 16" "region (uint ix + 4 * int ?len) 4 \<subseteq> ?G"
      "region (uint ix) (4 * ?len) \<subseteq> ?G" "region (uint ix + 4 * int ?len) 4 \<inter> region (uint ix) (4 * ?len) = {}" by (auto simp: region_def)
  have a0: "region a 16 \<inter> F0 = {}" using coll_rep_sub[OF c] by blast
  have keep4: "m4 x = m x" if "x \<notin> region a 16" "x \<notin> ?G" for x
    using m4[rule_format, of x] same[OF that(2)] sub that by auto
  have "\<forall>x \<in> F0. m4 x = m x" using keep4 fresh h(4) a0 by blast
  then have vs4: "vreps hash m4 a 1 vs os n F0" by (rule vreps_frame[OF vs])
  have apart: "region (uint ix) (4 * ?len) \<inter> F0 = {}" "region (uint ix) (4 * ?len) \<subseteq> dom m4"
    using fresh h(4,8) d1 sub(5) by auto
  obtain m5 where m5: "index_elements m4 a (uint ix) (a + 16) ?len = Some m5" "offsets_hold m5 (uint ix) os"
      "\<forall>x. x \<notin> region (uint ix) (4 * ?len) \<longrightarrow> m5 x = m4 x" "dom m5 = dom m4"
    using index_elements_holds[OF vs4 apart] by auto
  have keep: "holds m5 b bs" if "holds m4 b bs" "region b (length bs) \<inter> region (uint ix) (4 * ?len) = {}" for b bs
    by (rule holds_frame[OF that(1)]) (use m5(3) that(2) in blast)
  have aG: "region a 16 \<inter> region (uint ix) (4 * ?len) = {}" using fresh sub(5) h(4) by blast
  have t5: "holds m5 a (le32_bytes (ty OR SXE_JITSON_TYPE_INDEXED))" by (rule keep[OF t(1)]) (use sub aG in auto)
  have t5': "holds m5 (a + 4) (le32_bytes (of_nat ?len))" by (rule keep[OF t(2)]) (use sub aG in auto)
  have t5'': "holds m5 (a + 8) (le64_bytes ix)" by (rule keep[OF t(3)]) (use sub aG in auto)
  have t5e: "holds m5 (uint ix + 4 * int ?len) (le32_bytes (of_nat n))" by (rule keep[OF t(4)]) (use sub aG in auto)
  have a1: "region a 16 \<subseteq> dom m" using c unfolding coll_rep_def by blast
  then have d5: "region a 16 \<subseteq> dom m5" unfolding m5(4) h(8) by (rule frame_dom) (rule same, use fresh h(4) in blast)
  have G5: "?G \<subseteq> dom m5" using m5(4) h(8) d1 by simp
  have "coll_rep m5 a SXE_JITSON_TYPE_ARRAY ?len n True (\<lambda>p. offsets_hold m5 p os) F0 (F \<union> ?G)"
    by (rule coll_rep_indexed[OF c ty(1) h(4) fresh G5 d5 t5 t5' t5'' t5e]) (rule m5(2))
  moreover have "vreps hash m5 a 1 vs os n F0" by (rule vreps_frame[OF vs4]) (use m5(3) apart in blast)
  ultimately have "vrep hash m5 a (JArray vs) n (F \<union> ?G)" by auto
  moreover have "array_index (Some ix) content m a = Some (True, m5)"
    using ty(2) mem_u32_holds[OF ty(1)] h(1-3,5-7) w1 m5(1) word_len[OF h(3)] unat_of_nat_32[of ?len] uint_of_nat_32[of ?len]
    by (simp add: array_index_def jit_type_def jit_nth_def ucast_32_of_nat content)
  moreover have "m5 x = m x" if "x \<notin> F \<union> ?G" for x
    using m5(3)[rule_format, of x] keep4[of x] that sub(5) h(4) by auto
  then have "made m a F ?G m5" unfolding made_def indexed_def using t5 tok_type_indexed(2) fresh by auto
  ultimately show ?thesis by blast
qed

lemma object_index_holds:
  assumes v: "vrep hash m a (JObject ms) n F" and ty: "holds m a (le32_bytes ty)" "ty AND SXE_JITSON_TYPE_INDEXED = 0"
    and fresh: "region (uint ix) (4 * (length ms + 1)) \<inter> F = {}" and ne: "ms \<noteq> []"
  shows "\<exists>m'. object_index hash (Some ix) m a = Some (True, m') \<and> vrep hash m' a (JObject ms) n (F \<union> region (uint ix) (4 * (length ms + 1)))
    \<and> made m a F (region (uint ix) (4 * (length ms + 1))) m'"
proof -
  let ?G = "region (uint ix) (4 * (length ms + 1))" and ?len = "length ms"
  from v obtain os F0 where vs: "mreps hash m a 1 ms os n F0" and c: "coll_rep m a SXE_JITSON_TYPE_OBJECT ?len n
      (lens_hold m a os (map fst ms)) (\<lambda>p. buckets_hold hash m a p ?len os (map fst ms)) F0 F" by auto
  let ?m1 = "mem_calloc m (uint ix) (4 * (?len + 1))"
  have d1: "?G \<subseteq> dom ?m1" by (rule mem_calloc_dom)
  have same: "?m1 x = m x" if "x \<notin> ?G" for x using that by (simp add: mem_calloc_other)
  from index_header[OF c ty fresh d1 same] obtain m2 m3 m4 where h: "jit_len m a = Some (of_nat ?len)" "jit_integer ?m1 a = Some (of_nat n)" "?len < 2 ^ 27"
      "F = region a 16 \<union> F0" "mem_write ?m1 (uint ix + 4 * int ?len) (le32_bytes (of_nat n)) = Some m2"
      "mem_write m2 a (le32_bytes (ty OR SXE_JITSON_TYPE_INDEXED)) = Some m3" "mem_write m3 (a + 8) (le64_bytes ix) = Some m4" "dom m4 = dom ?m1"
      and lens: "lens_hold m a os (map fst ms)"
      and m4: "\<forall>x. x \<notin> region a 4 \<union> region (a + 8) 8 \<union> region (uint ix + 4 * int ?len) 4 \<longrightarrow> m4 x = ?m1 x"
      and t: "holds m4 a (le32_bytes (ty OR SXE_JITSON_TYPE_INDEXED))" "holds m4 (a + 4) (le32_bytes (of_nat ?len))" "holds m4 (a + 8) (le64_bytes ix)"
        "holds m4 (uint ix + 4 * int ?len) (le32_bytes (of_nat n))" by blast
  have sub: "region a 4 \<subseteq> region a 16" "region (a + 4) 4 \<subseteq> region a 16" "region (a + 8) 8 \<subseteq> region a 16" "region (uint ix + 4 * int ?len) 4 \<subseteq> ?G"
      "region (uint ix) (4 * ?len) \<subseteq> ?G" "region (uint ix + 4 * int ?len) 4 \<inter> region (uint ix) (4 * ?len) = {}" by (auto simp: region_def)
  have a0: "region a 16 \<inter> F0 = {}" using coll_rep_sub[OF c] by blast
  have keep4: "m4 x = m x" if "x \<notin> region a 16" "x \<notin> ?G" for x
    using m4[rule_format, of x] same[OF that(2)] sub that by auto
  have m4F0: "\<forall>x \<in> F0. m4 x = m x" using keep4 fresh h(4) a0 by blast
  note vd = vrep_dom(3)[OF vs]
  have F04: "F0 \<subseteq> dom m4" by (rule frame_dom[of F0 m]) (use vd m4F0 in auto)
  have vs4: "mreps hash m4 a 1 ms os n F0" by (rule mreps_frame[OF vs]) (use m4F0 F04 in auto)
  have lens4: "lens_hold m4 a os (map fst ms)" by (rule lens_hold_frame[OF lens]) (use m4F0 vd in blast)
  have "m4 x = Some 0" if "x \<in> region (uint ix) (4 * ?len)" for x
  proof -
    have "x \<notin> region a 16" "x \<in> ?G" "x \<notin> region (uint ix + 4 * int ?len) 4" using that fresh sub h(4) by blast+
    then show ?thesis using m4 sub mem_calloc_in[of x "uint ix" "4 * (?len + 1)" m] by auto
  qed
  then have zero: "buckets_hold hash m4 a (uint ix) ?len [] []" by (rule buckets_hold_zero)
  have apart: "region (uint ix) (4 * ?len) \<subseteq> dom m4" "region (uint ix) (4 * ?len) \<inter> (F0 \<union> links a []) = {}" "links a [] \<inter> F0 = {}"
    using fresh h(4,8) d1 sub(5) by auto
  have pos: "0 < ?len" "?len < 2 ^ 31" using ne h(3) by auto
  obtain m5 where m5: "index_members hash m4 a (uint ix) (of_nat ?len) (a + 16) ?len = Some m5"
      "buckets_hold hash m5 a (uint ix) ?len os (map fst ms)"
      "\<forall>x. x \<notin> region (uint ix) (4 * ?len) \<union> links a os \<longrightarrow> m5 x = m4 x" "dom m5 = dom m4"
    using index_members_holds[OF vs4 lens4 zero _ pos apart] by auto
  have aL: "region a 16 \<inter> (region (uint ix) (4 * ?len) \<union> links a os) = {}" "?G \<inter> links a os = {}" using fresh sub(5) h(4) a0 vd by blast+
  have keep: "holds m5 b bs" if "holds m4 b bs" "region b (length bs) \<inter> (region (uint ix) (4 * ?len) \<union> links a os) = {}" for b bs
    by (rule holds_frame[OF that(1)]) (use m5(3) that(2) in blast)
  have t5: "holds m5 a (le32_bytes (ty OR SXE_JITSON_TYPE_INDEXED))" by (rule keep[OF t(1)]) (use sub aL in auto)
  have t5': "holds m5 (a + 4) (le32_bytes (of_nat ?len))" by (rule keep[OF t(2)]) (use sub aL in auto)
  have t5'': "holds m5 (a + 8) (le64_bytes ix)" by (rule keep[OF t(3)]) (use sub aL in auto)
  have t5e: "holds m5 (uint ix + 4 * int ?len) (le32_bytes (of_nat n))" by (rule keep[OF t(4)]) (use sub aL in auto)
  have a1: "region a 16 \<subseteq> dom m" using c unfolding coll_rep_def by blast
  then have d5: "region a 16 \<subseteq> dom m5" unfolding m5(4) h(8) by (rule frame_dom) (rule same, use fresh h(4) in blast)
  have G5: "?G \<subseteq> dom m5" using m5(4) h(8) d1 by simp
  have "coll_rep m5 a SXE_JITSON_TYPE_OBJECT ?len n (lens_hold m5 a os (map fst ms)) (\<lambda>p. buckets_hold hash m5 a p ?len os (map fst ms)) F0 (F \<union> ?G)"
    by (rule coll_rep_indexed[OF c ty(1) h(4) fresh G5 d5 t5 t5' t5'' t5e]) (rule m5(2))
  moreover have "mreps hash m5 a 1 ms os n F0"
    by (rule mreps_frame[OF vs4]) (use m5(3,4) apart(2) F04 in auto)
  ultimately have "vrep hash m5 a (JObject ms) n (F \<union> ?G)" by auto
  moreover have "object_index hash (Some ix) m a = Some (True, m5)"
    using ty(2) mem_u32_holds[OF ty(1)] h(1-3,5-7) m5(1) word_len[OF h(3)] unat_of_nat_32[of ?len] uint_of_nat_32[of ?len]
    by (simp add: object_index_def jit_type_def jit_nth_def ucast_32_of_nat)
  moreover have "made m a F ?G m5"
  proof -
    have "m5 x = m x" if "x \<notin> F \<union> ?G" for x
    proof -
      have "x \<notin> links a os" "x \<notin> region a 16" "x \<notin> ?G" using that vd h(4) by auto
      then show ?thesis using m5(3) keep4 sub(5) by auto
    qed
    then show ?thesis unfolding made_def indexed_def using t5 tok_type_indexed(2) fresh by blast
  qed
  ultimately show ?thesis by blast
qed

section \<open>Elements and members\<close>

lemma vreps_nth:
  "vreps hash m a i vs os e F \<Longrightarrow> j < length vs \<Longrightarrow>
   \<exists>k E. vrep hash m (a + 16 * int (os ! j)) (vs ! j) k E \<and> E \<subseteq> F \<and> os ! j \<le> e"
proof (induction vs arbitrary: i os F j)
  case (Cons v vs)
  from Cons.prems(1) obtain n os' F1 F2 where s: "os = i # os'" "vrep hash m (a + 16 * int i) v n F1" "vreps hash m a (i + n) vs os' e F2" "F = F1 \<union> F2" by auto
  show ?case
  proof (cases j)
    case 0
    then show ?thesis using s vreps_end(1)[OF s(3)] by auto
  next
    case (Suc j')
    then show ?thesis using Cons.IH[OF s(3), of j'] Cons.prems(2) s(1,4) by auto
  qed
qed simp

lemma indexed_collection:
  assumes "coll_rep m a t len n plain index F0 F" "indexed m a"
  shows "\<exists>ty p. holds m a (le32_bytes ty) \<and> tok_type ty t \<and> ty AND SXE_JITSON_TYPE_INDEXED \<noteq> 0 \<and> jit_index m a = Some (uint (p :: u64)) \<and> index (uint p)
    \<and> jit_len m a = Some (of_nat len) \<and> len < 2 ^ 27 \<and> n < 2 ^ 27"
proof -
  obtain ty G where g: "holds m a (le32_bytes ty)" "tok_type ty t" "coll_index m a ty len n plain index G" "holds m (a + 4) (le32_bytes (of_nat len))"
      "len < 2 ^ 27" "n < 2 ^ 27" using assms(1) unfolding coll_rep_def by auto
  from assms(2) obtain ty' where "holds m a (le32_bytes ty')" "ty' AND SXE_JITSON_TYPE_INDEXED \<noteq> 0" unfolding indexed_def by blast
  then have i: "ty AND SXE_JITSON_TYPE_INDEXED \<noteq> 0" using holds_le32_unique[OF g(1)] by blast
  then obtain p where "holds m (a + 8) (le64_bytes p)" "index (uint p)" using g(3) unfolding coll_index_def by auto
  then show ?thesis using g i by (intro exI[of _ ty] exI[of _ p]) (simp add: jit_index_def mem_u64_holds jit_len_def mem_u32_holds)
qed

lemma coll_rep_len: "coll_rep m a t len n plain index F0 F \<Longrightarrow> jit_len m a = Some (of_nat len)"
  unfolding coll_rep_def by (auto simp: jit_len_def mem_u32_holds)

lemma collection_type: "tok_type ty t \<Longrightarrow> t \<in> {SXE_JITSON_TYPE_ARRAY, SXE_JITSON_TYPE_OBJECT} \<Longrightarrow> holds m a (le32_bytes ty) \<Longrightarrow>
    sxe_jitson_get_type m a = Some t \<and> jit_deref m a = Some a \<and> jit_type m a = Some ty"
  using token_of_type[of m a ty t] tok_mask(1)[of ty t] by (auto simp: type_values)

lemma array_index_made:
  assumes v: "vrep hash m a (JArray vs) n F" and fresh: "index_memory index (length vs) \<inter> F = {}" and content: "\<And>k. length (content k) = k"
    and ok: "indexed m a \<or> index \<noteq> None"
  shows "\<exists>m' F'. array_index index content m a = Some (True, m') \<and> vrep hash m' a (JArray vs) n F' \<and> indexed m' a \<and> F \<subseteq> F'
    \<and> F' \<subseteq> F \<union> index_memory index (length vs) \<and> (\<forall>x. x \<notin> F' \<longrightarrow> m' x = m x)"
proof -
  from v obtain os F0 where c: "coll_rep m a SXE_JITSON_TYPE_ARRAY (length vs) n True (\<lambda>p. offsets_hold m p os) F0 F" by auto
  obtain ty where ty: "holds m a (le32_bytes ty)" "tok_type ty SXE_JITSON_TYPE_ARRAY" using coll_rep_type[OF c] by blast
  show ?thesis
  proof (cases "ty AND SXE_JITSON_TYPE_INDEXED = 0")
    case True
    then obtain ix where ix: "index = Some ix" using ok holds_le32_unique[OF ty(1)] unfolding indexed_def by auto
    have f: "region (uint ix) (4 * (length vs + 1)) \<inter> F = {}" using fresh ix by (simp add: index_memory_def)
    from array_index_holds[OF v ty(1) True f content] obtain m' where "array_index (Some ix) content m a = Some (True, m')"
        "vrep hash m' a (JArray vs) n (F \<union> region (uint ix) (4 * (length vs + 1)))" "made m a F (region (uint ix) (4 * (length vs + 1))) m'" by blast
    then show ?thesis unfolding made_def ix index_memory_def by (intro exI[of _ m'] exI[of _ "F \<union> region (uint ix) (4 * (length vs + 1))"]) simp
  next
    case False
    then have "array_index index content m a = Some (True, m)" "indexed m a"
      using ty(1) by (auto simp: array_index_def jit_type_def mem_u32_holds indexed_def)
    then show ?thesis using v by (intro exI[of _ m] exI[of _ F]) simp
  qed
qed

lemma object_index_made:
  assumes v: "vrep hash m a (JObject ms) n F" and fresh: "index_memory index (length ms) \<inter> F = {}" and ne: "ms \<noteq> []"
    and ok: "indexed m a \<or> index \<noteq> None"
  shows "\<exists>m' F'. object_index hash index m a = Some (True, m') \<and> vrep hash m' a (JObject ms) n F' \<and> indexed m' a \<and> F \<subseteq> F'
    \<and> F' \<subseteq> F \<union> index_memory index (length ms) \<and> (\<forall>x. x \<notin> F' \<longrightarrow> m' x = m x)"
proof -
  from v obtain os F0 where c: "coll_rep m a SXE_JITSON_TYPE_OBJECT (length ms) n
      (lens_hold m a os (map fst ms)) (\<lambda>p. buckets_hold hash m a p (length ms) os (map fst ms)) F0 F" by auto
  obtain ty where ty: "holds m a (le32_bytes ty)" "tok_type ty SXE_JITSON_TYPE_OBJECT" using coll_rep_type[OF c] by blast
  show ?thesis
  proof (cases "ty AND SXE_JITSON_TYPE_INDEXED = 0")
    case True
    then obtain ix where ix: "index = Some ix" using ok holds_le32_unique[OF ty(1)] unfolding indexed_def by auto
    have f: "region (uint ix) (4 * (length ms + 1)) \<inter> F = {}" using fresh ix by (simp add: index_memory_def)
    from object_index_holds[OF v ty(1) True f ne] obtain m' where "object_index hash (Some ix) m a = Some (True, m')"
        "vrep hash m' a (JObject ms) n (F \<union> region (uint ix) (4 * (length ms + 1)))" "made m a F (region (uint ix) (4 * (length ms + 1))) m'" by blast
    then show ?thesis unfolding made_def ix index_memory_def by (intro exI[of _ m'] exI[of _ "F \<union> region (uint ix) (4 * (length ms + 1))"]) simp
  next
    case False
    then have "object_index hash index m a = Some (True, m)" "indexed m a"
      using ty(1) by (auto simp: object_index_def jit_type_def mem_u32_holds indexed_def)
    then show ?thesis using v by (intro exI[of _ m] exI[of _ F]) simp
  qed
qed

lemma element_found:
  assumes "vrep hash m a (JArray vs) n F" "indexed m a" "idx < length vs"
  shows "\<exists>offsets i k E. jit_index m a = Some offsets \<and> mem_u32 m (offsets + 4 * int idx) = Some i \<and> vrep hash m (jit_nth a i) (vs ! idx) k E \<and> E \<subseteq> F"
proof -
  from assms(1) obtain os F0 where vs: "vreps hash m a 1 vs os n F0" and c: "coll_rep m a SXE_JITSON_TYPE_ARRAY (length vs) n True (\<lambda>p. offsets_hold m p os) F0 F" by auto
  obtain p :: u64 where p: "jit_index m a = Some (uint p)" "offsets_hold m (uint p) os" "n < 2 ^ 27"
    using indexed_collection[OF c assms(2)] by blast
  obtain k E where e: "vrep hash m (a + 16 * int (os ! idx)) (vs ! idx) k E" "E \<subseteq> F0" "os ! idx \<le> n" using vreps_nth[OF vs assms(3)] by blast
  have "holds m (uint p + 4 * int idx) (le32_bytes (of_nat (os ! idx)))"
    using p(2) assms(3) vreps_length[OF vs] by (simp add: offsets_hold_def)
  moreover have "jit_nth a (of_nat (os ! idx)) = a + 16 * int (os ! idx)"
    using e(3) p(3) by (simp add: jit_nth_def uint_of_nat_32)
  ultimately show ?thesis using p(1) e coll_rep_sub[OF c] mem_u32_holds by fastforce
qed

lemma array_get_element_eq:
  assumes "vrep hash m a (JArray vs) n F" "jit_deref m j = Some a"
  shows "sxe_jitson_array_get_element index content m j idx =
     (if length vs \<le> unat idx then Some (None, m)
      else do {
       (ok, m) \<leftarrow> array_index index content m a;
       if \<not> ok then Some (None, m)
       else do { offsets \<leftarrow> jit_index m a; i \<leftarrow> mem_u32 m (offsets + 4 * uint idx); Some (Some (jit_nth a i), m) }
     })"
proof -
  from assms(1) obtain os F0 where c: "coll_rep m a SXE_JITSON_TYPE_ARRAY (length vs) n True (\<lambda>p. offsets_hold m p os) F0 F" by auto
  obtain ty where ty: "holds m a (le32_bytes ty)" "tok_type ty SXE_JITSON_TYPE_ARRAY" "length vs < 2 ^ 27" using coll_rep_type[OF c] by blast
  have t: "sxe_jitson_get_type m a = Some SXE_JITSON_TYPE_ARRAY" using collection_type[OF ty(2) _ ty(1)] by simp
  have le: "of_nat (length vs) \<le> idx \<longleftrightarrow> length vs \<le> unat idx" using unat_of_nat_32[of "length vs"] ty(3) by (simp add: word_le_nat_alt)
  show ?thesis using t assms(2) coll_rep_len[OF c] le by (simp add: sxe_jitson_array_get_element_def SXEA1_def)
qed

lemma array_get_element_value:
  assumes "vrep hash m a (JArray vs) n F" "jit_deref m j = Some a" "index_memory index (length vs) \<inter> F = {}" "\<forall>k. length (content k) = k"
  shows "\<exists>r m' F'. sxe_jitson_array_get_element index content m j idx = Some (r, m') \<and> vrep hash m' a (JArray vs) n F'
    \<and> F \<subseteq> F' \<and> F' \<subseteq> F \<union> index_memory index (length vs) \<and> (\<forall>x. x \<notin> F' \<longrightarrow> m' x = m x)
    \<and> (unat idx < length vs \<and> (indexed m a \<or> index \<noteq> None) \<longrightarrow> indexed m' a)
    \<and> (case r of None \<Rightarrow> length vs \<le> unat idx \<or> index = None \<and> \<not> indexed m a
        | Some e \<Rightarrow> unat idx < length vs \<and> (\<exists>k E. vrep hash m' e (vs ! unat idx) k E \<and> E \<subseteq> F'))"
proof -
  from assms(1) obtain os F0 where c: "coll_rep m a SXE_JITSON_TYPE_ARRAY (length vs) n True (\<lambda>p. offsets_hold m p os) F0 F" by auto
  obtain ty where ty: "holds m a (le32_bytes ty)" "tok_type ty SXE_JITSON_TYPE_ARRAY" "length vs < 2 ^ 27" using coll_rep_type[OF c] by blast
  note start = array_get_element_eq[OF assms(1,2)]
  show ?thesis
  proof (cases "length vs \<le> unat idx \<or> index = None \<and> \<not> indexed m a")
    case True
    have "array_index index content m a = Some (False, m)" if "index = None" "\<not> indexed m a"
      using that ty(1) by (auto simp: array_index_def jit_type_def mem_u32_holds indexed_def)
    then have "sxe_jitson_array_get_element index content m j idx = Some (None, m)" using start True by auto
    moreover have "\<not> (unat idx < length vs \<and> (indexed m a \<or> index \<noteq> None))" using True by auto
    ultimately show ?thesis using assms(1) True by (intro exI[of _ None] exI[of _ m] exI[of _ F]) simp
  next
    case False
    obtain m' F' where m': "array_index index content m a = Some (True, m')" "vrep hash m' a (JArray vs) n F'" "indexed m' a" "F \<subseteq> F'"
        "F' \<subseteq> F \<union> index_memory index (length vs)" "\<forall>x. x \<notin> F' \<longrightarrow> m' x = m x"
      using array_index_made[OF assms(1,3)] assms(4) False by blast
    have idx: "unat idx < length vs" using False by simp
    obtain offsets i k E where f: "jit_index m' a = Some offsets" "mem_u32 m' (offsets + 4 * int (unat idx)) = Some i"
        "vrep hash m' (jit_nth a i) (vs ! unat idx) k E" "E \<subseteq> F'" using element_found[OF m'(2,3) idx] by blast
    have "sxe_jitson_array_get_element index content m j idx = Some (Some (jit_nth a i), m')"
      using start idx m'(1) f(1,2) by simp
    then show ?thesis using m'(2-6) f(3,4) idx by (intro exI[of _ "Some (jit_nth a i)"] exI[of _ m'] exI[of _ F']) auto
  qed
qed

text \<open>
  C38: an element. \<open>sxe_jitson_array_get_element\<close> of an array, or of a reference to it, returns the value of the element at \<open>idx\<close>, and NULL only
  if \<open>idx\<close> is past the end or there is no memory for the index. Whether the array had its index already or gets it now, it has
  one afterwards and is the same array, and no memory but its own and that of the index changes.
\<close>

theorem sxe_jitson_array_get_element_value:
  assumes "vrep hash m a (JArray vs) n F" "jit_deref m j = Some a" "index_memory index (length vs) \<inter> F = {}" "\<forall>k. length (content k) = k"
  shows "\<exists>r m' F'. sxe_jitson_array_get_element index content m j idx = Some (r, m') \<and> vrep hash m' a (JArray vs) n F'
    \<and> F \<subseteq> F' \<and> F' \<subseteq> F \<union> index_memory index (length vs) \<and> (\<forall>x. x \<notin> F' \<longrightarrow> m' x = m x)
    \<and> (unat idx < length vs \<and> (indexed m a \<or> index \<noteq> None) \<longrightarrow> indexed m' a)
    \<and> (case r of None \<Rightarrow> length vs \<le> unat idx \<or> index = None \<and> \<not> indexed m a
        | Some e \<Rightarrow> unat idx < length vs \<and> (\<exists>k E. vrep hash m' e (vs ! unat idx) k E \<and> E \<subseteq> F'))"
  by (rule array_get_element_value[OF assms])

lemma member_name_taken:
  assumes "member_name name len k"
  shows "length k \<le> length name" "unat (if len = 0 then of_nat (strlen name) else len) = length k" "take (length k) name = k"
proof -
  show "length k \<le> length name" "take (length k) name = k" using assms by (auto simp: member_name_def split: if_splits)
  have "strlen (k @ 0 # r) = length k" if "0 \<notin> set k" for r
    using that unfolding strlen_def by (subst takeWhile_append2) auto
  then show "unat (if len = 0 then of_nat (strlen name) else len) = length k"
    using assms by (auto simp: member_name_def unat_of_nat split: if_splits)
qed

lemma mreps_end: "mreps hash m a i ms os e F \<Longrightarrow> i \<le> e"
proof (induction ms arbitrary: i os F)
  case (Cons kv ms)
  then show ?case by (cases kv) fastforce
qed simp

lemma mreps_each:
  "mreps hash m a i ms os e F \<Longrightarrow> (j, k, v) \<in> set (zip os ms) \<Longrightarrow>
   \<exists>n E. krep m (a + 16 * int j) k (string_size k) \<and> vrep hash m (a + 16 * int (j + string_size k)) v n E \<and> E \<subseteq> F \<and> i \<le> j \<and> j \<le> e \<and> i \<le> e"
proof (induction ms arbitrary: i os F)
  case (Cons kv ms)
  obtain k1 v1 where kv: "kv = (k1, v1)" by fastforce
  from Cons.prems(1) obtain nk n os' F1 F2 where s: "os = i # os'" "krep m (a + 16 * int i) k1 nk"
     "vrep hash m (a + 16 * int (i + nk)) v1 n F1" "mreps hash m a (i + nk + n) ms os' e F2"
     "F = region (a + 16 * int i) (16 * nk) \<union> F1 \<union> F2" unfolding kv by auto
  have nk: "nk = string_size k1" using s(2) by (simp add: krep_def)
  have "i + nk + n \<le> e" using s(4) mreps_end by blast
  then show ?case using Cons.prems(2) Cons.IH[OF s(4)] s nk kv by fastforce
qed simp

lemma find_member_chain:
  assumes "\<forall>(i, k) \<in> set zs. 0 < i \<and> i < 2 ^ 31 \<and> krep m (a + 16 * int i) k (string_size k)" "chain m a h (map fst zs)" "0 < a"
  shows "find_member m a name h = Some (map_option (\<lambda>(i, k). a + 16 * int (i + string_size k)) (find (\<lambda>(i, k). k = name) zs), m)"
  using assms
proof (induction zs arbitrary: h)
  case Nil
  then show ?case by (subst find_member.simps) simp
next
  case (Cons z zs)
  obtain i k where z: "z = (i, k)" by fastforce
  have i: "0 < i" "i < 2 ^ 31" "krep m (a + 16 * int i) k (string_size k)" using Cons.prems(1) z by auto
  let ?p = "a + 16 * int i"
  obtain h' where h: "h = of_nat i" "holds m (?p + 4) (le32_bytes h')" "chain m a h' (map fst zs)" using Cons.prems(2) z by auto
  have IH: "find_member m a name h' = Some (map_option (\<lambda>(i, k). a + 16 * int (i + string_size k)) (find (\<lambda>(i, k). k = name) zs), m)"
    using Cons.IH[OF _ h(3)] Cons.prems(1,3) by simp
  have h0: "h \<noteq> 0" "jit_nth a h = ?p"
    using h(1) i(1,2) unat_of_nat_32[of i] by (auto simp: jit_nth_def uint_of_nat_32)
  note g = krep_get_string[OF i(3)]
  have "length k < 2 ^ 31" using i(3) by (simp add: krep_def)
  then have l: "unat (of_nat (length k) :: u64) = length k" unfolding unat_of_nat by (intro mod_less) simp
  have link: "jit_link m ?p = Some h'" using h(2) by (simp add: jit_link_def mem_u32_holds)
  have size: "sxe_jitson_size m ?p = Some (of_nat (string_size k))" "string_size k < 2 ^ 31" using krep_size[OF i(3)] by auto
  have key: "length k = length name \<Longrightarrow> mem_read m (?p + 8) (length name) = Some k" using g(3) by simp
  have p0: "?p + 8 \<noteq> 0" using Cons.prems(3) by linarith
  have to: "jit_nth ?p (of_nat (string_size k)) = a + 16 * int (i + string_size k)" using size(2) by (rule jit_nth_offset)
  show ?case
    by (subst find_member.simps)
      (cases "k = name"; use h0 g(2,4) key l p0 link size IH to in \<open>simp add: z SXEA6_def Let_def\<close>)
qed

lemma find_map_of: "map_option snd (find (\<lambda>(k, v). k = name) xs) = map_of xs name"
  by (induction xs) auto

lemma map_of_bucket: "map_of (filter (\<lambda>(k, v). bucket_of hash len k = bucket_of hash len name) xs) name = map_of xs name"
  by (induction xs) auto

lemma bucket_offsets_members:
  "length os = length ms \<Longrightarrow>
   bucket_offsets hash len os (map fst ms) b = map fst (filter (\<lambda>(i, k, v). bucket_of hash len k = b) (zip os ms))"
  unfolding bucket_offsets_def by (induction os ms rule: list_induct2) auto

lemma filter_members:
  "length os = length ms \<Longrightarrow> map snd (filter (\<lambda>(i, k, v). P k) (zip os ms)) = filter (\<lambda>(k, v). P k) ms"
  by (induction os ms rule: list_induct2) auto

lemma find_project:
  "find (\<lambda>(i, k). k = name) (map (\<lambda>(i, k, v). (i, k)) xs) = map_option (\<lambda>(i, k, v). (i, k)) (find (\<lambda>(i, k, v). k = name) xs)"
  "map_option (\<lambda>(i, k, v). v) (find (\<lambda>(i, k, v). k = name) xs) = map_of (map snd xs) name"
  by (induction xs) auto

lemma member_found:
  assumes v: "vrep hash m a (JObject ms) n F" and "indexed m a" "ms \<noteq> []" "0 < a"
  shows "\<exists>buckets i r. jit_index m a = Some buckets \<and> mem_u32 m (buckets + 4 * uint (hash name mod of_nat (length ms))) = Some i
    \<and> find_member m a name i = Some (r, m)
    \<and> (case r of None \<Rightarrow> map_of (rev ms) name = None
        | Some b \<Rightarrow> \<exists>v k E. map_of (rev ms) name = Some v \<and> vrep hash m b v k E \<and> E \<subseteq> F)"
proof -
  let ?len = "length ms"
  from v obtain os F0 where vs: "mreps hash m a 1 ms os n F0" and c: "coll_rep m a SXE_JITSON_TYPE_OBJECT ?len n
      (lens_hold m a os (map fst ms)) (\<lambda>p. buckets_hold hash m a p ?len os (map fst ms)) F0 F" by auto
  obtain p :: u64 where p: "jit_index m a = Some (uint p)" "buckets_hold hash m a (uint p) ?len os (map fst ms)" "n < 2 ^ 27" "?len < 2 ^ 27"
    using indexed_collection[OF c assms(2)] by blast
  let ?b = "bucket_of hash ?len name"
  have "?b < ?len" using assms(3) p(4) by (intro bucket_of_less) simp_all
  then obtain h where h: "mem_u32 m (uint p + 4 * int ?b) = Some h" "chain m a h (rev (bucket_offsets hash ?len os (map fst ms) ?b))"
    using buckets_hold_get[OF p(2)] by blast
  have lo: "length os = length ms" using vs by (rule mreps_length)
  let ?zs = "rev (filter (\<lambda>(i, k, v). bucket_of hash ?len k = ?b) (zip os ms))"
  let ?ks = "map (\<lambda>(i, k, v). (i, k)) ?zs"
  have "map fst ?ks = rev (bucket_offsets hash ?len os (map fst ms) ?b)"
    unfolding bucket_offsets_members[OF lo] by (simp add: rev_map case_prod_unfold)
  then have chain: "chain m a h (map fst ?ks)" using h(2) by simp
  have each: "\<exists>n E. krep m (a + 16 * int j) k (string_size k) \<and> vrep hash m (a + 16 * int (j + string_size k)) v n E \<and> E \<subseteq> F0 \<and> 1 \<le> j \<and> j \<le> n0"
    if "(j, k, v) \<in> set ?zs" "n0 = n" for j k v n0
    using mreps_each[OF vs, of j k v] that by auto
  have ks: "\<forall>(i, k) \<in> set ?ks. 0 < i \<and> i < 2 ^ 31 \<and> krep m (a + 16 * int i) k (string_size k)"
    using each[OF _ refl] p(3) by fastforce
  let ?f = "find (\<lambda>(i, k, v). k = name) ?zs"
  have mo: "map_option (\<lambda>(i, k, v). v) ?f = map_of (rev ms) name"
    unfolding find_project(2) rev_filter[symmetric] rev_map[symmetric] map_of_bucket[symmetric, where xs = "rev ms" and hash = hash and len = ?len]
    by (simp add: filter_members[OF lo] rev_filter)
  let ?r = "map_option (\<lambda>(i, k). a + 16 * int (i + string_size k)) (map_option (\<lambda>(i, k, v). (i, k)) ?f)"
  have "find_member m a name h = Some (?r, m)"
    using find_member_chain[OF ks chain assms(4)] unfolding find_project(1) .
  moreover have "case ?r of None \<Rightarrow> map_of (rev ms) name = None
        | Some b \<Rightarrow> \<exists>v k E. map_of (rev ms) name = Some v \<and> vrep hash m b v k E \<and> E \<subseteq> F"
  proof (cases ?f)
    case None
    then show ?thesis using mo by simp
  next
    case (Some z)
    obtain j k v where z: "z = (j, k, v)" by (cases z) auto
    have "(j, k, v) \<in> set ?zs" using Some z by (metis find_Some_iff nth_mem)
    from each[OF this refl] obtain n1 E where "vrep hash m (a + 16 * int (j + string_size k)) v n1 E" "E \<subseteq> F0" by blast
    moreover have "map_of (rev ms) name = Some v" using mo Some z by simp
    ultimately show ?thesis using Some z coll_rep_sub[OF c] by fastforce
  qed
  ultimately show ?thesis using p(1) h(1) bucket_address[of hash name ?len] by (intro exI[of _ "uint p"] exI[of _ h] exI[of _ ?r]) simp
qed

lemma object_get_member_value:
  assumes "vrep hash m a (JObject ms) n F" "jit_deref m j = Some a" "index_memory index (length ms) \<inter> F = {}" "0 < a" "member_name name len k"
  shows "\<exists>r m' F'. sxe_jitson_object_get_member hash index m j name len = Some (r, m') \<and> vrep hash m' a (JObject ms) n F'
    \<and> F \<subseteq> F' \<and> F' \<subseteq> F \<union> index_memory index (length ms) \<and> (\<forall>x. x \<notin> F' \<longrightarrow> m' x = m x)
    \<and> (ms \<noteq> [] \<and> (indexed m a \<or> index \<noteq> None) \<longrightarrow> indexed m' a)
    \<and> (case r of None \<Rightarrow> map_of (rev ms) k = None \<or> index = None \<and> \<not> indexed m a
        | Some b \<Rightarrow> \<exists>v i E. map_of (rev ms) k = Some v \<and> vrep hash m' b v i E \<and> E \<subseteq> F')"
proof -
  from assms(1) obtain os F0 where c: "coll_rep m a SXE_JITSON_TYPE_OBJECT (length ms) n
      (lens_hold m a os (map fst ms)) (\<lambda>p. buckets_hold hash m a p (length ms) os (map fst ms)) F0 F" by auto
  obtain ty where ty: "holds m a (le32_bytes ty)" "tok_type ty SXE_JITSON_TYPE_OBJECT" "length ms < 2 ^ 27" using coll_rep_type[OF c] by blast
  have t: "sxe_jitson_get_type m a = Some SXE_JITSON_TYPE_OBJECT" using collection_type[OF ty(2) _ ty(1)] by simp
  have l0: "of_nat (length ms) = (0 :: u32) \<longleftrightarrow> ms = []" using unat_of_nat_32[of "length ms"] ty(3) unat_eq_zero[of "of_nat (length ms) :: u32"] by simp
  note nm = member_name_taken[OF assms(5)]
  have start: "sxe_jitson_object_get_member hash index m j name len =
     (if ms = [] then Some (None, m)
      else do {
       (ok, m) \<leftarrow> object_index hash index m a;
       if \<not> ok then Some (None, m)
       else do { buckets \<leftarrow> jit_index m a; i \<leftarrow> mem_u32 m (buckets + 4 * uint (hash k mod of_nat (length ms))); find_member m a k i }
     })" using t assms(2) coll_rep_len[OF c] l0 nm by (simp add: sxe_jitson_object_get_member_def SXEA1_def Let_def del: split_paired_Ex if_split)
  show ?thesis
  proof (cases "ms = [] \<or> index = None \<and> \<not> indexed m a")
    case True
    have "object_index hash index m a = Some (False, m)" if "index = None" "\<not> indexed m a"
      using that ty(1) by (auto simp: object_index_def jit_type_def mem_u32_holds indexed_def)
    then have "sxe_jitson_object_get_member hash index m j name len = Some (None, m)" using start True by auto
    then show ?thesis using assms(1) True by (intro exI[of _ None] exI[of _ m] exI[of _ F]) auto
  next
    case False
    have ne: "ms \<noteq> []" using False by simp
    obtain m' F' where m': "object_index hash index m a = Some (True, m')" "vrep hash m' a (JObject ms) n F'" "indexed m' a" "F \<subseteq> F'"
        "F' \<subseteq> F \<union> index_memory index (length ms)" "\<forall>x. x \<notin> F' \<longrightarrow> m' x = m x"
      using object_index_made[OF assms(1,3) ne] False by metis
    obtain buckets i r where f: "jit_index m' a = Some buckets" "mem_u32 m' (buckets + 4 * uint (hash k mod of_nat (length ms))) = Some i"
        "find_member m' a k i = Some (r, m')" "case r of None \<Rightarrow> map_of (rev ms) k = None
        | Some b \<Rightarrow> \<exists>v j E. map_of (rev ms) k = Some v \<and> vrep hash m' b v j E \<and> E \<subseteq> F'"
      using member_found[OF m'(2,3) ne assms(4)] by blast
    have "sxe_jitson_object_get_member hash index m j name len = Some (r, m')"
      using start ne m'(1) f(1-3) by simp
    then show ?thesis using m'(2-6) f(4) by (intro exI[of _ r] exI[of _ m'] exI[of _ F']) (auto split: option.splits)
  qed
qed

text \<open>
  C37: a member. \<open>sxe_jitson_object_get_member\<close> of an object, or of a reference to it, returns the value of the last of the members with the name, and
  NULL only if there is none or there is no memory for the index. Whatever the hash function, and whether the object had its
  index already or gets it now, it has one afterwards and is the same object, and no memory but its own and that of the index changes.
\<close>

theorem sxe_jitson_object_get_member_value:
  assumes "vrep hash m a (JObject ms) n F" "jit_deref m j = Some a" "index_memory index (length ms) \<inter> F = {}" "0 < a" "member_name name len k"
  shows "\<exists>r m' F'. sxe_jitson_object_get_member hash index m j name len = Some (r, m') \<and> vrep hash m' a (JObject ms) n F'
    \<and> F \<subseteq> F' \<and> F' \<subseteq> F \<union> index_memory index (length ms) \<and> (\<forall>x. x \<notin> F' \<longrightarrow> m' x = m x)
    \<and> (ms \<noteq> [] \<and> (indexed m a \<or> index \<noteq> None) \<longrightarrow> indexed m' a)
    \<and> (case r of None \<Rightarrow> map_of (rev ms) k = None \<or> index = None \<and> \<not> indexed m a
        | Some b \<Rightarrow> \<exists>v i E. map_of (rev ms) k = Some v \<and> vrep hash m' b v i E \<and> E \<subseteq> F')"
  by (rule object_get_member_value[OF assms])

lemma region_apart: "region a n \<inter> region (a + int n) k = {}"
  by (auto simp: region_def)

section \<open>The values of the parser\<close>

lemma tokens_at_holds: "holds m a b \<Longrightarrow> 4 \<le> length b \<Longrightarrow> tokens_at m a b"
proof -
  assume h: "holds m a b" "4 \<le> length b"
  have "holds m a (take 4 b @ drop 4 b)" using h(1) by simp
  then have "holds m a (take 4 b)" "holds m (a + 4) (drop 4 b)" using h(2) unfolding holds_append by simp_all
  moreover have "le32_bytes (le32 (take 4 b)) = take 4 b" using h(2) by (intro le32_bytes_le32) simp
  ultimately show ?thesis unfolding tokens_at_def by (metis insertI1 or.right_neutral)
qed

lemma tokens_at_header:
  assumes "tokens_at m a (le32_bytes ty @ b)"
  shows "\<exists>ty'. holds m a (le32_bytes ty') \<and> (\<forall>t. tok_type ty t \<longrightarrow> tok_type ty' t) \<and> ty' AND SXE_JITSON_TYPE_INDEXED = ty AND SXE_JITSON_TYPE_INDEXED
    \<and> ty' AND SXE_JITSON_TYPE_IS_UINT = ty AND SXE_JITSON_TYPE_IS_UINT" "holds m (a + 4) b"
proof -
  obtain x where x: "x \<in> {0, SXE_JITSON_TYPE_ALLOCED}" "holds m a (le32_bytes (ty OR x))"
    using assms unfolding tokens_at_def by (force simp: le32_le32_bytes)
  have z: "x AND SXE_JITSON_TYPE_MASK = 0" "x AND SXE_JITSON_TYPE_IS_REF = 0" "x AND SXE_JITSON_TYPE_IS_KEY = 0" "x AND SXE_JITSON_TYPE_INDEXED = 0"
      "x AND SXE_JITSON_TYPE_IS_UINT = 0"
    using x(1) by (auto simp: SXE_JITSON_TYPE_ALLOCED_def SXE_JITSON_TYPE_INDEXED_def SXE_JITSON_TYPE_MASK_def SXE_JITSON_TYPE_IS_REF_def
        SXE_JITSON_TYPE_IS_KEY_def SXE_JITSON_TYPE_IS_UINT_def)
  show "\<exists>ty'. holds m a (le32_bytes ty') \<and> (\<forall>t. tok_type ty t \<longrightarrow> tok_type ty' t) \<and> ty' AND SXE_JITSON_TYPE_INDEXED = ty AND SXE_JITSON_TYPE_INDEXED
      \<and> ty' AND SXE_JITSON_TYPE_IS_UINT = ty AND SXE_JITSON_TYPE_IS_UINT"
    using x(2) by (intro exI[of _ "ty OR x"]) (simp add: tok_type_def word_ao_dist z)
  show "holds m (a + 4) b" using assms by (simp add: tokens_at_def)
qed

lemma tok_types: "tok_type SXE_JITSON_TYPE_NULL SXE_JITSON_TYPE_NULL" "tok_type SXE_JITSON_TYPE_BOOL SXE_JITSON_TYPE_BOOL"
    "tok_type (SXE_JITSON_TYPE_NUMBER OR SXE_JITSON_TYPE_IS_UINT) SXE_JITSON_TYPE_NUMBER" "tok_type SXE_JITSON_TYPE_NUMBER SXE_JITSON_TYPE_NUMBER"
    "tok_type SXE_JITSON_TYPE_STRING SXE_JITSON_TYPE_STRING" "tok_type SXE_JITSON_TYPE_ARRAY SXE_JITSON_TYPE_ARRAY"
    "tok_type SXE_JITSON_TYPE_OBJECT SXE_JITSON_TYPE_OBJECT"
    "(SXE_JITSON_TYPE_NUMBER OR SXE_JITSON_TYPE_IS_UINT) AND SXE_JITSON_TYPE_IS_UINT \<noteq> 0" "SXE_JITSON_TYPE_NUMBER AND SXE_JITSON_TYPE_IS_UINT = 0"
    "SXE_JITSON_TYPE_ARRAY AND SXE_JITSON_TYPE_INDEXED = 0" "SXE_JITSON_TYPE_OBJECT AND SXE_JITSON_TYPE_INDEXED = 0"
  by (simp_all add: tok_type_def type_values SXE_JITSON_TYPE_MASK_def SXE_JITSON_TYPE_IS_REF_def SXE_JITSON_TYPE_IS_KEY_def
      SXE_JITSON_TYPE_IS_UINT_def SXE_JITSON_TYPE_INDEXED_def)

lemma tokens_dom: "tokens_at m a b \<Longrightarrow> 4 \<le> length b \<Longrightarrow> region a (length b) \<subseteq> dom m"
proof -
  assume t: "tokens_at m a b" "4 \<le> length b"
  obtain bs where "length bs = 4" "holds m a bs" "holds m (a + 4) (drop 4 b)" using t(1) unfolding tokens_at_def le32_bytes_def by force
  then have "region a 4 \<subseteq> dom m" "region (a + 4) (length b - 4) \<subseteq> dom m" using holds_region by fastforce+
  moreover have "region a (length b) = region a 4 \<union> region (a + 4) (length b - 4)" using region_split[of a 4 "length b - 4"] t(2) by simp
  ultimately show ?thesis by simp
qed

lemma string_tokens_size: "string_tokens ty s b \<Longrightarrow> length b = 16 * string_size s"
proof -
  assume "string_tokens ty s b"
  then obtain junk where "b = le32_bytes ty @ le32_bytes (of_nat (length s)) @ s @ 0 # junk" "length junk < 16" "16 dvd length b"
    unfolding string_tokens_def by blast
  then have b: "length b = 9 + length s + length junk" "length junk < 16" "16 dvd length b" by simp_all
  then obtain q where q: "9 + length s + length junk = 16 * q" by (metis dvd_def)
  then obtain q' where q': "q = Suc q'" by (cases q) auto
  then have "length s + 8 = 16 * q' + (15 - length junk)" using q b(2) by simp
  then have "(length s + 8) div 16 = q'" by simp
  then show ?thesis using b(1) q q' by (simp add: string_size_def)
qed

lemma string_tokens_at:
  assumes "string_tokens ty s b" "tokens_at m a b"
  shows "holds m (a + 4) (le32_bytes (of_nat (length s)))" "holds m (a + 8) (s @ [0])"
proof -
  obtain junk where b: "b = le32_bytes ty @ le32_bytes (of_nat (length s)) @ s @ 0 # junk" using assms(1) by (auto simp: string_tokens_def)
  have "b = le32_bytes ty @ le32_bytes (of_nat (length s)) @ (s @ [0]) @ junk" using b by simp
  then have "holds m (a + 4) (le32_bytes (of_nat (length s)) @ (s @ [0]) @ junk)" using tokens_at_header(2) assms(2) by blast
  then show "holds m (a + 4) (le32_bytes (of_nat (length s)))" "holds m (a + 8) (s @ [0])"
    unfolding holds_append by (simp_all add: add.assoc)
qed

lemma collection_at:
  assumes "tokens_at m a (collection_header ty k b @ b)" "tok_type ty t" "ty AND SXE_JITSON_TYPE_INDEXED = 0" "plain"
    "k < 2 ^ 27" "length b + 16 < 2 ^ 31" "16 dvd length b"
  shows "coll_rep m a t k (1 + length b div 16) plain index (region (a + 16) (length b)) (region a (16 + length b))" "holds m (a + 16) b"
proof -
  have l: "length (collection_header ty k b @ b) = 16 + length b" by (simp add: collection_header_def)
  have d: "region a (16 + length b) \<subseteq> dom m" using tokens_dom[OF assms(1)] l by simp
  have r: "region a (16 + length b) = region a 16 \<union> region (a + 16) (length b)" using region_split[of a 16 "length b"] by simp
  from assms(1) have "tokens_at m a (le32_bytes ty @ le32_bytes (of_nat k) @ le64_bytes (of_nat (1 + length b div 16)) @ b)"
    by (simp add: collection_header_def)
  from tokens_at_header[OF this] obtain ty' where h: "holds m a (le32_bytes ty')" "tok_type ty' t" "ty' AND SXE_JITSON_TYPE_INDEXED = 0"
    "holds m (a + 4) (le32_bytes (of_nat k) @ le64_bytes (of_nat (1 + length b div 16)) @ b)" using assms(2,3) by auto
  from h(4) have f: "holds m (a + 4) (le32_bytes (of_nat k))" "holds m (a + 8) (le64_bytes (of_nat (1 + length b div 16)))" "holds m (a + 16) b"
    unfolding holds_append by (simp_all add: add.assoc)
  show "holds m (a + 16) b" by (rule f(3))
  have "1 + length b div 16 < 2 ^ 27" using assms(6,7) by (auto simp: dvd_def)
  then show "coll_rep m a t k (1 + length b div 16) plain index (region (a + 16) (length b)) (region a (16 + length b))"
    unfolding coll_rep_def coll_index_def using h(1-3) f(1,2) d r assms(4,5)
    by (intro conjI exI[of _ ty'] exI[of _ "{}"]) (auto simp: region_def simp del: not_None_eq)
qed

lemma jrep_vrep:
  "jrep v b \<Longrightarrow> length b < 2 ^ 31 \<Longrightarrow> plain_names v \<Longrightarrow> tokens_at m a b \<Longrightarrow>
     16 dvd length b \<and> 16 \<le> length b \<and> vrep hash m a v (length b div 16) (region a (length b))"
  "jreps vs b \<Longrightarrow> length b + 16 < 2 ^ 31 \<Longrightarrow> \<forall>v \<in> set vs. plain_names v \<Longrightarrow> holds m (a + 16 * int i) b \<Longrightarrow>
     16 dvd length b \<and> 16 * length vs \<le> length b \<and> (\<exists>os. vreps hash m a i vs os (i + length b div 16) (region (a + 16 * int i) (length b)))"
  "jmembers ms b \<Longrightarrow> length b + 16 < 2 ^ 31 \<Longrightarrow> \<forall>(k, v) \<in> set ms. 0 \<notin> set k \<and> plain_names v \<Longrightarrow> holds m (a + 16 * int i) b \<Longrightarrow>
     16 dvd length b \<and> 16 * length ms \<le> length b \<and> (\<exists>os. mreps hash m a i ms os (i + length b div 16) (region (a + 16 * int i) (length b))
       \<and> lens_hold m a os (map fst ms))"
proof (induction arbitrary: a and a i and a i rule: jrep_jreps_jmembers.inducts)
  case (rep_null x)
  then show ?case using tokens_at_header(1)[OF rep_null(4)] tok_types tokens_dom[OF rep_null(4)] by auto
next
  case (rep_bool x y b)
  have "holds m (a + 4) (x @ (if b then 1 else 0) # y)" by (rule tokens_at_header(2)[OF rep_bool(5)])
  then have "m (a + 8) = Some (if b then 1 else 0)" using rep_bool(1) by (simp add: holds_append holds_Cons add.assoc)
  then show ?case using tokens_at_header(1)[OF rep_bool(5)] tok_types tokens_dom[OF rep_bool(5)] rep_bool(1,2) by auto
next
  case (rep_uint x v)
  have "holds m (a + 4) (x @ le64_bytes v)" by (rule tokens_at_header(2)[OF rep_uint(4)])
  then have "holds m (a + 8) (le64_bytes v)" using rep_uint(1) by (simp add: holds_append add.assoc)
  then show ?case using tokens_at_header(1)[OF rep_uint(4)] tok_types tokens_dom[OF rep_uint(4)] rep_uint(1) by auto
next
  case (rep_real x v)
  have "holds m (a + 4) (x @ le64_bytes v)" by (rule tokens_at_header(2)[OF rep_real(4)])
  then have "holds m (a + 8) (le64_bytes v)" using rep_real(1) by (simp add: holds_append add.assoc)
  then show ?case using tokens_at_header(1)[OF rep_real(4)] tok_types tokens_dom[OF rep_real(4)] rep_real(1) by auto
next
  case (rep_string s b)
  note l = string_tokens_size[OF rep_string(1)] and h = string_tokens_at[OF rep_string(1,4)]
  obtain c where "b = le32_bytes SXE_JITSON_TYPE_STRING @ c" using rep_string(1) by (auto simp: string_tokens_def)
  then have ty: "\<exists>ty'. holds m a (le32_bytes ty') \<and> tok_type ty' SXE_JITSON_TYPE_STRING"
    using tokens_at_header(1)[of m a SXE_JITSON_TYPE_STRING c] rep_string(4) tok_types(5) by auto
  have "length s + 9 \<le> length b" using string_size_bound[of s] l by simp
  moreover have "16 \<le> length b" using string_size_pos[of s] l by linarith
  ultimately show ?case using l h ty tokens_dom[OF rep_string(4)] rep_string(2) by auto
next
  case (rep_array vs b)
  have l: "length (collection_header SXE_JITSON_TYPE_ARRAY (length vs) b @ b) = 16 + length b" by (simp add: collection_header_def)
  have lb: "length b + 16 < 2 ^ 31" using rep_array(3) l by simp
  have pn: "\<forall>v \<in> set vs. plain_names v" using rep_array(4) by simp
  have "tokens_at m a (le32_bytes SXE_JITSON_TYPE_ARRAY @ le32_bytes (of_nat (length vs)) @ le64_bytes (of_nat (1 + length b div 16)) @ b)"
    using rep_array(5) by (simp add: collection_header_def)
  from tokens_at_header(2)[OF this] have hb: "holds m (a + 16 * int 1) b" unfolding holds_append by (simp add: add.assoc)
  obtain os where i: "16 dvd length b" "16 * length vs \<le> length b" "vreps hash m a 1 vs os (1 + length b div 16) (region (a + 16 * int 1) (length b))"
    using rep_array(2)[OF lb pn hb] by blast
  have "coll_rep m a SXE_JITSON_TYPE_ARRAY (length vs) (1 + length b div 16) True (\<lambda>p. offsets_hold m p os) (region (a + 16) (length b)) (region a (16 + length b))"
    by (rule collection_at(1)[OF rep_array(5) tok_types(6,10)]) (use i(1,2) lb in auto)
  then have "vrep hash m a (JArray vs) (1 + length b div 16) (region a (16 + length b))" using i(3) by auto
  then show ?case unfolding l using i(1) by simp
next
  case (rep_object ms b)
  have l: "length (collection_header SXE_JITSON_TYPE_OBJECT (length ms) b @ b) = 16 + length b" by (simp add: collection_header_def)
  have lb: "length b + 16 < 2 ^ 31" using rep_object(3) l by simp
  have pn: "\<forall>(k, v) \<in> set ms. 0 \<notin> set k \<and> plain_names v" using rep_object(4) by simp
  have "tokens_at m a (le32_bytes SXE_JITSON_TYPE_OBJECT @ le32_bytes (of_nat (length ms)) @ le64_bytes (of_nat (1 + length b div 16)) @ b)"
    using rep_object(5) by (simp add: collection_header_def)
  from tokens_at_header(2)[OF this] have hb: "holds m (a + 16 * int 1) b" unfolding holds_append by (simp add: add.assoc)
  obtain os where i: "16 dvd length b" "16 * length ms \<le> length b" "mreps hash m a 1 ms os (1 + length b div 16) (region (a + 16 * int 1) (length b))"
      "lens_hold m a os (map fst ms)"
    using rep_object(2)[OF lb pn hb] by blast
  have "coll_rep m a SXE_JITSON_TYPE_OBJECT (length ms) (1 + length b div 16) (lens_hold m a os (map fst ms))
      (\<lambda>p. buckets_hold hash m a p (length ms) os (map fst ms)) (region (a + 16) (length b)) (region a (16 + length b))"
    by (rule collection_at(1)[OF rep_object(5) tok_types(7,11)]) (use i(1,2,4) lb in auto)
  then have "vrep hash m a (JObject ms) (1 + length b div 16) (region a (16 + length b))" using i(3) by auto
  then show ?case unfolding l using i(1) by simp
next
  case reps_nil
  then show ?case by auto
next
  case (reps_cons v b vs bs)
  have h: "holds m (a + 16 * int i) b" "holds m (a + 16 * int i + int (length b)) bs" using reps_cons(7) by (simp_all add: holds_append)
  have b16: "16 \<le> length b" using reps_cons(1) by (rule jrep_length)
  have "tokens_at m (a + 16 * int i) b" using h(1) b16 by (intro tokens_at_holds) simp_all
  then have v: "16 dvd length b" "vrep hash m (a + 16 * int i) v (length b div 16) (region (a + 16 * int i) (length b))"
    using reps_cons(3)[of "a + 16 * int i"] reps_cons(5,6) by auto
  have e: "a + 16 * int i + int (length b) = a + 16 * int (i + length b div 16)" using v(1) by (auto simp: dvd_def)
  obtain os where vs: "16 dvd length bs" "16 * length vs \<le> length bs"
      "vreps hash m a (i + length b div 16) vs os (i + length b div 16 + length bs div 16) (region (a + 16 * int (i + length b div 16)) (length bs))"
    using reps_cons(4)[of a "i + length b div 16"] reps_cons(5,6) h(2) unfolding e by auto
  have r: "region (a + 16 * int i) (length (b @ bs)) = region (a + 16 * int i) (length b) \<union> region (a + 16 * int (i + length b div 16)) (length bs)"
      "region (a + 16 * int i) (length b) \<inter> region (a + 16 * int (i + length b div 16)) (length bs) = {}"
    unfolding e[symmetric] length_append by (rule region_split, rule region_apart)
  have e2: "i + length (b @ bs) div 16 = i + length b div 16 + length bs div 16" using v(1) vs(1) by (auto simp: dvd_def)
  have "vreps hash m a i (v # vs) (i # os) (i + length (b @ bs) div 16) (region (a + 16 * int i) (length (b @ bs)))"
    unfolding vreps.simps r(1) e2 using v(2) vs(3) r(2) by blast
  then show ?case using v(1) vs(1,2) b16 by (auto simp: dvd_add)
next
  case members_nil
  then show ?case by (auto simp: lens_hold_def)
next
  case (members_cons k kb v vb ms b)
  let ?k = "a + 16 * int i" and ?n = "length vb div 16"
  have h: "holds m ?k kb" "holds m (?k + int (length kb)) vb" "holds m (?k + int (length kb) + int (length vb)) b"
    using members_cons(8) by (simp_all add: holds_append)
  have k: "string_tokens (string_type True) k kb" using members_cons(1) by (simp add: string_type_def)
  note lk = string_tokens_size[OF k]
  have k16: "16 \<le> length kb" using lk string_size_pos[of k] by linarith
  have tk: "tokens_at m ?k kb" using h(1) k16 by (intro tokens_at_holds) simp_all
  note sk = string_tokens_at[OF k tk]
  have "region ?k (16 * string_size k) \<subseteq> dom m" using tokens_dom[OF tk] k16 lk by simp
  moreover have "holds m ?k (le32_bytes (string_type True))"
  proof -
    obtain c where "kb = le32_bytes (string_type True) @ c" using k by (auto simp: string_tokens_def)
    then show ?thesis using h(1) by (simp add: holds_append)
  qed
  moreover have "length k < 2 ^ 31" using members_cons(6) lk string_size_bound[of k] by simp
  ultimately have key: "krep m ?k k (string_size k)" using members_cons(7) sk(2) by (simp add: krep_def)
  have b16: "16 \<le> length vb" using members_cons(2) by (rule jrep_length)
  have ek: "?k + int (length kb) = a + 16 * int (i + string_size k)" using lk by simp
  have "tokens_at m (a + 16 * int (i + string_size k)) vb" using h(2) b16 unfolding ek by (intro tokens_at_holds) simp_all
  then have v: "16 dvd length vb" "vrep hash m (a + 16 * int (i + string_size k)) v ?n (region (a + 16 * int (i + string_size k)) (length vb))"
    using members_cons(4)[of "a + 16 * int (i + string_size k)"] members_cons(6,7) by simp_all
  have e: "?k + int (length kb) + int (length vb) = a + 16 * int (i + string_size k + ?n)" using v(1) lk by (auto simp: dvd_def)
  obtain os where ms: "16 dvd length b" "16 * length ms \<le> length b" "lens_hold m a os (map fst ms)"
      "mreps hash m a (i + string_size k + ?n) ms os (i + string_size k + ?n + length b div 16) (region (a + 16 * int (i + string_size k + ?n)) (length b))"
    using members_cons(5)[of a "i + string_size k + ?n"] members_cons(6,7) h(3) unfolding e by auto
  let ?v = "a + 16 * int (i + string_size k)" and ?m = "a + 16 * int (i + string_size k + ?n)"
  have vm: "?v + int (length vb) = ?m" using e unfolding ek .
  have r: "region ?k (length (kb @ vb @ b)) = region ?k (16 * string_size k) \<union> (region ?v (length vb) \<union> region ?m (length b))"
    unfolding vm[symmetric] ek[symmetric] lk[symmetric] length_append region_split ..
  have "region ?v (length vb) \<union> region ?m (length b) = region ?v (length vb + length b)" unfolding vm[symmetric] region_split ..
  then have r2: "region ?k (16 * string_size k) \<inter> (region ?v (length vb) \<union> region ?m (length b)) = {}"
    using region_apart[of ?k "length kb" "length vb + length b"] unfolding ek unfolding lk by simp
  have r3: "region ?v (length vb) \<inter> region ?m (length b) = {}" unfolding vm[symmetric] by (rule region_apart)
  have e2: "i + length (kb @ vb @ b) div 16 = i + string_size k + ?n + length b div 16" using lk v(1) ms(1) by (auto simp: dvd_def)
  have "mreps hash m a i ((k, v) # ms) (i # os) (i + length (kb @ vb @ b) div 16) (region ?k (length (kb @ vb @ b)))"
    unfolding mreps.simps r e2 Un_assoc using key v(2) ms(4) r2 r3 by blast
  moreover have "lens_hold m a (i # os) (map fst ((k, v) # ms))" using ms(3) sk(1) by (simp add: lens_hold_def)
  moreover have "16 dvd length (kb @ vb @ b)" using lk v(1) ms(1) by (simp add: dvd_add)
  moreover have "16 * length ((k, v) # ms) \<le> length (kb @ vb @ b)" using ms(2) b16 by simp
  ultimately show ?case by blast
qed

lemma json_type_not_reference: "json_type v \<noteq> SXE_JITSON_TYPE_REFERENCE"
  by (cases v) (simp_all add: type_values)

lemma vrep_type: "vrep hash m a v n F \<Longrightarrow> \<exists>ty. holds m a (le32_bytes ty) \<and> tok_type ty (json_type v)"
  by (cases v) (auto simp: coll_rep_def)

lemma vrep_token:
  assumes "vrep hash m a v n F"
  shows "\<exists>ty. jit_type m a = Some ty \<and> tok_type ty (json_type v) \<and> sxe_jitson_get_type m a = Some (json_type v) \<and> jit_deref m a = Some a"
  using vrep_type[OF assms] token_of_type[OF _ tok_mask(1) json_type_not_reference] by blast

lemma string_value:
  assumes "vrep hash m a (JString s) n F"
  shows "sxe_jitson_len m a = Some (of_nat (length s), m)" "mem_read m (a + 8) (length s + 1) = Some (s @ [0])" "length s < 2 ^ 31"
proof -
  from assms obtain ty where s: "holds m a (le32_bytes ty)" "tok_type ty SXE_JITSON_TYPE_STRING" "holds m (a + 4) (le32_bytes (of_nat (length s)))"
      "holds m (a + 8) (s @ [0])" "length s < 2 ^ 31" by auto
  show "mem_read m (a + 8) (length s + 1) = Some (s @ [0])" "length s < 2 ^ 31"
    using mem_read_holds[OF s(4), of "length s + 1"] s(5) by simp_all
  have "sxe_jitson_string_len m a = Some (of_nat (length s), m)"
    using mem_u32_holds[OF s(1)] mem_u32_holds[OF s(3)] tok_mask(2,3)[OF s(2)] s(5)
    by (simp add: sxe_jitson_string_len_def jit_type_def jit_len_def ucast_64_of_nat)
  then show "sxe_jitson_len m a = Some (of_nat (length s), m)"
    using mem_u32_holds[OF s(1)] tok_mask(1)[OF s(2)]
    by (simp add: sxe_jitson_len_def sxe_jitson_supports_len_def jit_type_def type_len_def SXEA1_def type_values)
qed

lemma collection_length:
  assumes "vrep hash m a v n F" "v = JArray vs \<and> k = length vs \<or> v = JObject ms \<and> k = length ms"
  shows "sxe_jitson_len m a = Some (of_nat k, m)"
proof -
  obtain t plain index F0 where c: "coll_rep m a t k n plain index F0 F" "t \<in> {SXE_JITSON_TYPE_ARRAY, SXE_JITSON_TYPE_OBJECT}"
    using assms by auto
  obtain ty where ty: "holds m a (le32_bytes ty)" "tok_type ty t" "k < 2 ^ 27" using coll_rep_type[OF c(1)] by blast
  have k: "k < 2 ^ 31" using ty(3) by simp
  show ?thesis
    using mem_u32_holds[OF ty(1)] tok_mask(1)[OF ty(2)] c(2) coll_rep_len[OF c(1)] ucast_64_of_nat[OF k]
    by (auto simp: sxe_jitson_len_def sxe_jitson_supports_len_def jit_type_def type_len_def SXEA1_def type_values sxe_jitson_type_len_def)
qed

text \<open>A reference to the value at \<open>a\<close>: it is a single token, and its length is that of the value.\<close>

lemma reference_token:
  assumes "jit_deref m j = Some a" "j \<noteq> a"
  shows "jit_jitref m j = Some a \<and> (\<exists>ty. jit_type m j = Some ty \<and> ty AND SXE_JITSON_TYPE_MASK = SXE_JITSON_TYPE_REFERENCE)"
  using assms by (auto simp: jit_deref_def sxe_jitson_is_reference_def split: Option.bind_splits if_splits)

lemma reference_length:
  assumes "vrep hash m a v n F" "jit_deref m j = Some a" "sxe_jitson_len m a = Some x"
  shows "sxe_jitson_len m j = Some x"
proof (cases "j = a")
  case False
  obtain ty where j: "jit_jitref m j = Some a" "jit_type m j = Some ty" "ty AND SXE_JITSON_TYPE_MASK = SXE_JITSON_TYPE_REFERENCE"
    using reference_token[OF assms(2) False] by blast
  obtain ta where a: "jit_type m a = Some ta" "tok_type ta (json_type v)" "sxe_jitson_get_type m a = Some (json_type v)"
    using vrep_token[OF assms(1)] by blast
  have "type_len m (json_type v) a = Some x"
    using assms(3) a(1) tok_mask(1)[OF a(2)] json_type_not_reference[of v]
    by (auto simp: sxe_jitson_len_def SXEA1_def Let_def split: Option.bind_splits if_splits)
  then show ?thesis using j a(3)
    by (simp add: sxe_jitson_len_def sxe_jitson_supports_len_def sxe_jitson_reference_len_def SXEA1_def del: sxe_jitson_get_type.simps)
qed (use assms in simp)

lemma reference_size:
  assumes "vrep hash m a v n F" "jit_deref m j = Some a"
  shows "sxe_jitson_size m j = Some (if j = a then of_nat n else 1)"
  using vrep_size[OF assms(1)] reference_token[OF assms(2)]
  by (auto simp: sxe_jitson_size_def sxe_jitson_size_1_def)

lemma value_is_read:
  assumes "vrep hash m a v n F" "jit_deref m j = Some a"
  shows "value_read fp m j a v \<and> sxe_jitson_get_type m j = Some (json_type v) \<and> sxe_jitson_size m j = Some (if j = a then of_nat n else 1)"
proof -
  obtain ty where ty: "jit_type m a = Some ty" "tok_type ty (json_type v)" "sxe_jitson_get_type m a = Some (json_type v)"
    using vrep_token[OF assms(1)] by blast
  have "sxe_jitson_get_type m j = Some (json_type v)"
  proof (cases "sxe_jitson_is_reference m j = Some True")
    case True
    then have "jit_jitref m j = Some a" using assms(2) by (simp add: jit_deref_def)
    then show ?thesis using True ty(3) by (subst sxe_jitson_get_type.simps) simp
  next
    case False
    then have "a = j" using assms(2) by (cases "sxe_jitson_is_reference m j") (auto simp: jit_deref_def)
    then show ?thesis using ty(3) by simp
  qed
  moreover have "value_read fp m j a v"
  proof (cases v)
    case (JBool b)
    then have "m (a + 8) = Some (if b then 1 else 0)" using assms(1) by auto
    then have "jit_boolean m a = Some b" by (simp add: jit_boolean_def)
    then show ?thesis using ty(3) assms(2) JBool by (simp add: value_read_def sxe_jitson_get_bool_def SXEA6_def)
  next
    case (JUint u)
    then obtain ty' where u: "holds m a (le32_bytes ty')" "ty' AND SXE_JITSON_TYPE_IS_UINT \<noteq> 0" "holds m (a + 8) (le64_bytes u)" using assms(1) by auto
    then have "jit_type m a = Some ty'" "jit_integer m a = Some u" by (simp_all add: jit_type_def mem_u32_holds jit_integer_def mem_u64_holds)
    then show ?thesis using ty(3) u(2) assms(2) JUint
      by (simp add: value_read_def sxe_jitson_get_uint_def sxe_jitson_get_number_def SXEA6_def Let_def)
  next
    case (JReal d)
    then obtain ty' where u: "holds m a (le32_bytes ty')" "ty' AND SXE_JITSON_TYPE_IS_UINT = 0" "holds m (a + 8) (le64_bytes d)" using assms(1) by auto
    then have "jit_type m a = Some ty'" "jit_number m a = Some d" by (simp_all add: jit_type_def mem_u32_holds jit_number_def mem_u64_holds)
    then show ?thesis using ty(3) u(2) assms(2) JReal
      by (simp add: value_read_def sxe_jitson_get_uint_def sxe_jitson_get_number_def SXEA6_def Let_def)
  next
    case (JString s)
    note l = string_value[OF assms(1)[unfolded JString]]
    show ?thesis using l reference_length[OF assms l(1)] ty assms(2) JString tok_mask(2)[OF ty(2)]
      by (simp add: value_read_def sxe_jitson_get_string_def SXEA6_def jit_string_def)
  next
    case (JArray vs)
    then show ?thesis using reference_length[OF assms collection_length[OF assms(1), of vs "length vs"]] by (simp add: value_read_def)
  next
    case (JObject ms)
    then show ?thesis using reference_length[OF assms collection_length[OF assms(1), of _ "length ms" ms]] by (simp add: value_read_def)
  qed (simp add: value_read_def)
  ultimately show ?thesis using reference_size[OF assms] by simp
qed

text \<open>
  C39: reading a value. \<open>j\<close> is a value in memory, or a reference to one. \<open>sxe_jitson_get_type\<close> of it is the type of the value, and the
  functions for that type return what it is: a bool, an integer or number (or the error of a conversion that
  does not preserve it), the bytes and the length of a string, the number of elements or members. \<open>sxe_jitson_size\<close> is the number of
  the tokens of the value itself, and one for a reference to it.
\<close>

theorem sxe_jitson_get_value:
  assumes "vrep hash m a v n F" "jit_deref m j = Some a"
  shows "value_read fp m j a v \<and> sxe_jitson_get_type m j = Some (json_type v) \<and> sxe_jitson_size m j = Some (if j = a then of_nat n else 1)"
  by (rule value_is_read[OF assms])

text \<open>\<open>new_value\<close> with its tokens in memory.\<close>

lemma taken_tokens_value:
  assumes "taken_tokens v tokens" "plain_names v" "length tokens < 2 ^ 31" "holds m a tokens"
  shows "\<exists>n F. vrep hash m a v n F \<and> F \<subseteq> region a (length tokens)"
proof -
  obtain blk junk where t: "jrep v blk" "tokens = le32_bytes (le32 (take 4 blk) OR SXE_JITSON_TYPE_ALLOCED) @ drop 4 blk @ junk"
    using assms(1) unfolding taken_tokens_def by blast
  have b: "16 \<le> length blk" using t(1) by (rule jrep_length)
  have l: "length blk \<le> length tokens" using b unfolding t(2) by (simp add: le32_bytes_def)
  have "holds m a (le32_bytes (le32 (take 4 blk) OR SXE_JITSON_TYPE_ALLOCED))" "holds m (a + 4) (drop 4 blk)"
    using assms(4) unfolding t(2) holds_append by simp_all
  then have "tokens_at m a blk" unfolding tokens_at_def by blast
  then have "vrep hash m a v (length blk div 16) (region a (length blk))"
    using jrep_vrep(1)[OF t(1) _ assms(2)] l assms(3) by simp
  moreover have "region a (length blk) \<subseteq> region a (length tokens)" using l by (rule region_mono)
  ultimately show ?thesis by blast
qed

text \<open>
  C36: from the text of an object to its members. When there is memory, \<open>sxe_jitson_new\<close> of a text of the accepted grammar returns tokens; wherever they are
  in memory, \<open>sxe_jitson_object_get_member\<close> finds the value of the last member of the text that has the name, and NULL if none has it. The text is
  one without escapes from \<^verbatim>\<open>\\u0080\<close> on and without \<^verbatim>\<open>-0x\<close> (\<^const>\<open>plain_text\<close>), since the parser misplaces the bytes of the
  former, and no name in it has an escaped NUL (\<^const>\<open>plain_names\<close>), at which names end when they are compared. Names may occur more than once: the
  parser does not reject them.
\<close>

theorem sxe_jitson_new_get_member:
  assumes "malloc_ok (env_malloc env)" "\<forall>n. env_malloc env n \<noteq> None" "strtod_ok env dbl" "0 \<notin> set t" "plain_text t" "16 * length t + 32 < 2 ^ 31"
    and "thread_ready init_size ts" "accepted_ended dbl (JObject ms) t" "plain_names (JObject ms)"
  shows "\<exists>tokens ts'. sxe_jitson_new env SXE_JITSON_FLAG_STRICT True init_size ts (t @ 0 # r) = Some (Some tokens, ts') \<and>
    (\<forall>m a ix name len k. length tokens < 2 ^ 31 \<and> holds m a tokens \<and> 0 < a \<and> member_name name len k
        \<and> region (uint ix) (4 * (length ms + 1)) \<inter> region a (length tokens) = {} \<longrightarrow>
      (\<exists>p m'. sxe_jitson_object_get_member hash (Some ix) m a name len = Some (p, m')
        \<and> (case p of None \<Rightarrow> map_of (rev ms) k = None
            | Some b \<Rightarrow> \<exists>v n F. map_of (rev ms) k = Some v \<and> vrep hash m' b v n F)))"
proof -
  obtain tokens ts' where n: "sxe_jitson_new env SXE_JITSON_FLAG_STRICT True init_size ts (t @ 0 # r) = Some (Some tokens, ts')"
      "taken_tokens (JObject ms) tokens"
    using new_value[OF assms(1,3-7), of True r] assms(2,8) by auto
  have "\<exists>p m'. sxe_jitson_object_get_member hash (Some ix) m a name len = Some (p, m')
        \<and> (case p of None \<Rightarrow> map_of (rev ms) k = None | Some b \<Rightarrow> \<exists>v n F. map_of (rev ms) k = Some v \<and> vrep hash m' b v n F)"
    if h: "length tokens < 2 ^ 31" "holds m a tokens" "0 < a" "member_name name len k"
        "region (uint ix) (4 * (length ms + 1)) \<inter> region a (length tokens) = {}" for m a ix name len k
  proof -
    obtain n F where v: "vrep hash m a (JObject ms) n F" "F \<subseteq> region a (length tokens)"
      using taken_tokens_value[OF n(2) assms(9) h(1,2)] by blast
    have d: "jit_deref m a = Some a" using vrep_token[OF v(1)] by blast
    have f: "index_memory (Some ix) (length ms) \<inter> F = {}" using h(5) v(2) by (auto simp: index_memory_def)
    from object_get_member_value[OF v(1) d f h(3,4)] obtain p m' F' where g: "sxe_jitson_object_get_member hash (Some ix) m a name len = Some (p, m')"
        "case p of None \<Rightarrow> map_of (rev ms) k = None \<or> Some ix = None \<and> \<not> indexed m a
          | Some b \<Rightarrow> \<exists>v i E. map_of (rev ms) k = Some v \<and> vrep hash m' b v i E \<and> E \<subseteq> F'" by blast
    then show ?thesis by (intro exI[of _ p] exI[of _ m']) (auto split: option.splits)
  qed
  then show ?thesis using n(1) by blast
qed

lemma sample_tokens: "jrep JNull sample_null" "jrep (JBool True) sample_true" "string_tokens (string_type True) [0x61] sample_name"
proof -
  show "jrep JNull sample_null" unfolding sample_null_def by (rule rep_null) simp
  show "jrep (JBool True) sample_true" unfolding sample_true_def by (rule rep_bool) simp_all
  show "string_tokens (string_type True) [0x61] sample_name"
    unfolding string_tokens_def sample_name_def by (intro exI[of _ "replicate 6 0"]) (simp add: le32_bytes_def)
qed

lemma sample_object: "jrep (JObject sample_members) sample_object" "length sample_object = 80"
proof -
  have k: "string_tokens (SXE_JITSON_TYPE_STRING OR SXE_JITSON_TYPE_IS_KEY) [0x61] sample_name" using sample_tokens(3) by (simp add: string_type_def)
  have "jmembers sample_members (sample_name @ sample_null @ sample_name @ sample_true @ [])"
    unfolding sample_members_def by (intro members_cons k sample_tokens members_nil)
  then show "jrep (JObject sample_members) sample_object" unfolding sample_object_def by (intro rep_object) simp
  show "length sample_object = 80"
    by (simp add: sample_object_def sample_name_def sample_null_def sample_true_def collection_header_def le32_bytes_def le64_bytes_def)
qed

lemma sample_array: "jrep (JArray [JNull, JBool True]) sample_array" "length sample_array = 48"
proof -
  have "jreps [JNull, JBool True] (sample_null @ sample_true @ [])" by (intro reps_cons sample_tokens reps_nil)
  then show "jrep (JArray [JNull, JBool True]) sample_array" unfolding sample_array_def by (intro rep_array) simp
  show "length sample_array = 48"
    by (simp add: sample_array_def sample_null_def sample_true_def collection_header_def le32_bytes_def le64_bytes_def)
qed

lemma sample_value:
  assumes "jrep v blk" "length blk < 2 ^ 31" "plain_names v"
  shows "vrep hash (sample_memory blk) 16 v (length blk div 16) (region 16 (length blk)) \<and> jit_deref (sample_memory blk) 16 = Some 16"
proof -
  have "holds (sample_memory blk) 16 blk" unfolding sample_memory_def by (rule mem_upd_holds)
  then have "tokens_at (sample_memory blk) 16 blk" using jrep_length[OF assms(1)] by (intro tokens_at_holds) simp_all
  then have "vrep hash (sample_memory blk) 16 v (length blk div 16) (region 16 (length blk))"
    using jrep_vrep(1)[OF assms(1,2,3)] by blast
  then show ?thesis using vrep_token by blast
qed

lemma sample_object_value: "vrep hash (sample_memory sample_object) 16 (JObject sample_members) 5 (region 16 80)"
    "jit_deref (sample_memory sample_object) 16 = Some 16"
  using sample_value[OF sample_object(1)] by (simp_all add: sample_object(2) sample_members_def)

lemma sample_array_value: "vrep hash (sample_memory sample_array) 16 (JArray [JNull, JBool True]) 3 (region 16 48)"
    "jit_deref (sample_memory sample_array) 16 = Some 16"
  using sample_value[OF sample_array(1)] by (simp_all add: sample_array(2))

lemma sample_index: "index_memory (Some 1000) (length sample_members) \<inter> region 16 80 = {}"
    "index_memory (Some 1000) (length [JNull, JBool True]) \<inter> region 16 48 = {}"
  by (auto simp: index_memory_def region_def sample_members_def)

lemma sample_string: "accepted_string [0x61] [0x61]"
  using accepted_string.intros(2)[of "0x61" "[0x61]" "[]" "[]"] accepted_string.intros(1) by (simp add: accepted_char_def)

lemma sample_accepted_members: "accepted_text dbl (JObject sample_members) (lit ''{\"a\":null,\"a\":true}'')"
proof -
  have w: "ws []" by (simp add: ws_def)
  note m = text_member[OF w sample_string w w _ w]
  have "accepted_members dbl sample_members (([] @ 0x22 # [0x61] @ 0x22 # [] @ 0x3A # [] @ lit ''null'' @ []) @ 0x2C # ([] @ 0x22 # [0x61] @ 0x22 # [] @ 0x3A # [] @ lit ''true'' @ []))"
    unfolding sample_members_def by (intro text_members text_one_member m text_null text_true)
  from text_object[OF this] show ?thesis by (simp add: lit_def)
qed

lemma sxe_jitson_object_get_member_value_witness:
  "\<exists>r m' F'. sxe_jitson_object_get_member (\<lambda>_. 7) (Some 1000) (sample_memory sample_object) 16 [0x61, 0] 0 = Some (r, m')
    \<and> vrep (\<lambda>_. 7) m' 16 (JObject sample_members) 5 F' \<and> region 16 80 \<subseteq> F' \<and> F' \<subseteq> region 16 80 \<union> index_memory (Some 1000) (length sample_members)
    \<and> (\<forall>x. x \<notin> F' \<longrightarrow> m' x = sample_memory sample_object x)
    \<and> (sample_members \<noteq> [] \<and> (indexed (sample_memory sample_object) 16 \<or> Some (1000 :: u64) \<noteq> None) \<longrightarrow> indexed m' 16)
    \<and> (case r of None \<Rightarrow> map_of (rev sample_members) [0x61] = None \<or> Some (1000 :: u64) = None \<and> \<not> indexed (sample_memory sample_object) 16
        | Some b \<Rightarrow> \<exists>v i E. map_of (rev sample_members) [0x61] = Some v \<and> vrep (\<lambda>_. 7) m' b v i E \<and> E \<subseteq> F')"
  by (rule sxe_jitson_object_get_member_value[OF sample_object_value sample_index(1)]) (simp_all add: member_name_def)

lemma sxe_jitson_array_get_element_value_witness:
  "\<exists>r m' F'. sxe_jitson_array_get_element (Some 1000) (\<lambda>k. replicate k 0xFF) (sample_memory sample_array) 16 1 = Some (r, m')
    \<and> vrep (\<lambda>_. 7) m' 16 (JArray [JNull, JBool True]) 3 F' \<and> region 16 48 \<subseteq> F' \<and> F' \<subseteq> region 16 48 \<union> index_memory (Some 1000) (length [JNull, JBool True])
    \<and> (\<forall>x. x \<notin> F' \<longrightarrow> m' x = sample_memory sample_array x)
    \<and> (unat (1 :: u32) < length [JNull, JBool True] \<and> (indexed (sample_memory sample_array) 16 \<or> Some (1000 :: u64) \<noteq> None) \<longrightarrow> indexed m' 16)
    \<and> (case r of None \<Rightarrow> length [JNull, JBool True] \<le> unat (1 :: u32) \<or> Some (1000 :: u64) = None \<and> \<not> indexed (sample_memory sample_array) 16
        | Some e \<Rightarrow> unat (1 :: u32) < length [JNull, JBool True] \<and> (\<exists>k E. vrep (\<lambda>_. 7) m' e ([JNull, JBool True] ! unat (1 :: u32)) k E \<and> E \<subseteq> F'))"
  by (rule sxe_jitson_array_get_element_value[OF sample_array_value sample_index(2)]) simp

text \<open>The object at 16, and a reference to it at 800.\<close>

lemma sample_reference:
  "vrep hash (sample_referred sample_object) 16 (JObject sample_members) 5 (region 16 80)" "jit_deref (sample_referred sample_object) 800 = Some 16"
proof -
  have l: "length (le32_bytes SXE_JITSON_TYPE_REFERENCE @ le32_bytes 0 @ le64_bytes 16) = 16" by (simp add: le32_bytes_def le64_bytes_def)
  have "sample_referred sample_object x = sample_memory sample_object x" if "x \<in> region 16 80" for x
    unfolding sample_referred_def by (rule mem_upd_other, unfold l) (use that in \<open>simp add: region_def\<close>)
  then show "vrep hash (sample_referred sample_object) 16 (JObject sample_members) 5 (region 16 80)"
    using vrep_frame[OF sample_object_value(1)] by blast
  have h: "holds (sample_referred sample_object) 800 (le32_bytes SXE_JITSON_TYPE_REFERENCE @ le32_bytes 0 @ le64_bytes 16)"
    unfolding sample_referred_def by (rule mem_upd_holds)
  then have "holds (sample_referred sample_object) 800 (le32_bytes SXE_JITSON_TYPE_REFERENCE)" "holds (sample_referred sample_object) (800 + 8) (le64_bytes 16)"
    unfolding holds_append by (simp_all add: le32_bytes_def)
  then have "jit_type (sample_referred sample_object) 800 = Some SXE_JITSON_TYPE_REFERENCE" "jit_jitref (sample_referred sample_object) 800 = Some 16"
    unfolding jit_type_def jit_jitref_def by (simp_all add: mem_u32_holds mem_u64_holds)
  then show "jit_deref (sample_referred sample_object) 800 = Some 16"
    by (simp add: jit_deref_def sxe_jitson_is_reference_def type_values SXE_JITSON_TYPE_MASK_def)
qed

lemma sxe_jitson_get_value_witness:
  "(value_read sample_fp (sample_memory sample_object) 16 16 (JObject sample_members)
    \<and> sxe_jitson_get_type (sample_memory sample_object) 16 = Some (json_type (JObject sample_members))
    \<and> sxe_jitson_size (sample_memory sample_object) 16 = Some (if (16 :: int) = 16 then of_nat 5 else 1))
   \<and> value_read sample_fp (sample_referred sample_object) 800 16 (JObject sample_members)
    \<and> sxe_jitson_get_type (sample_referred sample_object) 800 = Some (json_type (JObject sample_members))
    \<and> sxe_jitson_size (sample_referred sample_object) 800 = Some (if (800 :: int) = 16 then of_nat 5 else 1)"
  by (intro conjI[OF sxe_jitson_get_value[OF sample_object_value] sxe_jitson_get_value[OF sample_reference]])

lemma sxe_jitson_new_get_member_witness:
  "\<exists>tokens ts'. sxe_jitson_new sample_env SXE_JITSON_FLAG_STRICT True 1 None (lit ''{\"a\":null,\"a\":true}'' @ 0 # []) = Some (Some tokens, ts') \<and>
    (\<forall>m a ix name len k. length tokens < 2 ^ 31 \<and> holds m a tokens \<and> 0 < a \<and> member_name name len k
        \<and> region (uint ix) (4 * (length sample_members + 1)) \<inter> region a (length tokens) = {} \<longrightarrow>
      (\<exists>p m'. sxe_jitson_object_get_member (\<lambda>_. 7) (Some ix) m a name len = Some (p, m')
        \<and> (case p of None \<Rightarrow> map_of (rev sample_members) k = None
            | Some b \<Rightarrow> \<exists>v n F. map_of (rev sample_members) k = Some v \<and> vrep (\<lambda>_. 7) m' b v n F)))"
proof (rule sxe_jitson_new_get_member[OF _ _ sample_strtod])
  have "lit ''{\"a\":null,\"a\":true}'' @ [0] = [] @ lit ''{\"a\":null,\"a\":true}'' @ 0 # []" by simp
  then show "accepted_ended (\<lambda>t. of_nat (length t)) (JObject sample_members) (lit ''{\"a\":null,\"a\":true}'')"
    unfolding accepted_ended_def using sample_accepted_members not_ident(6) by (metis ws_def empty_iff empty_set)
qed (auto simp: sample_env_def sample_malloc plain_text_def small_escapes_def lit_def thread_ready_def append_eq_Cons_conv Cons_eq_append_conv sample_members_def)

end
