(* ===== verification/SxeFactory.thy ===== *)
theory SxeFactory
  imports SxePrelude
begin

text \<open>
  The factories of \<^verbatim>\<open>lib-sxe-jitson/sxe-factory.c\<close>: data that grows at its end and is kept terminated by a NUL. The space
  doubles until it has reached \<open>maxincr\<close> and then grows by \<open>maxincr\<close>. The allocator is a parameter.
\<close>

record sxe_factory =
  factory_len :: u64
  factory_size :: u64
  factory_maxincr :: u64
  factory_data :: "u8 list option"

definition sxe_factory_alloc_make :: "u64 \<Rightarrow> u64 \<Rightarrow> sxe_factory" where
  "sxe_factory_alloc_make minsize maxincr =
    \<lparr>factory_len = 0, factory_size = (if minsize = 0 then 8 else minsize), factory_maxincr = (if maxincr = 0 then 4096 else maxincr),
     factory_data = None\<rparr>"

text \<open>The loop of \<open>sxe_factory_reserve\<close>; where the sizes wrap it may not end.\<close>

partial_function (option) reserve_size :: "u64 \<Rightarrow> u64 \<Rightarrow> u64 \<Rightarrow> u64 option" where
  "reserve_size maxincr needed newsize =
    (if newsize < needed
     then reserve_size maxincr needed (if maxincr \<le> newsize then newsize + maxincr else push_bit 1 newsize)
     else Some newsize)"

text \<open>The offset of the reserved space in the data, an inner \<^const>\<open>None\<close> for NULL.\<close>

definition sxe_factory_reserve :: "(u64 \<Rightarrow> u8 list option) \<Rightarrow> sxe_factory \<Rightarrow> u64 \<Rightarrow> (u64 option \<times> sxe_factory) option" where
  "sxe_factory_reserve malloc factory len =
    (let needed = factory_len factory + len + 1 in
     if factory_size factory < needed \<or> factory_data factory = None then do {
       newsize \<leftarrow> reserve_size (factory_maxincr factory) needed (factory_size factory);
       case sxe_realloc malloc (factory_data factory) newsize of
         None \<Rightarrow> Some (None, factory)
       | Some newdata \<Rightarrow> Some (Some (factory_len factory), factory\<lparr>factory_data := Some newdata, factory_size := newsize\<rparr>)
     } else Some (Some (factory_len factory), factory))"

definition sxe_factory_commit :: "sxe_factory \<Rightarrow> u64 \<Rightarrow> sxe_factory option" where
  "sxe_factory_commit factory len = do {
     let factory = factory\<lparr>factory_len := factory_len factory + len\<rparr>;
     data \<leftarrow> factory_data factory;
     data \<leftarrow> write_at (unat (factory_len factory)) [0] data;
     Some (factory\<lparr>factory_data := Some data\<rparr>)
   }"

text \<open>The amount of data added, \<^const>\<open>None\<close> for \<^verbatim>\<open>-1\<close>. A length of 0 stands for the length of the string \<open>data\<close>.\<close>

definition sxe_factory_add :: "(u64 \<Rightarrow> u8 list option) \<Rightarrow> sxe_factory \<Rightarrow> u8 list \<Rightarrow> u64 \<Rightarrow> (u64 option \<times> sxe_factory) option" where
  "sxe_factory_add malloc factory data len = do {
     let len = (if len = 0 then of_nat (strlen data) else len);
     (reservation, factory) \<leftarrow> sxe_factory_reserve malloc factory len;
     case reservation of
       None \<Rightarrow> Some (None, factory)
     | Some reservation \<Rightarrow>
         if length data < unat len then None
         else do {
           space1 \<leftarrow> factory_data factory;
           space1 \<leftarrow> write_at (unat reservation) (take (unat len) data) space1;
           factory \<leftarrow> sxe_factory_commit (factory\<lparr>factory_data := Some space1\<rparr>) len;
           Some (Some len, factory)
         }
   }"

definition sxe_factory_look :: "sxe_factory \<Rightarrow> u8 list option \<times> u64" where
  "sxe_factory_look factory = (factory_data factory, factory_len factory)"

definition sxe_factory_remove :: "(u64 \<Rightarrow> u8 list option) \<Rightarrow> sxe_factory \<Rightarrow> (u8 list option \<times> u64) \<times> sxe_factory" where
  "sxe_factory_remove malloc factory =
    (let (data, len_out) = sxe_factory_look factory;
         data = (if factory_len factory + 1 < factory_size factory
                 then sxe_realloc malloc (factory_data factory) (factory_len factory + 1) else data)
     in ((data, len_out), factory\<lparr>factory_data := None, factory_len := 0\<rparr>))"

text \<open>Adding pieces of data one after the other, with the results.\<close>

fun add_all :: "(u64 \<Rightarrow> u8 list option) \<Rightarrow> sxe_factory \<Rightarrow> u8 list list \<Rightarrow> (u64 option list \<times> sxe_factory) option" where
  "add_all malloc factory [] = Some ([], factory)"
| "add_all malloc factory (x # xs) = do {
     (r, factory) \<leftarrow> sxe_factory_add malloc factory x (of_nat (length x));
     (rs, factory) \<leftarrow> add_all malloc factory xs;
     Some (r # rs, factory)
   }"

text \<open>The pieces that were added.\<close>

fun kept :: "u64 option list \<Rightarrow> u8 list list \<Rightarrow> u8 list" where
  "kept (Some _ # rs) (x # xs) = x @ kept rs xs"
| "kept (None # rs) (x # xs) = kept rs xs"
| "kept _ _ = []"

text \<open>An allocator with less than 20 bytes.\<close>

definition small_malloc :: "u64 \<Rightarrow> u8 list option" where
  "small_malloc n = (if n < 20 then Some (replicate (unat n) 0) else None)"

definition factory_holds :: "sxe_factory \<Rightarrow> u8 list \<Rightarrow> bool" where
  "factory_holds factory s \<longleftrightarrow> unat (factory_len factory) = length s \<and> 0 < factory_size factory \<and> unat (factory_size factory) < 2 ^ 63
     \<and> 0 < factory_maxincr factory \<and> unat (factory_maxincr factory) < 2 ^ 62
     \<and> (case factory_data factory of
          None \<Rightarrow> s = []
        | Some d \<Rightarrow> length d = unat (factory_size factory) \<and> (\<exists>junk. d = s @ 0 # junk))"

lemma reserve_size_found:
  assumes "0 < newsize" and "0 < maxincr" and "unat needed < 2 ^ 62" and "unat maxincr < 2 ^ 62" and "unat newsize < 2 ^ 63"
  shows "\<exists>size1. reserve_size maxincr needed newsize = Some size1 \<and> needed \<le> size1 \<and> newsize \<le> size1 \<and> unat size1 < 2 ^ 63"
  using assms(1,5)
proof (induction "unat needed - unat newsize" arbitrary: newsize rule: less_induct)
  case less
  show ?case
  proof (cases "newsize < needed")
    case False
    then show ?thesis using less.prems by (subst reserve_size.simps) auto
  next
    case True
    let ?next = "if maxincr \<le> newsize then newsize + maxincr else push_bit 1 newsize"
    have lt: "unat newsize < 2 ^ 62" using True assms(3) by (simp add: word_less_nat_alt)
    have "unat (newsize + maxincr) = unat newsize + unat maxincr"
      using lt assms(4) by (simp add: unat_word_ariths(1))
    moreover have "unat (push_bit 1 newsize) = 2 * unat newsize"
      using lt by (simp add: push_bit_eq_mult unat_word_ariths(2))
    ultimately have next1: "unat newsize < unat ?next" "unat ?next < 2 ^ 63"
      using lt assms(2,4) less.prems(1) by (auto simp: word_less_nat_alt)
    have "unat needed - unat ?next < unat needed - unat newsize" using next1(1) True by (simp only: word_less_nat_alt)
    moreover have "0 < ?next" using next1(1) by (simp only: word_less_nat_alt) simp
    ultimately obtain size1 where s: "reserve_size maxincr needed ?next = Some size1" "needed \<le> size1" "?next \<le> size1" "unat size1 < 2 ^ 63"
      using less.hyps[OF _ _ next1(2)] by blast
    have "newsize \<le> size1" using next1(1) s(3) by (simp only: word_le_nat_alt)
    then show ?thesis using s True by (subst reserve_size.simps) simp
  qed
qed

lemma write_at_space:
  "k = length a \<Longrightarrow> length b = length x \<Longrightarrow> write_at k x (a @ b @ c) = Some (a @ x @ c)"
  by (simp add: write_at_def)

lemma reserve_ok:
  assumes "factory_holds factory s" and "malloc_ok malloc" and "length s + unat len + 1 < 2 ^ 62"
  shows "(\<exists>n. malloc n = None) \<and> sxe_factory_reserve malloc factory len = Some (None, factory) \<or>
    (\<exists>factory' room. sxe_factory_reserve malloc factory len = Some (Some (factory_len factory), factory')
      \<and> factory_data factory' = Some (s @ room) \<and> unat len < length room \<and> length s + length room = unat (factory_size factory')
      \<and> factory_len factory' = factory_len factory \<and> factory_maxincr factory' = factory_maxincr factory
      \<and> 0 < factory_size factory' \<and> unat (factory_size factory') < 2 ^ 63)"
proof -
  let ?needed = "factory_len factory + len + 1"
  have h: "unat (factory_len factory) = length s" "0 < factory_size factory" "unat (factory_size factory) < 2 ^ 63"
    "0 < factory_maxincr factory" "unat (factory_maxincr factory) < 2 ^ 62" using assms(1) by (simp_all add: factory_holds_def)
  have n: "unat ?needed = length s + unat len + 1"
    using assms(3) h(1) by (simp add: unat_word_ariths(1))
  have n62: "unat ?needed < 2 ^ 62" using n assms(3) by simp
  show ?thesis
  proof (cases "factory_size factory < ?needed \<or> factory_data factory = None")
    case False
    then obtain d where d: "factory_data factory = Some d" by auto
    then obtain junk where "d = s @ 0 # junk" "length d = unat (factory_size factory)" using assms(1) by (auto simp: factory_holds_def)
    then show ?thesis using False d n h by (intro disjI2 exI[of _ factory] exI[of _ "0 # junk"])
      (auto simp: sxe_factory_reserve_def Let_def word_less_nat_alt)
  next
    case True
    obtain size1 where s1: "reserve_size (factory_maxincr factory) ?needed (factory_size factory) = Some size1" "?needed \<le> size1"
        "factory_size factory \<le> size1" "unat size1 < 2 ^ 63"
      using reserve_size_found[OF h(2,4) n62 h(5,3)] by blast
    show ?thesis
    proof (cases "sxe_realloc malloc (factory_data factory) size1")
      case None
      then have "malloc size1 = None" by (auto simp: sxe_realloc_def split: option.splits)
      then show ?thesis using True s1(1) None by (auto simp: sxe_factory_reserve_def Let_def)
    next
      case (Some d)
      have old: "length o1 \<le> unat size1" if "factory_data factory = Some o1" for o1
        using assms(1) that s1(3) by (auto simp: factory_holds_def word_le_nat_alt)
      have d: "length d = unat size1" by (rule realloc_length(1)[OF assms(2) Some old])
      have "\<exists>room. d = s @ room"
      proof (cases "factory_data factory")
        case None
        then show ?thesis using assms(1) by (simp add: factory_holds_def)
      next
        case (Some o1)
        have "take (length o1) d = o1" by (rule realloc_length(2)[OF assms(2) \<open>sxe_realloc _ _ _ = Some d\<close> old Some])
        moreover obtain junk where "o1 = s @ 0 # junk" using assms(1) Some by (auto simp: factory_holds_def)
        ultimately show ?thesis by (metis append_take_drop_id append.assoc)
      qed
      then obtain room where room: "d = s @ room" by blast
      have "unat len < length room" using d room n s1(2) by (simp add: word_le_nat_alt)
      moreover have "0 < size1" using s1(3) h(2) by simp
      ultimately show ?thesis using True s1(1,4) Some d room
        by (intro disjI2 exI[of _ "factory\<lparr>factory_data := Some d, factory_size := size1\<rparr>"] exI[of _ room])
           (simp add: sxe_factory_reserve_def Let_def)
    qed
  qed
qed

lemma add_ok:
  assumes "factory_holds factory s" and "malloc_ok malloc" and "x \<noteq> []" and "length s + length x + 1 < 2 ^ 62"
  shows "\<exists>r factory'. sxe_factory_add malloc factory x (of_nat (length x)) = Some (r, factory') \<and>
    (case r of None \<Rightarrow> factory' = factory \<and> (\<exists>n. malloc n = None)
     | Some l \<Rightarrow> l = of_nat (length x) \<and> factory_holds factory' (s @ x))"
proof -
  have u: "unat (of_nat (length x) :: u64) = length x" using assms(4) by (intro unat_of_nat_small) simp
  have nz: "(of_nat (length x) :: u64) \<noteq> 0" using u assms(3) by (metis length_0_conv unat_0)
  have "length s + unat (of_nat (length x) :: u64) + 1 < 2 ^ 62" using u assms(4) by simp
  from reserve_ok[OF assms(1,2) this] show ?thesis
  proof (elim disjE conjE exE)
    fix n assume "malloc n = None" and "sxe_factory_reserve malloc factory (of_nat (length x)) = Some (None, factory)"
    then show ?thesis using nz by (auto simp: sxe_factory_add_def)
  next
    fix f1 room
    assume r: "sxe_factory_reserve malloc factory (of_nat (length x)) = Some (Some (factory_len factory), f1)" "factory_data f1 = Some (s @ room)"
      "unat (of_nat (length x) :: u64) < length room" "length s + length room = unat (factory_size f1)" "factory_len f1 = factory_len factory"
      "factory_maxincr f1 = factory_maxincr factory" "0 < factory_size f1" "unat (factory_size f1) < 2 ^ 63"
    have h: "unat (factory_len factory) = length s" "0 < factory_maxincr factory" "unat (factory_maxincr factory) < 2 ^ 62"
      using assms(1) by (simp_all add: factory_holds_def)
    obtain a c0 junk where room: "room = a @ c0 # junk" "length a = length x"
    proof -
      have "length x < length room" using r(3) u by simp
      then show ?thesis using that[of "take (length x) room" "room ! length x" "drop (Suc (length x)) room"] by (simp add: id_take_nth_drop[symmetric])
    qed
    have l: "unat (factory_len factory + of_nat (length x)) = length s + length x"
      using h(1) u assms(4) by (simp add: unat_word_ariths(1))
    have w1: "write_at (length s) x (s @ room) = Some (s @ x @ c0 # junk)"
      unfolding room(1) by (rule write_at_space) (simp_all add: room(2))
    have w2: "write_at (length s + length x) [0] (s @ x @ c0 # junk) = Some (s @ x @ 0 # junk)"
      using write_at_space[of "length s + length x" "s @ x" "[c0]" "[0]" junk] by simp
    let ?f = "f1\<lparr>factory_len := factory_len factory + of_nat (length x), factory_data := Some (s @ x @ 0 # junk)\<rparr>"
    have "sxe_factory_add malloc factory x (of_nat (length x)) = Some (Some (of_nat (length x)), ?f)"
      using nz r(1,2,5) h(1) u w1 w2 l by (simp add: sxe_factory_add_def sxe_factory_commit_def Let_def)
    moreover have "factory_holds ?f (s @ x)"
      unfolding factory_holds_def using l r(4,6-8) h(2,3) room by simp
    ultimately show ?thesis by auto
  qed
qed

lemma add_all_ok:
  assumes "malloc_ok malloc" and "[] \<notin> set xs" and "length s + length (concat xs) + 1 < 2 ^ 62" and "factory_holds factory s"
  shows "\<exists>rs factory'. add_all malloc factory xs = Some (rs, factory') \<and> length rs = length xs \<and> factory_holds factory' (s @ kept rs xs)
    \<and> length (kept rs xs) \<le> length (concat xs) \<and> ((\<forall>n. malloc n \<noteq> None) \<longrightarrow> kept rs xs = concat xs)"
  using assms(2-4)
proof (induction xs arbitrary: s factory)
  case Nil
  then show ?case by simp
next
  case (Cons x xs)
  have "x \<noteq> []" "length s + length x + 1 < 2 ^ 62" using Cons.prems(1,2) by auto
  from add_ok[OF Cons.prems(3) assms(1) this]
  obtain r f1 where a: "sxe_factory_add malloc factory x (of_nat (length x)) = Some (r, f1)"
    and b: "case r of None \<Rightarrow> f1 = factory \<and> (\<exists>n. malloc n = None) | Some l \<Rightarrow> l = of_nat (length x) \<and> factory_holds f1 (s @ x)" by blast
  show ?case
  proof (cases r)
    case None
    then have "factory_holds f1 s" "\<exists>n. malloc n = None" using b Cons.prems(3) by auto
    moreover from this obtain rs f2 where "add_all malloc f1 xs = Some (rs, f2)" "length rs = length xs" "factory_holds f2 (s @ kept rs xs)"
        "length (kept rs xs) \<le> length (concat xs)"
      using Cons.IH[of s f1] Cons.prems(1,2) by auto
    ultimately show ?thesis using a None by (intro exI[of _ "r # rs"] exI[of _ f2]) (auto simp del: not_None_eq)
  next
    case (Some l)
    then have "factory_holds f1 (s @ x)" using b by simp
    then obtain rs f2 where "add_all malloc f1 xs = Some (rs, f2)" "length rs = length xs" "factory_holds f2 ((s @ x) @ kept rs xs)"
        "length (kept rs xs) \<le> length (concat xs)" "(\<forall>n. malloc n \<noteq> None) \<longrightarrow> kept rs xs = concat xs"
      using Cons.IH[of "s @ x" f1] Cons.prems(1,2) by auto
    then show ?thesis using a Some by (intro exI[of _ "r # rs"] exI[of _ f2]) auto
  qed
qed

lemma alloc_make_holds:
  "unat minsize < 2 ^ 62 \<Longrightarrow> unat maxincr < 2 ^ 62 \<Longrightarrow> factory_holds (sxe_factory_alloc_make minsize maxincr) []"
  by (auto simp: factory_holds_def sxe_factory_alloc_make_def word_neq_0_conv)

text \<open>What \<^verbatim>\<open>sxe_factory_remove\<close> returns.\<close>

lemma remove_ok:
  assumes m: "malloc_ok malloc" and h: "factory_holds f s" "s \<noteq> []" "length s + 1 < 2 ^ 62"
  shows "\<exists>r. fst (sxe_factory_remove malloc f) = (r, of_nat (length s)) \<and> (case r of None \<Rightarrow> \<exists>n. malloc n = None | Some d \<Rightarrow> d = s @ [0])"
proof -
  have "of_nat (unat (factory_len f)) = factory_len f" by simp
  then have len: "factory_len f = of_nat (length s)" using h(1) by (simp only: factory_holds_def)
  obtain d junk where d: "factory_data f = Some d" "d = s @ 0 # junk" "length d = unat (factory_size f)"
    using h(1,2) by (auto simp: factory_holds_def split: option.splits)
  have u: "unat (factory_len f + 1) = length s + 1"
    using h(1,3) by (simp add: factory_holds_def unat_word_ariths(1))
  show ?thesis
  proof (cases "factory_len f + 1 < factory_size f")
    case True
    show ?thesis
    proof (cases "malloc (factory_len f + 1)")
      case None
      then show ?thesis using True d(1) len by (auto simp: sxe_factory_remove_def sxe_factory_look_def sxe_realloc_def)
    next
      case (Some b)
      then have "length b = length s + 1" using m u by (simp add: malloc_ok_def)
      then show ?thesis using True Some d u len by (simp add: sxe_factory_remove_def sxe_factory_look_def sxe_realloc_def)
    qed
  next
    case False
    then have "length d \<le> length s + 1" using d(3) u by (simp add: word_less_nat_alt)
    then show ?thesis using False d(1,2) len by (simp add: sxe_factory_remove_def sxe_factory_look_def)
  qed
qed

text \<open>
  C35: adding pieces of data to a new factory ends and never writes outside the data; a piece for which there is no memory is
  left out and reported, and the others are in the factory in order, with their length and a NUL after them. What is
  removed from the factory at the end is exactly those bytes and the NUL, unless there is no memory for it.
\<close>

lemma sxe_factory_add_concatenates:
  assumes "malloc_ok malloc" and "[] \<notin> set xs" and "length (concat xs) + 1 < 2 ^ 62" and "unat minsize < 2 ^ 62" and "unat maxincr < 2 ^ 62"
  shows "\<exists>rs factory. add_all malloc (sxe_factory_alloc_make minsize maxincr) xs = Some (rs, factory) \<and> length rs = length xs
    \<and> ((\<forall>n. malloc n \<noteq> None) \<longrightarrow> kept rs xs = concat xs)
    \<and> snd (sxe_factory_look factory) = of_nat (length (kept rs xs))
    \<and> (case fst (sxe_factory_look factory) of None \<Rightarrow> kept rs xs = [] | Some d \<Rightarrow> \<exists>junk. d = kept rs xs @ 0 # junk)
    \<and> (kept rs xs \<noteq> [] \<longrightarrow> (case fst (fst (sxe_factory_remove malloc factory)) of
         None \<Rightarrow> \<exists>n. malloc n = None | Some d \<Rightarrow> d = kept rs xs @ [0]))"
proof -
  obtain rs f where a: "add_all malloc (sxe_factory_alloc_make minsize maxincr) xs = Some (rs, f)" "length rs = length xs"
      "factory_holds f (kept rs xs)" "length (kept rs xs) \<le> length (concat xs)" "(\<forall>n. malloc n \<noteq> None) \<longrightarrow> kept rs xs = concat xs"
    using add_all_ok[OF assms(1,2) _ alloc_make_holds[OF assms(4,5)]] assms(3) by auto
  let ?k = "kept rs xs"
  have len: "factory_len f = of_nat (length ?k)" 
  proof -
    have "of_nat (unat (factory_len f)) = factory_len f" by simp
    then show ?thesis using a(3) by (simp only: factory_holds_def)
  qed
  have data: "case factory_data f of None \<Rightarrow> ?k = [] | Some d \<Rightarrow> \<exists>junk. d = ?k @ 0 # junk"
    using a(3) by (auto simp: factory_holds_def split: option.splits)
  have removed: "?k \<noteq> [] \<longrightarrow> (case fst (fst (sxe_factory_remove malloc f)) of None \<Rightarrow> \<exists>n. malloc n = None | Some d \<Rightarrow> d = ?k @ [0])"
    using remove_ok[OF assms(1) a(3)] a(4) assms(3) by fastforce
  show ?thesis using a(1,2,5) len data removed
    by (intro exI[of _ rs] exI[of _ f]) (simp add: sxe_factory_look_def)
qed

lemma sxe_factory_add_concatenates_witness:
  "\<exists>rs factory. add_all small_malloc (sxe_factory_alloc_make 4 8) [lit ''ab'', lit ''cdefg''] = Some (rs, factory)
    \<and> length rs = length [lit ''ab'', lit ''cdefg'']
    \<and> ((\<forall>n. small_malloc n \<noteq> None) \<longrightarrow> kept rs [lit ''ab'', lit ''cdefg''] = concat [lit ''ab'', lit ''cdefg''])
    \<and> snd (sxe_factory_look factory) = of_nat (length (kept rs [lit ''ab'', lit ''cdefg'']))
    \<and> (case fst (sxe_factory_look factory) of None \<Rightarrow> kept rs [lit ''ab'', lit ''cdefg''] = [] | Some d \<Rightarrow> \<exists>junk. d = kept rs [lit ''ab'', lit ''cdefg''] @ 0 # junk)
    \<and> (kept rs [lit ''ab'', lit ''cdefg''] \<noteq> [] \<longrightarrow> (case fst (fst (sxe_factory_remove small_malloc factory)) of
         None \<Rightarrow> \<exists>n. small_malloc n = None | Some d \<Rightarrow> d = kept rs [lit ''ab'', lit ''cdefg''] @ [0]))"
  by (rule sxe_factory_add_concatenates) (simp_all add: malloc_ok_def small_malloc_def lit_def)

end
