(* ===== verification/SxeJitsonPrint.thy ===== *)
theory SxeJitsonPrint
  imports SxeJitsonAccess SxeFactory
begin

text \<open>
  Printing values as JSON: the \<^verbatim>\<open>build_json\<close> functions of \<^verbatim>\<open>sxe-jitson-type.c\<close> and \<^verbatim>\<open>sxe_jitson_to_json\<close>. Printing indexes the arrays and
  objects it comes to, so that it changes memory too. The results of the allocations of indexes are a list, of which the
  first is the next; when it is empty there is no memory. \<^const>\<open>None\<close> is an abort, an access to memory that is not there, or too little fuel.
\<close>

unbundle bit_operations_syntax

section \<open>The state of printing\<close>

text \<open>\<open>print_double\<close> is \<^verbatim>\<open>snprintf\<close> with \<^verbatim>\<open>%.16G\<close>, \<open>print_content\<close> is what \<^verbatim>\<open>malloc\<close> leaves in the memory of an index.\<close>

record print_env =
  print_malloc :: "u64 \<Rightarrow> u8 list option"
  print_hash :: "u8 list \<Rightarrow> u32"
  print_content :: "nat \<Rightarrow> u8 list"
  print_double :: "u64 \<Rightarrow> u8 list"

record json_out =
  out_mem :: jmem
  out_allocs :: "u64 list"
  out_factory :: sxe_factory

text \<open>The results of these functions are whether \<^verbatim>\<open>sxe_factory_look\<close> returns a pointer, or \<^const>\<open>False\<close> for an early NULL.\<close>

definition look_out :: "json_out \<Rightarrow> (bool \<times> json_out) option" where
  "look_out out = Some (fst (sxe_factory_look (out_factory out)) \<noteq> None, out)"

definition add_text :: "print_env \<Rightarrow> json_out \<Rightarrow> u8 list \<Rightarrow> json_out option" where
  "add_text env out s = do {
     (_, factory) \<leftarrow> sxe_factory_add (print_malloc env) (out_factory out) s (of_nat (length s));
     Some (out\<lparr>out_factory := factory\<rparr>)
   }"

section \<open>Scalars\<close>

definition sxe_jitson_null_build_json :: "print_env \<Rightarrow> addr \<Rightarrow> json_out \<Rightarrow> (bool \<times> json_out) option" where
  "sxe_jitson_null_build_json env j out = do { out \<leftarrow> add_text env out (lit ''null''); look_out out }"

definition sxe_jitson_bool_build_json :: "print_env \<Rightarrow> addr \<Rightarrow> json_out \<Rightarrow> (bool \<times> json_out) option" where
  "sxe_jitson_bool_build_json env j out = do {
     b \<leftarrow> sxe_jitson_get_bool (out_mem out) j;
     out \<leftarrow> add_text env out (if b then lit ''true'' else lit ''false'');
     look_out out
   }"

text \<open>\<^verbatim>\<open>snprintf\<close> with \<^verbatim>\<open>PRIu64\<close> and with \<^verbatim>\<open>\u00%02x\<close>, without the NUL.\<close>

fun decimal :: "nat \<Rightarrow> u8 list" where
  "decimal n = (if n < 10 then [of_nat (48 + n)] else decimal (n div 10) @ [of_nat (48 + n mod 10)])"

definition hex_char :: "nat \<Rightarrow> u8" where
  "hex_char n = (if n < 10 then of_nat (48 + n) else of_nat (87 + n))"

definition unicode_escape :: "u8 \<Rightarrow> u8 list" where
  "unicode_escape c = [0x5C, 0x75, 0x30, 0x30, hex_char (unat c div 16), hex_char (unat c mod 16)]"

definition NUMBER_MAX_LEN :: u64 where "NUMBER_MAX_LEN = 24"

text \<open>\<open>snprintf\<close> of \<open>s\<close> into the reserved space at \<open>at\<close>, which has \<open>size1\<close> bytes.\<close>

definition snprintf_at :: "sxe_factory \<Rightarrow> u64 \<Rightarrow> nat \<Rightarrow> u8 list \<Rightarrow> sxe_factory option" where
  "snprintf_at factory at size1 s = do {
     data \<leftarrow> factory_data factory;
     data \<leftarrow> write_at (unat at) (take (size1 - 1) s @ [0]) data;
     Some (factory\<lparr>factory_data := Some data\<rparr>)
   }"

definition sxe_jitson_number_build_json :: "print_env \<Rightarrow> fp_env \<Rightarrow> addr \<Rightarrow> json_out \<Rightarrow> (bool \<times> json_out) option" where
  "sxe_jitson_number_build_json env fp j out = do {
     (ret, factory) \<leftarrow> sxe_factory_reserve (print_malloc env) (out_factory out) NUMBER_MAX_LEN;
     case ret of
       None \<Rightarrow> Some (False, out\<lparr>out_factory := factory\<rparr>)
     | Some ret \<Rightarrow> do {
         type \<leftarrow> jit_type (out_mem out) j;
         s \<leftarrow> (if type AND SXE_JITSON_TYPE_IS_UINT \<noteq> 0 then do { (_, v) \<leftarrow> sxe_jitson_get_uint fp (out_mem out) j; Some (decimal (unat v)) }
               else do { (_, v) \<leftarrow> sxe_jitson_get_number fp (out_mem out) j; Some (print_double env v) });
         factory \<leftarrow> snprintf_at factory ret (unat NUMBER_MAX_LEN + 1) s;
         SXEA6 (length s \<le> unat NUMBER_MAX_LEN);
         factory \<leftarrow> sxe_factory_commit factory (of_nat (length s));
         look_out (out\<lparr>out_factory := factory\<rparr>)
       }
   }"

text \<open>The loop over the \<open>n\<close> characters from \<open>i\<close> on; the result is \<open>first\<close>, an inner \<^const>\<open>None\<close> for the early NULL.\<close>

fun print_chars :: "print_env \<Rightarrow> addr \<Rightarrow> u32 \<Rightarrow> u32 \<Rightarrow> nat \<Rightarrow> json_out \<Rightarrow> (u32 option \<times> json_out) option" where
  "print_chars env string first i 0 out = Some (Some first, out)"
| "print_chars env string first i (Suc n) out = do {
     c \<leftarrow> out_mem out (string + uint i);
     if c \<le> 0x1F \<or> c = 0x22 \<or> c = 0x5C then do {
       out \<leftarrow> (if first < i then do { s \<leftarrow> mem_read (out_mem out) (string + uint first) (unat (i - first)); add_text env out s } else Some out);
       (buffer, factory) \<leftarrow> sxe_factory_reserve (print_malloc env) (out_factory out) 7;
       case buffer of
         None \<Rightarrow> Some (None, out\<lparr>out_factory := factory\<rparr>)
       | Some buffer \<Rightarrow> do {
           factory \<leftarrow> snprintf_at factory buffer 7 (unicode_escape c);
           SXEA6 (length (unicode_escape c) = 6);
           factory \<leftarrow> sxe_factory_commit factory 6;
           print_chars env string (i + 1) (i + 1) n (out\<lparr>out_factory := factory\<rparr>)
         }
     } else print_chars env string first (i + 1) n out
   }"

definition sxe_jitson_string_build_json :: "print_env \<Rightarrow> addr \<Rightarrow> json_out \<Rightarrow> (bool \<times> json_out) option" where
  "sxe_jitson_string_build_json env j out = do {
     (len, m) \<leftarrow> sxe_jitson_len (out_mem out) j;
     let len = (ucast len :: u32);
     (string, _, m) \<leftarrow> sxe_jitson_get_string m j False;
     out \<leftarrow> add_text env (out\<lparr>out_mem := m\<rparr>) [0x22];
     (first, out) \<leftarrow> print_chars env string 0 0 (unat len) out;
     case first of
       None \<Rightarrow> Some (False, out)
     | Some first \<Rightarrow> do {
         out \<leftarrow> (if first < len then do { s \<leftarrow> mem_read (out_mem out) (string + uint first) (unat (len - first)); add_text env out s } else Some out);
         out \<leftarrow> add_text env out [0x22];
         look_out out
       }
   }"

section \<open>Collections\<close>

text \<open>Memory for an index is taken from \<open>out_allocs\<close> when the collection at \<open>j\<close> has none; the result is an inner \<^const>\<open>None\<close> for NULL.\<close>

definition takes_index :: "jmem \<Rightarrow> addr \<Rightarrow> bool option" where
  "takes_index m j = do { type \<leftarrow> jit_type m j; Some (type AND SXE_JITSON_TYPE_INDEXED = 0) }"

definition next_index :: "bool \<Rightarrow> u64 list \<Rightarrow> u64 option" where
  "next_index taken allocs = (case allocs of p # _ \<Rightarrow> if taken then Some p else None | [] \<Rightarrow> None)"

definition element_out :: "print_env \<Rightarrow> addr \<Rightarrow> u32 \<Rightarrow> json_out \<Rightarrow> (addr option \<times> json_out) option" where
  "element_out env j idx out = do {
     taken \<leftarrow> takes_index (out_mem out) j;
     (element, m) \<leftarrow> sxe_jitson_array_get_element (next_index taken (out_allocs out)) (print_content env) (out_mem out) j idx;
     Some (element, out\<lparr>out_mem := m, out_allocs := (if taken then tl (out_allocs out) else out_allocs out)\<rparr>)
   }"

definition force_index :: "print_env \<Rightarrow> addr \<Rightarrow> json_out \<Rightarrow> json_out option" where
  "force_index env j out = do {
     taken \<leftarrow> takes_index (out_mem out) j;
     if taken then do {
       (_, m) \<leftarrow> sxe_jitson_object_get_member (print_hash env) (next_index True (out_allocs out)) (out_mem out) j [0] 0;
       Some (out\<lparr>out_mem := m, out_allocs := tl (out_allocs out)\<rparr>)
     } else Some out
   }"

text \<open>
  The loops of the collections, where \<open>build\<close> is the call of the function of a type: over the elements from \<open>i\<close> with \<open>n\<close> after it, and
  over \<open>n\<close> buckets from \<open>b\<close> on, in each of them along the links of the members, of which each is printed by \<open>print_member\<close>. Fuel is for the links and for the calls on elements and
  members.
\<close>

type_synonym builder = "u32 \<Rightarrow> addr \<Rightarrow> json_out \<Rightarrow> (bool \<times> json_out) option"

definition build_at :: "builder \<Rightarrow> addr \<Rightarrow> json_out \<Rightarrow> (bool \<times> json_out) option" where
  "build_at build j out = do { type \<leftarrow> jit_type (out_mem out) j; build (type AND SXE_JITSON_TYPE_MASK) j out }"

fun print_elements :: "builder \<Rightarrow> print_env \<Rightarrow> addr \<Rightarrow> u32 \<Rightarrow> nat \<Rightarrow> json_out \<Rightarrow> json_out option" where
  "print_elements build env j i 0 out = do {
     (element, out) \<leftarrow> element_out env j i out;
     element \<leftarrow> element;
     (_, out) \<leftarrow> build_at build element out;
     Some out
   }"
| "print_elements build env j i (Suc n) out = do {
     (element, out) \<leftarrow> element_out env j i out;
     element \<leftarrow> element;
     (_, out) \<leftarrow> build_at build element out;
     out \<leftarrow> add_text env out [0x2C];
     print_elements build env j (i + 1) n out
   }"

definition print_member :: "builder \<Rightarrow> print_env \<Rightarrow> addr \<Rightarrow> u32 \<Rightarrow> bool \<Rightarrow> json_out \<Rightarrow> (u32 \<times> json_out) option" where
  "print_member build env j index first out = do {
     out \<leftarrow> (if first then Some out else add_text env out [0x2C]);
     let member = jit_nth j index;
     (_, out) \<leftarrow> build_at build member out;
     out \<leftarrow> add_text env out [0x3A];
     size1 \<leftarrow> sxe_jitson_size (out_mem out) member;
     (_, out) \<leftarrow> build_at build (jit_nth member size1) out;
     index \<leftarrow> jit_link (out_mem out) member;
     Some (index, out)
   }"

fun print_members :: "nat \<Rightarrow> builder \<Rightarrow> print_env \<Rightarrow> addr \<Rightarrow> u32 \<Rightarrow> bool \<Rightarrow> json_out \<Rightarrow> (bool \<times> json_out) option" where
  "print_members 0 build env j index first out = (if index = 0 then Some (first, out) else None)"
| "print_members (Suc f) build env j index first out =
    (if index = 0 then Some (first, out)
     else do { (index, out) \<leftarrow> print_member build env j index first out; print_members f build env j index False out })"

fun print_buckets :: "nat \<Rightarrow> builder \<Rightarrow> print_env \<Rightarrow> addr \<Rightarrow> u32 \<Rightarrow> nat \<Rightarrow> bool \<Rightarrow> json_out \<Rightarrow> json_out option" where
  "print_buckets f build env j b 0 first out = Some out"
| "print_buckets f build env j b (Suc n) first out = do {
     buckets \<leftarrow> jit_index (out_mem out) j;
     index \<leftarrow> mem_u32 (out_mem out) (buckets + 4 * uint b);
     (first, out) \<leftarrow> print_members f build env j index first out;
     print_buckets f build env j (b + 1) n first out
   }"

definition sxe_jitson_array_build_json :: "builder \<Rightarrow> print_env \<Rightarrow> addr \<Rightarrow> json_out \<Rightarrow> (bool \<times> json_out) option" where
  "sxe_jitson_array_build_json build env j out = do {
     out \<leftarrow> add_text env out [0x5B];
     len \<leftarrow> jit_len (out_mem out) j;
     out \<leftarrow> (if 0 < len then print_elements build env j 0 (unat (len - 1)) out else Some out);
     out \<leftarrow> add_text env out [0x5D];
     look_out out
   }"

definition sxe_jitson_object_build_json :: "nat \<Rightarrow> builder \<Rightarrow> print_env \<Rightarrow> addr \<Rightarrow> json_out \<Rightarrow> (bool \<times> json_out) option" where
  "sxe_jitson_object_build_json f build env j out = do {
     len \<leftarrow> jit_len (out_mem out) j;
     if len = 0 then do { out \<leftarrow> add_text env out [0x7B, 0x7D]; look_out out }
     else do {
       out \<leftarrow> force_index env j out;
       out \<leftarrow> add_text env out [0x7B];
       out \<leftarrow> print_buckets f build env j 0 (unat len) True out;
       out \<leftarrow> add_text env out [0x7D];
       look_out out
     }
   }"

definition sxe_jitson_reference_build_json :: "builder \<Rightarrow> print_env \<Rightarrow> addr \<Rightarrow> json_out \<Rightarrow> (bool \<times> json_out) option" where
  "sxe_jitson_reference_build_json build env j out = do {
     to \<leftarrow> jit_jitref (out_mem out) j;
     t \<leftarrow> sxe_jitson_get_type (out_mem out) to;
     build t to out
   }"

text \<open>The call of the function of the type \<open>t\<close>.\<close>

fun type_build_json :: "nat \<Rightarrow> print_env \<Rightarrow> fp_env \<Rightarrow> u32 \<Rightarrow> addr \<Rightarrow> json_out \<Rightarrow> (bool \<times> json_out) option" where
  "type_build_json 0 env fp t j out = None"
| "type_build_json (Suc f) env fp t j out =
    (if t = SXE_JITSON_TYPE_NULL then sxe_jitson_null_build_json env j out
     else if t = SXE_JITSON_TYPE_BOOL then sxe_jitson_bool_build_json env j out
     else if t = SXE_JITSON_TYPE_NUMBER then sxe_jitson_number_build_json env fp j out
     else if t = SXE_JITSON_TYPE_STRING then sxe_jitson_string_build_json env j out
     else if t = SXE_JITSON_TYPE_ARRAY then sxe_jitson_array_build_json (type_build_json f env fp) env j out
     else if t = SXE_JITSON_TYPE_OBJECT then sxe_jitson_object_build_json f (type_build_json f env fp) env j out
     else if t = SXE_JITSON_TYPE_REFERENCE then sxe_jitson_reference_build_json (type_build_json f env fp) env j out
     else None)"

definition sxe_jitson_build_json :: "nat \<Rightarrow> print_env \<Rightarrow> fp_env \<Rightarrow> addr \<Rightarrow> json_out \<Rightarrow> (bool \<times> json_out) option" where
  "sxe_jitson_build_json f env fp j out = build_at (type_build_json f env fp) j out"

text \<open>The text with the NUL after it and its length, \<^const>\<open>None\<close> for NULL, with memory and the remaining results of allocations.\<close>

definition sxe_jitson_to_json ::
    "nat \<Rightarrow> print_env \<Rightarrow> fp_env \<Rightarrow> u64 list \<Rightarrow> jmem \<Rightarrow> addr \<Rightarrow> ((u8 list \<times> u64) option \<times> jmem \<times> u64 list) option" where
  "sxe_jitson_to_json f env fp allocs m j = do {
     let factory = sxe_factory_alloc_make 0 0;
     (built, out) \<leftarrow> sxe_jitson_build_json f env fp j \<lparr>out_mem = m, out_allocs = allocs, out_factory = factory\<rparr>;
     if built then
       (case sxe_factory_remove (print_malloc env) (out_factory out) of
          ((Some json, len), _) \<Rightarrow> Some (Some (json, len), out_mem out, out_allocs out)
        | _ \<Rightarrow> Some (None, out_mem out, out_allocs out))
     else Some (None, out_mem out, out_allocs out)
   }"

section \<open>Text\<close>

text \<open>
  What \<^verbatim>\<open>snprintf\<close> does with \<^verbatim>\<open>%.16G\<close> and a finite double, as the C standard has it (in the C locale): a sign, an integer part without leading
  zeros, a fraction and an exponent, of which there may be none, in at most 24 characters. An infinity or a NaN is printed as \<^verbatim>\<open>INF\<close> or \<^verbatim>\<open>NAN\<close>, which
  is not JSON; they are the doubles whose exponent has all bits set.
\<close>

definition finite_double :: "u64 \<Rightarrow> bool" where
  "finite_double d \<longleftrightarrow> drop_bit 52 d AND 0x7FF \<noteq> 0x7FF"

definition printf_ok :: "(u64 \<Rightarrow> u8 list) \<Rightarrow> bool" where
  "printf_ok fmt \<longleftrightarrow> (\<forall>d. finite_double d \<longrightarrow> length (fmt d) \<le> 24
     \<and> (\<exists>s ds f e. fmt d = s @ ds @ f @ e \<and> num_sign s \<and> rfc_int ds \<and> num_fraction f \<and> num_exponent e))"

text \<open>There is memory, for the text and for indexes, and \<open>snprintf\<close> is the one of the C standard.\<close>

definition print_ok :: "print_env \<Rightarrow> bool" where
  "print_ok env \<longleftrightarrow> malloc_ok (print_malloc env) \<and> (\<forall>n. print_malloc env n \<noteq> None) \<and> (\<forall>k. length (print_content env k) = k)
     \<and> printf_ok (print_double env)"

definition printed_char :: "u8 \<Rightarrow> bool" where
  "printed_char c \<longleftrightarrow> \<not> (c \<le> 0x1F \<or> c = 0x22 \<or> c = 0x5C)"

lemma add_text_ok:
  assumes "print_ok env" "factory_holds (out_factory out) s" "x \<noteq> []" "length s + length x + 1 < 2 ^ 62"
  shows "\<exists>factory. add_text env out x = Some (out\<lparr>out_factory := factory\<rparr>) \<and> factory_holds factory (s @ x)"
proof -
  have m: "malloc_ok (print_malloc env)" using assms(1) by (simp add: print_ok_def)
  from add_ok[OF assms(2) m assms(3,4)] obtain r f where r: "sxe_factory_add (print_malloc env) (out_factory out) x (of_nat (length x)) = Some (r, f)"
      "case r of None \<Rightarrow> f = out_factory out \<and> (\<exists>n. print_malloc env n = None) | Some l \<Rightarrow> l = of_nat (length x) \<and> factory_holds f (s @ x)" by blast
  have "print_malloc env n \<noteq> None" for n using assms(1) by (simp add: print_ok_def)
  then obtain l where "r = Some l" using r(2) by (cases r) (auto simp del: not_None_eq)
  then show ?thesis using r by (intro exI[of _ f]) (simp add: add_text_def)
qed

lemma reserved_ok:
  assumes "print_ok env" "factory_holds factory s" "length s + unat len + 1 < 2 ^ 62" "length x < size1" "size1 \<le> unat len + 1"
  shows "\<exists>at f1 f2 f3. sxe_factory_reserve (print_malloc env) factory len = Some (Some at, f1) \<and> snprintf_at f1 at size1 x = Some f2
    \<and> sxe_factory_commit f2 (of_nat (length x)) = Some f3 \<and> factory_holds f3 (s @ x)"
proof -
  have m: "malloc_ok (print_malloc env)" "\<And>n. print_malloc env n \<noteq> None" using assms(1) by (simp_all add: print_ok_def)
  have h: "unat (factory_len factory) = length s" "0 < factory_maxincr factory" "unat (factory_maxincr factory) < 2 ^ 62"
    using assms(2) by (simp_all add: factory_holds_def)
  from reserve_ok[OF assms(2) m(1) assms(3)] m(2) obtain f1 room where r:
      "sxe_factory_reserve (print_malloc env) factory len = Some (Some (factory_len factory), f1)"
      "factory_data f1 = Some (s @ room)" "unat len < length room" "length s + length room = unat (factory_size f1)"
      "factory_len f1 = factory_len factory" "factory_maxincr f1 = factory_maxincr factory" "0 < factory_size f1" "unat (factory_size f1) < 2 ^ 63"
    by blast
  have lx: "length x < length room" using assms(4,5) r(3) by simp
  obtain a junk where room: "room = a @ junk" "length a = length (x @ [0])"
    using lx that[of "take (Suc (length x)) room" "drop (Suc (length x)) room"] by simp
  have tk: "take (size1 - 1) x = x" using assms(4) by simp
  have w1: "write_at (length s) (x @ [0]) (s @ room) = Some (s @ (x @ [0]) @ junk)"
    unfolding room(1) by (rule write_at_space) (use room(2) in simp_all)
  have u: "unat (of_nat (length x) :: u64) = length x" using lx r(4,8) by (intro unat_of_nat_small) simp
  have l: "unat (factory_len factory + of_nat (length x)) = length s + length x" using h(1) u lx r(4,8) by (simp add: unat_word_ariths(1))
  have w2: "write_at (length s + length x) [0] (s @ x @ 0 # junk) = Some (s @ x @ 0 # junk)"
    using write_at_space[of "length s + length x" "s @ x" "[0]" "[0]" junk] by simp
  let ?f2 = "f1\<lparr>factory_data := Some (s @ x @ 0 # junk)\<rparr>"
  let ?f3 = "f1\<lparr>factory_len := factory_len factory + of_nat (length x), factory_data := Some (s @ x @ 0 # junk)\<rparr>"
  have "snprintf_at f1 (factory_len factory) size1 x = Some ?f2" using r(2) h(1) w1 tk by (simp add: snprintf_at_def)
  moreover have "sxe_factory_commit ?f2 (of_nat (length x)) = Some ?f3" using r(5) l w2 by (simp add: sxe_factory_commit_def Let_def)
  moreover have "factory_holds ?f3 (s @ x)" unfolding factory_holds_def using l r(4,6-8) h(2,3) room by simp
  ultimately show ?thesis using r(1) by blast
qed

lemma decimal_digits: "num_digits (decimal n) \<and> digits_value 10 (decimal n) = n"
proof (induction n rule: decimal.induct)
  case (1 n)
  have d: "isdigit (of_nat (48 + k)) \<and> digit_value (of_nat (48 + k)) = k" if "k < 10" for k
  proof -
    have "unat (of_nat (48 + k) :: u8) = 48 + k" using that by (simp add: unat_of_nat del: of_nat_add)
    then have i: "isdigit (of_nat (48 + k))" using that by (simp add: isdigit_def word_le_nat_alt del: of_nat_add)
    then show ?thesis using \<open>unat (of_nat (48 + k) :: u8) = 48 + k\<close> by (simp add: digit_value_def del: of_nat_add)
  qed
  show ?case
  proof (cases "n < 10")
    case True
    then show ?thesis using d[of n] by (simp add: num_digits_def digits_value_def)
  next
    case False
    then have IH: "num_digits (decimal (n div 10))" "digits_value 10 (decimal (n div 10)) = n div 10" using 1 by auto
    let ?c = "of_nat (48 + n mod 10) :: u8"
    have e: "decimal n = decimal (n div 10) @ [?c]" using False by (subst decimal.simps) (simp only: if_False)
    have m: "n mod 10 < 10" by simp
    have "digits_value 10 (decimal n) = n" using IH(2) d[OF m] unfolding e digits_value_def foldl_append by (simp only: foldl.simps div_mult_mod_eq)
    moreover have "num_digits (decimal n)" using IH(1) d[OF m] unfolding e num_digits_def by (simp only: set_append list.set ball_Un ball_simps append_is_Nil_conv) blast
    ultimately show ?thesis by blast
  qed
qed

declare decimal.simps [simp del]

text \<open>There is no zero at the start but that of 0.\<close>

lemma decimal_first: "0 < n \<Longrightarrow> hd (decimal n) \<noteq> 0x30"
proof (induction n rule: decimal.induct)
  case (1 n)
  show ?case
  proof (cases "n < 10")
    case True
    then have "unat (of_nat (48 + n) :: u8) = 48 + n" by (simp add: unat_of_nat del: of_nat_add)
    then have "(of_nat (48 + n) :: u8) \<noteq> 0x30" using 1(2) by auto
    then show ?thesis using True by (simp add: decimal.simps[of n] del: of_nat_add)
  next
    case False
    then have "hd (decimal (n div 10)) \<noteq> 0x30" using 1(1) by simp
    moreover have "decimal (n div 10) \<noteq> []" using decimal_digits[of "n div 10"] by (auto simp: num_digits_def)
    ultimately show ?thesis using False by (simp add: decimal.simps[of n])
  qed
qed

lemma decimal_int: "rfc_int (decimal n)"
  using decimal_digits[of n] decimal_first[of n] by (cases "n = 0") (simp_all add: rfc_int_def decimal.simps[of 0])

lemma decimal_length: "n < 10 ^ k \<Longrightarrow> 0 < k \<Longrightarrow> length (decimal n) \<le> k"
proof (induction k arbitrary: n)
  case (Suc k)
  show ?case
  proof (cases "n < 10")
    case True
    then show ?thesis by (subst decimal.simps) simp
  next
    case False
    then have k: "0 < k" using Suc.prems by (cases k) auto
    have "n div 10 < 10 ^ k" using Suc.prems(1) by (simp add: less_mult_imp_div_less)
    then show ?thesis using False Suc.IH[of "n div 10"] k by (subst decimal.simps) simp
  qed
qed simp

lemma decimal_u64: "length (decimal (unat (v :: u64))) \<le> 24"
proof -
  have "unat v < 2 ^ 64" using unat_lt2p[of v] by simp
  also have "\<dots> < 10 ^ 24" by simp
  finally show ?thesis by (rule decimal_length) simp
qed

section \<open>Strings\<close>

lemma rfc_string_append: "rfc_string esc s t \<Longrightarrow> rfc_string esc s' t' \<Longrightarrow> rfc_string esc (s @ s') (t @ t')"
proof (induction rule: rfc_string.induct)
  case (rfc_string_cons octets a s t)
  then show ?case using rfc_string.rfc_string_cons[OF rfc_string_cons.hyps(1) rfc_string_cons.IH] by simp
qed simp

lemma rfc_string_plain: "\<forall>c \<in> set s. printed_char c \<Longrightarrow> rfc_string esc s s"
proof (induction s)
  case (Cons c s)
  then have "0x20 \<le> c" "c \<noteq> 0x22" "c \<noteq> 0x5C" by (auto simp: printed_char_def word_le_nat_alt)
  then have "rfc_char esc [c] [c]" by (simp add: rfc_char_def)
  then show ?case using Cons rfc_string_cons[of esc "[c]" "[c]" s s] by simp
qed (rule rfc_string_nil)

lemma hex_chars: "list_all (\<lambda>n. hex_escape_digit (hex_char n) = Some (of_nat n)) [0..<16]"
  by code_simp

lemma hex_char_digit: "n < 16 \<Longrightarrow> hex_escape_digit (hex_char n) = Some (of_nat n)"
  using hex_chars by (simp only: list_all_iff) (simp del: upt_rec_numeral)

lemma escape_of_char:
  assumes "unat c < 128"
  shows "rfc_char ascii_escape [c] (unicode_escape c)"
proof -
  let ?n = "unat c"
  have z: "hex_escape_digit 0x30 = Some 0" by (simp add: hex_escape_digit_def)
  have "push_bit 4 (of_nat (?n div 16)) + of_nat (?n mod 16) = (of_nat (16 * (?n div 16) + ?n mod 16) :: u32)"
    by (simp only: of_nat_add of_nat_mult push_bit_eq_mult) simp
  then have e: "push_bit 4 (of_nat (?n div 16)) + of_nat (?n mod 16) = (of_nat ?n :: u32)" by (simp only: mult_div_mod_eq)
  have p: "push_bit 4 (push_bit 4 (push_bit 4 0 + 0) + x) + y = push_bit 4 x + y" for x y :: u32 by simp
  have h: "hex_escape_digit (hex_char (?n div 16)) = Some (of_nat (?n div 16))" "hex_escape_digit (hex_char (?n mod 16)) = Some (of_nat (?n mod 16))"
    using assms by (auto intro!: hex_char_digit)
  have "escape_code 0x30 0x30 (hex_char (?n div 16)) (hex_char (?n mod 16)) = Some (of_nat ?n)"
    unfolding escape_code_def z h by (simp only: bind.bind_lunit p e)
  moreover have le: "(of_nat ?n :: u32) \<le> 0x7F" using unat_of_nat_32[of ?n] assms by (simp only: word_le_nat_alt) simp
  ultimately have esc: "escape_text ascii_escape (of_nat ?n) (unicode_escape c)"
    unfolding escape_text_def unicode_escape_def ascii_escape_def by blast
  have c: "c = ucast (of_nat ?n :: u32)" by (rule bit_word_eqI) (auto simp: bit_simps)
  have "sxe_unicode_to_utf8 (of_nat ?n) = [c]" using le c by (simp add: sxe_unicode_to_utf8_def)
  moreover have big: "(of_nat ?n :: u32) \<le> 0x10FFFF" "\<not> 0xD800 \<le> (of_nat ?n :: u32)" using le by (simp_all add: word_le_nat_alt)
  ultimately have "utf8_decode [c] = Some (of_nat ?n)" using utf8_decode_encoded[OF big(1)] by simp
  then show ?thesis using esc big(2) unfolding rfc_char_def by blast
qed

lemma rfc_string_escape: "\<not> printed_char c \<Longrightarrow> rfc_string ascii_escape [c] (unicode_escape c)"
proof -
  assume "\<not> printed_char c"
  then have "unat c < 128" by (auto simp: printed_char_def word_le_nat_alt)
  then show ?thesis
    using rfc_string_cons[OF escape_of_char, of c "[]" "[]"] rfc_string_nil by simp
qed

text \<open>Where printing a string stands: \<open>u\<close> is the text of the characters before \<open>first\<close>, and those from there to \<open>i\<close> are printed as they are.\<close>

lemma add_segment_ok:
  assumes "print_ok env" "factory_holds (out_factory out) t" "holds (out_mem out) a s" "length s < 2 ^ 31" "first \<le> i" "i \<le> length s"
    "\<forall>c \<in> set (take (i - first) (drop first s)). printed_char c" "length t + length s + 1 < 2 ^ 62"
  shows "\<exists>factory. (if (of_nat first :: u32) < of_nat i then do { x \<leftarrow> mem_read (out_mem out) (a + uint (of_nat first :: u32)) (unat (of_nat i - of_nat first :: u32)); add_text env out x } else Some out)
     = Some (out\<lparr>out_factory := factory\<rparr>) \<and> factory_holds factory (t @ take (i - first) (drop first s))"
proof -
  let ?x = "take (i - first) (drop first s)"
  have i31: "first < 2 ^ 31" "i < 2 ^ 31" using assms(4-6) by simp_all
  note u = unat_of_nat_32[OF i31(1)] unat_of_nat_32[OF i31(2)] uint_of_nat_32[OF i31(1)]
  have lt: "(of_nat first :: u32) < of_nat i \<longleftrightarrow> first < i" using u(1,2) by (simp only: word_less_nat_alt)
  have d: "unat (of_nat i - of_nat first :: u32) = i - first" using u(1,2) assms(5) by (subst unat_sub) (simp_all only: word_le_nat_alt)
  show ?thesis
  proof (cases "first < i")
    case False
    then show ?thesis using assms(2) lt by (intro exI[of _ "out_factory out"]) simp
  next
    case True
    have s: "s = take first s @ ?x @ drop i s"
      using assms(5) by (metis append_take_drop_id le_add_diff_inverse take_add append.assoc)
    have l: "length (take first s) = first" "length ?x = i - first" using assms(5,6) by simp_all
    have "holds (out_mem out) a (take first s @ ?x @ drop i s)" using assms(3) s by simp
    then have "holds (out_mem out) (a + int first) ?x" unfolding holds_append l by simp
    then have r: "mem_read (out_mem out) (a + int first) (i - first) = Some ?x" using l(2) by (rule mem_read_holds)
    have x: "?x \<noteq> []" "length t + length ?x + 1 < 2 ^ 62" using True l(2) assms(6,8) by auto
    from add_text_ok[OF assms(1,2) x] show ?thesis using True lt d r u(3) by simp
  qed
qed

lemma print_chars_ok:
  assumes "print_ok env" "holds (out_mem out) a s" "length s < 2 ^ 31" "i + n = length s" "first \<le> i"
    "\<forall>c \<in> set (take (i - first) (drop first s)). printed_char c" "factory_holds (out_factory out) t" "length t + 8 * length s + 10 < 2 ^ 62 + 7 * first"
  shows "\<exists>first' factory u. print_chars env a (of_nat first) (of_nat i) n out = Some (Some (of_nat first'), out\<lparr>out_factory := factory\<rparr>)
    \<and> first \<le> first' \<and> first' \<le> length s \<and> rfc_string ascii_escape (take (first' - first) (drop first s)) u \<and> length u \<le> 6 * (first' - first)
    \<and> (\<forall>c \<in> set (drop first' s). printed_char c) \<and> factory_holds factory (t @ u)"
  using assms(2,4-8)
proof (induction n arbitrary: i first out t)
  case 0
  then have "\<forall>c \<in> set (drop first s). printed_char c" by simp
  then show ?case using 0 by (intro exI[of _ first] exI[of _ "out_factory out"] exI[of _ "[]"]) (simp add: rfc_string_nil)
next
  case (Suc n)
  have i31: "i < 2 ^ 31" "i < length s" using Suc.prems(2) assms(3) by simp_all
  have ui: "uint (of_nat i :: u32) = int i" using i31(1) by (rule uint_of_nat_32)
  have c: "out_mem out (a + int i) = Some (s ! i)" using Suc.prems(1) i31(2) by (simp add: holds_def)
  have ni: "(of_nat i + 1 :: u32) = of_nat (Suc i)" by simp
  show ?case
  proof (cases "printed_char (s ! i)")
    case True
    have tk: "take (Suc i - first) (drop first s) = take (i - first) (drop first s) @ [s ! i]"
      using i31(2) Suc.prems(3) by (simp add: Suc_diff_le take_Suc_conv_app_nth)
    have pc: "\<forall>c \<in> set (take (Suc i - first) (drop first s)). printed_char c" unfolding tk using Suc.prems(4) True by auto
    have "print_chars env a (of_nat first) (of_nat i) (Suc n) out = print_chars env a (of_nat first) (of_nat (Suc i)) n out"
      using c True ui ni unfolding printed_char_def by (simp del: of_nat_Suc)
    then show ?thesis using Suc.IH[OF Suc.prems(1) _ _ pc Suc.prems(5,6)] Suc.prems(2,3) by simp
  next
    case False
    let ?x = "take (i - first) (drop first s)"
    have b0: "length t + length s + 1 < 2 ^ 62" using Suc.prems(3,6) i31(2) by simp
    obtain f1 where f1: "(if (of_nat first :: u32) < of_nat i then do { x \<leftarrow> mem_read (out_mem out) (a + uint (of_nat first :: u32)) (unat (of_nat i - of_nat first :: u32)); add_text env out x } else Some out)
        = Some (out\<lparr>out_factory := f1\<rparr>)" "factory_holds f1 (t @ ?x)"
      using add_segment_ok[OF assms(1) Suc.prems(5,1) assms(3) Suc.prems(3) _ Suc.prems(4) b0] i31(2) by auto
    have lx: "length ?x = i - first" using i31(2) Suc.prems(3) by simp
    have b1: "length (t @ ?x) + unat (7 :: u64) + 1 < 2 ^ 62" using lx Suc.prems(3,6) i31(2) by simp
    have l6: "length (unicode_escape (s ! i)) = 6" by (simp add: unicode_escape_def)
    obtain b f2 f3 f4 where f4: "sxe_factory_reserve (print_malloc env) f1 7 = Some (Some b, f2)" "snprintf_at f2 b 7 (unicode_escape (s ! i)) = Some f3"
        "sxe_factory_commit f3 (of_nat (length (unicode_escape (s ! i)))) = Some f4" "factory_holds f4 ((t @ ?x) @ unicode_escape (s ! i))"
      using reserved_ok[OF assms(1) f1(2) b1, of "unicode_escape (s ! i)" 7] l6 by auto
    let ?out = "out\<lparr>out_factory := f4\<rparr>"
    have h: "holds (out_mem ?out) a s" "factory_holds (out_factory ?out) (t @ ?x @ unicode_escape (s ! i))" using Suc.prems(1) f4(4) by simp_all
    have b2: "length (t @ ?x @ unicode_escape (s ! i)) + 8 * length s + 10 < 2 ^ 62 + 7 * Suc i" using lx l6 Suc.prems(3,6) by simp
    have e: "Suc i + n = length s" using Suc.prems(2) by simp
    have pc0: "\<forall>c \<in> set (take (Suc i - Suc i) (drop (Suc i) s)). printed_char c" by simp
    obtain first' f5 u where r: "print_chars env a (of_nat (Suc i)) (of_nat (Suc i)) n ?out = Some (Some (of_nat first'), ?out\<lparr>out_factory := f5\<rparr>)"
        "Suc i \<le> first'" "first' \<le> length s" "rfc_string ascii_escape (take (first' - Suc i) (drop (Suc i) s)) u" "length u \<le> 6 * (first' - Suc i)"
        "\<forall>c \<in> set (drop first' s). printed_char c" "factory_holds f5 ((t @ ?x @ unicode_escape (s ! i)) @ u)"
      using Suc.IH[OF h(1) e le_refl pc0 h(2) b2] by auto
    have "print_chars env a (of_nat first) (of_nat i) (Suc n) out = Some (Some (of_nat first'), out\<lparr>out_factory := f5\<rparr>)"
      using c False ui ni f1(1) f4(1-3) l6 r(1) unfolding printed_char_def by (simp del: of_nat_Suc add: SXEA6_def)
    moreover have "rfc_string ascii_escape (take (first' - first) (drop first s)) (?x @ unicode_escape (s ! i) @ u)"
    proof -
      have "take (first' - first) (drop first s) = ?x @ [s ! i] @ take (first' - Suc i) (drop (Suc i) s)"
      proof -
        have e: "first' - first = (i - first) + (Suc 0 + (first' - Suc i))" using Suc.prems(3) r(2) by simp
        have "drop (i - first) (drop first s) = s ! i # drop (Suc i) s" using Suc.prems(3) i31(2) by (simp add: Cons_nth_drop_Suc)
        then show ?thesis unfolding e take_add by simp
      qed
      then show ?thesis
        using rfc_string_append[OF rfc_string_plain[OF Suc.prems(4)] rfc_string_append[OF rfc_string_escape[OF False] r(4)]] by simp
    qed
    moreover have "length (?x @ unicode_escape (s ! i) @ u) \<le> 6 * (first' - first)" using lx l6 r(2,5) Suc.prems(3) by simp
    ultimately show ?thesis using r(2,3,6,7) Suc.prems(3)
      by (intro exI[of _ first'] exI[of _ f5] exI[of _ "?x @ unicode_escape (s ! i) @ u"]) simp
  qed
qed

lemma look_out_ok: "factory_holds (out_factory out) s \<Longrightarrow> s \<noteq> [] \<Longrightarrow> look_out out = Some (True, out)"
  by (auto simp: look_out_def sxe_factory_look_def factory_holds_def split: option.splits)

lemma string_build_ok:
  assumes "print_ok env" "sxe_jitson_len (out_mem out) j = Some (of_nat (length s), out_mem out)" "sxe_jitson_get_string (out_mem out) j False = Some (a, x, out_mem out)"
    "holds (out_mem out) a s" "length s < 2 ^ 31" "factory_holds (out_factory out) t" "length t + 8 * length s + 20 < 2 ^ 62"
  shows "\<exists>f u. sxe_jitson_string_build_json env j out = Some (True, out\<lparr>out_factory := f\<rparr>) \<and> factory_holds f (t @ 0x22 # u @ [0x22])
    \<and> rfc_string ascii_escape s u \<and> length u \<le> 6 * length s"
proof -
  let ?l = "of_nat (length s) :: u32"
  have l: "(ucast (of_nat (length s) :: u64) :: u32) = ?l" "unat ?l = length s"
    using assms(5) by (simp_all only: ucast_32_of_nat unat_of_nat_32)
  have b0: "length t + length [0x22 :: u8] + 1 < 2 ^ 62" using assms(7) by simp
  obtain f1 where f1: "add_text env out [0x22] = Some (out\<lparr>out_factory := f1\<rparr>)" "factory_holds f1 (t @ [0x22])"
    using add_text_ok[OF assms(1,6) _ b0] by auto
  let ?o = "out\<lparr>out_factory := f1\<rparr>"
  have o: "holds (out_mem ?o) a s" "factory_holds (out_factory ?o) (t @ [0x22])" using assms(4) f1(2) by simp_all
  have b1: "length (t @ [0x22]) + 8 * length s + 10 < 2 ^ 62 + 7 * 0" using assms(7) by simp
  have pc0: "\<forall>c \<in> set (take (0 - 0) (drop 0 s)). printed_char c" "(0 :: nat) + length s = length s" by simp_all
  obtain first f2 u where r: "print_chars env a (of_nat 0) (of_nat 0) (length s) ?o = Some (Some (of_nat first), ?o\<lparr>out_factory := f2\<rparr>)"
      "first \<le> length s" "rfc_string ascii_escape (take (first - 0) (drop 0 s)) u" "length u \<le> 6 * (first - 0)" "\<forall>c \<in> set (drop first s). printed_char c"
      "factory_holds f2 ((t @ [0x22]) @ u)"
    using print_chars_ok[OF assms(1) o(1) assms(5) pc0(2) le_refl pc0(1) o(2) b1] by blast
  let ?o2 = "?o\<lparr>out_factory := f2\<rparr>"
  have tk: "take (length s - first) (drop first s) = drop first s" by simp
  have b2: "length ((t @ [0x22]) @ u) + length s + 1 < 2 ^ 62" using r(2,4) assms(7) by simp
  have o2: "factory_holds (out_factory ?o2) ((t @ [0x22]) @ u)" "holds (out_mem ?o2) a s" using r(6) assms(4) by simp_all
  obtain f3 where f3: "(if (of_nat first :: u32) < ?l then do { x \<leftarrow> mem_read (out_mem ?o2) (a + uint (of_nat first :: u32)) (unat (?l - of_nat first :: u32)); add_text env ?o2 x } else Some ?o2)
      = Some (?o2\<lparr>out_factory := f3\<rparr>)" "factory_holds f3 (((t @ [0x22]) @ u) @ drop first s)"
    using add_segment_ok[OF assms(1) o2 assms(5) r(2) le_refl _ b2] r(5) unfolding tk by auto
  let ?o3 = "?o2\<lparr>out_factory := f3\<rparr>"
  let ?u = "u @ drop first s"
  have b3: "length (((t @ [0x22]) @ u) @ drop first s) + length [0x22 :: u8] + 1 < 2 ^ 62" using r(2,4) assms(7) by simp
  have o3: "factory_holds (out_factory ?o3) (((t @ [0x22]) @ u) @ drop first s)" using f3(2) by simp
  obtain f4 where f4: "add_text env ?o3 [0x22] = Some (?o3\<lparr>out_factory := f4\<rparr>)" "factory_holds f4 ((((t @ [0x22]) @ u) @ drop first s) @ [0x22])"
    using add_text_ok[OF assms(1) o3 _ b3] by auto
  have fin: "factory_holds f4 (t @ 0x22 # ?u @ [0x22])" using f4(2) by simp
  then have look: "look_out (out\<lparr>out_factory := f4\<rparr>) = Some (True, out\<lparr>out_factory := f4\<rparr>)" by (intro look_out_ok[of _ "t @ 0x22 # ?u @ [0x22]"]) simp_all
  have eq: "?o3\<lparr>out_factory := f4\<rparr> = out\<lparr>out_factory := f4\<rparr>" "?o3 = out\<lparr>out_factory := f3\<rparr>" "?o2 = out\<lparr>out_factory := f2\<rparr>" "out\<lparr>out_mem := out_mem out\<rparr> = out" by simp_all
  have r1: "print_chars env a 0 0 (length s) (out\<lparr>out_factory := f1\<rparr>) = Some (Some (of_nat first), out\<lparr>out_factory := f2\<rparr>)" using r(1) by simp
  have twice: "out\<lparr>out_factory := x, out_factory := y\<rparr> = out\<lparr>out_factory := y\<rparr>" for x y by simp
  have f31: "(if (of_nat first :: u32) < ?l then do { x \<leftarrow> mem_read (out_mem (out\<lparr>out_factory := f2\<rparr>)) (a + uint (of_nat first :: u32)) (unat (?l - of_nat first :: u32));
      add_text env (out\<lparr>out_factory := f2\<rparr>) x } else Some (out\<lparr>out_factory := f2\<rparr>)) = Some (out\<lparr>out_factory := f3\<rparr>)"
    using f3(1) unfolding eq(2,3) twice .
  have f41: "add_text env (out\<lparr>out_factory := f3\<rparr>) [0x22] = Some (out\<lparr>out_factory := f4\<rparr>)" using f4(1) by simp
  have "sxe_jitson_string_build_json env j out = Some (True, out\<lparr>out_factory := f4\<rparr>)"
    unfolding sxe_jitson_string_build_json_def assms(2) bind.bind_lunit prod.case Let_def l(1) assms(3) eq(4) f1(1) l(2)
      r1 option.case f31 f41 look ..
  moreover have "rfc_string ascii_escape s ?u"
    using rfc_string_append[OF r(3) rfc_string_plain[OF r(5)]] by simp
  moreover have "length ?u \<le> 6 * length s" using r(2,4) by simp
  ultimately show ?thesis using fin by blast
qed

lemma number_build_ok:
  assumes "print_ok env" "jit_type (out_mem out) j = Some ty"
    "if ty AND SXE_JITSON_TYPE_IS_UINT \<noteq> 0 then sxe_jitson_get_uint fp (out_mem out) j = Some (b, v) \<and> x = decimal (unat v)
     else sxe_jitson_get_number fp (out_mem out) j = Some (b, v) \<and> x = print_double env v"
    "length x \<le> 24" "x \<noteq> []" "factory_holds (out_factory out) t" "length t + 30 < 2 ^ 62"
  shows "\<exists>f. sxe_jitson_number_build_json env fp j out = Some (True, out\<lparr>out_factory := f\<rparr>) \<and> factory_holds f (t @ x)"
proof -
  have n: "unat NUMBER_MAX_LEN = 24" by (simp add: NUMBER_MAX_LEN_def)
  have b0: "length t + unat NUMBER_MAX_LEN + 1 < 2 ^ 62" using assms(7) n by simp
  obtain a f1 f2 f3 where f: "sxe_factory_reserve (print_malloc env) (out_factory out) NUMBER_MAX_LEN = Some (Some a, f1)" "snprintf_at f1 a 25 x = Some f2"
      "sxe_factory_commit f2 (of_nat (length x)) = Some f3" "factory_holds f3 (t @ x)"
    using reserved_ok[OF assms(1,6) b0, of x 25] assms(4) n by auto
  have look: "look_out (out\<lparr>out_factory := f3\<rparr>) = Some (True, out\<lparr>out_factory := f3\<rparr>)" using f(4) assms(5) by (intro look_out_ok[of _ "t @ x"]) simp_all
  have "sxe_jitson_number_build_json env fp j out = Some (True, out\<lparr>out_factory := f3\<rparr>)"
    using f(1-3) assms(2-4) look n by (auto simp: sxe_jitson_number_build_json_def SXEA6_def split: if_splits)
  then show ?thesis using f(4) by blast
qed

end
