(* ===== verification/SxeJitsonPrinted.thy ===== *)
theory SxeJitsonPrinted
  imports SxeJitsonPrint "HOL-Library.Multiset"
begin

text \<open>
  Printing values is correct: what the \<^verbatim>\<open>build_json\<close> functions print for a value in memory is a text of the JSON grammar, the value is
  kept while indexes are made for its collections, and parsing the text pushes tokens of the value. It rests on lemmas about values
  of which an element changes its memory (\<open>arr_lens\<close>, \<open>obj_lens\<close>) and on what a step may do to memory (\<open>grown\<close>).
\<close>

unbundle bit_operations_syntax

section \<open>What is printed, and what changes\<close>

text \<open>The tokens of a value, and the collections in it, each of which may be given an index.\<close>

fun ntok :: "json \<Rightarrow> nat" where
  "ntok (JString s) = string_size s"
| "ntok (JArray vs) = 1 + sum_list (map ntok vs)"
| "ntok (JObject ms) = 1 + sum_list (map (\<lambda>(k, v). string_size k + ntok v) ms)"
| "ntok _ = 1"

fun collections :: "json \<Rightarrow> nat" where
  "collections (JArray vs) = 1 + sum_list (map collections vs)"
| "collections (JObject ms) = 1 + sum_list (map (\<lambda>(k, v). collections v) ms)"
| "collections _ = 0"

definition arr_at :: "(u8 list \<Rightarrow> u32) \<Rightarrow> jmem \<Rightarrow> addr \<Rightarrow> json list \<Rightarrow> nat list \<Rightarrow> addr \<Rightarrow> addr set \<Rightarrow> bool" where
  "arr_at hash m a vs os p F \<longleftrightarrow> (\<exists>F0. vreps hash m a 1 vs os (ntok (JArray vs)) F0
     \<and> coll_rep m a SXE_JITSON_TYPE_ARRAY (length vs) (ntok (JArray vs)) False (\<lambda>p'. p' = p \<and> offsets_hold m p os) F0 F)"

definition obj_at :: "(u8 list \<Rightarrow> u32) \<Rightarrow> jmem \<Rightarrow> addr \<Rightarrow> (u8 list \<times> json) list \<Rightarrow> nat list \<Rightarrow> addr \<Rightarrow> addr set \<Rightarrow> bool" where
  "obj_at hash m a ms os p F \<longleftrightarrow> (\<exists>F0. mreps hash m a 1 ms os (ntok (JObject ms)) F0
     \<and> coll_rep m a SXE_JITSON_TYPE_OBJECT (length ms) (ntok (JObject ms)) False
         (\<lambda>p'. p' = p \<and> buckets_hold hash m a p (length ms) os (map fst ms)) F0 F)"

text \<open>
  The addresses that are left for indexes of up to \<open>N - 1\<close> entries do not overlap each other or \<open>F\<close>. What a step that gives at most \<open>c\<close>
  collections an index may change: the value grows from \<open>F\<close> to \<open>F'\<close> by memory at addresses that are used up.
\<close>

definition index_regions :: "nat \<Rightarrow> u64 list \<Rightarrow> addr set" where
  "index_regions N allocs = (\<Union>p \<in> set allocs. region (uint p) (4 * N))"

definition spare :: "u64 list \<Rightarrow> nat \<Rightarrow> addr set \<Rightarrow> bool" where
  "spare allocs N F \<longleftrightarrow> index_regions N allocs \<inter> F = {} \<and> sorted_wrt (\<lambda>p q. region (uint p) (4 * N) \<inter> region (uint q) (4 * N) = {}) allocs"

definition grown :: "nat \<Rightarrow> nat \<Rightarrow> u64 list \<Rightarrow> jmem \<Rightarrow> addr set \<Rightarrow> u64 list \<Rightarrow> jmem \<Rightarrow> addr set \<Rightarrow> bool" where
  "grown N c allocs m F allocs' m' F' \<longleftrightarrow> (\<exists>d \<le> c. allocs' = drop d allocs \<and> F \<subseteq> F' \<and> F' \<subseteq> F \<union> index_regions N (take d allocs) \<and> (\<forall>x. x \<notin> F' \<longrightarrow> m' x = m x))"

definition needs :: "jmem \<Rightarrow> addr \<Rightarrow> nat" where
  "needs m a = (if indexed m a then 0 else 1)"

fun chain_head :: "nat list \<Rightarrow> u32" where
  "chain_head [] = 0"
| "chain_head (i # js) = of_nat i"

text \<open>
  The values that a text printed for a value may be read as: the members of an object may come in another order, and a
  double is what its 16 digits are read as.
\<close>

inductive reads_as :: "(u64 \<Rightarrow> u8 list) \<Rightarrow> (u8 list \<Rightarrow> u64) \<Rightarrow> json \<Rightarrow> json \<Rightarrow> bool" for fmt dbl where
  "reads_as fmt dbl JNull JNull"
| "reads_as fmt dbl (JBool b) (JBool b)"
| "reads_as fmt dbl (JUint u) (JUint u)"
| "rfc_text ascii_escape dbl v (fmt d) \<Longrightarrow> reads_as fmt dbl (JReal d) v"
| "reads_as fmt dbl (JString s) (JString s)"
| "list_all2 (reads_as fmt dbl) vs us \<Longrightarrow> reads_as fmt dbl (JArray vs) (JArray us)"
| "mset ms' = mset ms \<Longrightarrow> list_all2 (\<lambda>x y. fst x = fst y \<and> reads_as fmt dbl (snd x) (snd y)) ms' us \<Longrightarrow> reads_as fmt dbl (JObject ms) (JObject us)"

text \<open>No double in a value is an infinity or a NaN.\<close>

fun finite_doubles :: "json \<Rightarrow> bool" where
  "finite_doubles (JReal d) \<longleftrightarrow> finite_double d"
| "finite_doubles (JArray vs) \<longleftrightarrow> (\<forall>v \<in> set vs. finite_doubles v)"
| "finite_doubles (JObject ms) \<longleftrightarrow> (\<forall>(k, v) \<in> set ms. finite_doubles v)"
| "finite_doubles _ \<longleftrightarrow> True"

definition built :: "print_env \<Rightarrow> (u8 list \<Rightarrow> u64) \<Rightarrow> nat \<Rightarrow> json_out \<Rightarrow> addr \<Rightarrow> json \<Rightarrow> addr set \<Rightarrow> u8 list \<Rightarrow> json_out \<Rightarrow> bool" where
  "built env dbl N out a v F s out' \<longleftrightarrow> (\<exists>t w F'. rfc_text ascii_escape dbl w t \<and> reads_as (print_double env) dbl v w \<and> length t + 1 \<le> 100 * ntok v
     \<and> factory_holds (out_factory out') (s @ t) \<and> vrep (print_hash env) (out_mem out') a v (ntok v) F'
     \<and> grown N (collections v) (out_allocs out) (out_mem out) F (out_allocs out') (out_mem out') F')"

definition build_ok :: "print_env \<Rightarrow> (u8 list \<Rightarrow> u64) \<Rightarrow> nat \<Rightarrow> builder \<Rightarrow> json \<Rightarrow> bool" where
  "build_ok env dbl N build v \<longleftrightarrow> (\<forall>out a F s. vrep (print_hash env) (out_mem out) a v (ntok v) F \<and> 0 < a \<and> spare (out_allocs out) N F \<and> ntok v \<le> N
     \<and> collections v \<le> length (out_allocs out) \<and> factory_holds (out_factory out) s \<and> length s + 100 * ntok v < 2 ^ 61 \<longrightarrow>
     (\<exists>out'. build_at build a out = Some (True, out') \<and> built env dbl N out a v F s out'))"

text \<open>Members and their offsets; those of a bucket in the order of its links.\<close>

type_synonym member = "nat \<times> u8 list \<times> json"

definition bucket_members :: "(u8 list \<Rightarrow> u32) \<Rightarrow> nat \<Rightarrow> member list \<Rightarrow> nat \<Rightarrow> member list" where
  "bucket_members hash len zs b = rev (filter (\<lambda>(i, k, v). bucket_of hash len k = b) zs)"

definition member_tokens :: "member list \<Rightarrow> nat" where
  "member_tokens zs = sum_list (map (\<lambda>(i, k, v). string_size k + ntok v) zs)"

definition member_collections :: "member list \<Rightarrow> nat" where
  "member_collections zs = sum_list (map (\<lambda>(i, k, v). collections v) zs)"

definition members_out :: "(u8 list \<Rightarrow> u64) \<Rightarrow> bool \<Rightarrow> (u8 list \<times> json) list \<Rightarrow> u8 list \<Rightarrow> bool" where
  "members_out dbl first us t \<longleftrightarrow> (if us = [] then t = [] else \<exists>t0. rfc_members ascii_escape dbl us t0 \<and> t = (if first then [] else [0x2C]) @ t0)"

abbreviation member_reads :: "(u64 \<Rightarrow> u8 list) \<Rightarrow> (u8 list \<Rightarrow> u64) \<Rightarrow> u8 list \<times> json \<Rightarrow> u8 list \<times> json \<Rightarrow> bool" where
  "member_reads fmt dbl x y \<equiv> fst x = fst y \<and> reads_as fmt dbl (snd x) (snd y)"

definition members_printed :: "print_env \<Rightarrow> (u8 list \<Rightarrow> u64) \<Rightarrow> nat \<Rightarrow> addr \<Rightarrow> (u8 list \<times> json) list \<Rightarrow> nat list \<Rightarrow> addr \<Rightarrow>
    member list \<Rightarrow> bool \<Rightarrow> json_out \<Rightarrow> addr set \<Rightarrow> u8 list \<Rightarrow> json_out \<Rightarrow> bool" where
  "members_printed env dbl N a ms os p ys first out F s out' \<longleftrightarrow> (\<exists>us t F'. members_out dbl first us t
     \<and> list_all2 (member_reads (print_double env) dbl) (map snd ys) us \<and> length t \<le> 100 * member_tokens ys
     \<and> factory_holds (out_factory out') (s @ t) \<and> obj_at (print_hash env) (out_mem out') a ms os p F'
     \<and> grown N (member_collections ys) (out_allocs out) (out_mem out) F (out_allocs out') (out_mem out') F')"

text \<open>All of the buckets: every member is in one of them.\<close>

definition printed_members :: "(u8 list \<Rightarrow> u32) \<Rightarrow> nat \<Rightarrow> member list \<Rightarrow> nat \<Rightarrow> nat \<Rightarrow> member list" where
  "printed_members hash len zs b n = concat (map (bucket_members hash len zs) [b..<b + n])"

text \<open>A \<open>snprintf\<close> that knows one double, 1.5, and an array that holds it.\<close>

definition sample_print :: print_env where
  "sample_print = \<lparr>print_malloc = sample_malloc, print_hash = (\<lambda>s. of_nat (length s)), print_content = (\<lambda>k. replicate k 0xFF),
     print_double = (\<lambda>d. if d = 0x3FF8000000000000 then lit ''1.5'' else lit ''0'')\<rparr>"

definition sample_real :: "u8 list" where
  "sample_real = le32_bytes SXE_JITSON_TYPE_NUMBER @ replicate 4 0 @ le64_bytes 0x3FF8000000000000"

definition sample_reals :: "u8 list" where
  "sample_reals = collection_header SXE_JITSON_TYPE_ARRAY (length [JReal 0x3FF8000000000000]) sample_real @ sample_real"

section \<open>Texts of RFC 8259\<close>

lemma rfc_ws_Nil: "rfc_ws []"
  by (simp add: rfc_ws_def)

lemma rfc_text_nonempty: "rfc_text ascii_escape dbl v t \<Longrightarrow> t \<noteq> []"
  using accepted_text_first[OF rfc_accepted(1)] by auto

lemma printed_double:
  assumes "printf_ok fmt" "finite_double d"
  shows "(\<exists>v. rfc_text esc dbl v (fmt d)) \<and> length (fmt d) \<le> 24"
proof -
  obtain s ds f e where t: "fmt d = s @ ds @ f @ e" "num_sign s" "rfc_int ds" "num_fraction f" "num_exponent e" "length (fmt d) \<le> 24"
    using assms unfolding printf_ok_def by blast
  show ?thesis
  proof (cases "s = [] \<and> f = [] \<and> e = []")
    case True
    then show ?thesis using rfc_uint[OF t(3), of esc dbl] t(1,6) by auto
  next
    case False
    then show ?thesis using rfc_real[OF t(2-5) False, of esc dbl] t(1,6) by auto
  qed
qed

section \<open>Values whose elements change\<close>

lemma vrep_ntok:
  "vrep hash m a v n F \<Longrightarrow> n = ntok v"
  "vreps hash m a i vs os e F \<Longrightarrow> e = i + sum_list (map ntok vs)"
  "mreps hash m a i ms os e F \<Longrightarrow> e = i + sum_list (map (\<lambda>(k, v). string_size k + ntok v) ms)"
proof (induction hash m a v n F and hash m a i vs os e F and hash m a i ms os e F rule: vrep_vreps_mreps.induct)
  case (9 hash m a i v vs os e F)
  then obtain n os' F1 F2 where s: "vrep hash m (a + 16 * int i) v n F1" "vreps hash m a (i + n) vs os' e F2" by auto
  show ?case using 9(1)[OF s(1)] 9(2)[OF s(2)] by simp
next
  case (11 hash m a i k v ms os e F)
  then obtain nk n os' F1 F2 where s: "krep m (a + 16 * int i) k nk" "vrep hash m (a + 16 * int (i + nk)) v n F1" "mreps hash m a (i + nk + n) ms os' e F2" by auto
  have "nk = string_size k" using s(1) by (simp add: krep_def)
  then show ?case using 11(1)[OF s(2)] 11(2)[OF s(3)] by simp
qed (fastforce)+

lemma ntok_pos: "0 < ntok v"
  by (cases v) (simp_all add: string_size_pos)

lemma coll_rep_weaken:
  assumes "coll_rep m a t len n plain index F0 F" "plain \<Longrightarrow> plain'" "\<And>p. index p \<Longrightarrow> index' p"
  shows "coll_rep m a t len n plain' index' F0 F"
  by (rule coll_rep_frame[OF assms(1)]) (use assms(2,3) in auto)

lemma coll_rep_fixed:
  assumes "coll_rep m a t len n plain index F0 F" "indexed m a"
  shows "\<exists>p. coll_rep m a t len n False (\<lambda>p'. p' = p \<and> index p) F0 F"
proof -
  obtain ty G where g: "holds m a (le32_bytes ty)" "tok_type ty t" "holds m (a + 4) (le32_bytes (of_nat len))" "coll_index m a ty len n plain index G"
      "G \<inter> (region a 16 \<union> F0) = {}" "F = region a 16 \<union> F0 \<union> G" and r: "len < 2 ^ 27" "n < 2 ^ 27" "region a 16 \<subseteq> dom m" "region a 16 \<inter> F0 = {}"
    using assms(1) unfolding coll_rep_def by auto
  obtain ty' where "holds m a (le32_bytes ty')" "ty' AND SXE_JITSON_TYPE_INDEXED \<noteq> 0" using assms(2) unfolding indexed_def by blast
  then have i: "ty AND SXE_JITSON_TYPE_INDEXED \<noteq> 0" using holds_le32_unique[OF g(1)] by blast
  then obtain p where "holds m (a + 8) (le64_bytes p)" "index (uint p)" "holds m (uint p + 4 * int len) (le32_bytes (of_nat n))"
      "G = region (uint p) (4 * (len + 1))" "G \<subseteq> dom m" using g(4) unfolding coll_index_def by auto
  then have "coll_index m a ty len n False (\<lambda>p'. p' = uint p \<and> index (uint p)) G" using i unfolding coll_index_def by auto
  then show ?thesis unfolding coll_rep_def using g(1-3,5,6) r by blast
qed

lemma coll_rep_is_indexed: "coll_rep m a t len n False index F0 F \<Longrightarrow> indexed m a"
  unfolding coll_rep_def coll_index_def indexed_def by (auto split: if_splits)

lemma arr_at_vrep: "arr_at hash m a vs os p F \<Longrightarrow> vrep hash m a (JArray vs) (ntok (JArray vs)) F"
  unfolding arr_at_def by (auto intro: coll_rep_weaken)

lemma obj_at_vrep: "obj_at hash m a ms os p F \<Longrightarrow> vrep hash m a (JObject ms) (ntok (JObject ms)) F"
  unfolding obj_at_def by (auto intro: coll_rep_weaken)

lemma vrep_arr_at: "vrep hash m a (JArray vs) n F \<Longrightarrow> indexed m a \<Longrightarrow> \<exists>os p. arr_at hash m a vs os p F"
proof -
  assume v: "vrep hash m a (JArray vs) n F" and i: "indexed m a"
  have n: "n = ntok (JArray vs)" using v by (rule vrep_ntok)
  from v obtain os F0 where s: "vreps hash m a 1 vs os n F0" "coll_rep m a SXE_JITSON_TYPE_ARRAY (length vs) n True (\<lambda>p. offsets_hold m p os) F0 F" by auto
  obtain p where "coll_rep m a SXE_JITSON_TYPE_ARRAY (length vs) n False (\<lambda>p'. p' = p \<and> offsets_hold m p os) F0 F"
    using coll_rep_fixed[OF s(2) i] by blast
  then show ?thesis unfolding arr_at_def using s(1) n by blast
qed

lemma vrep_obj_at: "vrep hash m a (JObject ms) n F \<Longrightarrow> indexed m a \<Longrightarrow> \<exists>os p. obj_at hash m a ms os p F"
proof -
  assume v: "vrep hash m a (JObject ms) n F" and i: "indexed m a"
  have n: "n = ntok (JObject ms)" using v by (rule vrep_ntok)
  from v obtain os F0 where s: "mreps hash m a 1 ms os n F0" "coll_rep m a SXE_JITSON_TYPE_OBJECT (length ms) n
      (lens_hold m a os (map fst ms)) (\<lambda>p. buckets_hold hash m a p (length ms) os (map fst ms)) F0 F" by auto
  obtain p where "coll_rep m a SXE_JITSON_TYPE_OBJECT (length ms) n False (\<lambda>p'. p' = p \<and> buckets_hold hash m a p (length ms) os (map fst ms)) F0 F"
    using coll_rep_fixed[OF s(2) i] by blast
  then show ?thesis unfolding obj_at_def using s(1) n by blast
qed

lemma vreps_lens:
  "vreps hash m a i vs os e F \<Longrightarrow> q < length vs \<Longrightarrow>
   \<exists>E. vrep hash m (a + 16 * int (os ! q)) (vs ! q) (ntok (vs ! q)) E \<and> E \<subseteq> F \<and> os ! q \<le> e \<and>
     (\<forall>m' E'. vrep hash m' (a + 16 * int (os ! q)) (vs ! q) (ntok (vs ! q)) E' \<and> E' \<inter> (F - E) = {} \<and> (\<forall>x \<in> F - E. m' x = m x) \<longrightarrow>
        vreps hash m' a i vs os e (F - E \<union> E'))"
proof (induction vs arbitrary: i os F q)
  case (Cons v vs)
  from Cons.prems(1) obtain n os' F1 F2 where s: "os = i # os'" "vrep hash m (a + 16 * int i) v n F1" "vreps hash m a (i + n) vs os' e F2"
     "F1 \<inter> F2 = {}" "F = F1 \<union> F2" by auto
  have n: "n = ntok v" using s(2) by (rule vrep_ntok)
  show ?case
  proof (cases q)
    case 0
    have F: "F - F1 = F2" using s(4,5) by auto
    show ?thesis
    proof (intro exI[of _ F1] conjI allI impI)
      show "vrep hash m (a + 16 * int (os ! q)) ((v # vs) ! q) (ntok ((v # vs) ! q)) F1" using s(1,2) n 0 by simp
      show "F1 \<subseteq> F" using s(5) by simp
      show "os ! q \<le> e" using s(1) 0 vreps_end(1)[OF s(3)] by simp
      fix m' E'
      assume h: "vrep hash m' (a + 16 * int (os ! q)) ((v # vs) ! q) (ntok ((v # vs) ! q)) E' \<and> E' \<inter> (F - F1) = {} \<and> (\<forall>x \<in> F - F1. m' x = m x)"
      then have "vreps hash m' a (i + n) vs os' e F2" using F vreps_frame[OF s(3)] by simp
      then show "vreps hash m' a i (v # vs) os e (F - F1 \<union> E')" using h F s(1) n 0 unfolding vreps.simps
        by (intro exI[of _ n] exI[of _ os'] exI[of _ E'] exI[of _ F2]) auto
    qed
  next
    case (Suc q')
    obtain E where E: "vrep hash m (a + 16 * int (os' ! q')) (vs ! q') (ntok (vs ! q')) E" "E \<subseteq> F2" "os' ! q' \<le> e"
        and lens: "\<And>m' E'. vrep hash m' (a + 16 * int (os' ! q')) (vs ! q') (ntok (vs ! q')) E' \<Longrightarrow> E' \<inter> (F2 - E) = {} \<Longrightarrow> \<forall>x \<in> F2 - E. m' x = m x \<Longrightarrow>
          vreps hash m' a (i + n) vs os' e (F2 - E \<union> E')"
      using Cons.IH[OF s(3), of q'] Cons.prems(2) Suc by (metis Suc_less_eq length_Cons)
    have F: "F - E = F1 \<union> (F2 - E)" using s(4,5) E(2) by auto
    show ?thesis
    proof (intro exI[of _ E] conjI allI impI)
      show "vrep hash m (a + 16 * int (os ! q)) ((v # vs) ! q) (ntok ((v # vs) ! q)) E" using s(1) E(1) Suc by simp
      show "E \<subseteq> F" using s(5) E(2) by auto
      show "os ! q \<le> e" using s(1) Suc E(3) by simp
      fix m' E'
      assume h: "vrep hash m' (a + 16 * int (os ! q)) ((v # vs) ! q) (ntok ((v # vs) ! q)) E' \<and> E' \<inter> (F - E) = {} \<and> (\<forall>x \<in> F - E. m' x = m x)"
      have "vreps hash m' a (i + n) vs os' e (F2 - E \<union> E')" by (rule lens) (use h s(1) Suc F in auto)
      moreover have "vrep hash m' (a + 16 * int i) v n F1" by (rule vrep_frame[OF s(2)]) (use h F in auto)
      moreover have "F1 \<inter> (F2 - E \<union> E') = {}" using h F s(4) by auto
      ultimately show "vreps hash m' a i (v # vs) os e (F - E \<union> E')" unfolding vreps.simps s(1) F
        by (intro exI[of _ n] exI[of _ os'] exI[of _ F1] exI[of _ "F2 - E \<union> E'"]) auto
    qed
  qed
qed simp

lemma mreps_lens:
  "mreps hash m a i ms os e F \<Longrightarrow> q < length ms \<Longrightarrow> ms ! q = (k, v) \<Longrightarrow>
   \<exists>E. krep m (a + 16 * int (os ! q)) k (string_size k) \<and> vrep hash m (a + 16 * int (os ! q + string_size k)) v (ntok v) E \<and> E \<subseteq> F
     \<and> i \<le> os ! q \<and> os ! q \<le> e \<and> links a os \<inter> E = {} \<and>
     (\<forall>m' E'. vrep hash m' (a + 16 * int (os ! q + string_size k)) v (ntok v) E' \<and> E' \<inter> (F - E) = {} \<and> (\<forall>x \<in> F - E. m' x = m x) \<longrightarrow>
        mreps hash m' a i ms os e (F - E \<union> E'))"
proof (induction ms arbitrary: i os F q)
  case (Cons kv ms)
  obtain k1 v1 where kv: "kv = (k1, v1)" by fastforce
  from Cons.prems(1) obtain nk n os' F1 F2 where s: "os = i # os'" "krep m (a + 16 * int i) k1 nk"
     "vrep hash m (a + 16 * int (i + nk)) v1 n F1" "mreps hash m a (i + nk + n) ms os' e F2" "region (a + 16 * int i) (16 * nk) \<inter> (F1 \<union> F2) = {}"
     "F1 \<inter> F2 = {}" "F = region (a + 16 * int i) (16 * nk) \<union> F1 \<union> F2" unfolding kv by auto
  let ?K = "region (a + 16 * int i) (16 * nk)"
  have n: "n = ntok v1" using s(3) by (rule vrep_ntok)
  have nk: "nk = string_size k1" "0 < nk" using s(2) string_size_pos[of k1] by (auto simp: krep_def)
  have li: "region (a + 16 * int i + 4) 4 \<subseteq> ?K" using nk(2) by (intro region_sub) auto
  have l: "links a os' \<subseteq> F2" using vrep_dom(3)[OF s(4)] by blast
  have kd: "?K \<subseteq> dom m" using s(2) unfolding krep_def by blast
  have key: "krep m' (a + 16 * int i) k1 nk" if "\<forall>x \<in> ?K. m' x = m x" for m'
    by (rule krep_frame[OF s(2)]) (use that frame_dom[OF kd, of m'] in auto)
  show ?case
  proof (cases q)
    case 0
    then have kv': "k1 = k" "v1 = v" using Cons.prems(3) kv by simp_all
    have F: "F - F1 = ?K \<union> F2" using s(5-7) by auto
    show ?thesis
    proof (intro exI[of _ F1] conjI allI impI)
      show "krep m (a + 16 * int (os ! q)) k (string_size k)" using s(1,2) nk 0 kv' by simp
      show "vrep hash m (a + 16 * int (os ! q + string_size k)) v (ntok v) F1" using s(1,3) n nk 0 kv' by simp
      show "F1 \<subseteq> F" using s(7) by auto
      show "i \<le> os ! q" "os ! q \<le> e" using s(1) 0 mreps_end[OF s(4)] by simp_all
      show "links a os \<inter> F1 = {}" using s(1,5,6) li l by auto
      fix m' E'
      assume h: "vrep hash m' (a + 16 * int (os ! q + string_size k)) v (ntok v) E' \<and> E' \<inter> (F - F1) = {} \<and> (\<forall>x \<in> F - F1. m' x = m x)"
      have d: "F2 \<subseteq> dom m" using vrep_dom(3)[OF s(4)] by blast
      have m2: "\<forall>x \<in> F2. m' x = m x" using h F by auto
      have d': "F2 \<subseteq> dom m'" by (rule frame_dom[OF d]) (use m2 in auto)
      have t: "mreps hash m' a (i + nk + n) ms os' e F2" by (rule mreps_frame[OF s(4)]) (use m2 d' in auto)
      have k': "krep m' (a + 16 * int i) k1 nk" by (rule key) (use h F in auto)
      have v': "vrep hash m' (a + 16 * int (i + nk)) v1 n E'" using h s(1) 0 nk n kv' by simp
      have a1: "?K \<inter> (E' \<union> F2) = {}" "E' \<inter> F2 = {}" using h F s(5) by auto
      have "mreps hash m' a i ((k1, v1) # ms) os e (?K \<union> E' \<union> F2)"
        unfolding mreps.simps s(1) using k' v' t a1 by blast
      moreover have "?K \<union> E' \<union> F2 = F - F1 \<union> E'" using F by auto
      ultimately show "mreps hash m' a i (kv # ms) os e (F - F1 \<union> E')" using kv by simp
    qed
  next
    case (Suc q')
    have q': "q' < length ms" "ms ! q' = (k, v)" using Cons.prems(2,3) Suc by simp_all
    obtain E where E: "krep m (a + 16 * int (os' ! q')) k (string_size k)" "vrep hash m (a + 16 * int (os' ! q' + string_size k)) v (ntok v) E" "E \<subseteq> F2"
        "i + nk + n \<le> os' ! q'" "os' ! q' \<le> e" "links a os' \<inter> E = {}"
        and lens: "\<And>m' E'. vrep hash m' (a + 16 * int (os' ! q' + string_size k)) v (ntok v) E' \<Longrightarrow> E' \<inter> (F2 - E) = {} \<Longrightarrow> \<forall>x \<in> F2 - E. m' x = m x \<Longrightarrow>
          mreps hash m' a (i + nk + n) ms os' e (F2 - E \<union> E')"
      using Cons.IH[OF s(4) q'] by blast
    have F: "F - E = ?K \<union> F1 \<union> (F2 - E)" using s(5-7) E(3) by auto
    show ?thesis
    proof (intro exI[of _ E] conjI allI impI)
      show "krep m (a + 16 * int (os ! q)) k (string_size k)" "vrep hash m (a + 16 * int (os ! q + string_size k)) v (ntok v) E"
        using s(1) E(1,2) Suc by simp_all
      show "E \<subseteq> F" using s(7) E(3) by auto
      show "i \<le> os ! q" "os ! q \<le> e" using s(1) Suc E(4,5) by simp_all
      show "links a os \<inter> E = {}" using s(1,5) li E(3,6) by auto
      fix m' E'
      assume h: "vrep hash m' (a + 16 * int (os ! q + string_size k)) v (ntok v) E' \<and> E' \<inter> (F - E) = {} \<and> (\<forall>x \<in> F - E. m' x = m x)"
      have t: "mreps hash m' a (i + nk + n) ms os' e (F2 - E \<union> E')" by (rule lens) (use h s(1) Suc F in auto)
      have v': "vrep hash m' (a + 16 * int (i + nk)) v1 n F1" by (rule vrep_frame[OF s(3)]) (use h F in auto)
      have k': "krep m' (a + 16 * int i) k1 nk" by (rule key) (use h F in auto)
      have a1: "?K \<inter> (F1 \<union> (F2 - E \<union> E')) = {}" "F1 \<inter> (F2 - E \<union> E') = {}" using h F s(5,6) by auto
      have "mreps hash m' a i ((k1, v1) # ms) os e (?K \<union> F1 \<union> (F2 - E \<union> E'))"
        unfolding mreps.simps s(1) using k' v' t a1 by blast
      moreover have "?K \<union> F1 \<union> (F2 - E \<union> E') = F - E \<union> E'" using F by auto
      ultimately show "mreps hash m' a i (kv # ms) os e (F - E \<union> E')" using kv by simp
    qed
  qed
qed simp

lemma coll_rep_apart: "coll_rep m a t len n plain index F0 F \<Longrightarrow> region a 16 \<subseteq> F - F0 \<and> F = F0 \<union> (F - F0)"
  using coll_rep_sub by blast

lemma coll_rep_change:
  assumes c: "coll_rep m a t len n plain index F0 F" and same: "\<And>x. x \<in> F - F0 \<Longrightarrow> m' x = m x" and F0': "F0' \<inter> (F - F0) = {}"
    and plain: "plain \<Longrightarrow> plain'" and index: "\<And>p. region p (4 * (len + 1)) \<subseteq> F - F0 \<Longrightarrow> index p \<Longrightarrow> index' p"
  shows "coll_rep m' a t len n plain' index' F0' (F - F0 \<union> F0')"
proof -
  have "coll_rep m' a t len n plain' index' F0 F" using c same plain index by (rule coll_rep_frame)
  then obtain ty G where g: "holds m' a (le32_bytes ty)" "tok_type ty t" "holds m' (a + 4) (le32_bytes (of_nat len))" "coll_index m' a ty len n plain' index' G"
      "G \<inter> (region a 16 \<union> F0) = {}" "F = region a 16 \<union> F0 \<union> G" and r: "len < 2 ^ 27" "n < 2 ^ 27" "region a 16 \<subseteq> dom m'" "region a 16 \<inter> F0 = {}"
    unfolding coll_rep_def by auto
  have F: "F - F0 = region a 16 \<union> G" using g(5,6) r(4) by blast
  have "G \<inter> (region a 16 \<union> F0') = {}" "region a 16 \<inter> F0' = {}" "F - F0 \<union> F0' = region a 16 \<union> F0' \<union> G" using F F0' g(5) by auto
  then show ?thesis unfolding coll_rep_def using g(1-4) r(1-3) by blast
qed

lemma arr_lens:
  assumes "arr_at hash m a vs os p F" "q < length vs"
  shows "\<exists>E. vrep hash m (a + 16 * int (os ! q)) (vs ! q) (ntok (vs ! q)) E \<and> E \<subseteq> F \<and>
     (\<forall>m' E'. vrep hash m' (a + 16 * int (os ! q)) (vs ! q) (ntok (vs ! q)) E' \<and> E' \<inter> (F - E) = {} \<and> (\<forall>x \<in> F - E. m' x = m x) \<longrightarrow>
        arr_at hash m' a vs os p (F - E \<union> E'))"
proof -
  obtain F0 where s: "vreps hash m a 1 vs os (ntok (JArray vs)) F0"
      "coll_rep m a SXE_JITSON_TYPE_ARRAY (length vs) (ntok (JArray vs)) False (\<lambda>p'. p' = p \<and> offsets_hold m p os) F0 F"
    using assms(1) unfolding arr_at_def by blast
  obtain E where E: "vrep hash m (a + 16 * int (os ! q)) (vs ! q) (ntok (vs ! q)) E" "E \<subseteq> F0"
      and lens: "\<And>m' E'. vrep hash m' (a + 16 * int (os ! q)) (vs ! q) (ntok (vs ! q)) E' \<Longrightarrow> E' \<inter> (F0 - E) = {} \<Longrightarrow> \<forall>x \<in> F0 - E. m' x = m x \<Longrightarrow>
        vreps hash m' a 1 vs os (ntok (JArray vs)) (F0 - E \<union> E')"
    using vreps_lens[OF s(1) assms(2)] by blast
  have F: "F0 \<subseteq> F" using coll_rep_sub[OF s(2)] by blast
  have lo: "length os = length vs" using s(1) by (rule vreps_length)
  show ?thesis
  proof (intro exI[of _ E] conjI allI impI E(1))
    show "E \<subseteq> F" using E(2) F by auto
    fix m' E'
    assume h: "vrep hash m' (a + 16 * int (os ! q)) (vs ! q) (ntok (vs ! q)) E' \<and> E' \<inter> (F - E) = {} \<and> (\<forall>x \<in> F - E. m' x = m x)"
    have v: "vreps hash m' a 1 vs os (ntok (JArray vs)) (F0 - E \<union> E')" by (rule lens) (use h F in auto)
    have "coll_rep m' a SXE_JITSON_TYPE_ARRAY (length vs) (ntok (JArray vs)) False (\<lambda>p'. p' = p \<and> offsets_hold m' p os) (F0 - E \<union> E') (F - F0 \<union> (F0 - E \<union> E'))"
    proof (rule coll_rep_change[OF s(2)])
      fix p' assume p: "region p' (4 * (length vs + 1)) \<subseteq> F - F0" "p' = p \<and> offsets_hold m p os"
      have "region p (4 * length os) \<subseteq> F - F0" using p region_mono[of "4 * length os" "4 * (length vs + 1)" p] lo by auto
      then have "offsets_hold m' p os" using p(2) h E(2) by (intro offsets_hold_frame[of m p os m']) auto
      then show "p' = p \<and> offsets_hold m' p os" using p(2) by simp
    qed (use h E(2) in auto)
    moreover have "F - F0 \<union> (F0 - E \<union> E') = F - E \<union> E'" using F E(2) by auto
    ultimately show "arr_at hash m' a vs os p (F - E \<union> E')" unfolding arr_at_def using v by auto
  qed
qed

lemma obj_lens:
  assumes "obj_at hash m a ms os p F" "q < length ms" "ms ! q = (k, v)"
  shows "\<exists>E. krep m (a + 16 * int (os ! q)) k (string_size k) \<and> vrep hash m (a + 16 * int (os ! q + string_size k)) v (ntok v) E \<and> E \<subseteq> F
     \<and> 1 \<le> os ! q \<and> os ! q < 2 ^ 27 \<and> E \<inter> links a os = {} \<and>
     (\<forall>m' E'. vrep hash m' (a + 16 * int (os ! q + string_size k)) v (ntok v) E' \<and> E' \<inter> (F - E) = {} \<and> (\<forall>x \<in> F - E. m' x = m x) \<longrightarrow>
        obj_at hash m' a ms os p (F - E \<union> E'))"
proof -
  obtain F0 where s: "mreps hash m a 1 ms os (ntok (JObject ms)) F0"
      "coll_rep m a SXE_JITSON_TYPE_OBJECT (length ms) (ntok (JObject ms)) False (\<lambda>p'. p' = p \<and> buckets_hold hash m a p (length ms) os (map fst ms)) F0 F"
    using assms(1) unfolding obj_at_def by blast
  obtain E where E: "krep m (a + 16 * int (os ! q)) k (string_size k)" "vrep hash m (a + 16 * int (os ! q + string_size k)) v (ntok v) E" "E \<subseteq> F0"
        "1 \<le> os ! q" "os ! q \<le> ntok (JObject ms)" "links a os \<inter> E = {}"
      and lens: "\<And>m' E'. vrep hash m' (a + 16 * int (os ! q + string_size k)) v (ntok v) E' \<Longrightarrow> E' \<inter> (F0 - E) = {} \<Longrightarrow> \<forall>x \<in> F0 - E. m' x = m x \<Longrightarrow>
        mreps hash m' a 1 ms os (ntok (JObject ms)) (F0 - E \<union> E')"
    using mreps_lens[OF s(1) assms(2,3)] by blast
  have F: "F0 \<subseteq> F" using coll_rep_sub[OF s(2)] by blast
  have l: "links a os \<subseteq> F0" using vrep_dom(3)[OF s(1)] by blast
  have n: "ntok (JObject ms) < 2 ^ 27" using coll_rep_type[OF s(2)] by blast
  show ?thesis
  proof (intro exI[of _ E] conjI allI impI E(1,2,4))
    show "E \<subseteq> F" using E(3) F by auto
    show "os ! q < 2 ^ 27" using E(5) n by simp
    show "E \<inter> links a os = {}" using E(6) by auto
    fix m' E'
    assume h: "vrep hash m' (a + 16 * int (os ! q + string_size k)) v (ntok v) E' \<and> E' \<inter> (F - E) = {} \<and> (\<forall>x \<in> F - E. m' x = m x)"
    have v: "mreps hash m' a 1 ms os (ntok (JObject ms)) (F0 - E \<union> E')" by (rule lens) (use h F in auto)
    have "coll_rep m' a SXE_JITSON_TYPE_OBJECT (length ms) (ntok (JObject ms)) False (\<lambda>p'. p' = p \<and> buckets_hold hash m' a p (length ms) os (map fst ms))
        (F0 - E \<union> E') (F - F0 \<union> (F0 - E \<union> E'))"
    proof (rule coll_rep_change[OF s(2)])
      fix p' assume p: "region p' (4 * (length ms + 1)) \<subseteq> F - F0" "p' = p \<and> buckets_hold hash m a p (length ms) os (map fst ms)"
      have r: "region p (4 * length ms) \<subseteq> F - F0" using p region_mono[of "4 * length ms" "4 * (length ms + 1)" p] by auto
      have "buckets_hold hash m' a p (length ms) os (map fst ms)"
      proof (rule buckets_hold_frame[of hash m])
        fix x assume "x \<in> region p (4 * length ms) \<union> links a os"
        then have "x \<in> F - E" using r E(3,6) l F by blast
        then show "m' x = m x" using h by blast
      qed (use p(2) in simp)
      then show "p' = p \<and> buckets_hold hash m' a p (length ms) os (map fst ms)" using p(2) by simp
    qed (use h E(3) in auto)
    moreover have "F - F0 \<union> (F0 - E \<union> E') = F - E \<union> E'" using F E(3) by auto
    ultimately show "obj_at hash m' a ms os p (F - E \<union> E')" unfolding obj_at_def using v by auto
  qed
qed

section \<open>The memory of new indexes\<close>

lemma grown_refl: "grown N 0 allocs m F allocs m F"
  by (auto simp: grown_def)

lemma index_regions_append [simp]: "index_regions N (xs @ ys) = index_regions N xs \<union> index_regions N ys"
  by (auto simp: index_regions_def)

lemma grown_trans:
  assumes "grown N c1 as0 m0 F0 as1 m1 F1" "grown N c2 as1 m1 F1 as2 m2 F2"
  shows "grown N (c1 + c2) as0 m0 F0 as2 m2 F2"
proof -
  obtain d1 where d1: "d1 \<le> c1" "as1 = drop d1 as0" "F0 \<subseteq> F1" "F1 \<subseteq> F0 \<union> index_regions N (take d1 as0)" "\<forall>x. x \<notin> F1 \<longrightarrow> m1 x = m0 x"
    using assms(1) unfolding grown_def by blast
  obtain d2 where d2: "d2 \<le> c2" "as2 = drop d2 as1" "F1 \<subseteq> F2" "F2 \<subseteq> F1 \<union> index_regions N (take d2 as1)" "\<forall>x. x \<notin> F2 \<longrightarrow> m2 x = m1 x"
    using assms(2) unfolding grown_def by blast
  have "take (d1 + d2) as0 = take d1 as0 @ take d2 as1" using d1(2) by (simp add: take_add)
  then have "F2 \<subseteq> F0 \<union> index_regions N (take (d1 + d2) as0)" using d1(4) d2(4) by auto
  then show ?thesis unfolding grown_def using d1 d2 by (intro exI[of _ "d1 + d2"]) (auto simp: add.commute)
qed

lemma grown_mono: "grown N c as0 m0 F0 as1 m1 F1 \<Longrightarrow> c \<le> c' \<Longrightarrow> grown N c' as0 m0 F0 as1 m1 F1"
  unfolding grown_def by (elim exE conjE, rule exI, intro conjI) (rule le_trans, assumption+)

lemma grown_allocs: "grown N c as0 m0 F0 as1 m1 F1 \<Longrightarrow> length as0 \<le> length as1 + c"
  unfolding grown_def by auto

lemma grown_supply:
  assumes "grown N c as0 m0 F0 as1 m1 F1" "spare as0 N F0"
  shows "spare as1 N F1"
proof -
  obtain d where d: "as1 = drop d as0" "F1 \<subseteq> F0 \<union> index_regions N (take d as0)" using assms(1) unfolding grown_def by blast
  have "sorted_wrt (\<lambda>p q. region (uint p) (4 * N) \<inter> region (uint q) (4 * N) = {}) (take d as0 @ as1)"
    using assms(2) d(1) by (simp add: spare_def)
  then have s: "sorted_wrt (\<lambda>p q. region (uint p) (4 * N) \<inter> region (uint q) (4 * N) = {}) as1"
      "\<forall>p \<in> set (take d as0). \<forall>q \<in> set as1. region (uint p) (4 * N) \<inter> region (uint q) (4 * N) = {}"
    unfolding sorted_wrt_append by auto
  have "index_regions N as1 \<subseteq> index_regions N as0" unfolding index_regions_def d(1) by (auto dest: in_set_dropD)
  then have "index_regions N as1 \<inter> F0 = {}" using assms(2) by (auto simp: spare_def)
  moreover have "index_regions N as1 \<inter> index_regions N (take d as0) = {}" using s(2) unfolding index_regions_def by blast
  ultimately show ?thesis unfolding spare_def using d(2) s(1) by auto
qed

lemma supply_mono: "spare allocs N F \<Longrightarrow> E \<subseteq> F \<Longrightarrow> spare allocs N E"
  unfolding spare_def by auto

lemma grown_inside:
  assumes "grown N c as0 m E as1 m' E'" "E \<subseteq> F" "spare as0 N F"
  shows "grown N c as0 m F as1 m' (F - E \<union> E')" "E' \<inter> (F - E) = {}" "\<forall>x \<in> F - E. m' x = m x"
proof -
  obtain d where d: "d \<le> c" "as1 = drop d as0" "E \<subseteq> E'" "E' \<subseteq> E \<union> index_regions N (take d as0)" "\<forall>x. x \<notin> E' \<longrightarrow> m' x = m x"
    using assms(1) unfolding grown_def by blast
  have "index_regions N (take d as0) \<subseteq> index_regions N as0" unfolding index_regions_def by (auto dest: in_set_takeD)
  then have "index_regions N (take d as0) \<inter> F = {}" using assms(3) unfolding spare_def by auto
  then show a: "E' \<inter> (F - E) = {}" using d(4) by auto
  then show "\<forall>x \<in> F - E. m' x = m x" using d(5) by auto
  show "grown N c as0 m F as1 m' (F - E \<union> E')" unfolding grown_def using d assms(2) by (intro exI[of _ d]) auto
qed

section \<open>Indexing while printing\<close>

lemma arr_element:
  assumes "arr_at hash m a vs os p F" "q < length vs"
  shows "sxe_jitson_array_get_element None content m a (of_nat q) = Some (Some (a + 16 * int (os ! q)), m)" "takes_index m a = Some False"
proof -
  obtain F0 where s: "vreps hash m a 1 vs os (ntok (JArray vs)) F0"
      "coll_rep m a SXE_JITSON_TYPE_ARRAY (length vs) (ntok (JArray vs)) False (\<lambda>p'. p' = p \<and> offsets_hold m p os) F0 F"
    using assms(1) unfolding arr_at_def by blast
  have i: "indexed m a" using s(2) by (rule coll_rep_is_indexed)
  obtain ty where ty: "holds m a (le32_bytes ty)" "tok_type ty SXE_JITSON_TYPE_ARRAY" "ty AND SXE_JITSON_TYPE_INDEXED \<noteq> 0"
      "jit_index m a = Some p" "offsets_hold m p os" "length vs < 2 ^ 27" "ntok (JArray vs) < 2 ^ 27"
    using indexed_collection[OF s(2) i] by blast
  have v: "vrep hash m a (JArray vs) (ntok (JArray vs)) F" using assms(1) by (rule arr_at_vrep)
  have d: "jit_deref m a = Some a" "jit_type m a = Some ty" using collection_type[OF ty(2) _ ty(1)] by simp_all
  have q: "q < 2 ^ 31" using assms(2) ty(6) by simp
  have o: "os ! q \<le> ntok (JArray vs)" using vreps_nth[OF s(1) assms(2)] by blast
  then have o31: "os ! q < 2 ^ 31" using ty(7) by simp
  have "holds m (p + 4 * int q) (le32_bytes (of_nat (os ! q)))"
    using ty(5) assms(2) vreps_length[OF s(1)] by (simp add: offsets_hold_def)
  then have r: "mem_u32 m (p + 4 * uint (of_nat q :: u32)) = Some (of_nat (os ! q))" using uint_of_nat_32[OF q] mem_u32_holds by simp
  have "jit_nth a (of_nat (os ! q)) = a + 16 * int (os ! q)" using uint_of_nat_32[OF o31] by (simp add: jit_nth_def)
  moreover have "array_index None content m a = Some (True, m)" using d(2) ty(3) by (simp add: array_index_def)
  moreover have "\<not> length vs \<le> unat (of_nat q :: u32)" using unat_of_nat_32[OF q] assms(2) by simp
  ultimately show "sxe_jitson_array_get_element None content m a (of_nat q) = Some (Some (a + 16 * int (os ! q)), m)"
    unfolding array_get_element_eq[OF v d(1)] using ty(4) r by simp
  show "takes_index m a = Some False" using d(2) ty(3) by (simp add: takes_index_def)
qed

lemma takes_index_eq:
  assumes "holds m a (le32_bytes ty)"
  shows "takes_index m a = Some (\<not> indexed m a)"
proof -
  have "indexed m a \<longleftrightarrow> ty AND SXE_JITSON_TYPE_INDEXED \<noteq> 0"
    using assms holds_le32_unique[OF assms] unfolding indexed_def by blast
  then show ?thesis using mem_u32_holds[OF assms] by (simp add: takes_index_def jit_type_def)
qed

lemma index_memory_spare:
  assumes "spare (ix # rest) N F" "len + 1 \<le> N"
  shows "index_memory (Some ix) len \<inter> F = {}" "index_memory (Some ix) len \<subseteq> index_regions N (take 1 (ix # rest))"
proof -
  have r: "region (uint ix) (4 * (len + 1)) \<subseteq> region (uint ix) (4 * N)" by (rule region_mono) (use assms(2) in simp)
  have t: "index_regions N (take 1 (ix # rest)) = region (uint ix) (4 * N)" "index_memory (Some ix) len = region (uint ix) (4 * (len + 1))"
    by (simp_all add: index_regions_def index_memory_def)
  have "region (uint ix) (4 * N) \<inter> F = {}" using assms(1) by (simp add: spare_def index_regions_def Int_Un_distrib2)
  then show "index_memory (Some ix) len \<inter> F = {}" "index_memory (Some ix) len \<subseteq> index_regions N (take 1 (ix # rest))"
    using r unfolding t by blast+
qed

lemma ntok_array_len: "length vs + 1 \<le> ntok (JArray vs)"
proof (induction vs)
  case (Cons v vs)
  then show ?case using ntok_pos[of v] by simp
qed simp

lemma ntok_object_len: "length ms + 1 \<le> ntok (JObject ms)"
proof (induction ms)
  case (Cons kv ms)
  then show ?case using ntok_pos[of "snd kv"] by (cases kv) simp
qed simp

lemma element_out_ok:
  assumes ok: "print_ok env" and v: "vrep (print_hash env) (out_mem out) a (JArray vs) n F" and sp: "spare (out_allocs out) N F" and N: "n \<le> N"
    and q: "q < length vs" and al: "needs (out_mem out) a \<le> length (out_allocs out)"
  shows "\<exists>m1 as1 F1 os p. element_out env a (of_nat q) out = Some (Some (a + 16 * int (os ! q)), out\<lparr>out_mem := m1, out_allocs := as1\<rparr>)
    \<and> arr_at (print_hash env) m1 a vs os p F1 \<and> grown N (needs (out_mem out) a) (out_allocs out) (out_mem out) F as1 m1 F1"
proof -
  let ?m = "out_mem out"
  have n: "n = ntok (JArray vs)" using v by (rule vrep_ntok)
  from v obtain os F0 where c: "coll_rep ?m a SXE_JITSON_TYPE_ARRAY (length vs) n True (\<lambda>p. offsets_hold ?m p os) F0 F" by auto
  obtain ty where ty: "holds ?m a (le32_bytes ty)" "tok_type ty SXE_JITSON_TYPE_ARRAY" "length vs < 2 ^ 27" using coll_rep_type[OF c] by blast
  have d: "jit_deref ?m a = Some a" using collection_type[OF ty(2) _ ty(1)] by simp
  note t = takes_index_eq[OF ty(1)]
  show ?thesis
  proof (cases "indexed ?m a")
    case True
    obtain os p where a: "arr_at (print_hash env) ?m a vs os p F" using vrep_arr_at[OF v True] by blast
    have "next_index False (out_allocs out) = None" by (simp add: next_index_def split: list.split)
    then have "element_out env a (of_nat q) out = Some (Some (a + 16 * int (os ! q)), out\<lparr>out_mem := ?m, out_allocs := out_allocs out\<rparr>)"
      using t True arr_element(1)[OF a q] by (simp add: element_out_def)
    then show ?thesis using a True grown_refl by (intro exI[of _ ?m] exI[of _ "out_allocs out"] exI[of _ F] exI[of _ os] exI[of _ p]) (simp add: needs_def)
  next
    case False
    then obtain ix rest where ix: "out_allocs out = ix # rest" using al by (cases "out_allocs out") (auto simp: needs_def)
    have len: "length vs + 1 \<le> N" using ntok_array_len[of vs] n N by simp
    note im = index_memory_spare[OF sp[unfolded ix] len]
    have cont: "length (print_content env k) = k" for k using ok by (simp add: print_ok_def)
    obtain m1 F1 where m1: "array_index (Some ix) (print_content env) ?m a = Some (True, m1)" "vrep (print_hash env) m1 a (JArray vs) n F1" "indexed m1 a"
        "F \<subseteq> F1" "F1 \<subseteq> F \<union> index_memory (Some ix) (length vs)" "\<forall>x. x \<notin> F1 \<longrightarrow> m1 x = ?m x"
      using array_index_made[OF v im(1) cont] by blast
    obtain os p where a: "arr_at (print_hash env) m1 a vs os p F1" using vrep_arr_at[OF m1(2,3)] by blast
    have v1: "vrep (print_hash env) m1 a (JArray vs) (ntok (JArray vs)) F1" using a by (rule arr_at_vrep)
    obtain ty1 where ty1: "jit_deref m1 a = Some a" "jit_type m1 a = Some ty1" using vrep_token[OF v1] by blast
    have idx: "\<not> length vs \<le> unat (of_nat q :: u32)" using unat_of_nat_32[of q] q ty(3) by simp
    have "takes_index m1 a = Some False" using arr_element(2)[OF a q] .
    then have "array_index None (print_content env) m1 a = Some (True, m1)" using ty1(2) by (simp add: takes_index_def array_index_def)
    then have "sxe_jitson_array_get_element (Some ix) (print_content env) ?m a (of_nat q) = Some (Some (a + 16 * int (os ! q)), m1)"
      using arr_element(1)[OF a q, of "print_content env"] idx m1(1)
      unfolding array_get_element_eq[OF v1 ty1(1)] array_get_element_eq[OF v d] by simp
    then have "element_out env a (of_nat q) out = Some (Some (a + 16 * int (os ! q)), out\<lparr>out_mem := m1, out_allocs := rest\<rparr>)"
      using t False ix by (simp add: element_out_def next_index_def)
    moreover have "grown N (needs ?m a) (out_allocs out) ?m F rest m1 F1"
      unfolding grown_def needs_def ix using False m1(4-6) im(2) by (intro exI[of _ 1]) auto
    ultimately show ?thesis using a by blast
  qed
qed

lemma force_index_ok:
  assumes v: "vrep (print_hash env) (out_mem out) a (JObject ms) n F" and sp: "spare (out_allocs out) N F" and N: "n \<le> N"
    and ne: "ms \<noteq> []" and al: "needs (out_mem out) a \<le> length (out_allocs out)" and a: "0 < a"
  shows "\<exists>m1 as1 F1 os p. force_index env a out = Some (out\<lparr>out_mem := m1, out_allocs := as1\<rparr>)
    \<and> obj_at (print_hash env) m1 a ms os p F1 \<and> grown N (needs (out_mem out) a) (out_allocs out) (out_mem out) F as1 m1 F1"
proof -
  let ?m = "out_mem out"
  have n: "n = ntok (JObject ms)" using v by (rule vrep_ntok)
  obtain ty where ty: "holds ?m a (le32_bytes ty)" using vrep_type[OF v] by blast
  have d: "jit_deref ?m a = Some a" using vrep_token[OF v] by blast
  note t = takes_index_eq[OF ty]
  show ?thesis
  proof (cases "indexed ?m a")
    case True
    obtain os p where o: "obj_at (print_hash env) ?m a ms os p F" using vrep_obj_at[OF v True] by blast
    have "force_index env a out = Some (out\<lparr>out_mem := ?m, out_allocs := out_allocs out\<rparr>)" using t True by (simp add: force_index_def)
    then show ?thesis using o True grown_refl by (intro exI[of _ ?m] exI[of _ "out_allocs out"] exI[of _ F] exI[of _ os] exI[of _ p]) (simp add: needs_def)
  next
    case False
    then obtain ix rest where ix: "out_allocs out = ix # rest" using al by (cases "out_allocs out") (auto simp: needs_def)
    have len: "length ms + 1 \<le> N" using ntok_object_len[of ms] n N by simp
    note im = index_memory_spare[OF sp[unfolded ix] len]
    have nm: "member_name [0] 0 []" by (simp add: member_name_def)
    obtain r m1 F1 where m1: "sxe_jitson_object_get_member (print_hash env) (Some ix) ?m a [0] 0 = Some (r, m1)"
        "vrep (print_hash env) m1 a (JObject ms) n F1" "indexed m1 a" "F \<subseteq> F1" "F1 \<subseteq> F \<union> index_memory (Some ix) (length ms)" "\<forall>x. x \<notin> F1 \<longrightarrow> m1 x = ?m x"
      using object_get_member_value[OF v d im(1) a nm] ne by blast
    obtain os p where o: "obj_at (print_hash env) m1 a ms os p F1" using vrep_obj_at[OF m1(2,3)] by blast
    have "force_index env a out = Some (out\<lparr>out_mem := m1, out_allocs := rest\<rparr>)"
      using t False ix m1(1) by (simp add: force_index_def next_index_def)
    moreover have "grown N (needs ?m a) (out_allocs out) ?m F rest m1 F1"
      unfolding grown_def needs_def ix using False m1(4-6) im(2) by (intro exI[of _ 1]) auto
    ultimately show ?thesis using o by blast
  qed
qed

section \<open>Links\<close>

lemma chain_at:
  "chain m a h (xs @ i # ys) \<Longrightarrow> jit_link m (a + 16 * int i) = Some (chain_head ys)"
proof (induction xs arbitrary: h)
  case Nil
  then obtain h' where h: "holds m (a + 16 * int i + 4) (le32_bytes h')" "chain m a h' ys" by auto
  have "h' = chain_head ys" using h(2) by (cases ys) auto
  then show ?case using h(1) by (simp add: jit_link_def mem_u32_holds)
qed auto

lemma chain_starts: "chain m a h js \<Longrightarrow> h = chain_head js"
  by (cases js) auto

lemma obj_bucket:
  assumes "obj_at hash m a ms os p F" "b < length ms"
  shows "jit_index m a = Some p" "\<exists>h. mem_u32 m (p + 4 * int b) = Some h \<and> chain m a h (rev (bucket_offsets hash (length ms) os (map fst ms) b))"
    "length os = length ms"
proof -
  obtain F0 where s: "mreps hash m a 1 ms os (ntok (JObject ms)) F0"
      "coll_rep m a SXE_JITSON_TYPE_OBJECT (length ms) (ntok (JObject ms)) False (\<lambda>p'. p' = p \<and> buckets_hold hash m a p (length ms) os (map fst ms)) F0 F"
    using assms(1) unfolding obj_at_def by blast
  have "jit_index m a = Some p \<and> buckets_hold hash m a p (length ms) os (map fst ms)"
    using indexed_collection[OF s(2) coll_rep_is_indexed[OF s(2)]] by blast
  then show "jit_index m a = Some p" "\<exists>h. mem_u32 m (p + 4 * int b) = Some h \<and> chain m a h (rev (bucket_offsets hash (length ms) os (map fst ms) b))"
    using buckets_hold_get assms(2) by blast+
  show "length os = length ms" using s(1) by (rule mreps_length)
qed

section \<open>Arrays and objects\<close>

lemma build_okD:
  assumes "build_ok env dbl N build v" "vrep (print_hash env) (out_mem out) a v (ntok v) F" "0 < a" "spare (out_allocs out) N F" "ntok v \<le> N"
    "collections v \<le> length (out_allocs out)" "factory_holds (out_factory out) s" "length s + 100 * ntok v < 2 ^ 61"
  shows "\<exists>out' t w F'. build_at build a out = Some (True, out') \<and> rfc_text ascii_escape dbl w t \<and> reads_as (print_double env) dbl v w \<and> length t + 1 \<le> 100 * ntok v
     \<and> factory_holds (out_factory out') (s @ t) \<and> vrep (print_hash env) (out_mem out') a v (ntok v) F'
     \<and> grown N (collections v) (out_allocs out) (out_mem out) F (out_allocs out') (out_mem out') F'"
  using assms unfolding build_ok_def built_def by blast

lemma arr_at_indexed: "arr_at hash m a vs os p F \<Longrightarrow> indexed m a"
  unfolding arr_at_def using coll_rep_is_indexed by blast

lemma obj_at_indexed: "obj_at hash m a ms os p F \<Longrightarrow> indexed m a"
  unfolding obj_at_def using coll_rep_is_indexed by blast

text \<open>One element: it is found, printed, and the array has changed with it.\<close>

lemma one_element_ok:
  assumes ok: "print_ok env" and B: "build_ok env dbl N build (vs ! q)"
    and v: "vrep (print_hash env) (out_mem out) a (JArray vs) (ntok (JArray vs)) F" and a: "0 < a" and sp: "spare (out_allocs out) N F"
    and N: "ntok (JArray vs) \<le> N" and q: "q < length vs" and al: "needs (out_mem out) a + collections (vs ! q) \<le> length (out_allocs out)"
    and f: "factory_holds (out_factory out) s" "length s + 100 * ntok (vs ! q) < 2 ^ 61"
  shows "\<exists>e out1 out2 t w F2. element_out env a (of_nat q) out = Some (Some e, out1) \<and> build_at build e out1 = Some (True, out2)
    \<and> rfc_text ascii_escape dbl w t \<and> reads_as (print_double env) dbl (vs ! q) w \<and> length t + 1 \<le> 100 * ntok (vs ! q) \<and> factory_holds (out_factory out2) (s @ t)
    \<and> vrep (print_hash env) (out_mem out2) a (JArray vs) (ntok (JArray vs)) F2 \<and> indexed (out_mem out2) a
    \<and> grown N (needs (out_mem out) a + collections (vs ! q)) (out_allocs out) (out_mem out) F (out_allocs out2) (out_mem out2) F2"
proof -
  have al0: "needs (out_mem out) a \<le> length (out_allocs out)" using al by simp
  obtain m1 as1 F1 os p where e: "element_out env a (of_nat q) out = Some (Some (a + 16 * int (os ! q)), out\<lparr>out_mem := m1, out_allocs := as1\<rparr>)"
      "arr_at (print_hash env) m1 a vs os p F1" "grown N (needs (out_mem out) a) (out_allocs out) (out_mem out) F as1 m1 F1"
    using element_out_ok[OF ok v sp N q al0] by blast
  let ?o = "out\<lparr>out_mem := m1, out_allocs := as1\<rparr>"
  obtain E where E: "vrep (print_hash env) m1 (a + 16 * int (os ! q)) (vs ! q) (ntok (vs ! q)) E" "E \<subseteq> F1"
      and lens: "\<And>m' E'. vrep (print_hash env) m' (a + 16 * int (os ! q)) (vs ! q) (ntok (vs ! q)) E' \<Longrightarrow> E' \<inter> (F1 - E) = {} \<Longrightarrow> \<forall>x \<in> F1 - E. m' x = m1 x \<Longrightarrow>
        arr_at (print_hash env) m' a vs os p (F1 - E \<union> E')"
    using arr_lens[OF e(2) q] by blast
  have sp1: "spare as1 N F1" using e(3) sp by (rule grown_supply)
  have "ntok (vs ! q) \<le> ntok (JArray vs)" using q member_le_sum_list[of "ntok (vs ! q)" "map ntok vs"] by simp
  then have nq: "ntok (vs ! q) \<le> N" using N by simp
  have alq: "collections (vs ! q) \<le> length as1" using grown_allocs[OF e(3)] al by simp
  obtain out2 t w E' where b: "build_at build (a + 16 * int (os ! q)) ?o = Some (True, out2)" "rfc_text ascii_escape dbl w t" "reads_as (print_double env) dbl (vs ! q) w"
      "length t + 1 \<le> 100 * ntok (vs ! q)" "factory_holds (out_factory out2) (s @ t)"
      "vrep (print_hash env) (out_mem out2) (a + 16 * int (os ! q)) (vs ! q) (ntok (vs ! q)) E'"
      "grown N (collections (vs ! q)) as1 m1 E (out_allocs out2) (out_mem out2) E'"
    using build_okD[OF B, of ?o "a + 16 * int (os ! q)" E s] E(1) a supply_mono[OF sp1 E(2)] nq alq f by auto
  note g = grown_inside[OF b(7) E(2) sp1]
  have arr: "arr_at (print_hash env) (out_mem out2) a vs os p (F1 - E \<union> E')" using lens[OF b(6) g(2,3)] .
  have "grown N (needs (out_mem out) a + collections (vs ! q)) (out_allocs out) (out_mem out) F (out_allocs out2) (out_mem out2) (F1 - E \<union> E')"
    using e(3) g(1) by (rule grown_trans)
  then show ?thesis using e(1) b(1-5) arr_at_vrep[OF arr] arr_at_indexed[OF arr] by blast
qed

lemma needs_indexed: "indexed m a \<Longrightarrow> needs m a = 0"
  by (simp add: needs_def)

lemma print_elements_ok:
  assumes ok: "print_ok env" and B: "\<forall>v \<in> set vs. build_ok env dbl N build v" and a: "0 < a" and N: "ntok (JArray vs) \<le> N"
  shows "q + r + 1 = length vs \<Longrightarrow> vrep (print_hash env) (out_mem out) a (JArray vs) (ntok (JArray vs)) F \<Longrightarrow> spare (out_allocs out) N F \<Longrightarrow>
    needs (out_mem out) a + sum_list (map collections (drop q vs)) \<le> length (out_allocs out) \<Longrightarrow> factory_holds (out_factory out) s \<Longrightarrow>
    length s + 100 * sum_list (map ntok (drop q vs)) < 2 ^ 61 \<Longrightarrow>
    \<exists>out' t us F'. print_elements build env a (of_nat q) r out = Some out' \<and> rfc_elements ascii_escape dbl us t \<and> list_all2 (reads_as (print_double env) dbl) (drop q vs) us
      \<and> length t + 1 \<le> 100 * sum_list (map ntok (drop q vs)) \<and> factory_holds (out_factory out') (s @ t)
      \<and> vrep (print_hash env) (out_mem out') a (JArray vs) (ntok (JArray vs)) F'
      \<and> grown N (needs (out_mem out) a + sum_list (map collections (drop q vs))) (out_allocs out) (out_mem out) F (out_allocs out') (out_mem out') F'"
proof (induction r arbitrary: q out F s)
  case 0
  have q: "q < length vs" using 0(1) by simp
  have d: "drop q vs = [vs ! q]" using Cons_nth_drop_Suc[OF q] 0(1) by simp
  have al: "needs (out_mem out) a + collections (vs ! q) \<le> length (out_allocs out)" using 0(4) d by simp
  have b0: "length s + 100 * ntok (vs ! q) < 2 ^ 61" using 0(6) d by simp
  have Bq: "build_ok env dbl N build (vs ! q)" using B q by simp
  obtain e out1 out2 t w F2 where h: "element_out env a (of_nat q) out = Some (Some e, out1)" "build_at build e out1 = Some (True, out2)"
      "rfc_text ascii_escape dbl w t" "reads_as (print_double env) dbl (vs ! q) w" "length t + 1 \<le> 100 * ntok (vs ! q)" "factory_holds (out_factory out2) (s @ t)"
      "vrep (print_hash env) (out_mem out2) a (JArray vs) (ntok (JArray vs)) F2"
      "grown N (needs (out_mem out) a + collections (vs ! q)) (out_allocs out) (out_mem out) F (out_allocs out2) (out_mem out2) F2"
    using one_element_ok[OF ok Bq 0(2) a 0(3) N q al 0(5) b0] by blast
  have "rfc_elements ascii_escape dbl [w] t" using rfc_element[OF rfc_ws_Nil h(3) rfc_ws_Nil] by simp
  then show ?case using h d by (intro exI[of _ out2] exI[of _ t] exI[of _ "[w]"] exI[of _ F2]) simp
next
  case (Suc r)
  have q: "q < length vs" "Suc q + r + 1 = length vs" using Suc.prems(1) by simp_all
  have d: "drop q vs = vs ! q # drop (Suc q) vs" using q(1) by (simp add: Cons_nth_drop_Suc)
  let ?rest = "drop (Suc q) vs"
  have al: "needs (out_mem out) a + collections (vs ! q) \<le> length (out_allocs out)" using Suc.prems(4) d by simp
  have b0: "length s + 100 * ntok (vs ! q) < 2 ^ 61" using Suc.prems(6) d by simp
  have Bq: "build_ok env dbl N build (vs ! q)" using B q(1) by simp
  obtain e out1 out2 t w F2 where h: "element_out env a (of_nat q) out = Some (Some e, out1)" "build_at build e out1 = Some (True, out2)"
      "rfc_text ascii_escape dbl w t" "reads_as (print_double env) dbl (vs ! q) w" "length t + 1 \<le> 100 * ntok (vs ! q)" "factory_holds (out_factory out2) (s @ t)"
      "vrep (print_hash env) (out_mem out2) a (JArray vs) (ntok (JArray vs)) F2" "indexed (out_mem out2) a"
      "grown N (needs (out_mem out) a + collections (vs ! q)) (out_allocs out) (out_mem out) F (out_allocs out2) (out_mem out2) F2"
    using one_element_ok[OF ok Bq Suc.prems(2) a Suc.prems(3) N q(1) al Suc.prems(5) b0] by blast
  have b1: "length (s @ t) + length [0x2C :: u8] + 1 < 2 ^ 62" using h(5) b0 by simp
  obtain f3 where f3: "add_text env out2 [0x2C] = Some (out2\<lparr>out_factory := f3\<rparr>)" "factory_holds f3 ((s @ t) @ [0x2C])"
    using add_text_ok[OF ok h(6) _ b1] by auto
  let ?o = "out2\<lparr>out_factory := f3\<rparr>"
  have sp: "spare (out_allocs ?o) N F2" using grown_supply[OF h(9) Suc.prems(3)] by simp
  have v2: "vrep (print_hash env) (out_mem ?o) a (JArray vs) (ntok (JArray vs)) F2" using h(7) by simp
  have al2: "needs (out_mem ?o) a + sum_list (map collections ?rest) \<le> length (out_allocs ?o)"
    using needs_indexed[OF h(8)] grown_allocs[OF h(9)] Suc.prems(4) d by simp
  have f4: "factory_holds (out_factory ?o) ((s @ t) @ [0x2C])" using f3(2) by simp
  have b2: "length ((s @ t) @ [0x2C]) + 100 * sum_list (map ntok ?rest) < 2 ^ 61" using Suc.prems(6) d h(5) by simp
  obtain out' t' us F' where r: "print_elements build env a (of_nat (Suc q)) r ?o = Some out'" "rfc_elements ascii_escape dbl us t'"
      "list_all2 (reads_as (print_double env) dbl) ?rest us" "length t' + 1 \<le> 100 * sum_list (map ntok ?rest)" "factory_holds (out_factory out') (((s @ t) @ [0x2C]) @ t')"
      "vrep (print_hash env) (out_mem out') a (JArray vs) (ntok (JArray vs)) F'"
      "grown N (needs (out_mem ?o) a + sum_list (map collections ?rest)) (out_allocs ?o) (out_mem ?o) F2 (out_allocs out') (out_mem out') F'"
    using Suc.IH[OF q(2) v2 sp al2 f4 b2] by blast
  have "print_elements build env a (of_nat q) (Suc r) out = Some out'"
    using h(1,2) f3(1) r(1) by (simp add: add.commute)
  moreover have "rfc_elements ascii_escape dbl (w # us) (t @ 0x2C # t')" using rfc_more_elements[OF rfc_ws_Nil h(3) rfc_ws_Nil r(2)] by simp
  moreover have "grown N (needs (out_mem out) a + sum_list (map collections (drop q vs))) (out_allocs out) (out_mem out) F (out_allocs out') (out_mem out') F'"
    using grown_trans[OF h(9)] r(7) needs_indexed[OF h(8)] d by (simp add: add.assoc)
  ultimately show ?case using h(4,5) r(3-6) d
    by (intro exI[of _ out'] exI[of _ "t @ 0x2C # t'"] exI[of _ "w # us"] exI[of _ F']) simp
qed

lemma string_size_length: "length k + 9 \<le> 16 * string_size k"
  unfolding string_size_def using dividend_less_times_div[of 16 "length k + 8"] by simp

text \<open>A member name is printed as a string.\<close>

lemma key_build_ok:
  assumes "print_ok env" "krep (out_mem out) p k n" "factory_holds (out_factory out) t" "length t + 8 * length k + 20 < 2 ^ 62"
  shows "\<exists>f u. sxe_jitson_string_build_json env p out = Some (True, out\<lparr>out_factory := f\<rparr>) \<and> factory_holds f (t @ 0x22 # u @ [0x22])
    \<and> rfc_string ascii_escape k u \<and> length u \<le> 6 * length k"
proof -
  note g = krep_get_string[OF assms(2)]
  have k: "length k < 2 ^ 31" "holds (out_mem out) (p + 8) k" using assms(2) by (auto simp: krep_def holds_append)
  have "sxe_jitson_len (out_mem out) p = Some (of_nat (length k), out_mem out)"
    using g(5) krep_string_len[OF assms(2)] key_type(1)
    by (simp add: sxe_jitson_len_def sxe_jitson_supports_len_def type_len_def SXEA1_def Let_def SXE_JITSON_TYPE_STRING_def SXE_JITSON_TYPE_REFERENCE_def)
  then show ?thesis using string_build_ok[OF assms(1) _ g(1) k(2,1) assms(3,4)] by blast
qed

lemma chain_head_zero: "\<forall>i \<in> set js. 0 < i \<and> i < 2 ^ 27 \<Longrightarrow> chain_head js = 0 \<longleftrightarrow> js = []"
  by (cases js) (auto simp: unat_of_nat_32 dest!: arg_cong[of "of_nat _ :: u32" 0 unat])

lemma plain_rfc_member:
  "rfc_string ascii_escape k kt \<Longrightarrow> rfc_text ascii_escape dbl v t \<Longrightarrow> rfc_member ascii_escape dbl k v (0x22 # kt @ 0x22 # 0x3A # t)"
  using rfc_one[OF rfc_ws_Nil _ rfc_ws_Nil rfc_ws_Nil _ rfc_ws_Nil] by fastforce

lemma members_out_Cons:
  assumes "rfc_string ascii_escape k kt" "rfc_text ascii_escape dbl w t" "members_out dbl False us t'"
  shows "members_out dbl first ((k, w) # us) ((if first then [] else [0x2C]) @ 0x22 # kt @ 0x22 # 0x3A # t @ t')"
proof (cases "us = []")
  case True
  then show ?thesis using assms(3) rfc_one_member[OF plain_rfc_member[OF assms(1,2)]] by (auto simp: members_out_def)
next
  case False
  then obtain t0 where t0: "rfc_members ascii_escape dbl us t0" "t' = 0x2C # t0" using assms(3) by (auto simp: members_out_def)
  have "rfc_members ascii_escape dbl ((k, w) # us) ((0x22 # kt @ 0x22 # 0x3A # t) @ 0x2C # t0)"
    using rfc_more_members[OF plain_rfc_member[OF assms(1,2)] t0(1)] .
  then show ?thesis using t0(2) by (auto simp: members_out_def)
qed

lemma rfc_members_append:
  "rfc_members ascii_escape dbl us t \<Longrightarrow> rfc_members ascii_escape dbl us' t' \<Longrightarrow> rfc_members ascii_escape dbl (us @ us') (t @ 0x2C # t')"
proof (induction us arbitrary: t)
  case Nil
  from Nil(1) show ?case by cases
next
  case (Cons u us)
  from Cons.prems(1) show ?case
  proof cases
    case (rfc_one_member k v)
    then show ?thesis using rfc_more_members[OF _ Cons.prems(2)] by simp
  next
    case (rfc_more_members k v t1 t2)
    then show ?thesis using rfc_text_rfc_elements_rfc_member_rfc_members.rfc_more_members[OF _ Cons.IH[OF _ Cons.prems(2)]] by fastforce
  qed
qed

lemma members_out_append:
  assumes "members_out dbl first us t" "members_out dbl (first \<and> us = []) us' t'"
  shows "members_out dbl first (us @ us') (t @ t')"
proof (cases "us = [] \<or> us' = []")
  case True
  then show ?thesis using assms by (auto simp: members_out_def)
next
  case False
  then obtain t0 t1 where "rfc_members ascii_escape dbl us t0" "t = (if first then [] else [0x2C]) @ t0" "rfc_members ascii_escape dbl us' t1" "t' = 0x2C # t1"
    using assms by (auto simp: members_out_def)
  then show ?thesis using False rfc_members_append[of dbl us t0 us' t1] by (auto simp: members_out_def)
qed

text \<open>One member is printed, and its link leads to the next.\<close>

lemma link_after:
  assumes "obj_at hash m a ms os p F" "b < length ms" "bucket_members hash (length ms) (zip os ms) b = xs @ (i, k, v) # ys"
  shows "jit_link m (a + 16 * int i) = Some (chain_head (map fst ys))"
proof -
  note o = obj_bucket[OF assms(1,2)]
  have "map fst (bucket_members hash (length ms) (zip os ms) b) = rev (bucket_offsets hash (length ms) os (map fst ms) b)"
    unfolding bucket_offsets_members[OF o(3)] bucket_members_def by (simp add: rev_map)
  then have "\<exists>h. chain m a h (map fst xs @ i # map fst ys)" using o(2) unfolding assms(3) by auto
  then show ?thesis using chain_at by blast
qed

lemma one_member_ok:
  assumes ok: "print_ok env" and key: "build SXE_JITSON_TYPE_STRING = sxe_jitson_string_build_json env" and B: "build_ok env dbl N build v"
    and o: "obj_at (print_hash env) (out_mem out) a ms os p F" and a: "0 < a" and sp: "spare (out_allocs out) N F" and N: "ntok (JObject ms) \<le> N"
    and b: "b < length ms" and zs: "bucket_members (print_hash env) (length ms) (zip os ms) b = xs @ (i, k, v) # ys"
    and al: "collections v \<le> length (out_allocs out)" and f: "factory_holds (out_factory out) s" "length s + 100 * (string_size k + ntok v) < 2 ^ 61"
  shows "\<exists>out' kt t w F'. print_member build env a (of_nat i) first out = Some (chain_head (map fst ys), out') \<and> rfc_string ascii_escape k kt
    \<and> rfc_text ascii_escape dbl w t \<and> reads_as (print_double env) dbl v w \<and> length kt + length t + 5 \<le> 100 * (string_size k + ntok v)
    \<and> factory_holds (out_factory out') (s @ (if first then [] else [0x2C]) @ 0x22 # kt @ 0x22 # 0x3A # t)
    \<and> obj_at (print_hash env) (out_mem out') a ms os p F'
    \<and> grown N (collections v) (out_allocs out) (out_mem out) F (out_allocs out') (out_mem out') F'"
proof -
  have "(i, k, v) \<in> set (bucket_members (print_hash env) (length ms) (zip os ms) b)" unfolding zs by simp
  then have "(i, k, v) \<in> set (zip os ms)" by (auto simp: bucket_members_def)
  then obtain q where q: "q < length ms" "i = os ! q" "ms ! q = (k, v)" by (auto simp: in_set_zip)
  obtain E where E: "krep (out_mem out) (a + 16 * int i) k (string_size k)" "vrep (print_hash env) (out_mem out) (a + 16 * int (i + string_size k)) v (ntok v) E"
      "E \<subseteq> F" "1 \<le> i" "i < 2 ^ 27"
    and lens: "\<And>m' E'. vrep (print_hash env) m' (a + 16 * int (i + string_size k)) v (ntok v) E' \<Longrightarrow> E' \<inter> (F - E) = {} \<Longrightarrow> \<forall>x \<in> F - E. m' x = out_mem out x \<Longrightarrow>
        obj_at (print_hash env) m' a ms os p (F - E \<union> E')"
    using obj_lens[OF o q(1,3)] unfolding q(2)[symmetric] by blast
  let ?p = "a + 16 * int i" and ?pre = "if first then [] else [0x2C :: u8]"
  have kl: "length k + 9 \<le> 16 * string_size k" by (rule string_size_length)
  have nv: "0 < ntok v" by (rule ntok_pos)
  have nth: "jit_nth a (of_nat i) = ?p" using uint_of_nat_32[of i] E(5) by (simp add: jit_nth_def)
  obtain f1 where f1: "(if first then Some out else add_text env out [0x2C]) = Some (out\<lparr>out_factory := f1\<rparr>)" "factory_holds f1 (s @ ?pre)"
  proof (cases first)
    case True
    then show thesis using that[of "out_factory out"] f(1) by simp
  next
    case False
    have "length s + length [0x2C :: u8] + 1 < 2 ^ 62" using f(2) by simp
    then show thesis using add_text_ok[OF ok f(1), of "[0x2C]"] that False by auto
  qed
  let ?o1 = "out\<lparr>out_factory := f1\<rparr>"
  have k1: "krep (out_mem ?o1) ?p k (string_size k)" "factory_holds (out_factory ?o1) (s @ ?pre)" "length (s @ ?pre) + 8 * length k + 20 < 2 ^ 62"
    using E(1) f1(2) f(2) kl by simp_all
  obtain f2 kt where f2: "sxe_jitson_string_build_json env ?p ?o1 = Some (True, ?o1\<lparr>out_factory := f2\<rparr>)" "factory_holds f2 ((s @ ?pre) @ 0x22 # kt @ [0x22])"
      "rfc_string ascii_escape k kt" "length kt \<le> 6 * length k"
    using key_build_ok[OF ok k1] by blast
  let ?o2 = "out\<lparr>out_factory := f2\<rparr>"
  have "jit_type (out_mem ?o1) ?p = Some (string_type True)" using krep_get_string(5)[OF k1(1)] .
  then have bk: "build_at build ?p ?o1 = Some (True, ?o2)" using f2(1) key key_type(1) by (simp add: build_at_def)
  have f3b: "factory_holds (out_factory ?o2) ((s @ ?pre) @ 0x22 # kt @ [0x22])" "length ((s @ ?pre) @ 0x22 # kt @ [0x22]) + length [0x3A :: u8] + 1 < 2 ^ 62"
    using f2(2,4) f(2) kl by simp_all
  obtain f3 where f3: "add_text env ?o2 [0x3A] = Some (?o2\<lparr>out_factory := f3\<rparr>)" "factory_holds f3 (((s @ ?pre) @ 0x22 # kt @ [0x22]) @ [0x3A])"
    using add_text_ok[OF ok f3b(1) _ f3b(2)] by auto
  let ?o3 = "out\<lparr>out_factory := f3\<rparr>" and ?s3 = "((s @ ?pre) @ 0x22 # kt @ [0x22]) @ [0x3A]"
  note ks = krep_size[OF E(1)]
  have jn: "jit_nth ?p (of_nat (string_size k)) = a + 16 * int (i + string_size k)" using uint_of_nat_32[of "string_size k"] ks by (simp add: jit_nth_def)
  have nN: "ntok v \<le> N" using N member_le_sum_list[of "string_size k + ntok v" "map (\<lambda>(k, v). string_size k + ntok v) ms"] q(1,3)
    by (metis (no_types, lifting) add_leE case_prod_conv elem_le_sum_list le_trans length_map nth_map ntok.simps(3))
  have h: "vrep (print_hash env) (out_mem ?o3) (a + 16 * int (i + string_size k)) v (ntok v) E" "0 < a + 16 * int (i + string_size k)"
      "spare (out_allocs ?o3) N E" "collections v \<le> length (out_allocs ?o3)" "factory_holds (out_factory ?o3) ?s3" "length ?s3 + 100 * ntok v < 2 ^ 61"
    using E(2) a supply_mono[OF sp E(3)] al f3(2) f2(4) f(2) kl by simp_all
  obtain out4 t w E' where r: "build_at build (a + 16 * int (i + string_size k)) ?o3 = Some (True, out4)" "rfc_text ascii_escape dbl w t" "reads_as (print_double env) dbl v w"
      "length t + 1 \<le> 100 * ntok v" "factory_holds (out_factory out4) (?s3 @ t)" "vrep (print_hash env) (out_mem out4) (a + 16 * int (i + string_size k)) v (ntok v) E'"
      "grown N (collections v) (out_allocs out) (out_mem out) E (out_allocs out4) (out_mem out4) E'"
    using build_okD[OF B h(1-3) nN h(4-6)] by auto
  note g = grown_inside[OF r(7) E(3) sp]
  have o4: "obj_at (print_hash env) (out_mem out4) a ms os p (F - E \<union> E')" using lens[OF r(6) g(2,3)] .
  have "print_member build env a (of_nat i) first out = Some (chain_head (map fst ys), out4)"
    using f1(1) bk f3(1) r(1) ks jn link_after[OF o4 b zs] by (simp add: print_member_def nth Let_def)
  then show ?thesis using f2(3,4) r(2-5) kl o4 g(1)
    by (intro exI[of _ out4] exI[of _ kt] exI[of _ t] exI[of _ w] exI[of _ "F - E \<union> E'"]) simp
qed

lemma bucket_member_bounds:
  assumes "obj_at hash m a ms os p F" "(i, k, v) \<in> set (bucket_members hash (length ms) (zip os ms) b)"
  shows "0 < i \<and> i < 2 ^ 27" "(k, v) \<in> set ms"
proof -
  have z: "(i, k, v) \<in> set (zip os ms)" using assms(2) by (auto simp: bucket_members_def)
  then obtain q where q: "q < length ms" "i = os ! q" "ms ! q = (k, v)" by (auto simp: in_set_zip)
  show "0 < i \<and> i < 2 ^ 27" using obj_lens[OF assms(1) q(1,3)] unfolding q(2) by (metis less_le_trans zero_less_one)
  show "(k, v) \<in> set ms" using z by (rule set_zip_rightD)
qed

lemma members_printed_Nil:
  "obj_at (print_hash env) (out_mem out) a ms os p F \<Longrightarrow> factory_holds (out_factory out) s \<Longrightarrow>
   members_printed env dbl N a ms os p [] first out F s out"
  unfolding members_printed_def members_out_def member_collections_def using grown_refl by fastforce

text \<open>One list of members is printed and then another, by a step that satisfies \<open>P\<close>.\<close>

lemma members_printed_then:
  assumes m1: "members_printed env dbl N a ms os p ys first out F s out1"
    and sp: "spare (out_allocs out) N F" and al: "member_collections (ys @ ys') \<le> length (out_allocs out)"
    and b: "length s + 100 * member_tokens (ys @ ys') < 2 ^ 61"
    and step: "\<And>t F1. obj_at (print_hash env) (out_mem out1) a ms os p F1 \<Longrightarrow> spare (out_allocs out1) N F1 \<Longrightarrow>
      member_collections ys' \<le> length (out_allocs out1) \<Longrightarrow> factory_holds (out_factory out1) (s @ t) \<Longrightarrow> length (s @ t) + 100 * member_tokens ys' < 2 ^ 61 \<Longrightarrow>
      \<exists>out2. P out2 \<and> members_printed env dbl N a ms os p ys' (first \<and> ys = []) out1 F1 (s @ t) out2"
  shows "\<exists>out2. P out2 \<and> members_printed env dbl N a ms os p (ys @ ys') first out F s out2"
proof -
  obtain us t F1 where 1: "members_out dbl first us t" "list_all2 (member_reads (print_double env) dbl) (map snd ys) us" "length t \<le> 100 * member_tokens ys"
      "factory_holds (out_factory out1) (s @ t)" "obj_at (print_hash env) (out_mem out1) a ms os p F1"
      "grown N (member_collections ys) (out_allocs out) (out_mem out) F (out_allocs out1) (out_mem out1) F1"
    using m1 unfolding members_printed_def by blast
  have sums: "member_collections (ys @ ys') = member_collections ys + member_collections ys'" "member_tokens (ys @ ys') = member_tokens ys + member_tokens ys'"
    by (simp_all add: member_collections_def member_tokens_def)
  have al1: "member_collections ys' \<le> length (out_allocs out1)" using grown_allocs[OF 1(6)] al sums(1) by linarith
  have b1: "length (s @ t) + 100 * member_tokens ys' < 2 ^ 61" using b 1(3) unfolding sums(2) length_append by simp
  obtain out2 where P: "P out2" and m2: "members_printed env dbl N a ms os p ys' (first \<and> ys = []) out1 F1 (s @ t) out2"
    using step[OF 1(5) grown_supply[OF 1(6) sp] al1 1(4) b1] by blast
  obtain us' t' F2 where 2: "members_out dbl (first \<and> ys = []) us' t'" "list_all2 (member_reads (print_double env) dbl) (map snd ys') us'"
      "length t' \<le> 100 * member_tokens ys'" "factory_holds (out_factory out2) ((s @ t) @ t')" "obj_at (print_hash env) (out_mem out2) a ms os p F2"
      "grown N (member_collections ys') (out_allocs out1) (out_mem out1) F1 (out_allocs out2) (out_mem out2) F2"
    using m2 unfolding members_printed_def by blast
  have "ys = [] \<longleftrightarrow> us = []" using list_all2_lengthD[OF 1(2)] by auto
  then have m: "members_out dbl first (us @ us') (t @ t')" using members_out_append[OF 1(1)] 2(1) by simp
  have g: "grown N (member_collections (ys @ ys')) (out_allocs out) (out_mem out) F (out_allocs out2) (out_mem out2) F2"
    unfolding sums(1) using 1(6) 2(6) by (rule grown_trans)
  have la: "list_all2 (member_reads (print_double env) dbl) (map snd (ys @ ys')) (us @ us')"
    unfolding map_append using 1(2) 2(2) by (rule list_all2_appendI)
  have len: "length (t @ t') \<le> 100 * member_tokens (ys @ ys')" using 1(3) 2(3) unfolding sums(2) length_append by simp
  have fh: "factory_holds (out_factory out2) (s @ (t @ t'))" using 2(4) by simp
  show ?thesis
    by (rule exI[of _ out2], rule conjI[OF P], unfold members_printed_def,
        intro exI[of _ "us @ us'"] exI[of _ "t @ t'"] exI[of _ F2] conjI m la len fh 2(5) g)
qed

text \<open>The members of a bucket from one on, along the links.\<close>

lemma print_members_ok:
  assumes ok: "print_ok env" and key: "build SXE_JITSON_TYPE_STRING = sxe_jitson_string_build_json env"
    and B: "\<forall>(k, v) \<in> set ms. build_ok env dbl N build v" and a: "0 < a" and N: "ntok (JObject ms) \<le> N" and b: "b < length ms"
  shows "bucket_members (print_hash env) (length ms) (zip os ms) b = xs @ ys \<Longrightarrow> obj_at (print_hash env) (out_mem out) a ms os p F \<Longrightarrow>
    spare (out_allocs out) N F \<Longrightarrow> member_collections ys \<le> length (out_allocs out) \<Longrightarrow> factory_holds (out_factory out) s \<Longrightarrow>
    length s + 100 * member_tokens ys < 2 ^ 61 \<Longrightarrow> length ys \<le> f \<Longrightarrow>
    \<exists>out'. print_members f build env a (chain_head (map fst ys)) first out = Some (first \<and> ys = [], out')
      \<and> members_printed env dbl N a ms os p ys first out F s out'"
proof (induction ys arbitrary: f xs first out F s)
  case Nil
  have "print_members f build env a 0 first out = Some (first, out)" by (cases f) simp_all
  then show ?case using members_printed_Nil[OF Nil(2,5)] by simp
next
  case (Cons y ys)
  obtain i k v where y: "y = (i, k, v)" by (cases y) auto
  obtain f' where f': "f = Suc f'" using Cons.prems(7) by (cases f) simp_all
  have mem: "(i, k, v) \<in> set (bucket_members (print_hash env) (length ms) (zip os ms) b)" unfolding Cons.prems(1) y by simp
  note i = bucket_member_bounds[OF Cons.prems(2) mem]
  have Bv: "build_ok env dbl N build v" using B i(2) by auto
  have al: "collections v \<le> length (out_allocs out)" using Cons.prems(4) by (simp add: y member_collections_def)
  have b0: "length s + 100 * (string_size k + ntok v) < 2 ^ 61" using Cons.prems(6) by (simp add: y member_tokens_def)
  obtain out1 kt t w F1 where h: "print_member build env a (of_nat i) first out = Some (chain_head (map fst ys), out1)" "rfc_string ascii_escape k kt"
      "rfc_text ascii_escape dbl w t" "reads_as (print_double env) dbl v w" "length kt + length t + 5 \<le> 100 * (string_size k + ntok v)"
      "factory_holds (out_factory out1) (s @ (if first then [] else [0x2C]) @ 0x22 # kt @ 0x22 # 0x3A # t)"
      "obj_at (print_hash env) (out_mem out1) a ms os p F1"
      "grown N (collections v) (out_allocs out) (out_mem out) F (out_allocs out1) (out_mem out1) F1"
    using one_member_ok[OF ok key Bv Cons.prems(2) a Cons.prems(3) N b Cons.prems(1)[unfolded y] al Cons.prems(5) b0] by blast
  let ?t = "(if first then [] else [0x2C]) @ 0x22 # kt @ 0x22 # 0x3A # t"
  have one: "members_printed env dbl N a ms os p [y] first out F s out1"
  proof -
    have "members_out dbl first [(k, w)] ?t" using members_out_Cons[OF h(2,3), of "[]" "[]" first] by (simp add: members_out_def)
    moreover have "length ?t \<le> 100 * member_tokens [y]" using h(5) by (simp add: y member_tokens_def)
    moreover have "list_all2 (member_reads (print_double env) dbl) (map snd [y]) [(k, w)]" using h(4) by (simp add: y)
    moreover have "grown N (member_collections [y]) (out_allocs out) (out_mem out) F (out_allocs out1) (out_mem out1) F1"
      using h(8) by (simp add: y member_collections_def)
    ultimately show ?thesis unfolding members_printed_def using h(6,7) by blast
  qed
  have split: "bucket_members (print_hash env) (length ms) (zip os ms) b = (xs @ [y]) @ ys" using Cons.prems(1) by simp
  have lf: "length ys \<le> f'" using Cons.prems(7) f' by simp
  have "unat (of_nat i :: u32) = i" by (rule unat_of_nat_32) (use i(1) in simp)
  then have nz: "(of_nat i :: u32) \<noteq> 0" using i(1) by (intro notI) simp
  have rest: "\<exists>out2. print_members f' build env a (chain_head (map fst ys)) False out1 = Some (False, out2)
      \<and> members_printed env dbl N a ms os p ([y] @ ys) first out F s out2"
  proof (rule members_printed_then[OF one Cons.prems(3)])
    show "member_collections ([y] @ ys) \<le> length (out_allocs out)" "length s + 100 * member_tokens ([y] @ ys) < 2 ^ 61"
      using Cons.prems(4,6) by simp_all
    fix t' F1'
    assume q: "obj_at (print_hash env) (out_mem out1) a ms os p F1'" "spare (out_allocs out1) N F1'" "member_collections ys \<le> length (out_allocs out1)"
      "factory_holds (out_factory out1) (s @ t')" "length (s @ t') + 100 * member_tokens ys < 2 ^ 61"
    show "\<exists>out2. print_members f' build env a (chain_head (map fst ys)) False out1 = Some (False, out2)
        \<and> members_printed env dbl N a ms os p ys (first \<and> [y] = []) out1 F1' (s @ t') out2"
      using Cons.IH[OF split q lf, of False] by simp
  qed
  have "print_members f build env a (chain_head (map fst (y # ys))) first out = print_members f' build env a (chain_head (map fst ys)) False out1"
    using h(1) nz f' by (simp add: y)
  then show ?case using rest by simp
qed

lemma printed_members_Suc: "printed_members hash len zs b (Suc n) = bucket_members hash len zs b @ printed_members hash len zs (Suc b) n"
  unfolding printed_members_def add_Suc_right add_Suc[symmetric] using upt_conv_Cons[of b "Suc b + n"] by simp

lemma mset_buckets:
  "\<forall>z \<in> set zs. f z < n \<Longrightarrow> mset (concat (map (\<lambda>b. rev (filter (\<lambda>z. f z = b) zs)) [0..<n])) = mset zs"
proof (induction n arbitrary: zs)
  case 0
  then show ?case by (cases zs) auto
next
  case (Suc n)
  let ?lo = "filter (\<lambda>z. f z \<noteq> n) zs"
  let ?bs = "\<lambda>xs. mset (concat (map (\<lambda>b. rev (filter (\<lambda>z. f z = b) xs)) [0..<n]))"
  have IH: "?bs ?lo = mset ?lo" by (rule Suc.IH) (use Suc.prems in \<open>auto simp: less_Suc_eq\<close>)
  have "filter (\<lambda>z. f z = b) ?lo = filter (\<lambda>z. f z = b) zs" if "b < n" for b
    unfolding filter_filter by (rule filter_cong) (use that in auto)
  then have m: "map (\<lambda>b. rev (filter (\<lambda>z. f z = b) ?lo)) [0..<n] = map (\<lambda>b. rev (filter (\<lambda>z. f z = b) zs)) [0..<n]"
    by (intro map_cong refl) simp
  have same: "?bs zs = mset ?lo" using IH unfolding m .
  have "mset zs = mset (filter (\<lambda>z. f z = n) zs) + mset ?lo" using multiset_partition[of "mset zs" "\<lambda>z. f z = n"] by simp
  then show ?case using same by (simp add: add.commute)
qed

lemma mset_printed_members:
  assumes "0 < len" "len < 2 ^ 31"
  shows "mset (printed_members hash len zs 0 len) = mset zs"
proof -
  have "\<forall>z \<in> set zs. (\<lambda>(i, k, v). bucket_of hash len k) z < len" using bucket_of_less[OF assms] by auto
  from mset_buckets[OF this] show ?thesis unfolding printed_members_def bucket_members_def by (simp add: case_prod_unfold)
qed

lemma print_buckets_ok:
  assumes ok: "print_ok env" and key: "build SXE_JITSON_TYPE_STRING = sxe_jitson_string_build_json env"
    and B: "\<forall>(k, v) \<in> set ms. build_ok env dbl N build v" and a: "0 < a" and N: "ntok (JObject ms) \<le> N" and f: "length ms \<le> f"
  shows "b + n = length ms \<Longrightarrow> obj_at (print_hash env) (out_mem out) a ms os p F \<Longrightarrow>
    spare (out_allocs out) N F \<Longrightarrow> member_collections (printed_members (print_hash env) (length ms) (zip os ms) b n) \<le> length (out_allocs out) \<Longrightarrow>
    factory_holds (out_factory out) s \<Longrightarrow>
    length s + 100 * member_tokens (printed_members (print_hash env) (length ms) (zip os ms) b n) < 2 ^ 61 \<Longrightarrow>
    \<exists>out'. print_buckets f build env a (of_nat b) n first out = Some out'
      \<and> members_printed env dbl N a ms os p (printed_members (print_hash env) (length ms) (zip os ms) b n) first out F s out'"
proof (induction n arbitrary: b first out F s)
  case 0
  then show ?case using members_printed_Nil[OF 0(2,5)] by (simp add: printed_members_def)
next
  case (Suc n)
  let ?h = "print_hash env" and ?len = "length ms" and ?zs = "zip os ms"
  let ?ys = "bucket_members ?h ?len ?zs b" and ?ys' = "printed_members ?h ?len ?zs (Suc b) n"
  have b: "b < ?len" "Suc b + n = ?len" using Suc.prems(1) by simp_all
  have sums: "member_collections (?ys @ ?ys') = member_collections ?ys + member_collections ?ys'" "member_tokens (?ys @ ?ys') = member_tokens ?ys + member_tokens ?ys'"
    by (simp_all add: member_collections_def member_tokens_def)
  note o = obj_bucket[OF Suc.prems(2) b(1)]
  have l27: "?len < 2 ^ 27" using Suc.prems(2) unfolding obj_at_def coll_rep_def by blast
  then have ub: "uint (of_nat b :: u32) = int b" using b(1) by (intro uint_of_nat_32) simp
  have "map fst ?ys = rev (bucket_offsets ?h ?len os (map fst ms) b)"
    unfolding bucket_offsets_members[OF o(3)] bucket_members_def by (simp add: rev_map)
  then obtain h where h: "mem_u32 (out_mem out) (p + 4 * int b) = Some h" "h = chain_head (map fst ?ys)" using o(2) chain_starts by metis
  have split: "?ys = [] @ ?ys" by simp
  have al: "member_collections ?ys \<le> length (out_allocs out)" using Suc.prems(4) unfolding printed_members_Suc sums(1) by linarith
  have b0: "length s + 100 * member_tokens ?ys < 2 ^ 61" using Suc.prems(6) unfolding printed_members_Suc sums(2) by simp
  have "length ?ys \<le> length ?zs" unfolding bucket_members_def length_rev by (rule length_filter_le)
  then have lf: "length ?ys \<le> f" using f by simp
  obtain out1 where r: "print_members f build env a (chain_head (map fst ?ys)) first out = Some (first \<and> ?ys = [], out1)"
      "members_printed env dbl N a ms os p ?ys first out F s out1"
    using print_members_ok[OF ok key B a N b(1) split Suc.prems(2,3) al Suc.prems(5) b0 lf] by blast
  have eq: "print_buckets f build env a (of_nat b) (Suc n) first out = print_buckets f build env a (of_nat (Suc b)) n (first \<and> ?ys = []) out1"
    using o(1) h r(1) by (simp add: ub add.commute)
  show ?case unfolding eq printed_members_Suc
  proof (rule members_printed_then[OF r(2) Suc.prems(3)])
    show "member_collections (?ys @ ?ys') \<le> length (out_allocs out)" "length s + 100 * member_tokens (?ys @ ?ys') < 2 ^ 61"
      using Suc.prems(4,6) unfolding printed_members_Suc by simp_all
  qed (rule Suc.IH[OF b(2)])
qed

text \<open>The functions of the types build the text of a value.\<close>

lemma build_okI:
  assumes "\<And>out a F s. vrep (print_hash env) (out_mem out) a v (ntok v) F \<Longrightarrow> 0 < a \<Longrightarrow> spare (out_allocs out) N F \<Longrightarrow> ntok v \<le> N \<Longrightarrow>
    collections v \<le> length (out_allocs out) \<Longrightarrow> factory_holds (out_factory out) s \<Longrightarrow> length s + 100 * ntok v < 2 ^ 61 \<Longrightarrow>
    \<exists>out'. build (json_type v) a out = Some (True, out') \<and> built env dbl N out a v F s out'"
  shows "build_ok env dbl N build v"
  unfolding build_ok_def
proof (intro allI impI, elim conjE)
  fix out :: json_out and a F s
  assume h: "vrep (print_hash env) (out_mem out) a v (ntok v) F" "0 < a" "spare (out_allocs out) N F" "ntok v \<le> N"
    "collections v \<le> length (out_allocs out)" "factory_holds (out_factory out) s" "length s + 100 * ntok v < 2 ^ 61"
  obtain ty where "jit_type (out_mem out) a = Some ty" "tok_type ty (json_type v)" using vrep_token[OF h(1)] by blast
  then have "build_at build a out = build (json_type v) a out" using tok_mask(1) by (simp add: build_at_def)
  then show "\<exists>out'. build_at build a out = Some (True, out') \<and> built env dbl N out a v F s out'" using assms[OF h] by simp
qed

text \<open>A value whose memory does not change.\<close>

lemma built_unchanged:
  assumes "rfc_text ascii_escape dbl w t" "reads_as (print_double env) dbl v w" "length t + 1 \<le> 100 * ntok v" "factory_holds f (s @ t)"
    "vrep (print_hash env) (out_mem out) a v (ntok v) F" "collections v = 0"
  shows "built env dbl N out a v F s (out\<lparr>out_factory := f\<rparr>)"
  unfolding built_def using assms grown_refl[of N] by (intro exI[of _ t] exI[of _ w] exI[of _ F]) simp

lemma word_text_ok:
  assumes ok: "print_ok env" and f: "factory_holds (out_factory out) s" "length s + 100 * ntok v < 2 ^ 61"
    and t: "rfc_text ascii_escape dbl v t" "reads_as (print_double env) dbl v v" "t \<noteq> []" "length t \<le> 10" "collections v = 0"
    and r: "vrep (print_hash env) (out_mem out) a v (ntok v) F" and b: "build a out = do { out \<leftarrow> add_text env out t; look_out out }"
  shows "\<exists>out'. build a out = Some (True, out') \<and> built env dbl N out a v F s out'"
proof -
  have n: "0 < ntok v" by (rule ntok_pos)
  have "length s + length t + 1 < 2 ^ 62" using f(2) t(4) n by simp
  then obtain f1 where f1: "add_text env out t = Some (out\<lparr>out_factory := f1\<rparr>)" "factory_holds f1 (s @ t)" using add_text_ok[OF ok f(1) t(3)] by blast
  have "length t + 1 \<le> 100 * ntok v" using t(4) n by simp
  moreover have "look_out (out\<lparr>out_factory := f1\<rparr>) = Some (True, out\<lparr>out_factory := f1\<rparr>)" using f1(2) t(3) by (intro look_out_ok[of _ "s @ t"]) simp_all
  ultimately show ?thesis using f1 built_unchanged[OF t(1,2) _ f1(2) r t(5)] unfolding b by simp
qed

lemma number_text_ok:
  assumes ok: "print_ok env" and f: "factory_holds (out_factory out) s" "length s + 100 * ntok v < 2 ^ 61"
    and t: "rfc_text ascii_escape dbl w t" "reads_as (print_double env) dbl v w" "length t \<le> 24" "collections v = 0"
    and r: "vrep (print_hash env) (out_mem out) a v (ntok v) F"
    and ty: "jit_type (out_mem out) a = Some ty"
    and read: "if ty AND SXE_JITSON_TYPE_IS_UINT \<noteq> 0 then sxe_jitson_get_uint fp (out_mem out) a = Some (True, u) \<and> t = decimal (unat u)
       else sxe_jitson_get_number fp (out_mem out) a = Some (True, u) \<and> t = print_double env u"
  shows "\<exists>out'. sxe_jitson_number_build_json env fp a out = Some (True, out') \<and> built env dbl N out a v F s out'"
proof -
  have n: "0 < ntok v" by (rule ntok_pos)
  have ne: "t \<noteq> []" using rfc_text_nonempty[OF t(1)] .
  have b: "length s + 30 < 2 ^ 62" using f(2) by simp
  obtain f1 where "sxe_jitson_number_build_json env fp a out = Some (True, out\<lparr>out_factory := f1\<rparr>)" "factory_holds f1 (s @ t)"
    using number_build_ok[OF ok ty read t(3) ne f(1) b] by blast
  moreover have "length t + 1 \<le> 100 * ntok v" using t(3) n by simp
  ultimately show ?thesis using built_unchanged[OF t(1,2) _ _ r t(4)] by blast
qed

lemma uint_text: "rfc_text ascii_escape dbl (JUint u) (decimal (unat u))"
proof -
  have "unat u < 2 ^ 64" using unat_lt2p[of u] by simp
  then have "min (digits_value 10 (decimal (unat u))) (2 ^ 64 - 1) = unat u" using decimal_digits[of "unat u"] by simp
  then show ?thesis using rfc_uint[OF decimal_int[of "unat u"], of ascii_escape dbl] by simp
qed

lemma scalar_build_ok:
  assumes ok: "print_ok env" and v: "\<forall>vs. v \<noteq> JArray vs" "\<forall>ms. v \<noteq> JObject ms" and d: "finite_doubles v"
  shows "build_ok env dbl N (type_build_json (Suc f) env fp) v"
proof (rule build_okI)
  fix out :: json_out and a F s
  assume h: "vrep (print_hash env) (out_mem out) a v (ntok v) F" "0 < a" "spare (out_allocs out) N F" "ntok v \<le> N"
    "collections v \<le> length (out_allocs out)" "factory_holds (out_factory out) s" "length s + 100 * ntok v < 2 ^ 61"
  obtain ty where ty: "jit_type (out_mem out) a = Some ty" "jit_deref (out_mem out) a = Some a" using vrep_token[OF h(1)] by blast
  have vr: "value_read fp (out_mem out) a a v" using value_is_read[OF h(1) ty(2)] by blast
  note jt = rfc_text_rfc_elements_rfc_member_rfc_members.intros
  show "\<exists>out'. type_build_json (Suc f) env fp (json_type v) a out = Some (True, out') \<and> built env dbl N out a v F s out'"
  proof (cases v)
    case JNull
    then show ?thesis using word_text_ok[OF ok h(6,7) jt(1)[of ascii_escape dbl, folded JNull] _ _ _ _ h(1), of "sxe_jitson_null_build_json env"]
      by (simp add: type_values sxe_jitson_null_build_json_def reads_as.intros lit_def)
  next
    case (JBool b)
    have t: "rfc_text ascii_escape dbl v (if b then lit ''true'' else lit ''false'')" using jt(2,3)[of ascii_escape dbl] JBool by simp
    have "sxe_jitson_get_bool (out_mem out) a = Some b" using vr JBool by (simp add: value_read_def)
    then show ?thesis using word_text_ok[OF ok h(6,7) t _ _ _ _ h(1), of "sxe_jitson_bool_build_json env"] JBool
      by (simp add: type_values sxe_jitson_bool_build_json_def reads_as.intros lit_def split: if_splits)
  next
    case (JUint u)
    from h(1) JUint obtain ty' where "holds (out_mem out) a (le32_bytes ty')" "ty' AND SXE_JITSON_TYPE_IS_UINT \<noteq> 0" by auto
    then have "ty AND SXE_JITSON_TYPE_IS_UINT \<noteq> 0" using ty(1) by (simp add: jit_type_def mem_u32_holds)
    then have "if ty AND SXE_JITSON_TYPE_IS_UINT \<noteq> 0 then sxe_jitson_get_uint fp (out_mem out) a = Some (True, u) \<and> decimal (unat u) = decimal (unat u)
       else sxe_jitson_get_number fp (out_mem out) a = Some (True, u) \<and> decimal (unat u) = print_double env u"
      using vr JUint by (simp add: value_read_def)
    from number_text_ok[OF ok h(6,7) _ _ decimal_u64 _ h(1) ty(1) this, where w = v and dbl = dbl] show ?thesis
      using JUint uint_text by (simp add: type_values reads_as.intros)
  next
    case (JReal x)
    from h(1) JReal obtain ty' where "holds (out_mem out) a (le32_bytes ty')" "ty' AND SXE_JITSON_TYPE_IS_UINT = 0" by auto
    then have "ty AND SXE_JITSON_TYPE_IS_UINT = 0" using ty(1) by (simp add: jit_type_def mem_u32_holds)
    then have r: "if ty AND SXE_JITSON_TYPE_IS_UINT \<noteq> 0 then sxe_jitson_get_uint fp (out_mem out) a = Some (True, x) \<and> print_double env x = decimal (unat x)
       else sxe_jitson_get_number fp (out_mem out) a = Some (True, x) \<and> print_double env x = print_double env x"
      using vr JReal by (simp add: value_read_def)
    obtain w where w: "rfc_text ascii_escape dbl w (print_double env x)" "length (print_double env x) \<le> 24" using printed_double[of "print_double env" x ascii_escape dbl] ok d JReal by (auto simp: print_ok_def)
    have "reads_as (print_double env) dbl v w" using w(1) JReal by (simp add: reads_as.intros)
    from number_text_ok[OF ok h(6,7) w(1) this w(2) _ h(1) ty(1) r] show ?thesis using JReal by (simp add: type_values)
  next
    case (JString x)
    note l = string_value[OF h(1)[unfolded JString]]
    have g: "sxe_jitson_get_string (out_mem out) a False = Some (a + 8, 0, out_mem out)"
      using vrep_token[OF h(1)] JString tok_mask(2) by (auto simp: sxe_jitson_get_string_def SXEA6_def jit_string_def)
    have hx: "holds (out_mem out) (a + 8) x" using h(1) JString by (auto simp: holds_append)
    have xl: "length x + 9 \<le> 16 * string_size x" by (rule string_size_length)
    have b: "length s + 8 * length x + 20 < 2 ^ 62" using h(7) JString xl by simp
    obtain f1 u where r: "sxe_jitson_string_build_json env a out = Some (True, out\<lparr>out_factory := f1\<rparr>)" "factory_holds f1 (s @ 0x22 # u @ [0x22])"
        "rfc_string ascii_escape x u" "length u \<le> 6 * length x"
      using string_build_ok[OF ok l(1) g hx l(3) h(6) b] by blast
    have "length (0x22 # u @ [0x22]) + 1 \<le> 100 * ntok v" using r(4) xl JString by simp
    moreover have "rfc_text ascii_escape dbl v (0x22 # u @ [0x22])" "reads_as (print_double env) dbl v v"
      using rfc_of_string[OF r(3)] JString by (simp_all add: reads_as.intros)
    ultimately have "built env dbl N out a v F s (out\<lparr>out_factory := f1\<rparr>)" using built_unchanged[OF _ _ _ r(2) h(1)] JString by simp
    then show ?thesis using r(1) JString by (simp add: type_values)
  qed (use v in auto)
qed

lemma array_build_ok:
  assumes ok: "print_ok env" and B: "\<forall>v \<in> set vs. build_ok env dbl N build v"
    and h: "vrep (print_hash env) (out_mem out) a (JArray vs) (ntok (JArray vs)) F" "0 < a" "spare (out_allocs out) N F" "ntok (JArray vs) \<le> N"
      "collections (JArray vs) \<le> length (out_allocs out)" "factory_holds (out_factory out) s" "length s + 100 * ntok (JArray vs) < 2 ^ 61"
  shows "\<exists>out'. sxe_jitson_array_build_json build env a out = Some (True, out') \<and> built env dbl N out a (JArray vs) F s out'"
proof -
  from h(1) obtain os F0 where c: "coll_rep (out_mem out) a SXE_JITSON_TYPE_ARRAY (length vs) (ntok (JArray vs)) True (\<lambda>p. offsets_hold (out_mem out) p os) F0 F"
    by auto
  have len: "jit_len (out_mem out) a = Some (of_nat (length vs))" "length vs < 2 ^ 27" using coll_rep_len[OF c] coll_rep_type[OF c] by blast+
  have b0: "length s + length [0x5B :: u8] + 1 < 2 ^ 62" using h(7) by simp
  obtain f1 where f1: "add_text env out [0x5B] = Some (out\<lparr>out_factory := f1\<rparr>)" "factory_holds f1 (s @ [0x5B])"
    using add_text_ok[OF ok h(6) _ b0] by auto
  let ?o1 = "out\<lparr>out_factory := f1\<rparr>"
  have "\<exists>out2 t us F'. (if 0 < (of_nat (length vs) :: u32) then print_elements build env a 0 (unat (of_nat (length vs) - 1 :: u32)) ?o1 else Some ?o1) = Some out2
      \<and> rfc_text ascii_escape dbl (JArray us) (0x5B # t @ [0x5D]) \<and> list_all2 (reads_as (print_double env) dbl) vs us
      \<and> length t \<le> 100 * sum_list (map ntok vs) \<and> factory_holds (out_factory out2) ((s @ [0x5B]) @ t)
      \<and> vrep (print_hash env) (out_mem out2) a (JArray vs) (ntok (JArray vs)) F'
      \<and> grown N (collections (JArray vs)) (out_allocs out) (out_mem out) F (out_allocs out2) (out_mem out2) F'"
  proof (cases "vs = []")
    case True
    have "rfc_text ascii_escape dbl (JArray []) (0x5B # [] @ [0x5D])" by (rule rfc_array_empty[OF rfc_ws_Nil])
    moreover have "grown N (collections (JArray vs)) (out_allocs out) (out_mem out) F (out_allocs ?o1) (out_mem ?o1) F"
      using grown_mono[OF grown_refl] by simp
    ultimately show ?thesis using True f1(2) h(1)
      by (intro exI[of _ ?o1] exI[of _ "[]"] exI[of _ "[]"] exI[of _ F]) simp
  next
    case False
    have u: "unat (of_nat (length vs) - 1 :: u32) = length vs - 1" "0 < (of_nat (length vs) :: u32)"
      using False len(2) unat_of_nat_32[of "length vs"] by (simp_all add: unat_minus_one word_neq_0_conv[symmetric] unat_eq_zero[symmetric] del: unat_eq_zero)
    have q: "0 + (length vs - 1) + 1 = length vs" using False by (cases vs) simp_all
    have k: "needs (out_mem out) a + sum_list (map collections (drop 0 vs)) \<le> collections (JArray vs)" by (simp add: needs_def)
    have e: "vrep (print_hash env) (out_mem ?o1) a (JArray vs) (ntok (JArray vs)) F" "spare (out_allocs ?o1) N F"
        "needs (out_mem ?o1) a + sum_list (map collections (drop 0 vs)) \<le> length (out_allocs ?o1)" "factory_holds (out_factory ?o1) (s @ [0x5B])"
        "length (s @ [0x5B]) + 100 * sum_list (map ntok (drop 0 vs)) < 2 ^ 61"
      using h(1,3) le_trans[OF k h(5)] f1(2) h(7) by simp_all
    obtain out2 t us F' where r: "print_elements build env a (of_nat 0) (length vs - 1) ?o1 = Some out2" "rfc_elements ascii_escape dbl us t"
        "list_all2 (reads_as (print_double env) dbl) (drop 0 vs) us" "length t + 1 \<le> 100 * sum_list (map ntok (drop 0 vs))" "factory_holds (out_factory out2) ((s @ [0x5B]) @ t)"
        "vrep (print_hash env) (out_mem out2) a (JArray vs) (ntok (JArray vs)) F'"
        "grown N (needs (out_mem ?o1) a + sum_list (map collections (drop 0 vs))) (out_allocs ?o1) (out_mem ?o1) F (out_allocs out2) (out_mem out2) F'"
      using print_elements_ok[OF ok B h(2,4) q e] by blast
    have "grown N (collections (JArray vs)) (out_allocs out) (out_mem out) F (out_allocs out2) (out_mem out2) F'"
      using grown_mono[OF r(7)] k by simp
    then show ?thesis using u r(1,3-6) rfc_array[OF r(2)]
      by (intro exI[of _ out2] exI[of _ t] exI[of _ us] exI[of _ F']) simp
  qed
  then obtain out2 t us F' where r: "(if 0 < (of_nat (length vs) :: u32) then print_elements build env a 0 (unat (of_nat (length vs) - 1 :: u32)) ?o1 else Some ?o1) = Some out2"
      "rfc_text ascii_escape dbl (JArray us) (0x5B # t @ [0x5D])" "list_all2 (reads_as (print_double env) dbl) vs us"
      "length t \<le> 100 * sum_list (map ntok vs)" "factory_holds (out_factory out2) ((s @ [0x5B]) @ t)"
      "vrep (print_hash env) (out_mem out2) a (JArray vs) (ntok (JArray vs)) F'"
      "grown N (collections (JArray vs)) (out_allocs out) (out_mem out) F (out_allocs out2) (out_mem out2) F'" by blast
  have b2: "length ((s @ [0x5B]) @ t) + length [0x5D :: u8] + 1 < 2 ^ 62" using h(7) r(4) by simp
  obtain f3 where f3: "add_text env out2 [0x5D] = Some (out2\<lparr>out_factory := f3\<rparr>)" "factory_holds f3 (((s @ [0x5B]) @ t) @ [0x5D])"
    using add_text_ok[OF ok r(5) _ b2] by auto
  have fh: "factory_holds f3 (s @ (0x5B # t @ [0x5D]))" using f3(2) by simp
  have look: "look_out (out2\<lparr>out_factory := f3\<rparr>) = Some (True, out2\<lparr>out_factory := f3\<rparr>)"
    by (rule look_out_ok[of _ "s @ (0x5B # t @ [0x5D])"]) (use fh in simp_all)
  have "sxe_jitson_array_build_json build env a out = Some (True, out2\<lparr>out_factory := f3\<rparr>)"
    using f1(1) len(1) r(1) f3(1) look by (simp add: sxe_jitson_array_build_json_def)
  moreover have "built env dbl N out a (JArray vs) F s (out2\<lparr>out_factory := f3\<rparr>)"
    unfolding built_def using r(2,4,6,7) fh reads_as.intros(6)[OF r(3)]
    by (intro exI[of _ "0x5B # t @ [0x5D]"] exI[of _ "JArray us"] exI[of _ F']) simp
  ultimately show ?thesis by blast
qed

lemma object_build_ok:
  assumes ok: "print_ok env" and key: "ms \<noteq> [] \<Longrightarrow> build SXE_JITSON_TYPE_STRING = sxe_jitson_string_build_json env"
    and B: "\<forall>(k, v) \<in> set ms. build_ok env dbl N build v" and f: "length ms \<le> f"
    and h: "vrep (print_hash env) (out_mem out) a (JObject ms) (ntok (JObject ms)) F" "0 < a" "spare (out_allocs out) N F" "ntok (JObject ms) \<le> N"
      "collections (JObject ms) \<le> length (out_allocs out)" "factory_holds (out_factory out) s" "length s + 100 * ntok (JObject ms) < 2 ^ 61"
  shows "\<exists>out'. sxe_jitson_object_build_json f build env a out = Some (True, out') \<and> built env dbl N out a (JObject ms) F s out'"
proof -
  from h(1) obtain os0 F0 where c: "coll_rep (out_mem out) a SXE_JITSON_TYPE_OBJECT (length ms) (ntok (JObject ms)) (lens_hold (out_mem out) a os0 (map fst ms))
      (\<lambda>p. buckets_hold (print_hash env) (out_mem out) a p (length ms) os0 (map fst ms)) F0 F" by auto
  have len: "jit_len (out_mem out) a = Some (of_nat (length ms))" "length ms < 2 ^ 27" using coll_rep_len[OF c] coll_rep_type[OF c] by blast+
  have ul: "unat (of_nat (length ms) :: u32) = length ms" by (rule unat_of_nat_32) (use len(2) in simp)
  show ?thesis
  proof (cases "ms = []")
    case True
    have "length s + length [0x7B, 0x7D :: u8] + 1 < 2 ^ 62" using h(7) by simp
    then obtain f1 where f1: "add_text env out [0x7B, 0x7D] = Some (out\<lparr>out_factory := f1\<rparr>)" "factory_holds f1 (s @ [0x7B, 0x7D])"
      using add_text_ok[OF ok h(6), of "[0x7B, 0x7D]"] by auto
    have look: "look_out (out\<lparr>out_factory := f1\<rparr>) = Some (True, out\<lparr>out_factory := f1\<rparr>)"
      by (rule look_out_ok[of _ "s @ [0x7B, 0x7D]"]) (use f1(2) in simp_all)
    have "built env dbl N out a (JObject []) F s (out\<lparr>out_factory := f1\<rparr>)"
      unfolding built_def using f1(2) h(1) True rfc_object_empty[OF rfc_ws_Nil, of ascii_escape dbl] reads_as.intros(7)[of "[]" "[]" "print_double env" dbl "[]"] grown_mono[OF grown_refl]
      by (intro exI[of _ "[0x7B, 0x7D]"] exI[of _ "JObject []"] exI[of _ F]) simp
    then show ?thesis using True f1(1) len(1) look by (simp add: sxe_jitson_object_build_json_def)
  next
    case False
    have al: "needs (out_mem out) a \<le> length (out_allocs out)" using h(5) by (simp add: needs_def)
    obtain m1 as1 F1 os p where i: "force_index env a out = Some (out\<lparr>out_mem := m1, out_allocs := as1\<rparr>)" "obj_at (print_hash env) m1 a ms os p F1"
        "grown N (needs (out_mem out) a) (out_allocs out) (out_mem out) F as1 m1 F1"
      using force_index_ok[OF h(1,3,4) False al h(2)] by blast
    let ?o1 = "out\<lparr>out_mem := m1, out_allocs := as1\<rparr>"
    have b1: "factory_holds (out_factory ?o1) s" "length s + length [0x7B :: u8] + 1 < 2 ^ 62" using h(6,7) by simp_all
    obtain f2 where f2: "add_text env ?o1 [0x7B] = Some (?o1\<lparr>out_factory := f2\<rparr>)" "factory_holds f2 (s @ [0x7B])"
      using add_text_ok[OF ok b1(1) _ b1(2)] by auto
    let ?o2 = "out\<lparr>out_mem := m1, out_allocs := as1, out_factory := f2\<rparr>"
    let ?zs = "printed_members (print_hash env) (length ms) (zip os ms) 0 (length ms)"
    have lo: "length os = length ms" using obj_bucket(3)[OF i(2)] False by blast
    have mz: "mset ?zs = mset (zip os ms)" by (rule mset_printed_members) (use False len(2) in simp_all)
    have sn: "mset (map snd ?zs) = mset ms" using arg_cong[OF mz, of "image_mset snd"] lo by (simp flip: mset_map)
    have sum: "sum_list (map (\<lambda>z. g (snd z)) ?zs) = sum_list (map g ms)" for g :: "u8 list \<times> json \<Rightarrow> nat"
      using arg_cong[OF sn, of "\<lambda>M. sum_mset (image_mset g M)"] by (simp add: comp_def sum_mset_sum_list flip: mset_map)
    have toks: "member_tokens ?zs = ntok (JObject ms) - 1"
      using sum[of "\<lambda>(k, v). string_size k + ntok v"] by (simp add: member_tokens_def case_prod_unfold)
    have colls: "member_collections ?zs = collections (JObject ms) - 1"
      using sum[of "\<lambda>(k, v). collections v"] by (simp add: member_collections_def case_prod_unfold)
    have sp: "spare as1 N F1" using i(3) h(3) by (rule grown_supply)
    have b2: "0 + length ms = length ms" "obj_at (print_hash env) (out_mem ?o2) a ms os p F1" "spare (out_allocs ?o2) N F1"
        "member_collections ?zs \<le> length (out_allocs ?o2)" "factory_holds (out_factory ?o2) (s @ [0x7B])"
        "length (s @ [0x7B]) + 100 * member_tokens ?zs < 2 ^ 61"
      using i(2) sp f2(2) h(5,7) grown_allocs[OF i(3)] colls toks by (simp_all add: needs_def split: if_splits)
    obtain out3 where r: "print_buckets f build env a (of_nat 0) (length ms) True ?o2 = Some out3"
        "members_printed env dbl N a ms os p ?zs True ?o2 F1 (s @ [0x7B]) out3"
      using print_buckets_ok[OF ok key[OF False] B h(2,4) f b2] by blast
    obtain us t F3 where 3: "members_out dbl True us t" "list_all2 (member_reads (print_double env) dbl) (map snd ?zs) us"
        "length t \<le> 100 * member_tokens ?zs" "factory_holds (out_factory out3) ((s @ [0x7B]) @ t)" "obj_at (print_hash env) (out_mem out3) a ms os p F3"
        "grown N (member_collections ?zs) as1 m1 F1 (out_allocs out3) (out_mem out3) F3"
      using r(2) unfolding members_printed_def by auto
    have b4: "length ((s @ [0x7B]) @ t) + length [0x7D :: u8] + 1 < 2 ^ 62" using h(7) 3(3) toks by simp
    obtain f4 where f4: "add_text env out3 [0x7D] = Some (out3\<lparr>out_factory := f4\<rparr>)" "factory_holds f4 (((s @ [0x7B]) @ t) @ [0x7D])"
      using add_text_ok[OF ok 3(4) _ b4] by auto
    have fh: "factory_holds f4 (s @ (0x7B # t @ [0x7D]))" using f4(2) by simp
    have look: "look_out (out3\<lparr>out_factory := f4\<rparr>) = Some (True, out3\<lparr>out_factory := f4\<rparr>)"
      by (rule look_out_ok[of _ "s @ (0x7B # t @ [0x7D])"]) (use fh in simp_all)
    have "(of_nat (length ms) :: u32) \<noteq> 0" using ul False by (metis length_0_conv unat_0)
    then have "sxe_jitson_object_build_json f build env a out = Some (True, out3\<lparr>out_factory := f4\<rparr>)"
      using len(1) i(1) f2(1) r(1) f4(1) look ul by (simp add: sxe_jitson_object_build_json_def)
    moreover have "us \<noteq> []" using 3(2) sn False by auto
    then have "rfc_text ascii_escape dbl (JObject us) (0x7B # t @ [0x7D])" using 3(1) rfc_object by (auto simp: members_out_def)
    moreover have "reads_as (print_double env) dbl (JObject ms) (JObject us)" using reads_as.intros(7)[OF sn 3(2)] .
    moreover have "grown N (collections (JObject ms)) (out_allocs out) (out_mem out) F (out_allocs out3) (out_mem out3) F3"
      by (rule grown_mono[OF grown_trans[OF i(3) 3(6)]]) (simp add: colls needs_def)
    moreover have "length (0x7B # t @ [0x7D]) + 1 \<le> 100 * ntok (JObject ms)" using 3(3) toks by simp
    ultimately show ?thesis unfolding built_def using fh obj_at_vrep[OF 3(5)] by fastforce
  qed
qed

lemma scalar_build:
  assumes "print_ok env" "\<forall>vs. v \<noteq> JArray vs" "\<forall>ms. v \<noteq> JObject ms" "finite_doubles v" "ntok v \<le> f"
  shows "build_ok env dbl N (type_build_json f env fp) v"
proof -
  obtain f' where "f = Suc f'" using assms(5) ntok_pos[of v] by (cases f) simp_all
  then show ?thesis using scalar_build_ok[OF assms(1-4)] by simp
qed

lemma value_build_ok:
  assumes ok: "print_ok env"
  shows "finite_doubles v \<Longrightarrow> ntok v \<le> f \<Longrightarrow> build_ok env dbl N (type_build_json f env fp) v"
proof (induction v arbitrary: f)
  case (JArray vs)
  obtain f' where f': "f = Suc f'" using JArray.prems(2) by (cases f) simp_all
  have B: "build_ok env dbl N (type_build_json f' env fp) v" if "v \<in> set vs" for v
  proof (rule JArray.IH[OF that])
    show "finite_doubles v" using JArray.prems(1) that by simp
    show "ntok v \<le> f'" using JArray.prems(2) f' member_le_sum_list[of "ntok v" "map ntok vs"] that by simp
  qed
  show ?case
  proof (rule build_okI)
    fix out :: json_out and a F s
    assume h: "vrep (print_hash env) (out_mem out) a (JArray vs) (ntok (JArray vs)) F" "0 < a" "spare (out_allocs out) N F" "ntok (JArray vs) \<le> N"
      "collections (JArray vs) \<le> length (out_allocs out)" "factory_holds (out_factory out) s" "length s + 100 * ntok (JArray vs) < 2 ^ 61"
    show "\<exists>out'. type_build_json f env fp (json_type (JArray vs)) a out = Some (True, out') \<and> built env dbl N out a (JArray vs) F s out'"
      using array_build_ok[OF ok _ h] B f' by (simp add: type_values)
  qed
next
  case (JObject ms)
  obtain f' where f': "f = Suc f'" using JObject.prems(2) by (cases f) simp_all
  have B: "build_ok env dbl N (type_build_json f' env fp) v" if kv: "(k, v) \<in> set ms" for k v
  proof (rule JObject.IH[OF kv])
    show "v \<in> Basic_BNFs.snds (k, v)" by (simp add: snds.simps)
    show "finite_doubles v" using JObject.prems(1) kv by auto
    have "string_size k + ntok v \<in> set (map (\<lambda>(k, v). string_size k + ntok v) ms)" using kv by force
    from member_le_sum_list[OF this] have "string_size k + ntok v \<le> sum_list (map (\<lambda>(k, v). string_size k + ntok v) ms)" by simp
    then show "ntok v \<le> f'" using JObject.prems(2) f' by simp
  qed
  have Bs: "\<forall>(k, v) \<in> set ms. build_ok env dbl N (type_build_json f' env fp) v" using B by auto
  have lf: "length ms \<le> f'" using JObject.prems(2) f' ntok_object_len[of ms] by simp
  have key: "type_build_json f' env fp SXE_JITSON_TYPE_STRING = sxe_jitson_string_build_json env" if "ms \<noteq> []"
    using lf that by (cases f') (simp_all add: fun_eq_iff type_values)
  show ?case
  proof (rule build_okI)
    fix out :: json_out and a F s
    assume h: "vrep (print_hash env) (out_mem out) a (JObject ms) (ntok (JObject ms)) F" "0 < a" "spare (out_allocs out) N F" "ntok (JObject ms) \<le> N"
      "collections (JObject ms) \<le> length (out_allocs out)" "factory_holds (out_factory out) s" "length s + 100 * ntok (JObject ms) < 2 ^ 61"
    show "\<exists>out'. type_build_json f env fp (json_type (JObject ms)) a out = Some (True, out') \<and> built env dbl N out a (JObject ms) F s out'"
      using object_build_ok[OF ok key Bs lf h] f' by (simp add: type_values)
  qed
qed (rule scalar_build[OF ok]; simp)+

text \<open>A value, or a reference to it.\<close>

lemma build_json_ok:
  assumes ok: "print_ok env" "finite_doubles v" "n < f"
    and v: "vrep (print_hash env) (out_mem out) a v n F" "jit_deref (out_mem out) j = Some a" "0 < a" "spare (out_allocs out) n F"
      "collections v \<le> length (out_allocs out)" "factory_holds (out_factory out) s" "length s + 100 * n < 2 ^ 61"
  shows "\<exists>out'. sxe_jitson_build_json f env fp j out = Some (True, out') \<and> built env dbl n out a v F s out'"
proof -
  have n: "n = ntok v" using v(1) by (rule vrep_ntok)
  have B: "\<exists>out'. build_at (type_build_json f' env fp) a out = Some (True, out') \<and> built env dbl n out a v F s out'" if "n \<le> f'" for f'
    using value_build_ok[OF ok(1,2), of f' dbl n fp] that v(1,3-7) unfolding build_ok_def n by blast
  show ?thesis
  proof (cases "j = a")
    case True
    then show ?thesis using B[of f] ok(3) by (simp add: sxe_jitson_build_json_def)
  next
    case False
    then obtain ty where j: "jit_jitref (out_mem out) j = Some a" and ty: "jit_type (out_mem out) j = Some ty" "ty AND SXE_JITSON_TYPE_MASK = SXE_JITSON_TYPE_REFERENCE"
      using reference_token[OF v(2)] by blast
    obtain f' where f': "f = Suc f'" "n \<le> f'" using ok(3) by (cases f) simp_all
    obtain ta where ta: "jit_type (out_mem out) a = Some ta" "tok_type ta (json_type v)" "sxe_jitson_get_type (out_mem out) a = Some (json_type v)"
      using vrep_token[OF v(1)] by blast
    have "sxe_jitson_build_json f env fp j out = build_at (type_build_json f' env fp) a out"
      using ty ta j tok_mask(1)[OF ta(2)] f'(1)
      by (simp add: sxe_jitson_build_json_def build_at_def sxe_jitson_reference_build_json_def type_values del: sxe_jitson_get_type.simps)
    then show ?thesis using B[OF f'(2)] by simp
  qed
qed

section \<open>Printing and parsing\<close>

text \<open>
  C40: printing and parsing a value. For a value in memory, or a reference to it, without an infinity or a NaN among its doubles, with memory for
  the text and for indexes, \<open>sxe_jitson_to_json\<close> ends and returns a text of the grammar of RFC 8259 with a NUL after it, and its length. The
  text is strict: no number has a leading zero, and every control character, quote and backslash in a string is escaped. The value is still the same,
  and no other memory has changed than that of new indexes. Parsing the text succeeds and uses all of it, and pushes tokens of the
  value, except that the members of an object may be in another order and a double is what its 16 digits are read as.
\<close>

theorem sxe_jitson_to_json_round_trip:
  assumes "print_ok penv" "finite_doubles v" "vrep (print_hash penv) m a v n F" "jit_deref m j = Some a" "0 < a"
    and "spare allocs n F" "collections v \<le> length allocs" "n < f"
    and "parser_env env dbl" "stack_holds opened st c" "length c + 1600 * n + 32 < 2 ^ 31"
  shows "\<exists>t w m' allocs' F' st' blk. sxe_jitson_to_json f penv fp allocs m j = Some (Some (t @ [0], of_nat (length t)), m', allocs')
    \<and> rfc_text ascii_escape dbl w t \<and> reads_as (print_double penv) dbl v w
    \<and> vrep (print_hash penv) m' a v n F' \<and> F \<subseteq> F' \<and> F' \<subseteq> F \<union> index_regions n allocs \<and> (\<forall>x. x \<notin> F' \<longrightarrow> m' x = m x)
    \<and> sxe_jitson_stack_parse_json env SXE_JITSON_FLAG_STRICT st (t @ [0]) = Some (Some (length t), st')
    \<and> stack_holds opened st' (c @ blk) \<and> jrep w blk"
proof -
  let ?out = "\<lparr>out_mem = m, out_allocs = allocs, out_factory = sxe_factory_alloc_make 0 0\<rparr>"
  have n: "n = ntok v" using assms(3) by (rule vrep_ntok)
  have f0: "factory_holds (out_factory ?out) []" by (simp add: alloc_make_holds)
  have h: "vrep (print_hash penv) (out_mem ?out) a v n F" "jit_deref (out_mem ?out) j = Some a" "spare (out_allocs ?out) n F"
      "collections v \<le> length (out_allocs ?out)" "length ([] :: u8 list) + 100 * n < 2 ^ 61" using assms by simp_all
  obtain out t w F' where b: "sxe_jitson_build_json f penv fp j ?out = Some (True, out)" "rfc_text ascii_escape dbl w t" "reads_as (print_double penv) dbl v w"
      "length t + 1 \<le> 100 * ntok v" "factory_holds (out_factory out) t" "vrep (print_hash penv) (out_mem out) a v (ntok v) F'"
      "grown n (collections v) allocs m F (out_allocs out) (out_mem out) F'"
    using build_json_ok[OF assms(1,2,8) h(1,2) assms(5) h(3,4) f0 h(5), where dbl = dbl and fp = fp] unfolding built_def by auto
  have t: "t \<noteq> []" using rfc_text_nonempty[OF b(2)] .
  have ok: "malloc_ok (print_malloc penv)" "print_malloc penv k \<noteq> None" for k using assms(1) by (simp_all add: print_ok_def)
  have "length t + 1 < 2 ^ 62" using b(4) n assms(11) by simp
  then obtain r where r: "fst (sxe_factory_remove (print_malloc penv) (out_factory out)) = (r, of_nat (length t))"
      "case r of None \<Rightarrow> \<exists>k. print_malloc penv k = None | Some d \<Rightarrow> d = t @ [0]"
    using remove_ok[OF ok(1) b(5) t] by blast
  then have "r = Some (t @ [0])" using ok(2) by (cases r) auto
  then obtain f' where "sxe_factory_remove (print_malloc penv) (out_factory out) = ((Some (t @ [0]), of_nat (length t)), f')"
    using r(1) by (cases "sxe_factory_remove (print_malloc penv) (out_factory out)") auto
  then have j: "sxe_jitson_to_json f penv fp allocs m j = Some (Some (t @ [0], of_nat (length t)), out_mem out, out_allocs out)"
    using b(1) by (simp add: sxe_jitson_to_json_def)
  have size: "length c + 16 * length t + 32 < 2 ^ 31" using b(4) n assms(11) by simp
  have "\<not> is_identifier_char (0 :: u8)" by (simp add: not_ident)
  from parse_json_complete[OF assms(9) rfc_accepted(1)[OF b(2)] rfc_ws_accepted[OF rfc_ws_Nil] this assms(10) size, of "[]"] obtain st' blk where
      p: "sxe_jitson_stack_parse_json env SXE_JITSON_FLAG_STRICT st (t @ [0]) = Some (Some (length t), st')" "stack_holds opened st' (c @ blk)" "jrep w blk"
    by auto
  obtain d where "F \<subseteq> F'" "F' \<subseteq> F \<union> index_regions n (take d allocs)" "\<forall>x. x \<notin> F' \<longrightarrow> out_mem out x = m x"
    using b(7) unfolding grown_def by blast
  moreover have "index_regions n (take d allocs) \<subseteq> index_regions n allocs" for d unfolding index_regions_def by (auto dest: in_set_takeD)
  ultimately have g: "F \<subseteq> F'" "F' \<subseteq> F \<union> index_regions n allocs" "\<forall>x. x \<notin> F' \<longrightarrow> out_mem out x = m x" by blast+
  show ?thesis
    by (intro exI[of _ t] exI[of _ w] exI[of _ "out_mem out"] exI[of _ "out_allocs out"] exI[of _ F'] exI[of _ st'] exI[of _ blk] conjI
        j b(2,3) g p) (use b(6) n in simp)
qed

lemma sample_numbers:
  "\<exists>s ds f e. lit ''0'' = s @ ds @ f @ e \<and> num_sign s \<and> rfc_int ds \<and> num_fraction f \<and> num_exponent e"
  "\<exists>s ds f e. lit ''1.5'' = s @ ds @ f @ e \<and> num_sign s \<and> rfc_int ds \<and> num_fraction f \<and> num_exponent e"
proof -
  show "\<exists>s ds f e. lit ''0'' = s @ ds @ f @ e \<and> num_sign s \<and> rfc_int ds \<and> num_fraction f \<and> num_exponent e"
    by (intro exI[of _ "[]"] exI[of _ "lit ''0''"]) (simp add: lit_def num_sign_def rfc_int_def num_digits_def isdigit_def num_fraction_def num_exponent_def)
  have "num_fraction (lit ''.5'')" by (simp add: num_fraction_def lit_def num_digits_def isdigit_def)
  then show "\<exists>s ds f e. lit ''1.5'' = s @ ds @ f @ e \<and> num_sign s \<and> rfc_int ds \<and> num_fraction f \<and> num_exponent e"
    by (intro exI[of _ "[]"] exI[of _ "lit ''1''"] exI[of _ "lit ''.5''"]) (simp add: lit_def num_sign_def rfc_int_def num_digits_def isdigit_def num_exponent_def)
qed

lemma sample_print_ok: "print_ok sample_print"
  using sample_malloc sample_numbers by (simp add: print_ok_def printf_ok_def sample_print_def sample_malloc_def) (simp add: lit_def)

lemma sample_reals: "vrep hash (sample_memory sample_reals) 16 (JArray [JReal 0x3FF8000000000000]) 2 (region 16 32)"
  "jit_deref (sample_memory sample_reals) 16 = Some 16"
proof -
  have "jreps [JReal 0x3FF8000000000000] (sample_real @ [])"
    unfolding sample_real_def by (intro reps_cons reps_nil rep_real) simp
  then have j: "jrep (JArray [JReal 0x3FF8000000000000]) sample_reals" unfolding sample_reals_def by (intro rep_array) simp
  have l: "length sample_reals = 32" by (simp add: sample_reals_def sample_real_def collection_header_def le32_bytes_def le64_bytes_def)
  show "vrep hash (sample_memory sample_reals) 16 (JArray [JReal 0x3FF8000000000000]) 2 (region 16 32)" "jit_deref (sample_memory sample_reals) 16 = Some 16"
    using sample_value[OF j] by (simp_all add: l)
qed

text \<open>The object with a name that occurs twice, and the array of 1.5.\<close>

lemma sxe_jitson_to_json_round_trip_witness:
  "(\<exists>t w m' allocs' F' st' blk. sxe_jitson_to_json 6 sample_print sample_fp [1000] (sample_memory sample_object) 16
      = Some (Some (t @ [0], of_nat (length t)), m', allocs')
    \<and> rfc_text ascii_escape (\<lambda>t. of_nat (length t)) w t \<and> reads_as (print_double sample_print) (\<lambda>t. of_nat (length t)) (JObject sample_members) w
    \<and> vrep (print_hash sample_print) m' 16 (JObject sample_members) 5 F' \<and> region 16 80 \<subseteq> F' \<and> F' \<subseteq> region 16 80 \<union> index_regions 5 [1000]
    \<and> (\<forall>x. x \<notin> F' \<longrightarrow> m' x = sample_memory sample_object x)
    \<and> sxe_jitson_stack_parse_json sample_env SXE_JITSON_FLAG_STRICT (snd (sxe_jitson_stack_make sample_malloc 1)) (t @ [0]) = Some (Some (length t), st')
    \<and> stack_holds 0 st' ([] @ blk) \<and> jrep w blk)
  \<and> (\<exists>t w m' allocs' F' st' blk. sxe_jitson_to_json 3 sample_print sample_fp [1000] (sample_memory sample_reals) 16
      = Some (Some (t @ [0], of_nat (length t)), m', allocs')
    \<and> rfc_text ascii_escape (\<lambda>t. of_nat (length t)) w t
    \<and> reads_as (print_double sample_print) (\<lambda>t. of_nat (length t)) (JArray [JReal 0x3FF8000000000000]) w
    \<and> vrep (print_hash sample_print) m' 16 (JArray [JReal 0x3FF8000000000000]) 2 F' \<and> region 16 32 \<subseteq> F' \<and> F' \<subseteq> region 16 32 \<union> index_regions 2 [1000]
    \<and> (\<forall>x. x \<notin> F' \<longrightarrow> m' x = sample_memory sample_reals x)
    \<and> sxe_jitson_stack_parse_json sample_env SXE_JITSON_FLAG_STRICT (snd (sxe_jitson_stack_make sample_malloc 1)) (t @ [0]) = Some (Some (length t), st')
    \<and> stack_holds 0 st' ([] @ blk) \<and> jrep w blk)"
proof (rule conjI)
  show "\<exists>t w m' allocs' F' st' blk. sxe_jitson_to_json 6 sample_print sample_fp [1000] (sample_memory sample_object) 16
      = Some (Some (t @ [0], of_nat (length t)), m', allocs')
    \<and> rfc_text ascii_escape (\<lambda>t. of_nat (length t)) w t \<and> reads_as (print_double sample_print) (\<lambda>t. of_nat (length t)) (JObject sample_members) w
    \<and> vrep (print_hash sample_print) m' 16 (JObject sample_members) 5 F' \<and> region 16 80 \<subseteq> F' \<and> F' \<subseteq> region 16 80 \<union> index_regions 5 [1000]
    \<and> (\<forall>x. x \<notin> F' \<longrightarrow> m' x = sample_memory sample_object x)
    \<and> sxe_jitson_stack_parse_json sample_env SXE_JITSON_FLAG_STRICT (snd (sxe_jitson_stack_make sample_malloc 1)) (t @ [0]) = Some (Some (length t), st')
    \<and> stack_holds 0 st' ([] @ blk) \<and> jrep w blk"
    by (rule sxe_jitson_to_json_round_trip[OF sample_print_ok _ sample_object_value _ _ _ _ sample_parser_env made_stack_holds])
      (auto simp: sample_members_def spare_def index_regions_def region_def)
  show "\<exists>t w m' allocs' F' st' blk. sxe_jitson_to_json 3 sample_print sample_fp [1000] (sample_memory sample_reals) 16
      = Some (Some (t @ [0], of_nat (length t)), m', allocs')
    \<and> rfc_text ascii_escape (\<lambda>t. of_nat (length t)) w t
    \<and> reads_as (print_double sample_print) (\<lambda>t. of_nat (length t)) (JArray [JReal 0x3FF8000000000000]) w
    \<and> vrep (print_hash sample_print) m' 16 (JArray [JReal 0x3FF8000000000000]) 2 F' \<and> region 16 32 \<subseteq> F' \<and> F' \<subseteq> region 16 32 \<union> index_regions 2 [1000]
    \<and> (\<forall>x. x \<notin> F' \<longrightarrow> m' x = sample_memory sample_reals x)
    \<and> sxe_jitson_stack_parse_json sample_env SXE_JITSON_FLAG_STRICT (snd (sxe_jitson_stack_make sample_malloc 1)) (t @ [0]) = Some (Some (length t), st')
    \<and> stack_holds 0 st' ([] @ blk) \<and> jrep w blk"
    by (rule sxe_jitson_to_json_round_trip[OF sample_print_ok _ sample_reals _ _ _ _ sample_parser_env made_stack_holds])
      (auto simp: finite_double_def spare_def index_regions_def region_def)
qed

end
