(* ===== verification/Spec2Isabelle.thy ===== *)
theory Spec2Isabelle
  imports SxeTime SxeHash SxeDict SxeRingBuffer SxeHttp SxeBuffer SxeJitsonBuild SxeJitsonPrinted
begin

text \<open>
  A verification library for libsxe, a C library of building blocks for network servers. The theories model the components
  that hold the library's own data structures and parsers, each in the order of its source, and prove the contracts their
  clients rely on.

  \<^bold>\<open>Layout.\<close> \<^verbatim>\<open>SxePrelude\<close> has the shared vocabulary: words for the C integers, integers for pointers, the aborting assertions
  \<open>SXEA1\<close> and \<open>SXEA6\<close> (a debug build is modelled), the return codes of \<^verbatim>\<open>lib-sxe-log/sxe-log.h\<close>, C strings as byte lists, little-endian
  values, and maps represented by elements with keys. The components are:

  \<^item> \<^verbatim>\<open>SxeList\<close> (\<^verbatim>\<open>lib-sxe-list\<close>): circular lists with pointers relative to the list, so that they can be moved in
    memory, and walkers. The heap is a record of maps from addresses. The lemmas show that every operation implements the
    operation on the list of nodes and leaves other lists alone; the locale of a family of disjoint queues is
    interpreted on them and carries the pool.
  \<^item> \<^verbatim>\<open>SxeSpinlock\<close> (\<^verbatim>\<open>lib-sxe-mmap/sxe-spinlock.h\<close>): compare-and-exchange locks, as a step relation that interleaves the atomic
    actions of any number of threads; mutual exclusion and a bound on the attempts.
  \<^item> \<^verbatim>\<open>SxeTime\<close> (\<^verbatim>\<open>lib-sxe-log/sxe-time.[ch]\<close>): fixed-point times and timestamps. Conversions through floating point are left out.
  \<^item> \<^verbatim>\<open>SxePool\<close>, \<^verbatim>\<open>SxePoolWalker\<close> (\<^verbatim>\<open>lib-sxe-pool\<close>): arrays of elements in states, a queue in order of age per state, optional
    locking and timeouts. The lemmas show that a state change moves exactly one element to the tail of a queue, that the order of
    age is an invariant, that checking the timeouts ends, and that a walk visits the elements of a state. The
    locale of a pool in states is interpreted on unlocked pools for the hash tables.
  \<^item> \<^verbatim>\<open>SxeUtil\<close> (\<^verbatim>\<open>lib-sxe-util\<close>, \<^verbatim>\<open>lib-sha1/sha1-from-hex.c\<close>): hexadecimal, rot13, bounded searches, logarithms and alignment, against
    reference definitions.
  \<^item> \<^verbatim>\<open>SxeHash\<close> (\<^verbatim>\<open>lib-sxe-hash\<close>): hash tables whose buckets are the states of a pool. A classic table (SHA1 keys, unsigned values) implements a
    finite map.
  \<^item> \<^verbatim>\<open>SxeDict\<close> (\<^verbatim>\<open>lib-sxe-dict\<close>): chained hash tables that grow; they implement a finite map too.
  \<^item> \<^verbatim>\<open>SxeRingBuffer\<close> (\<^verbatim>\<open>lib-sxe-ring-buffer\<close>): a ring of bytes with one writer and many readers; it implements a window on the
    stream of all bytes written, and a reader at most one ring behind gets the stream in order.
  \<^item> \<^verbatim>\<open>SxeHttp\<close> (\<^verbatim>\<open>lib-sxe-http\<close>): the incremental parser of request lines and headers and the URL parser; parsing
    gives back the parts that a header line or a URL was written from.
  \<^item> \<^verbatim>\<open>SxeBuffer\<close> (\<^verbatim>\<open>lib-sxe-buffer\<close>, \<^verbatim>\<open>lib-sxe-cstr\<close>): counted strings over fixed space. The locale of a bounded string is interpreted on
    three ways to append to them.
  \<^item> \<^verbatim>\<open>SxeJitsonSource\<close>, \<^verbatim>\<open>SxeJitsonStack\<close>, \<^verbatim>\<open>SxeJitsonParser\<close>, \<^verbatim>\<open>SxeJitsonSound\<close> (\<^verbatim>\<open>lib-sxe-jitson\<close>): parsing JSON. Sources of characters with their
    scanners of numbers and identifiers and the encoder of code points (\<^verbatim>\<open>sxe-jitson-source.c\<close>, \<^verbatim>\<open>sxe-unicode.c\<close>), and the parser that loads a text onto a
    growing stack of tokens (\<^verbatim>\<open>sxe-jitson-stack.c\<close>), where a token is the 16 bytes it is in memory. There are two grammars: \<open>rfc_text\<close> is that of
    RFC 8259, and \<open>accepted_text\<close> has what the parser takes beyond it with the flags that the code calls strict (leading zeros, vertical tab and
    form feed, raw control characters in strings); \<open>rfc_accepted\<close> relates them and \<open>sxe_jitson_accepts_more\<close> shows that they differ. The lemmas say
    what tokens represent a value, and show that the parser takes the texts of the accepted grammar and pushes the right tokens, that it takes nothing
    else, and that an error leaves the stack as it was. Both leave out \<^verbatim>\<open>\\u\<close> escapes of code points from U+0080 on, for which the parser can write past its
    tokens, and \<^verbatim>\<open>-0x\<close>, which it hands to \<^verbatim>\<open>strtod\<close> (\<open>plain_text\<close>).
  \<^item> \<^verbatim>\<open>SxeJitsonBuild\<close> (\<^verbatim>\<open>sxe-jitson-stack.c\<close>): the calls that open a collection, add names and values, and close it, push the tokens that parsing
    pushes.
  \<^item> \<^verbatim>\<open>SxeJitsonNew\<close> (\<^verbatim>\<open>sxe-jitson.c\<close>): a value from a text by way of the stack of the thread.
  \<^item> \<^verbatim>\<open>SxeJitsonValue\<close>, \<^verbatim>\<open>SxeJitsonAccess\<close> (\<^verbatim>\<open>sxe-jitson.c\<close>, \<^verbatim>\<open>sxe-jitson-type.c\<close>): values in memory, which is a map from addresses to bytes. \<open>vrep\<close> says that a
    value stands at an address, with the memory it takes and the indexes that accesses have given its collections. Reading scalars and lengths,
    also through references, and finding elements and members; the first access makes an index and keeps the value.
  \<^item> \<^verbatim>\<open>SxeFactory\<close> (\<^verbatim>\<open>sxe-factory.c\<close>): data that grows at its end.
  \<^item> \<^verbatim>\<open>SxeJitsonPrint\<close>, \<^verbatim>\<open>SxeJitsonPrinted\<close> (\<^verbatim>\<open>sxe-jitson-type.c\<close>): printing values to a factory. What is printed is a text of RFC 8259, parsing it gives the
    value back, and the value in memory stays what it is while its collections are indexed.

  \<^bold>\<open>Interaction.\<close> Lists carry the queues of a pool; a pool takes and gives a spinlock around every state change when it is
  locked and stamps elements with the time; a hash table is a pool with a bucket per state, and finds elements with a pool walker;
  the classic table parses its keys with the hexadecimal conversions. The JSON parser reads from a source and writes to a stack; \<open>sxe_jitson_new\<close>
  takes the tokens off the stack, and the functions that read and index values find them in memory (\<open>taken_tokens_value\<close> leads from one
  view to the other); printing indexes values, adds to a factory, and its text is what the parser reads.

  \<^bold>\<open>Conventions.\<close> A computation that may abort, dereference a null pointer, divide by zero or write out of bounds has an option
  type, and \<^const>\<open>None\<close> stands for that; a theorem that an operation is correct shows that it returns \<^const>\<open>Some\<close>. What is not in the
  source (allocation, the time of day, other threads during a yield, callbacks, the output of C formatting functions) is an
  argument. Loops are recursive functions with a termination proof where the code bounds them; loops that follow links
  in memory, and those of the header parser, are partial functions with \<^const>\<open>None\<close> for a loop that does not end, and the theorems show that
  they end. The JSON parser, which calls itself, has fuel: one more than twice the number of bytes of the text, and the theorems show that
  this is enough for every text they are about. Printing has fuel too, and the theorem shows that one more than the number of tokens of the value is enough. Tokens
  are counted in 27 bits and texts are shorter than \<open>2 ^ 27\<close> bytes, so that sizes in bytes fit an \<^verbatim>\<open>int\<close>. Where the C library is a parameter, its documented behaviour
  is a hypothesis: \<open>malloc_ok\<close>, \<open>strtod_ok\<close> (\<^verbatim>\<open>strtod\<close> reads all of a number of the grammar) and \<open>printf_ok\<close> (\<^verbatim>\<open>%.16G\<close> of a finite double).

  \<^bold>\<open>Not modelled.\<close> The event loop and sockets (\<^verbatim>\<open>lib-sxe\<close>, \<^verbatim>\<open>lib-sxe-httpd\<close>, \<^verbatim>\<open>lib-sxe-pool-tcp\<close>, \<^verbatim>\<open>lib-sxe-socket\<close>, \<^verbatim>\<open>lib-sxe-sync-ev\<close>), which call
  the kernel and libev; threads, processes, files and directories; the output of log lines; third-party hash
  functions; the vendored event loop, test harness and ports. The concurrent database on shared files (\<^verbatim>\<open>lib-sxe-cdb\<close>). Of \<^verbatim>\<open>lib-sxe-jitson\<close>: freeing, testing,
  comparing and cloning values, references to strings, and the operators and identifiers that applications register. The conversions of times to and from
  floating point and to text, and conversions of text to printable characters.
\<close>

end
